(* ===== verification/Prelude.thy ===== *)
theory Prelude
  imports Main "HOL-Library.Word"
begin

text \<open>
  Shared ground of the development: the C integer types of the server as HOL types, byte
  buffers (reading, overwriting and reallocating a run of bytes), the little-endian
  representation that \<open>src/redis-6.0.5/src/endianconv.c\<close> keeps on every host, and the
  generic lemmas on lists and powers of two that the component theories use.

  Buffers are byte lists.  A write at an offset is \<open>write_at\<close>; a write that leaves the
  buffer changes its length, so every invariant that fixes the length of a buffer also says
  that the writes before it stayed in bounds.
\<close>

unbundle bit_operations_syntax

type_synonym byte = "8 word"
type_synonym u32 = "32 word"
type_synonym u64 = "64 word"

named_theorems buf_simps \<open>reading and writing byte buffers\<close>

subsection \<open>Ranges of the fixed-width signed types\<close>

definition in_signed :: "nat \<Rightarrow> int \<Rightarrow> bool" where
  "in_signed n v \<longleftrightarrow> - (2 ^ (8 * n - 1)) \<le> v \<and> v < 2 ^ (8 * n - 1)"

abbreviation in_i64 :: "int \<Rightarrow> bool" where
  "in_i64 v \<equiv> in_signed 8 v"

subsection \<open>Byte buffers\<close>

definition read_at :: "nat \<Rightarrow> nat \<Rightarrow> 'a list \<Rightarrow> 'a list" where
  "read_at off n xs = take n (drop off xs)"

definition write_at :: "nat \<Rightarrow> 'a list \<Rightarrow> 'a list \<Rightarrow> 'a list" where
  "write_at off bs xs = take off xs @ bs @ drop (off + length bs) xs"

text \<open>
  \<open>zrealloc\<close> keeps the old bytes that fit.  The contents of the new tail are unspecified
  in C; the model fills it with zero bytes, and the callers write it before they read it.
\<close>

definition realloc_bytes :: "nat \<Rightarrow> byte list \<Rightarrow> byte list" where
  "realloc_bytes n xs = take n xs @ replicate (n - length xs) 0"

text \<open>\<open>memmove\<close> inside one buffer: the source is read whole before the destination is written.\<close>

definition memmove_bytes :: "nat \<Rightarrow> nat \<Rightarrow> nat \<Rightarrow> 'a list \<Rightarrow> 'a list" where
  "memmove_bytes dst src n xs = write_at dst (read_at src n xs) xs"

lemma length_read_at [simp, buf_simps]: "off + n \<le> length xs \<Longrightarrow> length (read_at off n xs) = n"
  by (simp add: read_at_def)

lemma length_write_at [simp, buf_simps]:
  "off + length bs \<le> length xs \<Longrightarrow> length (write_at off bs xs) = length xs"
  by (simp add: write_at_def)

lemma length_realloc_bytes [simp, buf_simps]: "length (realloc_bytes n xs) = n"
  by (simp add: realloc_bytes_def)

lemma length_memmove_bytes [simp, buf_simps]:
  "dst + n \<le> length xs \<Longrightarrow> src + n \<le> length xs \<Longrightarrow> length (memmove_bytes dst src n xs) = length xs"
  by (simp add: memmove_bytes_def)

lemma read_at_write_at_same [simp, buf_simps]:
  "off \<le> length xs \<Longrightarrow> n = length bs \<Longrightarrow> read_at off n (write_at off bs xs) = bs"
  by (simp add: read_at_def write_at_def)

lemma read_at_write_at_before [simp, buf_simps]:
  "o1 + n \<le> off \<Longrightarrow> off \<le> length xs \<Longrightarrow> read_at o1 n (write_at off bs xs) = read_at o1 n xs"
  by (auto simp: read_at_def write_at_def drop_take min_def)

lemma read_at_write_at_after [simp, buf_simps]:
  "off + length bs \<le> o1 \<Longrightarrow> off + length bs \<le> length xs \<Longrightarrow>
   read_at o1 n (write_at off bs xs) = read_at o1 n xs"
  by (simp add: read_at_def write_at_def)

lemma read_at_realloc [simp, buf_simps]:
  "off + n \<le> m \<Longrightarrow> off + n \<le> length xs \<Longrightarrow> read_at off n (realloc_bytes m xs) = read_at off n xs"
  by (simp add: read_at_def realloc_bytes_def drop_take min_def)

lemma read_at_read_at [simp, buf_simps]:
  "i + k \<le> n \<Longrightarrow> read_at i k (read_at off n xs) = read_at (off + i) k xs"
  by (simp add: read_at_def drop_take add.commute min_def)

lemma read_at_0_all [simp, buf_simps]: "length xs \<le> n \<Longrightarrow> read_at 0 n xs = xs"
  by (simp add: read_at_def)

lemma read_at_within_write [buf_simps]:
  assumes "off \<le> i" "i + k \<le> off + length bs" "off + length bs \<le> length xs"
  shows "read_at i k (write_at off bs xs) = read_at (i - off) k bs"
proof -
  from assms obtain j where "i = off + j" "j + k \<le> length bs"
    by (metis add_le_imp_le_left le_Suc_ex group_cancel.add1)
  then show ?thesis
    using assms by (simp add: read_at_def write_at_def)
qed

subsection \<open>Little-endian integers\<close>

text \<open>
  \<open>memrev16ifbe\<close>, \<open>memrev32ifbe\<close> and \<open>memrev64ifbe\<close> leave an integer in
  little-endian byte order whatever the host's order is: the low byte first.
\<close>

primrec le_bytes :: "nat \<Rightarrow> int \<Rightarrow> byte list" where
  "le_bytes 0 v = []"
| "le_bytes (Suc n) v = word_of_int v # le_bytes n (v div 256)"

primrec le_uint :: "byte list \<Rightarrow> int" where
  "le_uint [] = 0"
| "le_uint (b # bs) = uint b + 256 * le_uint bs"

definition le_sint :: "byte list \<Rightarrow> int" where
  "le_sint bs = (let u = le_uint bs; m = 2 ^ (8 * length bs)
                 in if 2 * u < m then u else u - m)"

lemma length_le_bytes [simp]: "length (le_bytes n v) = n"
  by (induction n arbitrary: v) auto

lemma le_uint_nonneg [simp]: "0 \<le> le_uint bs"
  by (induction bs) auto

lemma uint_byte_less: "uint (b :: byte) < 256"
  using uint_lt2p [of b] by simp

lemma le_uint_less: "le_uint bs < 256 ^ length bs"
proof (induction bs)
  case (Cons b bs)
  then have "256 * le_uint bs \<le> 256 * (256 ^ length bs - 1)"
    by (intro mult_left_mono) auto
  then show ?case
    using uint_byte_less [of b] by simp
qed simp

lemma le_uint_le_bytes: "le_uint (le_bytes n v) = v mod 256 ^ n"
proof (induction n arbitrary: v)
  case (Suc n)
  have "uint (word_of_int v :: byte) = v mod 256"
    by (simp add: uint_word_of_int)
  then show ?case
    using Suc by (simp add: mod_mult2_eq' zmod_zmult2_eq mult.commute)
qed simp

lemma pow_256: "(256 :: int) ^ n = 2 ^ (8 * n)"
  by (simp add: power_mult)

lemma le_sint_le_bytes:
  assumes "in_signed n v" "0 < n"
  shows "le_sint (le_bytes n v) = v"
proof -
  obtain k where k: "8 * n = Suc k"
    using assms(2) by (cases "8 * n") auto
  from assms have b: "- (2 ^ k) \<le> v" "v < 2 ^ k"
    by (simp_all add: in_signed_def k)
  show ?thesis
  proof (cases "0 \<le> v")
    case True
    with b have "v mod 2 ^ Suc k = v" by simp
    with b True show ?thesis
      by (simp add: le_sint_def le_uint_le_bytes pow_256 k)
  next
    case False
    with b have "(v + 2 ^ Suc k) mod 2 ^ Suc k = v + 2 ^ Suc k"
      by (intro mod_pos_pos_trivial) auto
    then have "v mod 2 ^ Suc k = v + 2 ^ Suc k"
      by simp
    with b False show ?thesis
      by (simp add: le_sint_def le_uint_le_bytes pow_256 k)
  qed
qed

lemma in_signed_mono: "in_signed m v \<Longrightarrow> m \<le> n \<Longrightarrow> in_signed n v"
proof -
  assume a: "in_signed m v" "m \<le> n"
  have "(2 :: int) ^ (8 * m - 1) \<le> 2 ^ (8 * n - 1)"
    using a(2) by (intro power_increasing) auto
  with a(1) show "in_signed n v"
    unfolding in_signed_def by linarith
qed

lemma le_bytes_cong_mod: "v mod 256 ^ n = w mod 256 ^ n \<Longrightarrow> le_bytes n v = le_bytes n w"
proof (induction n arbitrary: v w)
  case (Suc n)
  have m: "v mod 256 = w mod 256" "v div 256 mod 256 ^ n = w div 256 mod 256 ^ n"
  proof -
    have "(v mod 256 ^ Suc n) mod 256 = (w mod 256 ^ Suc n) mod 256"
      using Suc.prems by simp
    then show "v mod 256 = w mod 256"
      by (simp add: mod_mod_cancel)
    have "(v mod (256 * 256 ^ n)) div 256 = (w mod (256 * 256 ^ n)) div 256"
      using Suc.prems by simp
    then show "v div 256 mod 256 ^ n = w div 256 mod 256 ^ n"
      by (simp add: zmod_zmult2_eq)
  qed
  have "(word_of_int v :: byte) = word_of_int w"
    using m(1) by (simp add: word_of_int_eq_iff take_bit_eq_mod)
  then show ?case
    using Suc.IH [OF m(2)] by simp
qed simp

lemma le_bytes_le_uint: "le_bytes (length bs) (le_uint bs) = bs"
proof (induction bs)
  case (Cons b bs)
  have "(word_of_int (uint b + 256 * le_uint bs) :: byte) = word_of_int (uint b)"
    by (rule iffD2 [OF word_of_int_eq_iff]) (simp add: take_bit_eq_mod)
  moreover have "(uint b + 256 * le_uint bs) div 256 = le_uint bs"
    using uint_byte_less [of b] by simp
  ultimately show ?case
    using Cons by simp
qed simp

lemma le_bytes_le_sint: "n = length bs \<Longrightarrow> le_bytes n (le_sint bs) = bs"
  using le_bytes_cong_mod [of "le_uint bs - 256 ^ length bs" "length bs" "le_uint bs"]
  by (simp add: le_sint_def Let_def le_bytes_le_uint flip: pow_256)

lemma in_signed_le_sint:
  assumes "0 < length bs"
  shows "in_signed (length bs) (le_sint bs)"
proof -
  obtain k where k: "8 * length bs = Suc k"
    using assms by (cases "8 * length bs") auto
  show ?thesis
    using le_uint_less [of bs] le_uint_nonneg [of bs]
    by (auto simp: in_signed_def le_sint_def Let_def pow_256 k intro: order_trans [of _ 0])
qed

subsection \<open>Arrays of fixed-width integers\<close>

definition le_array :: "nat \<Rightarrow> int list \<Rightarrow> byte list" where
  "le_array n xs = concat (map (le_bytes n) xs)"

lemma length_le_array [simp]: "length (le_array n xs) = length xs * n"
  by (induction xs) (auto simp: le_array_def)

lemma le_array_Nil [simp]: "le_array n [] = []"
  by (simp add: le_array_def)

lemma le_array_Cons: "le_array n (x # xs) = le_bytes n x @ le_array n xs"
  by (simp add: le_array_def)

lemma le_array_append [simp]: "le_array n (xs @ ys) = le_array n xs @ le_array n ys"
  by (simp add: le_array_def)

lemma take_le_array: "take (i * n) (le_array n xs) = le_array n (take i xs)"
proof (induction xs arbitrary: i)
  case (Cons x xs)
  then show ?case by (cases i) (auto simp: le_array_Cons)
qed simp

lemma drop_le_array: "drop (i * n) (le_array n xs) = le_array n (drop i xs)"
proof (induction xs arbitrary: i)
  case (Cons x xs)
  then show ?case by (cases i) (auto simp: le_array_Cons)
qed simp

lemma read_at_le_array: "i < length xs \<Longrightarrow> read_at (i * n) n (le_array n xs) = le_bytes n (xs ! i)"
  by (simp add: read_at_def drop_le_array Cons_nth_drop_Suc [symmetric] le_array_Cons)

lemma write_at_le_array:
  "i < length xs \<Longrightarrow> write_at (i * n) (le_bytes n v) (le_array n xs) = le_array n (xs[i := v])"
  using take_le_array [of i n xs] drop_le_array [of "Suc i" n xs]
  by (simp add: write_at_def upd_conv_take_nth_drop le_array_Cons add.commute)

text \<open>
  Opening a gap before \<open>B\<close> in a buffer that has just grown and filling it, and closing
  the gap that \<open>w\<close> leaves before the buffer shrinks.
\<close>

lemma memmove_open_gap:
  assumes "length fill = n" "length w = n"
  shows "write_at (length A) w (memmove_bytes (length A + n) (length A) (length B) (A @ B @ fill)) = A @ w @ B"
  using assms by (simp add: memmove_bytes_def write_at_def read_at_def)

lemma memmove_close_gap:
  assumes "length w = n"
  shows "realloc_bytes (length A + length B)
    (memmove_bytes (length A) (length A + n) (length B) (A @ w @ B)) = A @ B"
  using assms by (simp add: memmove_bytes_def write_at_def read_at_def realloc_bytes_def)

end
