(* ===== verification/Interfaces.thy ===== *)
theory Interfaces
  imports Prelude "HOL-Library.Monad_Syntax"
begin

text \<open>
  The contracts between the components, as locales.  A provider (the integer set, the
  hash table, the set objects, the keyspace, a node with its clients) discharges them by an interpretation on its own
  definitions; what the command loops do with a provider is proved here once.

  Operations may fault (a failed assertion, a read outside a table), so they return an
  option; the contracts promise a result.  Every operation returns the structure as well,
  even a lookup: a lookup in the hash table moves a bucket of a table being rehashed.
  \<open>limit\<close> is the number of elements below which an insertion is within the capacity of
  the fixed-width fields of the structure.
\<close>

section \<open>The loops of the multi-element commands\<close>

text \<open>
  The loop of the multi-element commands (\<open>saddCommand\<close>, \<open>sremCommand\<close>, \<open>hsetCommand\<close>,
  \<open>hdelCommand\<close>): apply the operation to each argument and count the calls that report a
  change.
\<close>

fun count_all :: "('s \<Rightarrow> 'a \<Rightarrow> ('s \<times> bool) option) \<Rightarrow> 's \<Rightarrow> 'a list \<Rightarrow> ('s \<times> nat) option" where
  "count_all f s [] = Some (s, 0)"
| "count_all f s (x # xs) =
     (case f s x of
        None \<Rightarrow> None
      | Some (s', changed) \<Rightarrow>
          map_option (\<lambda>(s'', n). (s'', (if changed then 1 else 0) + n)) (count_all f s' xs))"

lemma count_all_step:
  "f s x = Some (s', c) \<Longrightarrow> count_all f s' xs = Some (s'', n) \<Longrightarrow>
   count_all f s (x # xs) = Some (s'', (if c then 1 else 0) + n)"
  by simp

section \<open>Finite sets\<close>

locale finite_set_impl =
  fixes wf :: "'s \<Rightarrow> bool"
    and elems :: "'s \<Rightarrow> 'a set"
    and valid :: "'a \<Rightarrow> bool"
    and limit :: nat
    and add :: "'s \<Rightarrow> 'a \<Rightarrow> ('s \<times> bool) option"
    and remove :: "'s \<Rightarrow> 'a \<Rightarrow> ('s \<times> bool) option"
    and mem :: "'s \<Rightarrow> 'a \<Rightarrow> ('s \<times> bool) option"
    and size_of :: "'s \<Rightarrow> nat"
  assumes finite_elems: "wf s \<Longrightarrow> finite (elems s)"
    and mem_spec: "wf s \<Longrightarrow> valid a \<Longrightarrow>
      \<exists>s'. mem s a = Some (s', a \<in> elems s) \<and> wf s' \<and> elems s' = elems s"
    and add_spec: "wf s \<Longrightarrow> valid a \<Longrightarrow> card (elems s) < limit \<Longrightarrow>
      \<exists>s'. add s a = Some (s', a \<notin> elems s) \<and> wf s' \<and> elems s' = insert a (elems s)"
    and remove_spec: "wf s \<Longrightarrow> valid a \<Longrightarrow> card (elems s) < limit \<Longrightarrow>
      \<exists>s'. remove s a = Some (s', a \<in> elems s) \<and> wf s' \<and> elems s' = elems s - {a}"
    and size_spec: "wf s \<Longrightarrow> size_of s = card (elems s)"
begin

lemma add_all_spec:
  assumes "wf s" "\<forall>x \<in> set xs. valid x" "card (elems s \<union> set xs) < limit"
  shows "\<exists>s'. count_all add s xs = Some (s', card (set xs - elems s)) \<and> wf s' \<and>
    elems s' = elems s \<union> set xs"
  using assms
proof (induction xs arbitrary: s)
  case (Cons x xs)
  have fin: "finite (elems s \<union> set (x # xs))" using Cons.prems(1) by (simp add: finite_elems)
  have "card (elems s) < limit"
    using Cons.prems(3) by (rule le_less_trans [OF card_mono [OF fin], rotated]) auto
  then obtain s' where s': "add s x = Some (s', x \<notin> elems s)" "wf s'" "elems s' = insert x (elems s)"
    using add_spec [OF Cons.prems(1), of x] Cons.prems(2) by auto
  moreover have "card (elems s' \<union> set xs) < limit"
    using Cons.prems(3) s'(3) by simp
  ultimately obtain s'' where IH: "count_all add s' xs = Some (s'', card (set xs - elems s'))"
    "wf s''" "elems s'' = elems s' \<union> set xs"
    using Cons.IH [of s'] Cons.prems(2) by auto
  have "set (x # xs) - elems s = (if x \<in> elems s then set xs - elems s' else insert x (set xs - elems s'))"
    using s'(3) by auto
  then have "card (set (x # xs) - elems s) = (if x \<notin> elems s then 1 else 0) + card (set xs - elems s')"
    using s'(3) by simp
  with IH s'(3) show ?case
    by (simp only: count_all_step [of add, OF s'(1) IH(1)]) auto
qed simp

lemma remove_all_spec:
  assumes "wf s" "\<forall>x \<in> set xs. valid x" "card (elems s) < limit"
  shows "\<exists>s'. count_all remove s xs = Some (s', card (set xs \<inter> elems s)) \<and> wf s' \<and>
    elems s' = elems s - set xs"
  using assms
proof (induction xs arbitrary: s)
  case (Cons x xs)
  obtain s' where s': "remove s x = Some (s', x \<in> elems s)" "wf s'" "elems s' = elems s - {x}"
    using remove_spec [OF Cons.prems(1) _ Cons.prems(3), of x] Cons.prems(2) by auto
  moreover have "card (elems s') < limit"
    using Cons.prems(3) s'(3) finite_elems [OF Cons.prems(1)]
    by (auto intro: le_less_trans [OF card_mono])
  ultimately obtain s'' where IH: "count_all remove s' xs = Some (s'', card (set xs \<inter> elems s'))"
    "wf s''" "elems s'' = elems s' - set xs"
    using Cons.IH [of s'] Cons.prems(2) by auto
  have "set (x # xs) \<inter> elems s = (if x \<in> elems s then insert x (set xs \<inter> elems s') else set xs \<inter> elems s')"
    using s'(3) by auto
  then have "card (set (x # xs) \<inter> elems s) = (if x \<in> elems s then 1 else 0) + card (set xs \<inter> elems s')"
    using s'(3) by simp
  with IH s'(3) show ?case
    by (simp only: count_all_step [of remove, OF s'(1) IH(1)]) auto
qed simp

end

section \<open>Keyed stores\<close>

text \<open>
  A store that is read and deleted from by key: the hash table, and the keyspace of the
  server, whose lookups and deletions also remove expired keys.  \<open>del\<close> reports whether the
  key was there.
\<close>

locale keyed_store =
  fixes wf :: "'s \<Rightarrow> bool"
    and to_map :: "'s \<Rightarrow> 'k \<rightharpoonup> 'v"
    and valid_key :: "'k \<Rightarrow> bool"
    and del :: "'s \<Rightarrow> 'k \<Rightarrow> ('s \<times> bool) option"
    and get :: "'s \<Rightarrow> 'k \<Rightarrow> ('s \<times> 'v option) option"
  assumes finite_keys: "wf s \<Longrightarrow> finite (dom (to_map s))"
    and get_spec: "wf s \<Longrightarrow> valid_key k \<Longrightarrow>
      \<exists>s'. get s k = Some (s', to_map s k) \<and> wf s' \<and> to_map s' = to_map s"
    and del_spec: "wf s \<Longrightarrow> valid_key k \<Longrightarrow>
      \<exists>s'. del s k = Some (s', to_map s k \<noteq> None) \<and> wf s' \<and> to_map s' = (to_map s)(k := None)"
begin

text \<open>Counting the keys of a list that are present, repetitions included.\<close>

lemma count_get_spec:
  assumes "wf s" "\<forall>k \<in> set ks. valid_key k"
  shows "\<exists>s'. count_all (\<lambda>s k. map_option (\<lambda>(s', v). (s', v \<noteq> None)) (get s k)) s ks =
      Some (s', length (filter (\<lambda>k. to_map s k \<noteq> None) ks)) \<and> wf s' \<and> to_map s' = to_map s"
  using assms
proof (induction ks arbitrary: s)
  case (Cons k ks)
  obtain s' where s': "get s k = Some (s', to_map s k)" "wf s'" "to_map s' = to_map s"
    using get_spec [OF Cons.prems(1), of k] Cons.prems(2) by auto
  then obtain s'' where "count_all (\<lambda>s k. map_option (\<lambda>(s', v). (s', v \<noteq> None)) (get s k)) s' ks =
      Some (s'', length (filter (\<lambda>k. to_map s' k \<noteq> None) ks))" "wf s''" "to_map s'' = to_map s'"
    using Cons.IH [of s'] Cons.prems(2) by auto
  with s' show ?case by auto
qed simp

lemma del_all_spec:
  assumes "wf s" "\<forall>k \<in> set ks. valid_key k"
  shows "\<exists>s'. count_all del s ks = Some (s', card (set ks \<inter> dom (to_map s))) \<and> wf s' \<and>
    to_map s' = to_map s |` (- set ks)"
  using assms
proof (induction ks arbitrary: s)
  case (Cons k ks)
  obtain s' where s': "del s k = Some (s', to_map s k \<noteq> None)" "wf s'" "to_map s' = (to_map s)(k := None)"
    using del_spec [OF Cons.prems(1), of k] Cons.prems(2) by auto
  then obtain s'' where IH: "count_all del s' ks = Some (s'', card (set ks \<inter> dom (to_map s')))"
    "wf s''" "to_map s'' = to_map s' |` (- set ks)"
    using Cons.IH [of s'] Cons.prems(2) by (meson list.set_intros(2))
  have "set (k # ks) \<inter> dom (to_map s) =
      (if to_map s k \<noteq> None then insert k (set ks \<inter> dom (to_map s')) else set ks \<inter> dom (to_map s'))"
    using s'(3) by (auto simp: dom_def)
  then have "card (set (k # ks) \<inter> dom (to_map s)) =
      (if to_map s k \<noteq> None then 1 else 0) + card (set ks \<inter> dom (to_map s'))"
    using s'(3) by simp
  moreover have "to_map s'' = to_map s |` (- set (k # ks))"
    using IH(3) s'(3) by (auto simp: fun_eq_iff restrict_map_def)
  ultimately show ?case
    using IH(2) by (simp only: count_all_step [of del, OF s'(1) IH(1)]) simp
qed (simp add: restrict_map_def fun_eq_iff)

end

section \<open>Finite maps\<close>

text \<open>A keyed store that can be written to: \<open>put\<close> reports whether the key is new.\<close>

locale finite_map_impl = keyed_store wf to_map valid_key del get
  for wf :: "'s \<Rightarrow> bool"
    and to_map :: "'s \<Rightarrow> 'k \<rightharpoonup> 'v"
    and valid_key :: "'k \<Rightarrow> bool"
    and del :: "'s \<Rightarrow> 'k \<Rightarrow> ('s \<times> bool) option"
    and get :: "'s \<Rightarrow> 'k \<Rightarrow> ('s \<times> 'v option) option" +
  fixes valid_val :: "'v \<Rightarrow> bool"
    and limit :: nat
    and put :: "'s \<Rightarrow> 'k \<Rightarrow> 'v \<Rightarrow> ('s \<times> bool) option"
    and size_of :: "'s \<Rightarrow> nat"
  assumes put_spec: "wf s \<Longrightarrow> valid_key k \<Longrightarrow> valid_val v \<Longrightarrow> card (dom (to_map s)) < limit \<Longrightarrow>
      \<exists>s'. put s k v = Some (s', to_map s k = None) \<and> wf s' \<and> to_map s' = (to_map s)(k \<mapsto> v)"
    and size_spec: "wf s \<Longrightarrow> size_of s = card (dom (to_map s))"
begin

lemma get_put_spec:
  assumes "wf s" "valid_key k" "valid_key j" "valid_val v" "card (dom (to_map s)) < limit"
  shows "\<exists>s' s''. put s k v = Some (s', to_map s k = None) \<and>
    get s' j = Some (s'', if j = k then Some v else to_map s j) \<and> wf s'' \<and> to_map s'' = (to_map s)(k \<mapsto> v)"
proof -
  obtain s' where s': "put s k v = Some (s', to_map s k = None)" "wf s'" "to_map s' = (to_map s)(k \<mapsto> v)"
    using put_spec assms by blast
  with get_spec [OF s'(2) assms(3)] show ?thesis by auto
qed

text \<open>Storing a list of pairs: later pairs win, and the count is the number of new keys.\<close>

lemma put_all_spec:
  assumes "wf s" "\<forall>(k, v) \<in> set kvs. valid_key k \<and> valid_val v"
    and "card (dom (to_map s) \<union> fst ` set kvs) < limit"
  shows "\<exists>s'. count_all (\<lambda>s (k, v). put s k v) s kvs = Some (s', card (fst ` set kvs - dom (to_map s))) \<and>
    wf s' \<and> to_map s' = to_map s ++ map_of (rev kvs)"
  using assms
proof (induction kvs arbitrary: s)
  case (Cons kv kvs)
  obtain k v where kv: "kv = (k, v)" by fastforce
  let ?m = "to_map s"
  have fin: "finite (dom ?m \<union> fst ` set (kv # kvs))" using Cons.prems(1) by (simp add: finite_keys)
  have "card (dom ?m) < limit"
    using Cons.prems(3) by (rule le_less_trans [OF card_mono [OF fin], rotated]) auto
  then obtain s' where s': "put s k v = Some (s', ?m k = None)" "wf s'" "to_map s' = ?m(k \<mapsto> v)"
    using put_spec [OF Cons.prems(1), of k v] Cons.prems(2) kv by auto
  moreover have "card (dom (to_map s') \<union> fst ` set kvs) < limit"
    using Cons.prems(3) s'(3) kv by simp
  ultimately obtain s'' where
    IH: "count_all (\<lambda>s (k, v). put s k v) s' kvs = Some (s'', card (fst ` set kvs - dom (to_map s')))"
      "wf s''" "to_map s'' = to_map s' ++ map_of (rev kvs)"
    using Cons.IH [of s'] Cons.prems(2) by (meson list.set_intros(2))
  have step: "count_all (\<lambda>s (k, v). put s k v) s (kv # kvs) =
      Some (s'', (if ?m k = None then 1 else 0) + card (fst ` set kvs - dom (to_map s')))"
    by (rule count_all_step [OF _ IH(1)]) (simp add: kv s'(1))
  have "fst ` set (kv # kvs) - dom ?m =
      (if ?m k = None then insert k (fst ` set kvs - dom (to_map s')) else fst ` set kvs - dom (to_map s'))"
    using s'(3) by (auto simp: kv)
  then have "card (fst ` set (kv # kvs) - dom ?m) =
      (if ?m k = None then 1 else 0) + card (fst ` set kvs - dom (to_map s'))"
    using s'(3) by simp
  moreover have "to_map s'' = ?m ++ map_of (rev (kv # kvs))"
    using IH(3) s'(3) by (auto simp: kv fun_eq_iff map_add_def split: option.splits)
  ultimately show ?case using IH(2) step by simp
qed simp

end

section \<open>Sequences of steps\<close>

text \<open>
  Operations that are run one after the other on a state, each with a reply, until one faults; and
  whether every one of them is within the bounds \<open>ok\<close> in the state it finds.  The loop of EXEC
  and the requests that reach a server are such sequences.
\<close>

fun run_all :: "('x \<Rightarrow> 's \<Rightarrow> ('r \<times> 's) option) \<Rightarrow> 'x list \<Rightarrow> 's \<Rightarrow> ('r list \<times> 's) option" where
  "run_all f [] s = Some ([], s)"
| "run_all f (x # xs) s = do { (r, s) \<leftarrow> f x s; (rs, s) \<leftarrow> run_all f xs s; Some (r # rs, s) }"

fun run_ok :: "('x \<Rightarrow> 's \<Rightarrow> bool) \<Rightarrow> ('x \<Rightarrow> 's \<Rightarrow> ('r \<times> 's) option) \<Rightarrow> 'x list \<Rightarrow> 's \<Rightarrow> bool" where
  "run_ok ok f [] s \<longleftrightarrow> True"
| "run_ok ok f (x # xs) s \<longleftrightarrow> ok x s \<and> (case f x s of None \<Rightarrow> True | Some (_, s') \<Rightarrow> run_ok ok f xs s')"

lemma run_all_append:
  "run_all f (xs @ ys) s = do { (rs, s) \<leftarrow> run_all f xs s; (rs', s) \<leftarrow> run_all f ys s; Some (rs @ rs', s) }"
proof (induction xs arbitrary: s)
  case Nil
  then show ?case by (cases "run_all f ys s") auto
next
  case (Cons x xs)
  show ?case
  proof (cases "f x s")
    case (Some p)
    obtain r s1 where p: "p = (r, s1)" by (cases p)
    show ?thesis by (cases "run_all f xs s1"; cases "run_all f ys (snd (the (run_all f xs s1)))") (auto simp: Some p Cons.IH)
  qed simp
qed

lemma run_ok_append:
  "run_ok ok f (xs @ ys) s \<longleftrightarrow>
     run_ok ok f xs s \<and> (case run_all f xs s of None \<Rightarrow> True | Some (_, s') \<Rightarrow> run_ok ok f ys s')"
proof (induction xs arbitrary: s)
  case (Cons x xs)
  show ?case
  proof (cases "f x s")
    case (Some p)
    obtain r s1 where p: "p = (r, s1)" by (cases p)
    show ?thesis by (cases "run_all f xs s1") (auto simp: Some p Cons.IH)
  qed simp
qed simp

locale steps =
  fixes f :: "'x \<Rightarrow> 's \<Rightarrow> ('r \<times> 's) option"
    and ok :: "'x \<Rightarrow> 's \<Rightarrow> bool"
    and inv :: "'s \<Rightarrow> bool"
    and rel :: "'s \<Rightarrow> 's \<Rightarrow> bool"
  assumes rel_refl: "rel s s"
    and rel_trans: "rel s s' \<Longrightarrow> rel s' s'' \<Longrightarrow> rel s s''"
    and step_spec: "inv s \<Longrightarrow> ok x s \<Longrightarrow> \<exists>r s'. f x s = Some (r, s') \<and> inv s' \<and> rel s s'"
begin

lemma run_all_spec:
  assumes "inv s" "run_ok ok f xs s"
  shows "\<exists>rs s'. run_all f xs s = Some (rs, s') \<and> length rs = length xs \<and> inv s' \<and> rel s s'"
  using assms
proof (induction xs arbitrary: s)
  case Nil
  then show ?case by (simp add: rel_refl)
next
  case (Cons x xs)
  obtain r s1 where s1: "f x s = Some (r, s1)" "inv s1" "rel s s1" using step_spec [of s x] Cons.prems by auto
  obtain rs s2 where s2: "run_all f xs s1 = Some (rs, s2)" "length rs = length xs" "inv s2" "rel s1 s2"
    using Cons.IH [of s1] Cons.prems(2) s1 by auto
  have "rel s s2" using s1(3) s2(4) by (rule rel_trans)
  then show ?case by (simp add: s1 s2)
qed

lemma run_all_keeps:
  assumes "inv s" "run_ok ok f xs s" "run_all f xs s = Some (rs, s')"
  shows "inv s'" "rel s s'"
  using run_all_spec [OF assms(1,2)] assms(3) by auto

end

end
