(* ===== verification/Intset.thy ===== *)
theory Intset
  imports Interfaces
begin

text \<open>
  The integer set of \<open>src/redis-6.0.5/src/intset.c\<close>: a sorted array of integers kept in
  one byte buffer, two, four or eight bytes each, upgraded to a wider encoding when a value
  does not fit.  The record and one function per C function come first; a leading
  underscore of a C name is dropped (\<open>_intsetGet\<close> is \<open>intsetGetAt\<close>).  The lemmas
  relate the buffer to the list of integers it holds, and the operations to insertion,
  deletion and membership on that list.

  The fields \<open>encoding\<close> and \<open>length\<close> hold the values that \<open>intrev32ifbe\<close> reads;
  unsigned 32-bit arithmetic is written out with its wrap-around.
\<close>

section \<open>The program\<close>

record intset =
  is_encoding :: nat
  is_length :: nat
  is_contents :: "byte list"

definition u32_of :: "int \<Rightarrow> nat" where
  "u32_of v = nat (v mod 2 ^ 32)"

definition INTSET_ENC_INT16 :: nat where "INTSET_ENC_INT16 = 2"
definition INTSET_ENC_INT32 :: nat where "INTSET_ENC_INT32 = 4"
definition INTSET_ENC_INT64 :: nat where "INTSET_ENC_INT64 = 8"

definition intsetValueEncoding :: "int \<Rightarrow> nat" where
  "intsetValueEncoding v =
     (if v < -2147483648 \<or> v > 2147483647 then INTSET_ENC_INT64
      else if v < -32768 \<or> v > 32767 then INTSET_ENC_INT32
      else INTSET_ENC_INT16)"

definition intsetGetEncoded :: "intset \<Rightarrow> nat \<Rightarrow> nat \<Rightarrow> int" where
  "intsetGetEncoded is pos enc =
     (if enc = INTSET_ENC_INT64 then le_sint (read_at (pos * 8) 8 (is_contents is))
      else if enc = INTSET_ENC_INT32 then le_sint (read_at (pos * 4) 4 (is_contents is))
      else le_sint (read_at (pos * 2) 2 (is_contents is)))"

definition intsetGetAt :: "intset \<Rightarrow> nat \<Rightarrow> int" where
  "intsetGetAt is pos = intsetGetEncoded is pos (is_encoding is)"

definition intsetSet :: "intset \<Rightarrow> nat \<Rightarrow> int \<Rightarrow> intset" where
  "intsetSet is pos value =
     (let encoding = is_encoding is in
      if encoding = INTSET_ENC_INT64 then
        is\<lparr>is_contents := write_at (pos * 8) (le_bytes 8 value) (is_contents is)\<rparr>
      else if encoding = INTSET_ENC_INT32 then
        is\<lparr>is_contents := write_at (pos * 4) (le_bytes 4 value) (is_contents is)\<rparr>
      else
        is\<lparr>is_contents := write_at (pos * 2) (le_bytes 2 value) (is_contents is)\<rparr>)"

definition intsetNew :: intset where
  "intsetNew = \<lparr>is_encoding = INTSET_ENC_INT16, is_length = 0, is_contents = []\<rparr>"

definition intsetResize :: "intset \<Rightarrow> nat \<Rightarrow> intset" where
  "intsetResize is len =
     (let size = u32_of (int len * int (is_encoding is))
      in is\<lparr>is_contents := realloc_bytes size (is_contents is)\<rparr>)"

text \<open>
  The loop of \<open>intsetSearch\<close> over \<open>min\<close> (\<open>lo\<close>), \<open>max\<close> (\<open>hi\<close>), \<open>mid\<close> and \<open>cur\<close>.  The C code adds
  \<open>min\<close> and \<open>max\<close> as unsigned integers before the shift; \<open>search_mid_unsigned\<close> below
  shows that this is the quotient written here for every pair the loop can reach.
\<close>

function intsetSearchLoop :: "intset \<Rightarrow> int \<Rightarrow> int \<Rightarrow> int \<Rightarrow> int \<Rightarrow> int \<Rightarrow> int \<times> int \<times> int \<times> int" where
  "intsetSearchLoop is value lo hi mid cur =
     (if hi \<ge> lo then
        let mid' = (lo + hi) div 2;
            cur' = intsetGetAt is (nat mid')
        in if value > cur' then intsetSearchLoop is value (mid' + 1) hi mid' cur'
           else if value < cur' then intsetSearchLoop is value lo (mid' - 1) mid' cur'
           else (lo, hi, mid', cur')
      else (lo, hi, mid, cur))"
  by pat_completeness auto
termination
  by (relation "measure (\<lambda>(is, value, lo, hi, mid, cur). nat (hi - lo + 1))") auto

definition intsetSearch :: "intset \<Rightarrow> int \<Rightarrow> bool \<times> nat" where
  "intsetSearch is value =
     (let hi = int (is_length is) - 1 in
      if is_length is = 0 then (False, 0)
      else if value > intsetGetAt is (nat hi) then (False, is_length is)
      else if value < intsetGetAt is 0 then (False, 0)
      else
        (case intsetSearchLoop is value 0 hi (-1) (-1) of
           (lo, _, mid, cur) \<Rightarrow>
             if value = cur then (True, nat mid) else (False, nat lo)))"

primrec intsetUpgradeLoop :: "nat \<Rightarrow> nat \<Rightarrow> nat \<Rightarrow> intset \<Rightarrow> intset" where
  "intsetUpgradeLoop curenc prepend 0 is = is"
| "intsetUpgradeLoop curenc prepend (Suc n) is =
     intsetUpgradeLoop curenc prepend n
       (intsetSet is (n + prepend) (intsetGetEncoded is n curenc))"

definition intsetUpgradeAndAdd :: "intset \<Rightarrow> int \<Rightarrow> intset" where
  "intsetUpgradeAndAdd is value =
     (let curenc = is_encoding is;
          newenc = intsetValueEncoding value;
          len = is_length is;
          prepend = (if value < 0 then 1 else 0);
          is1 = intsetResize (is\<lparr>is_encoding := newenc\<rparr>) (u32_of (int len + 1));
          is2 = intsetUpgradeLoop curenc prepend len is1;
          is3 = (if prepend \<noteq> 0 then intsetSet is2 0 value
                 else intsetSet is2 (is_length is2) value)
      in is3\<lparr>is_length := u32_of (int (is_length is3) + 1)\<rparr>)"

definition intsetMoveTail :: "intset \<Rightarrow> nat \<Rightarrow> nat \<Rightarrow> intset" where
  "intsetMoveTail is from to =
     (let bytes = u32_of (int (is_length is) - int from);
          encoding = is_encoding is;
          c = is_contents is
      in if encoding = INTSET_ENC_INT64 then
           is\<lparr>is_contents := memmove_bytes (to * 8) (from * 8) (u32_of (int bytes * 8)) c\<rparr>
         else if encoding = INTSET_ENC_INT32 then
           is\<lparr>is_contents := memmove_bytes (to * 4) (from * 4) (u32_of (int bytes * 4)) c\<rparr>
         else
           is\<lparr>is_contents := memmove_bytes (to * 2) (from * 2) (u32_of (int bytes * 2)) c\<rparr>)"

text \<open>\<open>intsetAdd\<close> returns the set and the flag it stores through \<open>success\<close>.\<close>

definition intsetAdd :: "intset \<Rightarrow> int \<Rightarrow> intset \<times> bool" where
  "intsetAdd is value =
     (if intsetValueEncoding value > is_encoding is then (intsetUpgradeAndAdd is value, True)
      else
        (case intsetSearch is value of
           (True, _) \<Rightarrow> (is, False)
         | (False, pos) \<Rightarrow>
             let is1 = intsetResize is (u32_of (int (is_length is) + 1));
                 is2 = (if pos < is_length is1 then intsetMoveTail is1 pos (pos + 1) else is1);
                 is3 = intsetSet is2 pos value
             in (is3\<lparr>is_length := u32_of (int (is_length is3) + 1)\<rparr>, True)))"

definition intsetRemove :: "intset \<Rightarrow> int \<Rightarrow> intset \<times> bool" where
  "intsetRemove is value =
     (if intsetValueEncoding value \<le> is_encoding is then
        (case intsetSearch is value of
           (False, _) \<Rightarrow> (is, False)
         | (True, pos) \<Rightarrow>
             let len = is_length is;
                 is1 = (if pos < len - 1 then intsetMoveTail is (pos + 1) pos else is);
                 is2 = intsetResize is1 (u32_of (int len - 1))
             in (is2\<lparr>is_length := u32_of (int len - 1)\<rparr>, True))
      else (is, False))"

definition intsetFind :: "intset \<Rightarrow> int \<Rightarrow> bool" where
  "intsetFind is value \<longleftrightarrow>
     intsetValueEncoding value \<le> is_encoding is \<and> fst (intsetSearch is value)"

text \<open>\<open>rand()\<close> is a parameter of \<open>intsetRandom\<close>.\<close>

definition intsetRandom :: "nat \<Rightarrow> intset \<Rightarrow> int" where
  "intsetRandom rand is = intsetGetAt is (rand mod is_length is)"

definition intsetGet :: "intset \<Rightarrow> nat \<Rightarrow> int option" where
  "intsetGet is pos = (if pos < is_length is then Some (intsetGetAt is pos) else None)"

definition intsetLen :: "intset \<Rightarrow> nat" where
  "intsetLen is = is_length is"

definition intsetBlobLen :: "intset \<Rightarrow> nat" where
  "intsetBlobLen is = 8 + u32_of (int (is_length is) * int (is_encoding is))"

section \<open>The buffer as a list of integers\<close>

definition intset_elems :: "intset \<Rightarrow> int list" where
  "intset_elems is = map (intsetGetAt is) [0..<is_length is]"

definition intset_wf :: "intset \<Rightarrow> bool" where
  "intset_wf is \<longleftrightarrow>
     is_encoding is \<in> {INTSET_ENC_INT16, INTSET_ENC_INT32, INTSET_ENC_INT64} \<and>
     length (is_contents is) = is_length is * is_encoding is \<and>
     sorted_wrt (<) (intset_elems is)"

lemmas intset_encs = INTSET_ENC_INT16_def INTSET_ENC_INT32_def INTSET_ENC_INT64_def

abbreviation intset_enc :: "nat \<Rightarrow> bool" where
  "intset_enc e \<equiv> e \<in> {INTSET_ENC_INT16, INTSET_ENC_INT32, INTSET_ENC_INT64}"

lemma search_mid_unsigned:
  assumes "0 \<le> lo" "0 \<le> hi" "lo < 2 ^ 31" "hi < 2 ^ 31"
  shows "(lo + hi) div 2 = uint (drop_bit 1 (word_of_int lo + word_of_int hi :: u32))"
proof -
  have "uint (word_of_int lo + word_of_int hi :: u32) = (lo + hi) mod 2 ^ 32"
    by (simp add: uint_word_of_int flip: of_int_add)
  also have "\<dots> = lo + hi" using assms by simp
  finally show ?thesis
    by (simp add: drop_bit_eq_div uint_div)
qed

lemma u32_of_int: "v = int n \<Longrightarrow> n < 2 ^ 32 \<Longrightarrow> u32_of v = n"
  by (simp add: u32_of_def)

lemma u32_of_mult_enc: "a < 2 ^ 29 \<Longrightarrow> intset_enc e \<Longrightarrow> u32_of (int a * int e) = a * e"
  by (rule u32_of_int) (auto simp: intset_encs)

lemma intsetGetEncoded_eq:
  "intset_enc enc \<Longrightarrow> intsetGetEncoded is pos enc = le_sint (read_at (pos * enc) enc (is_contents is))"
  by (auto simp: intsetGetEncoded_def intset_encs)

lemma intsetSet_eq:
  "intset_enc (is_encoding is) \<Longrightarrow>
   intsetSet is pos v = is\<lparr>is_contents := write_at (pos * is_encoding is) (le_bytes (is_encoding is) v) (is_contents is)\<rparr>"
  by (auto simp: intsetSet_def intset_encs)

lemma intsetMoveTail_eq:
  assumes "intset_enc (is_encoding is)" "from \<le> is_length is" "is_length is < 2 ^ 28"
  shows "intsetMoveTail is from to = is\<lparr>is_contents :=
      memmove_bytes (to * is_encoding is) (from * is_encoding is)
        ((is_length is - from) * is_encoding is) (is_contents is)\<rparr>"
proof -
  have len: "u32_of (int (is_length is) - int from) = is_length is - from"
    using assms by (intro u32_of_int) auto
  have "is_length is - from < 2 ^ 29"
    using assms(3) by simp
  then show ?thesis
    using assms(1) len u32_of_mult_enc [of "is_length is - from" 8]
      u32_of_mult_enc [of "is_length is - from" 4] u32_of_mult_enc [of "is_length is - from" 2]
    by (auto simp: intsetMoveTail_def intset_encs Let_def)
qed

lemma intsetValueEncoding_le_iff:
  "in_i64 v \<Longrightarrow> intset_enc e \<Longrightarrow> intsetValueEncoding v \<le> e \<longleftrightarrow> in_signed e v"
  by (auto simp: intsetValueEncoding_def in_signed_def intset_encs)

lemma intsetValueEncoding_enc: "intset_enc (intsetValueEncoding v)"
  by (auto simp: intsetValueEncoding_def)

text \<open>The buffer of a well-formed set is the array of its elements.\<close>

definition intset_holds :: "intset \<Rightarrow> int list \<Rightarrow> bool" where
  "intset_holds is xs \<longleftrightarrow>
     intset_enc (is_encoding is) \<and> is_length is = length xs \<and>
     is_contents is = le_array (is_encoding is) xs \<and>
     (\<forall>x \<in> set xs. in_signed (is_encoding is) x) \<and> sorted_wrt (<) xs"

lemma intset_enc_pos: "intset_enc e \<Longrightarrow> 0 < e"
  by (auto simp: intset_encs)

lemma intset_elems_holds:
  assumes "intset_enc (is_encoding is)" "is_length is = length xs"
    and "is_contents is = le_array (is_encoding is) xs"
    and "\<forall>x \<in> set xs. in_signed (is_encoding is) x"
  shows "intset_elems is = xs"
  using assms intset_enc_pos [OF assms(1)]
  by (auto simp: intset_elems_def intsetGetAt_def intsetGetEncoded_eq read_at_le_array
      le_sint_le_bytes intro!: nth_equalityI)

lemma intset_holds_elems: "intset_holds is xs \<Longrightarrow> intset_elems is = xs"
  by (auto simp: intset_holds_def intro: intset_elems_holds)

lemma intset_holds_wf: "intset_holds is xs \<Longrightarrow> intset_wf is"
  using intset_holds_elems [of "is" xs] by (simp add: intset_wf_def intset_holds_def)

lemma le_array_read:
  assumes "length c = len * n"
  shows "le_array n (map (\<lambda>i. le_sint (read_at (i * n) n c)) [0..<len]) = c"
  using assms
proof (induction len arbitrary: c)
  case (Suc len)
  let ?c = "take (len * n) c"
  have l: "length ?c = len * n" using Suc.prems by simp
  have eq: "map (\<lambda>i. le_sint (read_at (i * n) n c)) [0..<len] =
        map (\<lambda>i. le_sint (read_at (i * n) n ?c)) [0..<len]"
  proof (rule map_cong [OF refl])
    fix i assume "i \<in> set [0..<len]"
    then have "i * n + n \<le> len * n"
      using mult_le_mono1 [of "Suc i" len n] by simp
    then show "le_sint (read_at (i * n) n c) = le_sint (read_at (i * n) n ?c)"
      by (simp add: read_at_def drop_take)
  qed
  have "le_bytes n (le_sint (read_at (len * n) n c)) = drop (len * n) c"
    using Suc.prems by (simp add: le_bytes_le_sint read_at_def)
  with Suc.IH [OF l] show ?case
    by (simp add: eq le_array_Cons)
qed simp

lemma intset_wf_holds:
  assumes "intset_wf is"
  shows "intset_holds is (intset_elems is)"
proof -
  have enc: "intset_enc (is_encoding is)" and len: "length (is_contents is) = is_length is * is_encoding is"
    using assms by (auto simp: intset_wf_def)
  have "le_array (is_encoding is) (intset_elems is) = is_contents is"
    using le_array_read [OF len] enc
    by (simp add: intset_elems_def intsetGetAt_def [abs_def] intsetGetEncoded_eq)
  moreover have "in_signed (is_encoding is) x" if "x \<in> set (intset_elems is)" for x
  proof -
    from that obtain i where i: "i < is_length is" "x = intsetGetAt is i"
      by (auto simp: intset_elems_def)
    then have "i * is_encoding is + is_encoding is \<le> length (is_contents is)"
      using mult_le_mono1 [of "Suc i" "is_length is" "is_encoding is"] len by simp
    with i enc intset_enc_pos [OF enc] show ?thesis
      using in_signed_le_sint [of "read_at (i * is_encoding is) (is_encoding is) (is_contents is)"]
      by (simp add: intsetGetAt_def intsetGetEncoded_eq)
  qed
  ultimately show ?thesis
    using assms enc by (simp add: intset_holds_def intset_wf_def intset_elems_def)
qed

lemma intset_holds_get:
  "intset_holds is xs \<Longrightarrow> i < length xs \<Longrightarrow> intsetGetAt is i = xs ! i"
  using arg_cong [OF intset_holds_elems [of "is" xs], of "\<lambda>l. l ! i"]
  by (simp add: intset_elems_def intset_holds_def)

section \<open>Search\<close>

declare intsetSearchLoop.simps [simp del]

text \<open>
  What the loop establishes: either it stopped at an index that holds the value, or the
  bounds crossed and separate the smaller from the larger elements.
\<close>

lemma intsetSearchLoop_spec:
  assumes "intset_holds is xs" "0 \<le> lo" "hi < int (length xs)" "lo \<le> hi + 1"
    and "cur \<noteq> v \<or> lo \<le> hi"
    and "\<forall>i < length xs. int i < lo \<longrightarrow> xs ! i < v"
    and "\<forall>i < length xs. hi < int i \<longrightarrow> v < xs ! i"
    and "intsetSearchLoop is v lo hi mid cur = (lo', hi', mid', cur')"
  shows "(cur' = v \<and> 0 \<le> mid' \<and> mid' < int (length xs) \<and> xs ! nat mid' = v) \<or>
    (cur' \<noteq> v \<and> 0 \<le> lo' \<and> lo' \<le> int (length xs) \<and>
     (\<forall>i < length xs. int i < lo' \<longrightarrow> xs ! i < v) \<and>
     (\<forall>i < length xs. lo' \<le> int i \<longrightarrow> v < xs ! i))"
  using assms
proof (induction "is" v lo hi mid cur rule: intsetSearchLoop.induct)
  case (1 "is" v lo hi mid cur)
  show ?case
  proof (cases "lo \<le> hi")
    case False
    with "1.prems"(8) have "lo' = lo" "cur' = cur"
      by (simp_all add: intsetSearchLoop.simps [of "is" v lo hi])
    with False "1.prems" show ?thesis by auto
  next
    case True
    define m where "m = (lo + hi) div 2"
    have m: "lo \<le> m" "m \<le> hi" using True by (auto simp: m_def)
    with "1.prems" have nm: "nat m < length xs" "int (nat m) = m" by auto
    have c: "intsetGetAt is (nat m) = xs ! nat m"
      using "1.prems"(1) nm(1) by (rule intset_holds_get)
    have srt: "sorted_wrt (<) xs" using "1.prems"(1) by (simp add: intset_holds_def)
    have below: "xs ! i < xs ! nat m" if "int i < m" for i
      using sorted_wrt_nth_less [OF srt _ nm(1), of i] that by simp
    have above: "xs ! nat m < xs ! i" if "m < int i" "i < length xs" for i
      using sorted_wrt_nth_less [OF srt, of "nat m" i] that nm by simp
    consider (gt) "xs ! nat m < v" | (lt) "v < xs ! nat m" | (eq) "v = xs ! nat m" by linarith
    then show ?thesis
    proof cases
      case gt
      have "intsetSearchLoop is v (m + 1) hi m (xs ! nat m) = (lo', hi', mid', cur')"
        using "1.prems"(8) True gt c by (simp add: intsetSearchLoop.simps [of "is" v lo hi] m_def Let_def)
      moreover have "\<forall>i < length xs. int i < m + 1 \<longrightarrow> xs ! i < v"
        using gt below nm by (metis int_ops(1) less_trans linorder_not_less nat_int order_le_less zless_add1_eq)
      ultimately show ?thesis
        using "1.IH"(1) [OF True m_def c [symmetric]] gt "1.prems" m c by auto
    next
      case lt
      have "intsetSearchLoop is v lo (m - 1) m (xs ! nat m) = (lo', hi', mid', cur')"
        using "1.prems"(8) True lt c by (simp add: intsetSearchLoop.simps [of "is" v lo hi] m_def Let_def)
      moreover have "\<forall>i < length xs. m - 1 < int i \<longrightarrow> v < xs ! i"
        using lt above nm by (metis less_trans linorder_neqE_linordered_idom nat_int zle_diff1_eq linorder_not_less)
      ultimately show ?thesis
        using "1.IH"(2) [OF True m_def c [symmetric]] lt "1.prems" m c by auto
    next
      case eq
      have "intsetSearchLoop is v lo hi mid cur = (lo, hi, m, v)"
        using True eq c by (subst intsetSearchLoop.simps) (simp add: Let_def flip: m_def)
      with "1.prems"(8) have "mid' = m \<and> cur' = v" by simp
      with eq nm m "1.prems" show ?thesis by auto
    qed
  qed
qed

lemma strict_sorted_le_last: "sorted_wrt (<) xs \<Longrightarrow> x \<in> set xs \<Longrightarrow> x \<le> last (xs :: int list)"
proof (induction xs)
  case (Cons a xs)
  then show ?case
    by (cases "xs = []") (auto intro: less_imp_le dest!: bspec [of _ _ "last xs"])
qed simp

lemma intsetSearch_cases:
  assumes h: "intset_holds is xs"
  obtains (found) pos where "intsetSearch is v = (True, pos)" "pos < length xs" "xs ! pos = v"
  | (absent) pos where "intsetSearch is v = (False, pos)" "pos \<le> length xs"
      "\<forall>x \<in> set (take pos xs). x < v" "\<forall>x \<in> set (drop pos xs). v < x"
proof (cases "xs = []")
  case True
  with h have "intsetSearch is v = (False, 0)"
    by (simp add: intsetSearch_def intset_holds_def)
  with True show ?thesis by (intro absent [of 0]) auto
next
  case False
  have len: "is_length is = length xs" and srt: "sorted_wrt (<) xs"
    using h by (auto simp: intset_holds_def)
  have "nat (int (length xs) - 1) = length xs - 1" by simp
  then have ends: "intsetGetAt is 0 = hd xs" "intsetGetAt is (nat (int (length xs) - 1)) = last xs"
    using False by (auto simp: intset_holds_get [OF h] hd_conv_nth last_conv_nth)
  consider (above) "last xs < v" | (below) "v \<le> last xs" "v < hd xs" | (inside) "v \<le> last xs" "hd xs \<le> v"
    by linarith
  then show ?thesis
  proof cases
    case above
    have "x \<le> last xs" if "x \<in> set xs" for x
      using srt that by (rule strict_sorted_le_last)
    with above have "\<forall>x \<in> set xs. x < v" by force
    with above False len ends show ?thesis
      by (intro absent [of "length xs"]) (auto simp: intsetSearch_def Let_def)
  next
    case below
    have "hd xs \<le> x" if "x \<in> set xs" for x
      using srt that by (cases xs) auto
    with below have "\<forall>x \<in> set xs. v < x" by force
    with below False len ends show ?thesis
      by (intro absent [of 0]) (auto simp: intsetSearch_def Let_def)
  next
    case inside
    obtain lo hi mid cur where r: "intsetSearchLoop is v 0 (int (length xs) - 1) (-1) (-1) = (lo, hi, mid, cur)"
      by (metis prod_cases4)
    have res: "intsetSearch is v = (if v = cur then (True, nat mid) else (False, nat lo))"
      using inside False len ends r by (auto simp: intsetSearch_def Let_def)
    have "1 \<le> int (length xs)" using False by (simp add: Suc_le_eq)
    then have "(cur = v \<and> 0 \<le> mid \<and> mid < int (length xs) \<and> xs ! nat mid = v) \<or>
      (cur \<noteq> v \<and> 0 \<le> lo \<and> lo \<le> int (length xs) \<and>
       (\<forall>i < length xs. int i < lo \<longrightarrow> xs ! i < v) \<and>
       (\<forall>i < length xs. lo \<le> int i \<longrightarrow> v < xs ! i))"
      by (intro intsetSearchLoop_spec [OF h _ _ _ _ _ _ r]) auto
    then show ?thesis
    proof
      assume "cur = v \<and> 0 \<le> mid \<and> mid < int (length xs) \<and> xs ! nat mid = v"
      with res show ?thesis by (intro found [of "nat mid"]) auto
    next
      assume a: "cur \<noteq> v \<and> 0 \<le> lo \<and> lo \<le> int (length xs) \<and>
       (\<forall>i < length xs. int i < lo \<longrightarrow> xs ! i < v) \<and>
       (\<forall>i < length xs. lo \<le> int i \<longrightarrow> v < xs ! i)"
      then have "x < v" if "x \<in> set (take (nat lo) xs)" for x
        using that by (auto simp: in_set_conv_nth)
      moreover have "v < x" if "x \<in> set (drop (nat lo) xs)" for x
        using that a by (auto simp: in_set_conv_nth)
      ultimately show ?thesis using a res by (intro absent [of "nat lo"]) auto
    qed
  qed
qed

lemma intsetSearch_found_iff:
  "intset_holds is xs \<Longrightarrow> fst (intsetSearch is v) \<longleftrightarrow> v \<in> set xs"
  by (erule intsetSearch_cases [where v = v])
    (auto dest: nth_mem, metis append_take_drop_id in_set_conv_decomp less_irrefl set_append UnE)

section \<open>Insertion and deletion\<close>

text \<open>A value that needs a wider encoding is below or above everything stored.\<close>

lemma out_of_range_sorted:
  assumes "\<not> in_signed e v" "in_signed e x"
  shows "if v < 0 then v < x else x < v"
  using assms by (auto simp: in_signed_def)

lemma intsetUpgradeLoop_keeps [simp]:
  "is_encoding (intsetUpgradeLoop curenc p n is) = is_encoding is"
  "is_length (intsetUpgradeLoop curenc p n is) = is_length is"
  by (induction n arbitrary: "is") (auto simp: intsetSet_def Let_def)

text \<open>
  The upgrade copies the elements from the last to the first inside one buffer.  The wide
  slots written so far never reach the narrow elements not yet read.
\<close>

lemma intsetUpgradeLoop_contents:
  assumes "intset_enc cur" "intset_enc (is_encoding is)" "cur \<le> is_encoding is"
    and "n \<le> length xs" "\<forall>x \<in> set xs. in_signed cur x"
    and "take (n * cur) (is_contents is) = le_array cur (take n xs)"
    and "(n + p) * is_encoding is \<le> length (is_contents is)"
  shows "let c = is_contents is; c' = is_contents (intsetUpgradeLoop cur p n is); e = is_encoding is in
    length c' = length c \<and> take (n * e) (drop (p * e) c') = le_array e (take n xs) \<and>
    drop ((n + p) * e) c' = drop ((n + p) * e) c"
  using assms
proof (induction n arbitrary: "is")
  case (Suc n)
  let ?e = "is_encoding is" and ?c = "is_contents is"
  have n: "n < length xs" using Suc.prems by simp
  have "drop (n * cur) (take (Suc n * cur) ?c) = le_array cur (drop n (take (Suc n) xs))"
    using Suc.prems(6) by (simp add: drop_le_array)
  also have "drop n (take (Suc n) xs) = [xs ! n]"
    using n by (simp add: take_Suc_conv_app_nth)
  finally have rd: "read_at (n * cur) cur ?c = le_bytes cur (xs ! n)"
    by (simp add: read_at_def le_array_Cons drop_take)
  have v: "intsetGetEncoded is n cur = xs ! n"
    using rd Suc.prems(1,5) n by (simp add: intsetGetEncoded_eq intset_enc_pos le_sint_le_bytes)
  define c1 where "c1 = write_at ((n + p) * ?e) (le_bytes ?e (xs ! n)) ?c"
  have bnd: "(n + p) * ?e + ?e \<le> length ?c" using Suc.prems(7) by (simp add: algebra_simps)
  have le: "n * cur \<le> (n + p) * ?e"
    using Suc.prems(3) by (intro mult_le_mono) auto
  have t1: "take (n * cur) c1 = le_array cur (take n xs)"
  proof -
    have "take (n * cur) c1 = take (n * cur) ?c"
      using le bnd by (simp add: c1_def write_at_def min_def)
    also have "\<dots> = take (n * cur) (le_array cur (take (Suc n) xs))"
      by (simp add: Suc.prems(6) [symmetric] min_def)
    finally show ?thesis
      using n by (simp add: take_le_array min_def)
  qed
  define is1 where "is1 = is\<lparr>is_contents := c1\<rparr>"
  have step: "intsetSet is (n + p) (intsetGetEncoded is n cur) = is1"
    using Suc.prems(2) by (simp add: v intsetSet_eq is1_def c1_def)
  have l1: "length c1 = length ?c" using bnd by (simp add: c1_def)
  from Suc.IH [of is1] Suc.prems t1 bnd l1 n
  have IH: "length (is_contents (intsetUpgradeLoop cur p n is1)) = length ?c"
    "take (n * ?e) (drop (p * ?e) (is_contents (intsetUpgradeLoop cur p n is1))) = le_array ?e (take n xs)"
    "drop ((n + p) * ?e) (is_contents (intsetUpgradeLoop cur p n is1)) = drop ((n + p) * ?e) c1"
    by (auto simp: is1_def Let_def)
  have d1: "drop ((n + p) * ?e) c1 = le_bytes ?e (xs ! n) @ drop ((Suc n + p) * ?e) ?c"
    using bnd by (simp add: c1_def write_at_def algebra_simps)
  let ?c' = "is_contents (intsetUpgradeLoop cur p n is1)"
  have sm: "Suc n * ?e = n * ?e + ?e" by simp
  have "take (Suc n * ?e) (drop (p * ?e) ?c') =
    take (n * ?e) (drop (p * ?e) ?c') @ take ?e (drop ((n + p) * ?e) ?c')"
    by (simp only: sm take_add drop_drop add_mult_distrib)
  moreover have "drop ((Suc n + p) * ?e) ?c' = drop ?e (drop ((n + p) * ?e) ?c')"
    by (simp add: algebra_simps)
  ultimately show ?case
    using IH d1 n by (simp add: step Let_def take_Suc_conv_app_nth le_array_Cons)
qed simp

lemma insort_between:
  fixes v :: "'a :: linorder"
  shows "\<forall>x \<in> set ys. x < v \<Longrightarrow> \<forall>x \<in> set zs. v < x \<Longrightarrow> insort v (ys @ zs) = ys @ v # zs"
  by (induction ys) (auto simp: neq_Nil_conv not_le dest: less_imp_le, cases zs, auto)

lemma insort_at:
  assumes "sorted_wrt (<) (xs :: int list)" "\<forall>x \<in> set (take pos xs). x < v" "\<forall>x \<in> set (drop pos xs). v < x"
  shows "take pos xs @ v # drop pos xs = insort v xs" "sorted_wrt (<) (insort v xs)"
proof -
  show eq: "take pos xs @ v # drop pos xs = insort v xs"
    using insort_between [OF assms(2,3)] by simp
  have "sorted_wrt (<) (take pos xs @ drop pos xs)" using assms(1) by simp
  with assms(2,3) have "sorted_wrt (<) (take pos xs @ v # drop pos xs)"
    unfolding sorted_wrt_append by (auto dest: order.strict_trans)
  then show "sorted_wrt (<) (insort v xs)" by (simp add: eq)
qed

lemma intsetUpgradeAndAdd_holds:
  assumes h: "intset_holds is xs" and v: "in_i64 v" "is_encoding is < intsetValueEncoding v"
    and len: "length xs < 2 ^ 28"
  shows "intset_holds (intsetUpgradeAndAdd is v) (insort v xs)"
proof -
  let ?cur = "is_encoding is" and ?new = "intsetValueEncoding v"
  define p :: nat where "p = (if v < 0 then 1 else 0)"
  have enc: "intset_enc ?cur" "intset_enc ?new" and l: "is_length is = length xs"
    and c: "is_contents is = le_array ?cur xs" and xr: "\<forall>x \<in> set xs. in_signed ?cur x"
    and srt: "sorted_wrt (<) xs"
    using h intsetValueEncoding_enc [of v] by (auto simp: intset_holds_def)
  have nv: "\<not> in_signed ?cur v" "in_signed ?new v"
    using v enc intsetValueEncoding_le_iff [OF v(1)] by (auto simp: not_le [symmetric] simp del: insert_iff)
  define is1 where "is1 = is\<lparr>is_encoding := ?new,
    is_contents := realloc_bytes (Suc (length xs) * ?new) (le_array ?cur xs)\<rparr>"
  have r1: "intsetResize (is\<lparr>is_encoding := ?new\<rparr>) (u32_of (int (is_length is) + 1)) = is1"
    using len enc u32_of_mult_enc [of "Suc (length xs)" ?new] u32_of_int [of "int (length xs) + 1" "Suc (length xs)"]
    by (simp add: intsetResize_def Let_def l c is1_def)
  define c2 where "c2 = is_contents (intsetUpgradeLoop ?cur p (length xs) is1)"
  have le: "length xs * ?cur \<le> Suc (length xs) * ?new"
    using v(2) by (intro mult_le_mono) auto
  have "p \<le> 1" by (simp add: p_def)
  then have "(length xs + p) * ?new \<le> Suc (length xs) * ?new"
    by (intro mult_le_mono1) simp
  then have loop: "length c2 = Suc (length xs) * ?new" "take (length xs * ?new) (drop (p * ?new) c2) = le_array ?new xs"
    using intsetUpgradeLoop_contents [of ?cur is1 "length xs" xs p] enc v(2) xr le
    by (auto simp: is1_def c2_def Let_def realloc_bytes_def)
  define ys where "ys = (if v < 0 then v # xs else xs @ [v])"
  have ys: "ys = insort v xs" "sorted_wrt (<) ys"
    using insort_at [OF srt, of 0 v] insort_at [OF srt, of "length xs" v] out_of_range_sorted [OF nv(1)] xr
    by (auto simp: ys_def split: if_splits)
  define is2 where "is2 = intsetUpgradeLoop ?cur p (length xs) is1"
  have is2: "is_encoding is2 = ?new" "is_length is2 = length xs" "is_contents is2 = c2"
    by (simp_all add: is2_def is1_def c2_def l)
  have res: "intsetUpgradeAndAdd is v = is2\<lparr>is_length := Suc (length xs), is_contents := le_array ?new ys\<rparr>"
  proof (cases "v < 0")
    case True
    then have "drop ?new c2 = le_array ?new xs" "intsetSet is2 0 v = is2\<lparr>is_contents := write_at 0 (le_bytes ?new v) c2\<rparr>"
      using loop enc by (auto simp: p_def intsetSet_eq is2)
    moreover have "intsetUpgradeLoop ?cur (Suc 0) (length xs) is1 = is2"
      using True by (simp add: is2_def p_def)
    ultimately show ?thesis
      using True r1 len u32_of_int [of "int (length xs) + 1" "Suc (length xs)"]
      by (simp add: intsetUpgradeAndAdd_def Let_def is2 l write_at_def ys_def le_array_Cons)
  next
    case False
    then have "take (length xs * ?new) c2 = le_array ?new xs"
      "intsetSet is2 (length xs) v = is2\<lparr>is_contents := write_at (length xs * ?new) (le_bytes ?new v) c2\<rparr>"
      using loop enc by (auto simp: p_def intsetSet_eq is2)
    moreover have "intsetUpgradeLoop ?cur 0 (length xs) is1 = is2"
      using False by (simp add: is2_def p_def)
    ultimately show ?thesis
      using False r1 len loop(1) is2(2) u32_of_int [of "int (length xs) + 1" "Suc (length xs)"]
      by (simp del: intsetUpgradeLoop_keeps add: intsetUpgradeAndAdd_def Let_def l write_at_def ys_def le_array_Cons)
  qed
  have "in_signed ?new x" if "x \<in> set xs" for x
    using xr v(2) that by (blast intro: in_signed_mono less_imp_le)
  then show ?thesis
    using enc ys nv by (auto simp: intset_holds_def res is2 set_insort_key simp del: insert_iff)
qed

lemma intsetAdd_present:
  assumes h: "intset_holds is xs" and "in_i64 v" "v \<in> set xs"
  shows "intsetAdd is v = (is, False)"
proof -
  have "in_signed (is_encoding is) v" "intset_enc (is_encoding is)"
    using assms by (auto simp: intset_holds_def)
  then have "\<not> is_encoding is < intsetValueEncoding v"
    using intsetValueEncoding_le_iff [OF assms(2)] by (simp add: not_less)
  moreover have "fst (intsetSearch is v)"
    using assms by (simp add: intsetSearch_found_iff)
  ultimately show ?thesis
    by (cases "intsetSearch is v") (simp add: intsetAdd_def)
qed

lemma intsetAdd_absent:
  assumes h: "intset_holds is xs" and v: "in_i64 v" "v \<notin> set xs" and len: "length xs < 2 ^ 28"
  obtains is' where "intsetAdd is v = (is', True)" "intset_holds is' (insort v xs)"
proof (cases "is_encoding is < intsetValueEncoding v")
  case True
  then have "intsetAdd is v = (intsetUpgradeAndAdd is v, True)"
    by (simp add: intsetAdd_def)
  with intsetUpgradeAndAdd_holds [OF h v(1) True len] show ?thesis by (rule that [rotated])
next
  case False
  let ?e = "is_encoding is"
  have enc: "intset_enc ?e" and l: "is_length is = length xs"
    and c: "is_contents is = le_array ?e xs" and xr: "\<forall>x \<in> set xs. in_signed ?e x"
    and srt: "sorted_wrt (<) xs"
    using h by (auto simp: intset_holds_def)
  have ve: "in_signed ?e v"
    using False intsetValueEncoding_le_iff [OF v(1) enc] by (simp add: not_less)
  from h show ?thesis
  proof (cases rule: intsetSearch_cases [where v = v])
    case (found pos)
    with v(2) nth_mem [of pos xs] show ?thesis by simp
  next
    case (absent pos)
    define fill where "fill = replicate ?e (0 :: byte)"
    let ?A = "le_array ?e (take pos xs)" and ?B = "le_array ?e (drop pos xs)"
    have AB: "le_array ?e xs = ?A @ ?B" by (simp flip: le_array_append)
    have lA: "length ?A = pos * ?e" "length ?B = (length xs - pos) * ?e" using absent(2) by simp_all
    define is1 where "is1 = is\<lparr>is_contents := le_array ?e xs @ fill\<rparr>"
    have r1: "intsetResize is (u32_of (int (is_length is) + 1)) = is1"
      using len enc u32_of_mult_enc [of "Suc (length xs)" ?e] u32_of_int [of "int (length xs) + 1" "Suc (length xs)"]
      by (simp add: intsetResize_def Let_def l c is1_def realloc_bytes_def fill_def)
    have is1: "is1 = is\<lparr>is_contents := ?A @ ?B @ fill\<rparr>"
      by (simp only: is1_def AB append_assoc)
    define is3 where "is3 = intsetSet (if pos < length xs then intsetMoveTail is1 pos (pos + 1) else is1) pos v"
    have is3: "is3 = is1\<lparr>is_contents := ?A @ le_bytes ?e v @ ?B\<rparr>"
    proof (cases "pos < length xs")
      case True
      have "intsetMoveTail is1 pos (pos + 1) =
        is1\<lparr>is_contents := memmove_bytes (length ?A + ?e) (length ?A) (length ?B) (?A @ ?B @ fill)\<rparr>"
        using True enc len absent(2) lA by (subst intsetMoveTail_eq) (auto simp: is1 l add.commute)
      then show ?thesis
        using True enc lA memmove_open_gap [of fill ?e "le_bytes ?e v" ?A ?B]
        by (simp add: is3_def intsetSet_eq is1 fill_def)
    next
      case False
      with absent(2) have "pos = length xs" by simp
      then show ?thesis
        using enc by (simp add: is3_def intsetSet_eq is1 write_at_def fill_def)
    qed
    have ln: "is_length is1 = length xs" by (simp add: is1 l)
    have "intsetAdd is v = (is3\<lparr>is_length := u32_of (int (is_length is3) + 1)\<rparr>, True)"
      using False absent(1) by (simp add: intsetAdd_def r1 ln Let_def is3_def)
    then have "intsetAdd is v = (is3\<lparr>is_length := Suc (length xs)\<rparr>, True)"
      using len u32_of_int [of "int (length xs) + 1" "Suc (length xs)"] by (simp add: is3 ln)
    moreover have "intset_holds (is3\<lparr>is_length := Suc (length xs)\<rparr>) (insort v xs)"
      using insort_at [OF srt absent(3,4)] enc xr ve
      by (auto simp: intset_holds_def is3 is1 le_array_Cons simp del: insert_iff simp flip: insort_at(1) [OF srt absent(3,4)]
          dest: in_set_takeD in_set_dropD)
    ultimately show ?thesis by (rule that)
  qed
qed

lemma intsetRemove_absent:
  assumes h: "intset_holds is xs" and "v \<notin> set xs"
  shows "intsetRemove is v = (is, False)"
  using assms intsetSearch_found_iff [OF h, of v]
  by (cases "intsetSearch is v") (simp add: intsetRemove_def)

lemma remove_nth_strict:
  assumes "sorted_wrt (<) (xs :: int list)" "pos < length xs"
  shows "take pos xs @ drop (Suc pos) xs = removeAll (xs ! pos) xs"
proof -
  have "xs = take pos xs @ xs ! pos # drop (Suc pos) xs"
    using assms(2) by (rule id_take_nth_drop)
  moreover then have "sorted_wrt (<) (take pos xs @ xs ! pos # drop (Suc pos) xs)"
    using assms(1) by simp
  then have "xs ! pos \<notin> set (take pos xs)" "xs ! pos \<notin> set (drop (Suc pos) xs)"
    by (auto simp: sorted_wrt_append)
  ultimately show ?thesis
    by (metis append_Cons removeAll.simps(2) removeAll_append removeAll_id)
qed

lemma intsetRemove_present:
  assumes h: "intset_holds is xs" and v: "in_i64 v" "v \<in> set xs" and len: "length xs < 2 ^ 28"
  obtains is' where "intsetRemove is v = (is', True)" "intset_holds is' (removeAll v xs)"
proof -
  let ?e = "is_encoding is"
  have enc: "intset_enc ?e" and l: "is_length is = length xs"
    and c: "is_contents is = le_array ?e xs" and xr: "\<forall>x \<in> set xs. in_signed ?e x"
    and srt: "sorted_wrt (<) xs"
    using h by (auto simp: intset_holds_def)
  have ve: "intsetValueEncoding v \<le> ?e"
    using v xr intsetValueEncoding_le_iff [OF v(1) enc] by simp
  from h show ?thesis
  proof (cases rule: intsetSearch_cases [where v = v])
    case (absent pos)
    with v(2) intsetSearch_found_iff [OF h, of v] show ?thesis by simp
  next
    case (found pos)
    let ?A = "le_array ?e (take pos xs)" and ?B = "le_array ?e (drop (Suc pos) xs)"
    have "xs = take pos xs @ v # drop (Suc pos) xs"
      using id_take_nth_drop [OF found(2)] found(3) by simp
    then have AB: "le_array ?e xs = ?A @ le_bytes ?e v @ ?B"
      by (metis le_array_Cons le_array_append)
    have lAB: "length ?A = pos * ?e" "length ?B = (length xs - Suc pos) * ?e"
      "length ?A + length ?B = (length xs - 1) * ?e"
      using found(2) by (auto simp flip: add_mult_distrib)
    define is1 where "is1 = (if pos < length xs - 1 then intsetMoveTail is (Suc pos) pos else is)"
    have is1: "is1 = is\<lparr>is_contents := memmove_bytes (length ?A) (length ?A + ?e) (length ?B) (?A @ le_bytes ?e v @ ?B)\<rparr>"
    proof (cases "pos < length xs - 1")
      case True
      then show ?thesis
        using enc len lAB c l AB by (simp add: is1_def intsetMoveTail_eq add.commute)
    next
      case False
      with found(2) have "pos = length xs - 1" by simp
      with found(2) AB c show ?thesis
        by (cases xs) (simp_all add: is1_def memmove_bytes_def read_at_def write_at_def)
    qed
    have r2: "intsetResize is1 (u32_of (int (length xs) - 1)) = is\<lparr>is_contents := ?A @ ?B\<rparr>"
    proof -
      have "u32_of (int (length xs) - 1) = length xs - 1"
        using len found(2) by (intro u32_of_int) auto
      moreover have "u32_of (int (length xs - 1) * int ?e) = length ?A + length ?B"
        using len enc u32_of_mult_enc [of "length xs - 1" ?e] lAB(3) by simp
      ultimately show ?thesis
        using memmove_close_gap [of "le_bytes ?e v" ?e ?A ?B] by (simp add: intsetResize_def is1 Let_def)
    qed
    have "intsetRemove is v = (let is2 = intsetResize is1 (u32_of (int (length xs) - 1))
        in (is2\<lparr>is_length := u32_of (int (length xs) - 1)\<rparr>, True))"
      using ve found(1) by (simp add: intsetRemove_def is1_def Let_def l)
    then have "intsetRemove is v = (is\<lparr>is_contents := ?A @ ?B, is_length := length xs - 1\<rparr>, True)"
      using r2 len found(2) u32_of_int [of "int (length xs) - 1" "length xs - 1"] by (simp add: Let_def)
    moreover have "removeAll v xs = take pos xs @ drop (Suc pos) xs"
      using remove_nth_strict [OF srt found(2)] found(3) by simp
    then have "intset_holds (is\<lparr>is_contents := ?A @ ?B, is_length := length xs - 1\<rparr>) (removeAll v xs)"
      using enc xr found(2) sorted_wrt_filter [OF srt, of "\<lambda>y. v \<noteq> y"]
      by (auto simp: intset_holds_def removeAll_filter_not_eq simp del: insert_iff dest: in_set_takeD in_set_dropD)
    ultimately show ?thesis by (rule that)
  qed
qed

lemma intset_wf_New [simp]: "intset_wf intsetNew" "intset_elems intsetNew = []"
  by (simp_all add: intset_wf_def intset_elems_def intsetNew_def)

lemma intsetAdd_cases:
  assumes wf: "intset_wf is" and v: "in_i64 v" and len: "length (intset_elems is) < 2 ^ 28"
  obtains (present) "v \<in> set (intset_elems is)" "intsetAdd is v = (is, False)"
  | (added) is' where "v \<notin> set (intset_elems is)" "intsetAdd is v = (is', True)" "intset_wf is'"
      "intset_elems is' = insort v (intset_elems is)"
proof (cases "v \<in> set (intset_elems is)")
  case True
  with intsetAdd_present [OF intset_wf_holds [OF wf] v] show ?thesis by (intro present)
next
  case False
  obtain is' where "intsetAdd is v = (is', True)" "intset_holds is' (insort v (intset_elems is))"
    using intset_wf_holds [OF wf] v False len by (rule intsetAdd_absent)
  with False show ?thesis
    by (intro added intset_holds_wf intset_holds_elems)
qed

lemma intsetRemove_cases:
  assumes wf: "intset_wf is" and v: "in_i64 v" and len: "length (intset_elems is) < 2 ^ 28"
  obtains (absent) "v \<notin> set (intset_elems is)" "intsetRemove is v = (is, False)"
  | (removed) is' where "v \<in> set (intset_elems is)" "intsetRemove is v = (is', True)" "intset_wf is'"
      "intset_elems is' = removeAll v (intset_elems is)"
proof (cases "v \<in> set (intset_elems is)")
  case False
  with intsetRemove_absent [OF intset_wf_holds [OF wf]] show ?thesis by (intro absent)
next
  case True
  obtain is' where "intsetRemove is v = (is', True)" "intset_holds is' (removeAll v (intset_elems is))"
    using intset_wf_holds [OF wf] v True len by (rule intsetRemove_present)
  with True show ?thesis
    by (intro removed intset_holds_wf intset_holds_elems)
qed

lemma intsetFind_iff:
  assumes wf: "intset_wf is" and v: "in_i64 v"
  shows "intsetFind is v \<longleftrightarrow> v \<in> set (intset_elems is)"
proof -
  have "intset_enc (is_encoding is)" "\<forall>x \<in> set (intset_elems is). in_signed (is_encoding is) x"
    using intset_wf_holds [OF wf] by (auto simp: intset_holds_def)
  then show ?thesis
    using intsetSearch_found_iff [OF intset_wf_holds [OF wf], of v] intsetValueEncoding_le_iff [OF v]
    by (auto simp: intsetFind_def simp del: insert_iff)
qed

lemma intset_length: "is_length is = length (intset_elems is)"
  by (simp add: intset_elems_def)

lemma intset_distinct: "intset_wf is \<Longrightarrow> distinct (intset_elems is)"
  by (auto simp: intset_wf_def strict_sorted_iff)

text \<open>The integer set is one provider of the finite-set interface that set objects use.\<close>

interpretation isl: finite_set_impl intset_wf "\<lambda>is. set (intset_elems is)" in_i64 "2 ^ 28"
  "\<lambda>is v. Some (intsetAdd is v)" "\<lambda>is v. Some (intsetRemove is v)"
  "\<lambda>is v. Some (is, intsetFind is v)" intsetLen
proof (unfold_locales, goal_cases)
  case (1 s)
  then show ?case by simp
next
  case (2 s a)
  then show ?case by (simp add: intsetFind_iff)
next
  case (3 s a)
  then have len: "length (intset_elems s) < 2 ^ 28"
    by (simp add: distinct_card [OF intset_distinct])
  show ?case
    by (rule intsetAdd_cases [OF 3(1,2) len]) (use 3(1) in \<open>simp_all add: set_insort_key insert_absorb\<close>)
next
  case (4 s a)
  then have len: "length (intset_elems s) < 2 ^ 28"
    by (simp add: distinct_card [OF intset_distinct])
  show ?case
    by (rule intsetRemove_cases [OF 4(1,2) len]) (use 4(1) in simp_all)
next
  case (5 s)
  then show ?case
    by (simp add: intsetLen_def intset_length distinct_card [OF intset_distinct])
qed

section \<open>Properties\<close>

text \<open>A two-element set in the two-byte encoding, for the concrete instances.\<close>

definition intset_example :: intset where
  "intset_example = \<lparr>is_encoding = 2, is_length = 2, is_contents = [251, 255, 9, 0]\<rparr>"

lemma intset_example_facts:
  "intset_wf intset_example" "intset_elems intset_example = [-5, 9]"
  "is_length intset_example < 2 ^ 28"
  by (code_simp, code_simp, simp add: intset_example_def)

text \<open>
  C5: \<open>intsetAdd\<close> on a well-formed set keeps it well-formed, leaves it unchanged and
  reports failure when the value is present, and otherwise inserts the value at its place
  in the sorted array, through every encoding and upgrade.
\<close>

theorem intsetAdd_correct:
  assumes "intset_wf is" and "in_i64 v" and "is_length is < 2 ^ 28"
  shows "case intsetAdd is v of (is', success) \<Rightarrow>
    intset_wf is' \<and> (success \<longleftrightarrow> v \<notin> set (intset_elems is)) \<and>
    intset_elems is' = (if v \<in> set (intset_elems is) then intset_elems is
                        else insort v (intset_elems is))"
proof -
  from assms(3) have "length (intset_elems is) < 2 ^ 28" by (simp add: intset_length)
  with assms(1,2) show ?thesis
    by (rule intsetAdd_cases) (simp_all add: assms(1))
qed

theorem intsetAdd_correct_witness:
  "intset_wf intset_example \<and> intset_elems (fst (intsetAdd intset_example (-70000))) = [-70000, -5, 9]"
proof -
  have v: "in_i64 (-70000)" by code_simp
  show ?thesis
    using intsetAdd_correct [OF intset_example_facts(1) v intset_example_facts(3)]
    by (simp add: intset_example_facts split: prod.splits)
qed

text \<open>
  \<open>intsetRemove\<close> on a well-formed set keeps it well-formed, reports whether the value
  was present, and leaves exactly the other elements, in order.
\<close>

theorem intsetRemove_correct:
  assumes "intset_wf is" and "in_i64 v" and "is_length is < 2 ^ 28"
  shows "case intsetRemove is v of (is', success) \<Rightarrow>
    intset_wf is' \<and> (success \<longleftrightarrow> v \<in> set (intset_elems is)) \<and>
    intset_elems is' = removeAll v (intset_elems is)"
proof -
  from assms(3) have "length (intset_elems is) < 2 ^ 28" by (simp add: intset_length)
  with assms(1,2) show ?thesis
    by (rule intsetRemove_cases) (simp_all add: assms(1))
qed

theorem intsetRemove_correct_witness:
  "intset_wf intset_example \<and> intset_elems (fst (intsetRemove intset_example (-5))) = [9]"
proof -
  have v: "in_i64 (-5)" by code_simp
  show ?thesis
    using intsetRemove_correct [OF intset_example_facts(1) v intset_example_facts(3)]
    by (simp add: intset_example_facts split: prod.splits)
qed

text \<open>
  \<open>intsetFind\<close>, by the encoding test and the binary search, decides membership in a
  well-formed set for every 64-bit value.
\<close>

lemma intsetFind_correct:
  assumes "intset_wf is" and "in_i64 v"
  shows "intsetFind is v \<longleftrightarrow> v \<in> set (intset_elems is)"
  using assms by (rule intsetFind_iff)

lemma intsetFind_correct_witness:
  "intset_wf intset_example \<and> intsetFind intset_example 9 \<and> \<not> intsetFind intset_example 70000"
proof -
  have v: "in_i64 9" "in_i64 70000" by code_simp+
  show ?thesis
    using intsetFind_correct [OF intset_example_facts(1) v(1)] intsetFind_correct [OF intset_example_facts(1) v(2)]
    by (simp add: intset_example_facts)
qed

end
