(* ===== verification/Dict.thy ===== *)
theory Dict
  imports Interfaces "HOL-Library.Multiset"
begin

text \<open>
  The hash table of \<open>src/redis-6.0.5/src/dict.c\<close>: two tables of chained buckets with
  incremental rehashing, and the cursor scan that survives resizing.

  A chain is a list of key-value entries, the head first.  A null table is the empty list.
  A pointer to an entry is a reference: the table number, the bucket and the key of the
  entry.  Sizes and counters are natural numbers, the mask and the hashes 64-bit words.
  \<open>hashFunction\<close> and \<open>keyCompare\<close> are the function pointers of \<open>dictType\<close>; duplication
  and destructor callbacks manage memory only and have no counterpart.  The static variable
  \<open>dict_can_resize\<close> is an argument of the operations that read it.  \<open>None\<close> stands for
  a failed assertion or a read outside a table.
\<close>

section \<open>The program\<close>

record 'k dictType =
  hashFunction :: "'k \<Rightarrow> u64"
  keyCompare :: "'k \<Rightarrow> 'k \<Rightarrow> bool"

type_synonym ('k, 'v) chain = "('k \<times> 'v) list"

record ('k, 'v) dictht =
  ht_table :: "('k, 'v) chain list"
  ht_size :: nat
  ht_sizemask :: u64
  ht_used :: nat

record ('k, 'v) dict =
  d_type :: "'k dictType"
  d_ht0 :: "('k, 'v) dictht"
  d_ht1 :: "('k, 'v) dictht"
  d_rehashidx :: int
  d_iterators :: nat

datatype dict_rc = DICT_OK | DICT_ERR

type_synonym 'k entry_ref = "bool \<times> nat \<times> 'k"

definition DICT_HT_INITIAL_SIZE :: nat where "DICT_HT_INITIAL_SIZE = 4"
definition dict_force_resize_ratio :: nat where "dict_force_resize_ratio = 5"

definition dictReset :: "('k, 'v) dictht" where
  "dictReset = \<lparr>ht_table = [], ht_size = 0, ht_sizemask = 0, ht_used = 0\<rparr>"

definition dictCreate :: "'k dictType \<Rightarrow> ('k, 'v) dict" where
  "dictCreate type = \<lparr>d_type = type, d_ht0 = dictReset, d_ht1 = dictReset,
     d_rehashidx = -1, d_iterators = 0\<rparr>"

definition dictIsRehashing :: "('k, 'v) dict \<Rightarrow> bool" where
  "dictIsRehashing d \<longleftrightarrow> d_rehashidx d \<noteq> -1"

definition dictSize :: "('k, 'v) dict \<Rightarrow> nat" where
  "dictSize d = ht_used (d_ht0 d) + ht_used (d_ht1 d)"

definition dictHashKey :: "('k, 'v) dict \<Rightarrow> 'k \<Rightarrow> u64" where
  "dictHashKey d key = hashFunction (d_type d) key"

definition dictCompareKeys :: "('k, 'v) dict \<Rightarrow> 'k \<Rightarrow> 'k \<Rightarrow> bool" where
  "dictCompareKeys d key1 key2 \<longleftrightarrow> keyCompare (d_type d) key1 key2"

definition bucket_index :: "('k, 'v) dictht \<Rightarrow> u64 \<Rightarrow> nat" where
  "bucket_index ht h = unat (h AND ht_sizemask ht)"

subsection \<open>Resizing\<close>

function dictNextPowerLoop :: "nat \<Rightarrow> nat \<Rightarrow> nat" where
  "dictNextPowerLoop i sz = (if i \<ge> sz \<or> i = 0 then i else dictNextPowerLoop (i * 2) sz)"
  by pat_completeness auto
termination
  by (relation "measure (\<lambda>(i, sz). sz - i)") auto

text \<open>\<open>LONG_MAX\<close> is $2^{63} - 1$.\<close>

definition dictNextPower :: "nat \<Rightarrow> nat" where
  "dictNextPower sz =
     (if sz \<ge> 2 ^ 63 - 1 then 2 ^ 63 else dictNextPowerLoop DICT_HT_INITIAL_SIZE sz)"

definition dictExpand :: "('k, 'v) dict \<Rightarrow> nat \<Rightarrow> dict_rc \<times> ('k, 'v) dict" where
  "dictExpand d sz =
     (if dictIsRehashing d \<or> ht_used (d_ht0 d) > sz then (DICT_ERR, d)
      else
        let realsize = dictNextPower sz in
        if realsize = ht_size (d_ht0 d) then (DICT_ERR, d)
        else
          let n = \<lparr>ht_table = replicate realsize [], ht_size = realsize,
                   ht_sizemask = of_nat (realsize - 1), ht_used = 0\<rparr> in
          if ht_table (d_ht0 d) = [] then (DICT_OK, d\<lparr>d_ht0 := n\<rparr>)
          else (DICT_OK, d\<lparr>d_ht1 := n, d_rehashidx := 0\<rparr>))"

definition dictResize :: "bool \<Rightarrow> ('k, 'v) dict \<Rightarrow> dict_rc \<times> ('k, 'v) dict" where
  "dictResize can_resize d =
     (if \<not> can_resize \<or> dictIsRehashing d then (DICT_ERR, d)
      else
        let minimal = ht_used (d_ht0 d);
            minimal' = (if minimal < DICT_HT_INITIAL_SIZE then DICT_HT_INITIAL_SIZE else minimal)
        in dictExpand d minimal')"

definition dictExpandIfNeeded :: "bool \<Rightarrow> ('k, 'v) dict \<Rightarrow> dict_rc \<times> ('k, 'v) dict" where
  "dictExpandIfNeeded can_resize d =
     (if dictIsRehashing d then (DICT_OK, d)
      else if ht_size (d_ht0 d) = 0 then dictExpand d DICT_HT_INITIAL_SIZE
      else if ht_used (d_ht0 d) \<ge> ht_size (d_ht0 d) \<and>
              (can_resize \<or> ht_used (d_ht0 d) div ht_size (d_ht0 d) > dict_force_resize_ratio)
      then dictExpand d ((ht_used (d_ht0 d) * 2) mod 2 ^ 64)
      else (DICT_OK, d))"

subsection \<open>Incremental rehashing\<close>

text \<open>
  The inner loop of \<open>dictRehash\<close> over empty buckets: it stops at a non-empty bucket, gives
  up after \<open>empty_visits\<close> empty ones, or runs off the table.
\<close>

datatype skip_result = SkipFound nat int | SkipGaveUp nat | SkipOutOfTable

function rehashSkip :: "('k, 'v) chain list \<Rightarrow> nat \<Rightarrow> int \<Rightarrow> skip_result" where
  "rehashSkip tbl idx empty_visits =
     (if idx < length tbl then
        (if tbl ! idx = [] then
           (if empty_visits - 1 = 0 then SkipGaveUp (idx + 1)
            else rehashSkip tbl (idx + 1) (empty_visits - 1))
         else SkipFound idx empty_visits)
      else SkipOutOfTable)"
  by pat_completeness auto
termination
  by (relation "measure (\<lambda>(tbl, idx, ev). length tbl - idx)") auto

definition ht_push :: "('k, 'v) dictht \<Rightarrow> nat \<Rightarrow> 'k \<times> 'v \<Rightarrow> ('k, 'v) dictht" where
  "ht_push ht idx de =
     ht\<lparr>ht_table := (ht_table ht)[idx := de # ht_table ht ! idx], ht_used := ht_used ht + 1\<rparr>"

text \<open>Moving all the keys of one bucket to the second table.\<close>

primrec rehashMove :: "('k, 'v) chain \<Rightarrow> ('k, 'v) dict \<Rightarrow> ('k, 'v) dict" where
  "rehashMove [] d = d"
| "rehashMove (de # nextde) d =
     (let h = bucket_index (d_ht1 d) (dictHashKey d (fst de))
      in rehashMove nextde
           (d\<lparr>d_ht1 := ht_push (d_ht1 d) h de,
              d_ht0 := (d_ht0 d)\<lparr>ht_used := ht_used (d_ht0 d) - 1\<rparr>\<rparr>))"

datatype ('k, 'v) rehash_result = RehashDone "('k, 'v) dict" | RehashPaused "('k, 'v) dict" | RehashFault

fun rehashLoop :: "nat \<Rightarrow> int \<Rightarrow> ('k, 'v) dict \<Rightarrow> ('k, 'v) rehash_result" where
  "rehashLoop 0 empty_visits d = RehashDone d"
| "rehashLoop (Suc n) empty_visits d =
     (if ht_used (d_ht0 d) = 0 then RehashDone d
      else if \<not> int (ht_size (d_ht0 d)) > d_rehashidx d then RehashFault
      else
        (case rehashSkip (ht_table (d_ht0 d)) (nat (d_rehashidx d)) empty_visits of
           SkipOutOfTable \<Rightarrow> RehashFault
         | SkipGaveUp idx \<Rightarrow> RehashPaused (d\<lparr>d_rehashidx := int idx\<rparr>)
         | SkipFound idx ev \<Rightarrow>
             let d1 = rehashMove (ht_table (d_ht0 d) ! idx) d;
                 d2 = d1\<lparr>d_ht0 := (d_ht0 d1)\<lparr>ht_table := (ht_table (d_ht0 d1))[idx := []]\<rparr>,
                         d_rehashidx := int idx + 1\<rparr>
             in rehashLoop n ev d2))"

text \<open>The result is \<open>True\<close> when there are still keys to move.\<close>

definition dictRehash :: "('k, 'v) dict \<Rightarrow> nat \<Rightarrow> (bool \<times> ('k, 'v) dict) option" where
  "dictRehash d n =
     (if \<not> dictIsRehashing d then Some (False, d)
      else
        (case rehashLoop n (int n * 10) d of
           RehashFault \<Rightarrow> None
         | RehashPaused d1 \<Rightarrow> Some (True, d1)
         | RehashDone d1 \<Rightarrow>
             if ht_used (d_ht0 d1) = 0
             then Some (False, d1\<lparr>d_ht0 := d_ht1 d1, d_ht1 := dictReset, d_rehashidx := -1\<rparr>)
             else Some (True, d1)))"

definition dictRehashStep :: "('k, 'v) dict \<Rightarrow> ('k, 'v) dict option" where
  "dictRehashStep d =
     (if d_iterators d = 0 then map_option snd (dictRehash d 1) else Some d)"

text \<open>
  \<open>dictRehashMilliseconds\<close>: \<open>clock i\<close> is the i-th reading of the clock, the first one
  the start; \<open>fuel\<close> bounds the calls of \<open>dictRehash\<close>.  The result counts the steps.
\<close>

fun rehashMsLoop :: "nat \<Rightarrow> (nat \<Rightarrow> int) \<Rightarrow> nat \<Rightarrow> int \<Rightarrow> ('k, 'v) dict \<Rightarrow> nat \<Rightarrow> (nat \<times> ('k, 'v) dict) option" where
  "rehashMsLoop 0 clock i ms d rehashes = None"
| "rehashMsLoop (Suc fuel) clock i ms d rehashes =
     (case dictRehash d 100 of
        None \<Rightarrow> None
      | Some (False, d1) \<Rightarrow> Some (rehashes, d1)
      | Some (True, d1) \<Rightarrow>
          if clock i - clock 0 > ms then Some (rehashes + 100, d1)
          else rehashMsLoop fuel clock (i + 1) ms d1 (rehashes + 100))"

definition dictRehashMilliseconds ::
  "nat \<Rightarrow> (nat \<Rightarrow> int) \<Rightarrow> ('k, 'v) dict \<Rightarrow> int \<Rightarrow> (nat \<times> ('k, 'v) dict) option" where
  "dictRehashMilliseconds fuel clock d ms = rehashMsLoop fuel clock 1 ms d 0"

definition rehash_step_if_needed :: "('k, 'v) dict \<Rightarrow> ('k, 'v) dict option" where
  "rehash_step_if_needed d = (if dictIsRehashing d then dictRehashStep d else Some d)"

subsection \<open>Lookup, insertion and deletion\<close>

definition chain_find :: "('k, 'v) dict \<Rightarrow> 'k \<Rightarrow> ('k, 'v) chain \<Rightarrow> ('k \<times> 'v) option" where
  "chain_find d key c = List.find (\<lambda>he. key = fst he \<or> dictCompareKeys d key (fst he)) c"

text \<open>
  \<open>dictKeyIndex\<close> returns the index of the bucket for a new entry, or \<open>-1\<close> with a
  reference to the existing entry if there is one.
\<close>

definition dictKeyIndex ::
  "bool \<Rightarrow> ('k, 'v) dict \<Rightarrow> 'k \<Rightarrow> u64 \<Rightarrow> int \<times> 'k entry_ref option \<times> ('k, 'v) dict" where
  "dictKeyIndex can_resize d key hash =
     (case dictExpandIfNeeded can_resize d of
        (DICT_ERR, d1) \<Rightarrow> (-1, None, d1)
      | (DICT_OK, d1) \<Rightarrow>
          let idx0 = bucket_index (d_ht0 d1) hash in
          (case chain_find d1 key (ht_table (d_ht0 d1) ! idx0) of
             Some he \<Rightarrow> (-1, Some (False, idx0, fst he), d1)
           | None \<Rightarrow>
               if \<not> dictIsRehashing d1 then (int idx0, None, d1)
               else
                 let idx1 = bucket_index (d_ht1 d1) hash in
                 (case chain_find d1 key (ht_table (d_ht1 d1) ! idx1) of
                    Some he \<Rightarrow> (-1, Some (True, idx1, fst he), d1)
                  | None \<Rightarrow> (int idx1, None, d1))))"

text \<open>
  \<open>dictAddRaw\<close> leaves the value of the new entry unset; \<open>uninit\<close> stands for the contents of
  the freshly allocated entry.
\<close>

definition dictAddRaw ::
  "bool \<Rightarrow> 'v \<Rightarrow> ('k, 'v) dict \<Rightarrow> 'k \<Rightarrow>
   ('k entry_ref option \<times> 'k entry_ref option \<times> ('k, 'v) dict) option" where
  "dictAddRaw can_resize uninit d key =
     (case rehash_step_if_needed d of
        None \<Rightarrow> None
      | Some d1 \<Rightarrow>
          (case dictKeyIndex can_resize d1 key (dictHashKey d1 key) of
             (index, existing, d2) \<Rightarrow>
               if index = -1 then Some (None, existing, d2)
               else if dictIsRehashing d2 then
                 Some (Some (True, nat index, key), None,
                       d2\<lparr>d_ht1 := ht_push (d_ht1 d2) (nat index) (key, uninit)\<rparr>)
               else
                 Some (Some (False, nat index, key), None,
                       d2\<lparr>d_ht0 := ht_push (d_ht0 d2) (nat index) (key, uninit)\<rparr>)))"

definition chain_set :: "'k \<Rightarrow> 'v \<Rightarrow> ('k, 'v) chain \<Rightarrow> ('k, 'v) chain" where
  "chain_set key val c = map (\<lambda>he. if fst he = key then (fst he, val) else he) c"

definition ht_set :: "('k, 'v) dictht \<Rightarrow> nat \<Rightarrow> 'k \<Rightarrow> 'v \<Rightarrow> ('k, 'v) dictht" where
  "ht_set ht idx key val =
     ht\<lparr>ht_table := (ht_table ht)[idx := chain_set key val (ht_table ht ! idx)]\<rparr>"

definition dictSetVal :: "('k, 'v) dict \<Rightarrow> 'k entry_ref \<Rightarrow> 'v \<Rightarrow> ('k, 'v) dict" where
  "dictSetVal d entry val =
     (case entry of (second, idx, key) \<Rightarrow>
        if second then d\<lparr>d_ht1 := ht_set (d_ht1 d) idx key val\<rparr>
        else d\<lparr>d_ht0 := ht_set (d_ht0 d) idx key val\<rparr>)"

definition dictAdd ::
  "bool \<Rightarrow> 'v \<Rightarrow> ('k, 'v) dict \<Rightarrow> 'k \<Rightarrow> 'v \<Rightarrow> (dict_rc \<times> ('k, 'v) dict) option" where
  "dictAdd can_resize uninit d key val =
     (case dictAddRaw can_resize uninit d key of
        None \<Rightarrow> None
      | Some (None, _, d1) \<Rightarrow> Some (DICT_ERR, d1)
      | Some (Some entry, _, d1) \<Rightarrow> Some (DICT_OK, dictSetVal d1 entry val))"

text \<open>
  \<open>dictReplace\<close> returns \<open>True\<close> (1) when the key was added.  When the key exists the old
  value is overwritten; a missing \<open>existing\<close> is a null dereference.
\<close>

definition dictReplace ::
  "bool \<Rightarrow> 'v \<Rightarrow> ('k, 'v) dict \<Rightarrow> 'k \<Rightarrow> 'v \<Rightarrow> (bool \<times> ('k, 'v) dict) option" where
  "dictReplace can_resize uninit d key val =
     (case dictAddRaw can_resize uninit d key of
        None \<Rightarrow> None
      | Some (Some entry, _, d1) \<Rightarrow> Some (True, dictSetVal d1 entry val)
      | Some (None, Some existing, d1) \<Rightarrow> Some (False, dictSetVal d1 existing val)
      | Some (None, None, d1) \<Rightarrow> None)"

definition dictAddOrFind ::
  "bool \<Rightarrow> 'v \<Rightarrow> ('k, 'v) dict \<Rightarrow> 'k \<Rightarrow> ('k entry_ref option \<times> ('k, 'v) dict) option" where
  "dictAddOrFind can_resize uninit d key =
     map_option (\<lambda>(entry, existing, d1). (case entry of None \<Rightarrow> existing | Some e \<Rightarrow> Some e, d1))
       (dictAddRaw can_resize uninit d key)"

text \<open>Unlinking the first entry of a chain that has the key.\<close>

fun chain_unlink :: "('k, 'v) dict \<Rightarrow> 'k \<Rightarrow> ('k, 'v) chain \<Rightarrow> (('k \<times> 'v) \<times> ('k, 'v) chain) option" where
  "chain_unlink d key [] = None"
| "chain_unlink d key (he # next) =
     (if key = fst he \<or> dictCompareKeys d key (fst he) then Some (he, next)
      else map_option (\<lambda>(e, rest). (e, he # rest)) (chain_unlink d key next))"

definition ht_unlink ::
  "('k, 'v) dict \<Rightarrow> ('k, 'v) dictht \<Rightarrow> 'k \<Rightarrow> u64 \<Rightarrow> (('k \<times> 'v) \<times> ('k, 'v) dictht) option" where
  "ht_unlink d ht key h =
     (let idx = bucket_index ht h in
      map_option
        (\<lambda>(e, rest). (e, ht\<lparr>ht_table := (ht_table ht)[idx := rest], ht_used := ht_used ht - 1\<rparr>))
        (chain_unlink d key (ht_table ht ! idx)))"

definition dictGenericDelete ::
  "('k, 'v) dict \<Rightarrow> 'k \<Rightarrow> (('k \<times> 'v) option \<times> ('k, 'v) dict) option" where
  "dictGenericDelete d key =
     (if ht_used (d_ht0 d) = 0 \<and> ht_used (d_ht1 d) = 0 then Some (None, d)
      else
        (case rehash_step_if_needed d of
           None \<Rightarrow> None
         | Some d1 \<Rightarrow>
             let h = dictHashKey d1 key in
             (case ht_unlink d1 (d_ht0 d1) key h of
                Some (he, ht) \<Rightarrow> Some (Some he, d1\<lparr>d_ht0 := ht\<rparr>)
              | None \<Rightarrow>
                  if \<not> dictIsRehashing d1 then Some (None, d1)
                  else
                    (case ht_unlink d1 (d_ht1 d1) key h of
                       Some (he, ht) \<Rightarrow> Some (Some he, d1\<lparr>d_ht1 := ht\<rparr>)
                     | None \<Rightarrow> Some (None, d1)))))"

definition dictDelete :: "('k, 'v) dict \<Rightarrow> 'k \<Rightarrow> (dict_rc \<times> ('k, 'v) dict) option" where
  "dictDelete d key =
     map_option (\<lambda>(he, d1). (if he \<noteq> None then DICT_OK else DICT_ERR, d1)) (dictGenericDelete d key)"

definition dictUnlink ::
  "('k, 'v) dict \<Rightarrow> 'k \<Rightarrow> (('k \<times> 'v) option \<times> ('k, 'v) dict) option" where
  "dictUnlink d key = dictGenericDelete d key"

definition dictFind :: "('k, 'v) dict \<Rightarrow> 'k \<Rightarrow> (('k \<times> 'v) option \<times> ('k, 'v) dict) option" where
  "dictFind d key =
     (if dictSize d = 0 then Some (None, d)
      else
        (case rehash_step_if_needed d of
           None \<Rightarrow> None
         | Some d1 \<Rightarrow>
             let h = dictHashKey d1 key in
             (case chain_find d1 key (ht_table (d_ht0 d1) ! bucket_index (d_ht0 d1) h) of
                Some he \<Rightarrow> Some (Some he, d1)
              | None \<Rightarrow>
                  if \<not> dictIsRehashing d1 then Some (None, d1)
                  else Some (chain_find d1 key (ht_table (d_ht1 d1) ! bucket_index (d_ht1 d1) h), d1))))"

definition dictFetchValue :: "('k, 'v) dict \<Rightarrow> 'k \<Rightarrow> ('v option \<times> ('k, 'v) dict) option" where
  "dictFetchValue d key = map_option (\<lambda>(he, d1). (map_option snd he, d1)) (dictFind d key)"

text \<open>
  \<open>clearLoop\<close> visits the buckets while the table still has used entries and collects the
  entries it frees, in order; the table is then reset.
\<close>

fun clearLoop :: "('k, 'v) chain list \<Rightarrow> nat \<Rightarrow> ('k \<times> 'v) list" where
  "clearLoop [] used = []"
| "clearLoop (he # tbl) used = (if used > 0 then he @ clearLoop tbl (used - length he) else [])"

definition dictClear :: "('k, 'v) dictht \<Rightarrow> ('k \<times> 'v) list \<times> ('k, 'v) dictht" where
  "dictClear ht = (clearLoop (ht_table ht) (ht_used ht), dictReset)"

definition dictRelease :: "('k, 'v) dict \<Rightarrow> ('k \<times> 'v) list" where
  "dictRelease d = fst (dictClear (d_ht0 d)) @ fst (dictClear (d_ht1 d))"

definition dictEmpty :: "('k, 'v) dict \<Rightarrow> ('k \<times> 'v) list \<times> ('k, 'v) dict" where
  "dictEmpty d =
     (let (f0, h0) = dictClear (d_ht0 d); (f1, h1) = dictClear (d_ht1 d)
      in (f0 @ f1, d\<lparr>d_ht0 := h0, d_ht1 := h1, d_rehashidx := -1, d_iterators := 0\<rparr>))"

section \<open>Well-formed tables and the map they hold\<close>

definition ht_wf :: "('k \<Rightarrow> u64) \<Rightarrow> ('k, 'v) dictht \<Rightarrow> bool" where
  "ht_wf hash ht \<longleftrightarrow>
     (\<exists>k \<in> set [0..<64]. ht_size ht = 2 ^ k) \<and>
     length (ht_table ht) = ht_size ht \<and>
     ht_sizemask ht = of_nat (ht_size ht - 1) \<and>
     ht_used ht = length (concat (ht_table ht)) \<and>
     (\<forall>i \<in> set [0..<ht_size ht]. \<forall>e \<in> set (ht_table ht ! i). bucket_index ht (hash (fst e)) = i)"

definition dict_entries :: "('k, 'v) dict \<Rightarrow> ('k \<times> 'v) list" where
  "dict_entries d = concat (ht_table (d_ht0 d)) @ concat (ht_table (d_ht1 d))"

definition dict_map :: "('k, 'v) dict \<Rightarrow> 'k \<rightharpoonup> 'v" where
  "dict_map d = map_of (dict_entries d)"

definition dict_wf :: "('k, 'v) dict \<Rightarrow> bool" where
  "dict_wf d \<longleftrightarrow>
     distinct (map fst (dict_entries d)) \<and>
     (if dictIsRehashing d
      then ht_wf (hashFunction (d_type d)) (d_ht0 d) \<and> ht_wf (hashFunction (d_type d)) (d_ht1 d) \<and>
           0 \<le> d_rehashidx d \<and> d_rehashidx d \<le> int (ht_size (d_ht0 d)) \<and>
           (\<forall>i \<in> set [0..<nat (d_rehashidx d)]. ht_table (d_ht0 d) ! i = [])
      else d_ht1 d = dictReset \<and>
           (d_ht0 d = dictReset \<or> ht_wf (hashFunction (d_type d)) (d_ht0 d)))"

text \<open>What the server's dictionary types provide: \<open>keyCompare\<close> decides equality of keys.\<close>

definition dictType_ok :: "'k dictType \<Rightarrow> bool" where
  "dictType_ok t \<longleftrightarrow> (\<forall>a b. keyCompare t a b \<longleftrightarrow> a = b)"

section \<open>Lemmas\<close>

subsection \<open>Lists of chains\<close>

lemma mset_concat_update:
  "i < length xs \<Longrightarrow> mset (concat (xs[i := c])) + mset (xs ! i) = mset (concat xs) + mset c"
proof (induction xs arbitrary: i)
  case (Cons x xs)
  then show ?case by (cases i) (auto simp: ac_simps)
qed simp

lemma mset_concat_push:
  "i < length xs \<Longrightarrow> mset (concat (xs[i := e # xs ! i])) = add_mset e (mset (concat xs))"
  using mset_concat_update [of i xs "e # xs ! i"] by simp

lemma mset_concat_clear:
  "i < length xs \<Longrightarrow> mset (concat (xs[i := []])) = mset (concat xs) - mset (xs ! i)"
  using mset_concat_update [of i xs "[]"] by (metis add.right_neutral add_diff_cancel_right' mset.simps(1))

lemma map_of_filter_key: "map_of (filter (\<lambda>e. fst e = k) xs) k = map_of xs k"
  by (induction xs) auto

lemma map_of_concat_bucket:
  assumes "i < length xs" and "\<And>j e. j < length xs \<Longrightarrow> j \<noteq> i \<Longrightarrow> e \<in> set (xs ! j) \<Longrightarrow> fst e \<noteq> k"
  shows "map_of (concat xs) k = map_of (xs ! i) k"
  using assms
proof (induction xs arbitrary: i)
  case (Cons x xs)
  show ?case
  proof (cases i)
    case 0
    have "map_of (concat xs) k = None"
    proof -
      have "fst e \<noteq> k" if "e \<in> set (concat xs)" for e
      proof -
        from that obtain c where "c \<in> set xs" "e \<in> set c" by auto
        then obtain j where "j < length xs" "e \<in> set (xs ! j)"
          by (metis in_set_conv_nth)
        then show ?thesis using Cons.prems(2) [of "Suc j" e] 0 by simp
      qed
      then show ?thesis by (auto simp: map_of_eq_None_iff)
    qed
    with 0 show ?thesis by (simp add: map_add_def split: option.split)
  next
    case (Suc n)
    have "map_of x k = None"
      using Cons.prems(2) [of 0] Suc by (auto simp: map_of_eq_None_iff)
    moreover have "map_of (concat xs) k = map_of (xs ! n) k"
      using Cons.prems Suc by (intro Cons.IH) (auto, metis Suc_less_eq nat.inject nth_Cons_Suc)
    ultimately show ?thesis using Suc by (simp add: map_add_def split: option.split)
  qed
qed simp

lemma map_of_mset_eq:
  assumes "mset xs = mset ys" "distinct (map fst xs)"
  shows "map_of xs = map_of ys" "distinct (map fst ys)"
proof -
  show d: "distinct (map fst ys)"
    using assms by (metis mset_eq_imp_distinct_iff mset_map)
  show "map_of xs = map_of ys"
    using assms d by (metis map_of_inject_set mset_eq_setD)
qed

subsection \<open>One table\<close>

lemma bucket_index_less:
  assumes "ht_wf hash ht"
  shows "bucket_index ht h < ht_size ht"
proof -
  obtain k where k: "k < 64" "ht_size ht = 2 ^ k" "ht_sizemask ht = of_nat (ht_size ht - 1)"
    using assms by (auto simp: ht_wf_def)
  have "(of_nat (2 ^ k - 1) :: u64) = mask k"
    by (simp add: mask_eq_exp_minus_1 of_nat_diff)
  then have "bucket_index ht h = take_bit k (unat h)"
    using k by (simp add: bucket_index_def unsigned_take_bit_eq flip: take_bit_eq_mask)
  with k show ?thesis by simp
qed

lemma ht_wf_length: "ht_wf hash ht \<Longrightarrow> length (ht_table ht) = ht_size ht"
  by (simp add: ht_wf_def)

lemma ht_wf_used: "ht_wf hash ht \<Longrightarrow> ht_used ht = length (concat (ht_table ht))"
  by (simp add: ht_wf_def)

lemma ht_wf_bucket:
  "ht_wf hash ht \<Longrightarrow> i < ht_size ht \<Longrightarrow> e \<in> set (ht_table ht ! i) \<Longrightarrow> bucket_index ht (hash (fst e)) = i"
  by (auto simp: ht_wf_def)

lemma ht_wf_size_pos: "ht_wf hash ht \<Longrightarrow> 0 < ht_size ht"
  by (auto simp: ht_wf_def)

lemma ht_lookup:
  assumes "ht_wf hash ht"
  shows "map_of (ht_table ht ! bucket_index ht (hash k)) k = map_of (concat (ht_table ht)) k"
proof (rule map_of_concat_bucket [symmetric])
  show "bucket_index ht (hash k) < length (ht_table ht)"
    using assms by (simp add: bucket_index_less ht_wf_length)
  show "fst e \<noteq> k" if "j < length (ht_table ht)" "j \<noteq> bucket_index ht (hash k)" "e \<in> set (ht_table ht ! j)" for j e
    using ht_wf_bucket [OF assms, of j e] that assms by (auto simp: ht_wf_length)
qed

text \<open>Replacing one bucket by a chain whose keys belong there keeps the table well-formed.\<close>

lemma ht_wf_update:
  assumes "ht_wf hash ht" "i < ht_size ht" "\<forall>e \<in> set c. bucket_index ht (hash (fst e)) = i"
    and "n + length (ht_table ht ! i) = ht_used ht + length c"
  shows "ht_wf hash (ht\<lparr>ht_table := (ht_table ht)[i := c], ht_used := n\<rparr>)"
proof -
  define ht' where "ht' = ht\<lparr>ht_table := (ht_table ht)[i := c], ht_used := n\<rparr>"
  have "size (mset (concat ((ht_table ht)[i := c])) + mset (ht_table ht ! i)) =
        size (mset (concat (ht_table ht)) + mset c)"
    using assms(1,2) by (subst mset_concat_update) (auto simp: ht_wf_def)
  then have "n = length (concat ((ht_table ht)[i := c]))"
    using assms(1,4) by (simp add: ht_wf_used)
  then have "ht_used ht' = length (concat (ht_table ht'))"
    by (simp add: ht'_def)
  moreover have "bucket_index ht' (hash (fst e)) = j" if "j < ht_size ht" "e \<in> set (ht_table ht' ! j)" for j e
    using that assms(2,3) ht_wf_bucket [OF assms(1) that(1), of e] ht_wf_length [OF assms(1)]
    by (cases "i = j") (auto simp: ht'_def bucket_index_def)
  ultimately show ?thesis
    using assms(1) unfolding ht'_def [symmetric] by (simp add: ht_wf_def ht'_def)
qed

lemma ht_wf_push:
  assumes "ht_wf hash ht" "i = bucket_index ht (hash (fst e))"
  shows "ht_wf hash (ht_push ht i e)"
  unfolding ht_push_def using assms bucket_index_less [OF assms(1)]
  by (intro ht_wf_update) (auto dest: ht_wf_bucket)

lemma bucket_index_push [simp]: "bucket_index (ht_push ht i e) h = bucket_index ht h"
  by (simp add: bucket_index_def ht_push_def)

lemma ht_push_simps [simp]:
  "ht_size (ht_push ht i e) = ht_size ht" "ht_sizemask (ht_push ht i e) = ht_sizemask ht"
  "ht_used (ht_push ht i e) = Suc (ht_used ht)"
  by (simp_all add: ht_push_def)

lemma mset_ht_push:
  "i < length (ht_table ht) \<Longrightarrow>
   mset (concat (ht_table (ht_push ht i e))) = add_mset e (mset (concat (ht_table ht)))"
  by (simp add: ht_push_def mset_concat_push)

subsection \<open>Sizes\<close>

declare dictNextPowerLoop.simps [simp del] rehashSkip.simps [simp del]

lemma dictNextPowerLoop_spec:
  assumes "i = 2 ^ a" "sz \<le> 2 ^ 63" "a \<le> 63"
  shows "\<exists>k \<le> 63. dictNextPowerLoop i sz = 2 ^ k \<and> sz \<le> 2 ^ k \<and> a \<le> k"
  using assms
proof (induction i sz arbitrary: a rule: dictNextPowerLoop.induct)
  case (1 i sz)
  show ?case
  proof (cases "sz \<le> i")
    case True
    then have "dictNextPowerLoop i sz = i" by (subst dictNextPowerLoop.simps) simp
    with True "1.prems" show ?thesis by auto
  next
    case False
    have pos: "i \<noteq> 0" using "1.prems"(1) by simp
    have step: "dictNextPowerLoop i sz = dictNextPowerLoop (i * 2) sz"
      using False pos by (subst dictNextPowerLoop.simps) simp
    have "(2 :: nat) ^ a < 2 ^ 63"
      using False "1.prems"(1,2) by (metis less_le_trans not_le)
    then have "a < 63" by (rule power_less_imp_less_exp [rotated]) simp
    then have "\<exists>k \<le> 63. dictNextPowerLoop (i * 2) sz = 2 ^ k \<and> sz \<le> 2 ^ k \<and> Suc a \<le> k"
      using False pos "1.prems" by (intro "1.IH") auto
    then show ?thesis unfolding step by (metis Suc_leD)
  qed
qed

lemma dictNextPower_spec:
  assumes "sz \<le> 2 ^ 63"
  obtains k where "k \<le> 63" "dictNextPower sz = 2 ^ k" "sz \<le> 2 ^ k" "2 \<le> k"
proof (cases "sz \<ge> 2 ^ 63 - 1")
  case True
  with assms show ?thesis by (intro that [of 63]) (auto simp: dictNextPower_def)
next
  case False
  with assms dictNextPowerLoop_spec [of 4 2 sz] show ?thesis
    by (auto simp: dictNextPower_def DICT_HT_INITIAL_SIZE_def intro: that)
qed

lemma ht_wf_fresh:
  assumes "k \<le> 63"
  shows "ht_wf hash \<lparr>ht_table = replicate (2 ^ k) [], ht_size = 2 ^ k,
     ht_sizemask = of_nat (2 ^ k - 1), ht_used = 0\<rparr>"
  using assms by (auto simp: ht_wf_def concat_replicate_trivial)

subsection \<open>Incremental rehashing\<close>

lemma rehashSkip_spec:
  "case rehashSkip tbl idx ev of
     SkipFound i _ \<Rightarrow> idx \<le> i \<and> i < length tbl \<and> tbl ! i \<noteq> [] \<and> (\<forall>j. idx \<le> j \<and> j < i \<longrightarrow> tbl ! j = [])
   | SkipGaveUp i \<Rightarrow> idx < i \<and> i \<le> length tbl \<and> (\<forall>j. idx \<le> j \<and> j < i \<longrightarrow> tbl ! j = [])
   | SkipOutOfTable \<Rightarrow> \<forall>j. idx \<le> j \<and> j < length tbl \<longrightarrow> tbl ! j = []"
proof (induction tbl idx ev rule: rehashSkip.induct)
  case (1 tbl idx ev)
  show ?case
  proof (cases "idx < length tbl \<and> tbl ! idx = [] \<and> ev - 1 \<noteq> 0")
    case True
    then have eq: "rehashSkip tbl idx ev = rehashSkip tbl (Suc idx) (ev - 1)"
      by (subst rehashSkip.simps) simp
    have ext: "\<forall>j. idx \<le> j \<and> j < n \<longrightarrow> tbl ! j = []" if "\<forall>j. Suc idx \<le> j \<and> j < n \<longrightarrow> tbl ! j = []" for n
      using that True by (metis Suc_leI le_neq_implies_less)
    from True "1.IH" have IH: "case rehashSkip tbl (Suc idx) (ev - 1) of
        SkipFound i _ \<Rightarrow> Suc idx \<le> i \<and> i < length tbl \<and> tbl ! i \<noteq> [] \<and> (\<forall>j. Suc idx \<le> j \<and> j < i \<longrightarrow> tbl ! j = [])
      | SkipGaveUp i \<Rightarrow> Suc idx < i \<and> i \<le> length tbl \<and> (\<forall>j. Suc idx \<le> j \<and> j < i \<longrightarrow> tbl ! j = [])
      | SkipOutOfTable \<Rightarrow> \<forall>j. Suc idx \<le> j \<and> j < length tbl \<longrightarrow> tbl ! j = []"
      unfolding Suc_eq_plus1 by blast
    show ?thesis
    proof (cases "rehashSkip tbl (Suc idx) (ev - 1)")
      case (SkipFound i e)
      with IH show ?thesis using ext [of i] by (simp add: eq)
    next
      case (SkipGaveUp i)
      with IH show ?thesis using ext [of i] by (simp add: eq)
    next
      case SkipOutOfTable
      with IH show ?thesis using ext [of "length tbl"] by (simp add: eq)
    qed
  next
    case False
    then consider "idx \<ge> length tbl" | "idx < length tbl" "tbl ! idx \<noteq> []"
      | "idx < length tbl" "tbl ! idx = []" "ev - 1 = 0" by linarith
    then show ?thesis
      by cases (subst rehashSkip.simps, auto simp: less_Suc_eq)+
  qed
qed

lemma rehashMove_keeps [simp]:
  "d_type (rehashMove c d) = d_type d" "d_rehashidx (rehashMove c d) = d_rehashidx d"
  "d_iterators (rehashMove c d) = d_iterators d"
  "d_ht0 (rehashMove c d) = (d_ht0 d)\<lparr>ht_used := ht_used (d_ht0 d) - length c\<rparr>"
  by (induction c arbitrary: d) (auto simp: Let_def)

lemma rehashMove_second:
  assumes "ht_wf (hashFunction (d_type d)) (d_ht1 d)"
  shows "ht_wf (hashFunction (d_type d)) (d_ht1 (rehashMove c d)) \<and>
    mset (concat (ht_table (d_ht1 (rehashMove c d)))) = mset (concat (ht_table (d_ht1 d))) + mset c"
  using assms
proof (induction c arbitrary: d)
  case (Cons e c)
  let ?h = "bucket_index (d_ht1 d) (dictHashKey d (fst e))"
  let ?d = "d\<lparr>d_ht1 := ht_push (d_ht1 d) ?h e, d_ht0 := (d_ht0 d)\<lparr>ht_used := ht_used (d_ht0 d) - 1\<rparr>\<rparr>"
  have "ht_wf (hashFunction (d_type d)) (ht_push (d_ht1 d) ?h e)"
    using Cons.prems by (intro ht_wf_push) (simp_all add: dictHashKey_def)
  moreover have "?h < length (ht_table (d_ht1 d))"
    using Cons.prems by (simp add: bucket_index_less ht_wf_length)
  ultimately show ?case
    using Cons.IH [of ?d] by (simp add: Let_def mset_ht_push)
qed simp

text \<open>What one pass of the outer loop, and the whole loop, keep of a table being rehashed.\<close>

definition rehash_keeps :: "('k, 'v) dict \<Rightarrow> ('k, 'v) dict \<Rightarrow> bool" where
  "rehash_keeps d d' \<longleftrightarrow>
     d_type d' = d_type d \<and> d_iterators d' = d_iterators d \<and>
     mset (dict_entries d') = mset (dict_entries d)"

lemma rehash_keeps_refl [simp]: "rehash_keeps d d"
  by (simp add: rehash_keeps_def)

lemma rehash_keeps_trans: "rehash_keeps a b \<Longrightarrow> rehash_keeps b c \<Longrightarrow> rehash_keeps a c"
  by (simp add: rehash_keeps_def)

lemma rehash_keeps_distinct:
  "rehash_keeps d d' \<Longrightarrow> distinct (map fst (dict_entries d)) \<Longrightarrow> distinct (map fst (dict_entries d'))"
  using map_of_mset_eq(2) [of "dict_entries d" "dict_entries d'"] by (simp add: rehash_keeps_def)

lemma rehash_keeps_map:
  "rehash_keeps d d' \<Longrightarrow> dict_wf d \<Longrightarrow> dict_map d' = dict_map d"
  using map_of_mset_eq(1) [of "dict_entries d" "dict_entries d'"]
  by (simp add: rehash_keeps_def dict_map_def dict_wf_def)

lemma dict_wf_rehashingD:
  assumes "dict_wf d" "dictIsRehashing d"
  shows "ht_wf (hashFunction (d_type d)) (d_ht0 d)" "ht_wf (hashFunction (d_type d)) (d_ht1 d)"
    "0 \<le> d_rehashidx d" "d_rehashidx d \<le> int (ht_size (d_ht0 d))"
    "\<And>i. i < nat (d_rehashidx d) \<Longrightarrow> ht_table (d_ht0 d) ! i = []"
  using assms by (auto simp: dict_wf_def)

lemma concat_all_empty: "(\<And>i. i < length xs \<Longrightarrow> xs ! i = []) \<Longrightarrow> concat xs = []"
  by (auto simp: in_set_conv_nth)

text \<open>
  One pass of the outer loop: the first non-empty bucket at or after \<open>rehashidx\<close> moves to
  the second table.
\<close>

lemma rehash_pass:
  assumes wf: "dict_wf d" "dictIsRehashing d" and used: "ht_used (d_ht0 d) \<noteq> 0"
  shows "d_rehashidx d < int (ht_size (d_ht0 d))"
    and "case rehashSkip (ht_table (d_ht0 d)) (nat (d_rehashidx d)) ev of
      SkipOutOfTable \<Rightarrow> False
    | SkipGaveUp idx \<Rightarrow>
        let d' = d\<lparr>d_rehashidx := int idx\<rparr>
        in dict_wf d' \<and> dictIsRehashing d' \<and> d_rehashidx d < d_rehashidx d'
    | SkipFound idx _ \<Rightarrow>
        let d1 = rehashMove (ht_table (d_ht0 d) ! idx) d;
            d' = d1\<lparr>d_ht0 := (d_ht0 d1)\<lparr>ht_table := (ht_table (d_ht0 d1))[idx := []]\<rparr>,
                    d_rehashidx := int idx + 1\<rparr>
        in dict_wf d' \<and> dictIsRehashing d' \<and> rehash_keeps d d' \<and>
           ht_size (d_ht0 d') = ht_size (d_ht0 d) \<and> d_rehashidx d < d_rehashidx d'"
proof -
  note w = dict_wf_rehashingD [OF wf]
  let ?t = "ht_table (d_ht0 d)"
  have len: "length ?t = ht_size (d_ht0 d)" using w(1) by (rule ht_wf_length)
  have "concat ?t \<noteq> []" using used w(1) by (auto simp: ht_wf_used)
  then obtain j where j: "j < length ?t" "?t ! j \<noteq> []"
    using concat_all_empty [of ?t] by blast
  then have "nat (d_rehashidx d) \<le> j" using w(5) [of j] by (meson not_le)
  with j len w(3) show "d_rehashidx d < int (ht_size (d_ht0 d))" by linarith
  show "case rehashSkip ?t (nat (d_rehashidx d)) ev of
      SkipOutOfTable \<Rightarrow> False
    | SkipGaveUp idx \<Rightarrow>
        let d' = d\<lparr>d_rehashidx := int idx\<rparr>
        in dict_wf d' \<and> dictIsRehashing d' \<and> d_rehashidx d < d_rehashidx d'
    | SkipFound idx _ \<Rightarrow>
        let d1 = rehashMove (?t ! idx) d;
            d' = d1\<lparr>d_ht0 := (d_ht0 d1)\<lparr>ht_table := (ht_table (d_ht0 d1))[idx := []]\<rparr>,
                    d_rehashidx := int idx + 1\<rparr>
        in dict_wf d' \<and> dictIsRehashing d' \<and> rehash_keeps d d' \<and>
           ht_size (d_ht0 d') = ht_size (d_ht0 d) \<and> d_rehashidx d < d_rehashidx d'"
  proof (cases "rehashSkip ?t (nat (d_rehashidx d)) ev")
    case SkipOutOfTable
    with rehashSkip_spec [where tbl = ?t and idx = "nat (d_rehashidx d)" and ev = ev] j \<open>nat (d_rehashidx d) \<le> j\<close>
    show ?thesis by auto
  next
    case (SkipGaveUp idx)
    with rehashSkip_spec [where tbl = ?t and idx = "nat (d_rehashidx d)" and ev = ev]
    have i: "nat (d_rehashidx d) < idx" "idx \<le> length ?t" "\<forall>j. nat (d_rehashidx d) \<le> j \<and> j < idx \<longrightarrow> ?t ! j = []"
      by simp_all
    then have "\<forall>j < idx. ?t ! j = []" using w(5) by (meson not_le)
    with SkipGaveUp i wf w len show ?thesis
      by (auto simp: Let_def dict_wf_def dictIsRehashing_def dict_entries_def)
  next
    case (SkipFound idx e)
    with rehashSkip_spec [where tbl = ?t and idx = "nat (d_rehashidx d)" and ev = ev]
    have i: "nat (d_rehashidx d) \<le> idx" "idx < length ?t" "\<forall>j. nat (d_rehashidx d) \<le> j \<and> j < idx \<longrightarrow> ?t ! j = []"
      by simp_all
    then have below: "\<forall>j < idx. ?t ! j = []" using w(5) by (meson not_le)
    define d1 where "d1 = rehashMove (?t ! idx) d"
    define d' where "d' = d1\<lparr>d_ht0 := (d_ht0 d1)\<lparr>ht_table := (ht_table (d_ht0 d1))[idx := []]\<rparr>,
                    d_rehashidx := int idx + 1\<rparr>"
    have h1: "ht_wf (hashFunction (d_type d)) (d_ht1 d1)"
      "mset (concat (ht_table (d_ht1 d1))) = mset (concat (ht_table (d_ht1 d))) + mset (?t ! idx)"
      using rehashMove_second [OF w(2), of "?t ! idx"] by (simp_all add: d1_def)
    have sub: "mset (?t ! idx) \<subseteq># mset (concat ?t)"
      using mset_concat_update [OF i(2), of "[]"] by (metis add.right_neutral mset.simps(1) mset_subset_eq_add_right)
    have used_le: "length (?t ! idx) \<le> ht_used (d_ht0 d)"
      using size_mset_mono [OF sub] w(1) by (simp add: ht_wf_used)
    have ht0: "d_ht0 d' = (d_ht0 d)\<lparr>ht_table := ?t[idx := []], ht_used := ht_used (d_ht0 d) - length (?t ! idx)\<rparr>"
      by (intro dictht.equality) (simp_all add: d'_def d1_def)
    have h0: "ht_wf (hashFunction (d_type d)) (d_ht0 d')"
      using ht_wf_update [OF w(1), of idx "[]" "ht_used (d_ht0 d) - length (?t ! idx)"] i(2) used_le len
      by (simp add: ht0)
    have keeps: "rehash_keeps d d'"
      using i(2) h1(2) sub by (simp add: rehash_keeps_def d'_def dict_entries_def d1_def mset_concat_clear)
    have "dict_wf d'"
      using h0 h1(1) wf i below len rehash_keeps_distinct [OF keeps]
      by (auto simp: dict_wf_def dictIsRehashing_def d'_def d1_def nth_list_update less_Suc_eq nat_add_distrib)
    then show ?thesis
      using SkipFound keeps i w(3) by (simp add: d'_def d1_def Let_def dictIsRehashing_def)
  qed
qed

lemma rehashLoop_spec:
  assumes "dict_wf d" "dictIsRehashing d"
  shows "case rehashLoop n ev d of
      RehashFault \<Rightarrow> False
    | RehashPaused d' \<Rightarrow> dict_wf d' \<and> dictIsRehashing d' \<and> rehash_keeps d d' \<and>
        ht_size (d_ht0 d') = ht_size (d_ht0 d) \<and> d_rehashidx d < d_rehashidx d'
    | RehashDone d' \<Rightarrow> dict_wf d' \<and> dictIsRehashing d' \<and> rehash_keeps d d' \<and>
        ht_size (d_ht0 d') = ht_size (d_ht0 d) \<and> d_rehashidx d \<le> d_rehashidx d' \<and>
        (0 < n \<longrightarrow> ht_used (d_ht0 d') = 0 \<or> d_rehashidx d < d_rehashidx d')"
  using assms
proof (induction n ev d rule: rehashLoop.induct)
  case (1 ev d)
  then show ?case by simp
next
  case (2 n ev d)
  show ?case
  proof (cases "ht_used (d_ht0 d) = 0")
    case True
    with 2 show ?thesis by simp
  next
    case False
    note pass = rehash_pass(1) [OF 2(2,3) False] rehash_pass(2) [OF 2(2,3) False, where ev = ev]
    show ?thesis
    proof (cases "rehashSkip (ht_table (d_ht0 d)) (nat (d_rehashidx d)) ev")
      case (SkipFound idx ev')
      define d1 where "d1 = rehashMove (ht_table (d_ht0 d) ! idx) d"
      define d' where "d' = d1\<lparr>d_ht0 := (d_ht0 d1)\<lparr>ht_table := (ht_table (d_ht0 d1))[idx := []]\<rparr>,
                    d_rehashidx := int idx + 1\<rparr>"
      have p: "dict_wf d'" "dictIsRehashing d'" "rehash_keeps d d'"
        "ht_size (d_ht0 d') = ht_size (d_ht0 d)" "d_rehashidx d < d_rehashidx d'"
        using pass(2) SkipFound by (simp_all add: Let_def d'_def d1_def)
      have eq: "rehashLoop (Suc n) ev d = rehashLoop n ev' d'"
        using False pass(1) SkipFound by (simp add: Let_def d'_def d1_def)
      have IH: "case rehashLoop n ev' d' of
          RehashFault \<Rightarrow> False
        | RehashPaused d'' \<Rightarrow> dict_wf d'' \<and> dictIsRehashing d'' \<and> rehash_keeps d' d'' \<and>
            ht_size (d_ht0 d'') = ht_size (d_ht0 d') \<and> d_rehashidx d' < d_rehashidx d''
        | RehashDone d'' \<Rightarrow> dict_wf d'' \<and> dictIsRehashing d'' \<and> rehash_keeps d' d'' \<and>
            ht_size (d_ht0 d'') = ht_size (d_ht0 d') \<and> d_rehashidx d' \<le> d_rehashidx d'' \<and>
            (0 < n \<longrightarrow> ht_used (d_ht0 d'') = 0 \<or> d_rehashidx d' < d_rehashidx d'')"
        using "2.IH" [OF False _ SkipFound d1_def d'_def p(1,2)] pass(1) by simp
      show ?thesis
        using IH p rehash_keeps_trans [OF p(3)] unfolding eq by (auto split: rehash_result.splits)
    qed (use False pass in \<open>simp_all add: Let_def rehash_keeps_def dict_entries_def\<close>)
  qed
qed

lemma dictRehash_spec:
  assumes wf: "dict_wf d"
  obtains more d' where "dictRehash d n = Some (more, d')" "dict_wf d'" "rehash_keeps d d'"
    "more \<longleftrightarrow> dictIsRehashing d'" "more \<Longrightarrow> dictIsRehashing d"
    "more \<Longrightarrow> 0 < n \<Longrightarrow> ht_size (d_ht0 d') = ht_size (d_ht0 d) \<and> d_rehashidx d < d_rehashidx d'"
proof (cases "dictIsRehashing d")
  case False
  with wf show ?thesis by (intro that [of False d]) (auto simp: dictRehash_def)
next
  case True
  note loop = rehashLoop_spec [OF wf True, where n = n and ev = "int n * 10"]
  show ?thesis
  proof (cases "rehashLoop n (int n * 10) d")
    case RehashFault
    with loop show ?thesis by simp
  next
    case (RehashPaused d')
    with loop True show ?thesis by (intro that [of True d']) (auto simp: dictRehash_def)
  next
    case (RehashDone d1)
    note l = loop [unfolded RehashDone, simplified]
    show ?thesis
    proof (cases "ht_used (d_ht0 d1) = 0")
      case False
      with RehashDone l True show ?thesis by (intro that [of True d1]) (auto simp: dictRehash_def)
    next
      case empty: True
      let ?d = "d1\<lparr>d_ht0 := d_ht1 d1, d_ht1 := dictReset, d_rehashidx := -1\<rparr>"
      have w: "dict_wf d1" "dictIsRehashing d1" using l by auto
      have "concat (ht_table (d_ht0 d1)) = []"
        using empty dict_wf_rehashingD(1) [OF w] by (simp add: ht_wf_used)
      then have "mset (dict_entries ?d) = mset (dict_entries d1)" "dict_entries ?d = dict_entries d1"
        by (simp_all add: dict_entries_def dictReset_def)
      then have "rehash_keeps d ?d" "dict_wf ?d"
        using l w dict_wf_rehashingD(2) [OF w] by (auto simp: rehash_keeps_def dict_wf_def dictIsRehashing_def)
      with empty RehashDone True show ?thesis
        by (intro that [of False ?d]) (auto simp: dictRehash_def dictIsRehashing_def)
    qed
  qed
qed

lemma rehash_step_spec:
  assumes "dict_wf d"
  obtains d' where "rehash_step_if_needed d = Some d'" "dict_wf d'" "rehash_keeps d d'"
proof (cases "dictIsRehashing d \<and> d_iterators d = 0")
  case True
  obtain more d' where "dictRehash d 1 = Some (more, d')" "dict_wf d'" "rehash_keeps d d'"
    using assms by (rule dictRehash_spec)
  with True show ?thesis by (intro that [of d']) (auto simp: rehash_step_if_needed_def dictRehashStep_def)
next
  case False
  with assms show ?thesis
    by (intro that [of d]) (auto simp: rehash_step_if_needed_def dictRehashStep_def)
qed

lemma dict_wf_hash0:
  assumes "dict_wf d" "dict_entries d \<noteq> [] \<or> dictIsRehashing d"
  shows "ht_wf (hashFunction (d_type d)) (d_ht0 d)"
  using assms by (auto simp: dict_wf_def dict_entries_def dictReset_def split: if_splits)

lemma dict_wf_size: "dict_wf d \<Longrightarrow> dictSize d = length (dict_entries d)"
  by (auto simp: dict_wf_def dictSize_def dict_entries_def dictReset_def ht_wf_used split: if_splits)

lemma rehash_keeps_entries: "rehash_keeps d d' \<Longrightarrow> dict_entries d' = [] \<longleftrightarrow> dict_entries d = []"
  by (metis mset_zero_iff rehash_keeps_def)

lemma rehash_keeps_size: "rehash_keeps d d' \<Longrightarrow> length (dict_entries d') = length (dict_entries d)"
  by (metis rehash_keeps_def size_mset)

lemma dict_map_lookup:
  assumes wf: "dict_wf d" and h0: "ht_wf (hashFunction (d_type d)) (d_ht0 d)"
  shows "dict_map d key =
    (case map_of (ht_table (d_ht0 d) ! bucket_index (d_ht0 d) (dictHashKey d key)) key of
       Some v \<Rightarrow> Some v
     | None \<Rightarrow> if dictIsRehashing d
         then map_of (ht_table (d_ht1 d) ! bucket_index (d_ht1 d) (dictHashKey d key)) key else None)"
proof (cases "dictIsRehashing d")
  case True
  then show ?thesis
    using wf h0 dict_wf_rehashingD(2) [OF wf True]
    by (simp add: dict_map_def dict_entries_def dictHashKey_def ht_lookup map_add_def split: option.split)
next
  case False
  with wf have "d_ht1 d = dictReset" by (simp add: dict_wf_def)
  with False show ?thesis
    using h0 by (simp add: dict_map_def dict_entries_def dictHashKey_def ht_lookup dictReset_def split: option.split)
qed

lemma chain_find_ok:
  "dictType_ok (d_type d) \<Longrightarrow> chain_find d key c = map_option (Pair key) (map_of c key)"
  by (induction c) (auto simp: chain_find_def dictCompareKeys_def dictType_ok_def)

subsection \<open>Expansion\<close>

lemma dictExpand_spec:
  assumes wf: "dict_wf d" and "\<not> dictIsRehashing d" "sz \<le> 2 ^ 63"
  shows "dict_wf (snd (dictExpand d sz))" "rehash_keeps d (snd (dictExpand d sz))"
    and "ht_used (d_ht0 d) \<le> sz \<Longrightarrow> (\<And>k. sz \<le> 2 ^ k \<Longrightarrow> 2 \<le> k \<Longrightarrow> ht_size (d_ht0 d) \<noteq> 2 ^ k) \<Longrightarrow>
      fst (dictExpand d sz) = DICT_OK \<and> ht_wf (hashFunction (d_type d)) (d_ht0 (snd (dictExpand d sz)))"
proof -
  obtain k where k: "k \<le> 63" "dictNextPower sz = 2 ^ k" "sz \<le> 2 ^ k" "2 \<le> k"
    using assms(3) by (rule dictNextPower_spec)
  let ?n = "\<lparr>ht_table = replicate (2 ^ k) [], ht_size = 2 ^ k,
     ht_sizemask = of_nat (2 ^ k - 1), ht_used = 0\<rparr> :: ('a, 'b) dictht"
  have n: "ht_wf (hashFunction (d_type d)) ?n" using k(1) by (rule ht_wf_fresh)
  have e: "concat (ht_table ?n) = []" by (simp add: concat_replicate_trivial)
  have d1: "d_ht1 d = dictReset" and d0: "d_ht0 d = dictReset \<or> ht_wf (hashFunction (d_type d)) (d_ht0 d)"
    using wf assms(2) by (auto simp: dict_wf_def)
  have null: "ht_table (d_ht0 d) = [] \<longleftrightarrow> d_ht0 d = dictReset"
    using d0 ht_wf_length ht_wf_size_pos by (fastforce simp: dictReset_def)
  have "fst (dictExpand d sz) = DICT_ERR \<and> snd (dictExpand d sz) = d \<and>
      (ht_used (d_ht0 d) > sz \<or> ht_size (d_ht0 d) = 2 ^ k) \<or>
    fst (dictExpand d sz) = DICT_OK \<and> d_ht0 d = dictReset \<and> snd (dictExpand d sz) = d\<lparr>d_ht0 := ?n\<rparr> \<or>
    fst (dictExpand d sz) = DICT_OK \<and> d_ht0 d \<noteq> dictReset \<and> snd (dictExpand d sz) = d\<lparr>d_ht1 := ?n, d_rehashidx := 0\<rparr>"
    using assms(2) k(2) null by (auto simp: dictExpand_def Let_def)
  moreover have "dict_wf (d\<lparr>d_ht0 := ?n\<rparr>)" "rehash_keeps d (d\<lparr>d_ht0 := ?n\<rparr>)" if "d_ht0 d = dictReset"
    using wf assms(2) n e d1 that
    by (simp_all add: dict_wf_def dictIsRehashing_def dict_entries_def rehash_keeps_def dictReset_def)
  moreover have "dict_wf (d\<lparr>d_ht1 := ?n, d_rehashidx := 0\<rparr>)" "rehash_keeps d (d\<lparr>d_ht1 := ?n, d_rehashidx := 0\<rparr>)"
    if "d_ht0 d \<noteq> dictReset"
    using wf assms(2) n e d1 d0 that
    by (simp_all add: dict_wf_def dictIsRehashing_def dict_entries_def rehash_keeps_def dictReset_def)
  ultimately show "dict_wf (snd (dictExpand d sz))" "rehash_keeps d (snd (dictExpand d sz))"
    "ht_used (d_ht0 d) \<le> sz \<Longrightarrow> (\<And>k. sz \<le> 2 ^ k \<Longrightarrow> 2 \<le> k \<Longrightarrow> ht_size (d_ht0 d) \<noteq> 2 ^ k) \<Longrightarrow>
      fst (dictExpand d sz) = DICT_OK \<and> ht_wf (hashFunction (d_type d)) (d_ht0 (snd (dictExpand d sz)))"
    using wf n d0 k by auto
qed

lemma dictExpandIfNeeded_spec:
  assumes wf: "dict_wf d" and lim: "dictSize d < 2 ^ 62"
  obtains d' where "dictExpandIfNeeded can d = (DICT_OK, d')" "dict_wf d'" "rehash_keeps d d'"
    "ht_wf (hashFunction (d_type d)) (d_ht0 d')"
proof -
  consider (rehashing) "dictIsRehashing d" | (null) "\<not> dictIsRehashing d" "ht_size (d_ht0 d) = 0"
    | (full) "\<not> dictIsRehashing d" "ht_size (d_ht0 d) \<noteq> 0" "ht_used (d_ht0 d) \<ge> ht_size (d_ht0 d)"
        "can \<or> ht_used (d_ht0 d) div ht_size (d_ht0 d) > dict_force_resize_ratio"
    | (roomy) "\<not> dictIsRehashing d" "ht_size (d_ht0 d) \<noteq> 0"
        "\<not> (ht_used (d_ht0 d) \<ge> ht_size (d_ht0 d) \<and>
          (can \<or> ht_used (d_ht0 d) div ht_size (d_ht0 d) > dict_force_resize_ratio))"
    by blast
  then show ?thesis
  proof cases
    case rehashing
    with wf show ?thesis
      by (intro that [of d]) (auto simp: dictExpandIfNeeded_def dict_wf_hash0)
  next
    case null
    with wf have "ht_used (d_ht0 d) = 0"
      by (auto simp: dict_wf_def dictReset_def dest: ht_wf_size_pos)
    then show ?thesis
      using null dictExpand_spec [OF wf null(1), of DICT_HT_INITIAL_SIZE]
      by (cases "dictExpand d DICT_HT_INITIAL_SIZE")
        (auto simp: DICT_HT_INITIAL_SIZE_def dictExpandIfNeeded_def intro: that)
  next
    case full
    let ?sz = "ht_used (d_ht0 d) * 2"
    have "?sz < 2 ^ 63" using lim by (simp add: dictSize_def)
    then have m: "?sz mod 2 ^ 64 = ?sz" "?sz \<le> 2 ^ 63" by simp_all
    have "ht_size (d_ht0 d) \<noteq> 2 ^ k" if "?sz \<le> 2 ^ k" for k
      using that full(2,3) by simp
    then show ?thesis
      using full m(1) dictExpand_spec [OF wf full(1) m(2)]
      by (cases "dictExpand d ?sz") (auto simp: dictExpandIfNeeded_def intro: that)
  next
    case roomy
    with wf have "ht_wf (hashFunction (d_type d)) (d_ht0 d)"
      by (auto simp: dict_wf_def dictReset_def)
    with wf roomy show ?thesis
      by (intro that [of d]) (auto simp: dictExpandIfNeeded_def)
  qed
qed

subsection \<open>References to entries\<close>

definition ref_valid :: "('k, 'v) dict \<Rightarrow> 'k entry_ref \<Rightarrow> bool" where
  "ref_valid d r \<longleftrightarrow>
     (case r of (second, idx, key) \<Rightarrow>
        if second then dictIsRehashing d \<and> idx < ht_size (d_ht1 d) \<and> key \<in> fst ` set (ht_table (d_ht1 d) ! idx)
        else idx < ht_size (d_ht0 d) \<and> key \<in> fst ` set (ht_table (d_ht0 d) ! idx))"

abbreviation entry_set :: "'k \<Rightarrow> 'v \<Rightarrow> 'k \<times> 'v \<Rightarrow> 'k \<times> 'v" where
  "entry_set key val he \<equiv> (if fst he = key then (fst he, val) else he)"

lemma map_of_entry_set:
  "key \<in> fst ` set es \<Longrightarrow> map_of (map (entry_set key val) es) = (map_of es)(key \<mapsto> val)"
proof (induction es)
  case (Cons e es)
  show ?case
  proof (cases "key \<in> fst ` set es")
    case True
    with Cons.IH show ?thesis by (auto simp: fun_eq_iff)
  next
    case False
    with Cons.prems have "fst e = key" by auto
    moreover have "map (entry_set key val) es = es"
      using False by (intro map_idI) (metis image_eqI)
    ultimately show ?thesis by (auto simp: fun_eq_iff)
  qed
qed simp

lemma entry_set_id: "key \<notin> fst ` set es \<Longrightarrow> map (entry_set key val) es = es"
  by (intro map_idI) (metis image_eqI)

lemma ht_set_entries:
  assumes wf: "ht_wf hash ht" and i: "i < ht_size ht" "key \<in> fst ` set (ht_table ht ! i)"
  shows "concat (ht_table (ht_set ht i key val)) = map (entry_set key val) (concat (ht_table ht))"
    and "ht_wf hash (ht_set ht i key val)"
proof -
  have bi: "bucket_index ht (hash key) = i" using ht_wf_bucket [OF wf i(1)] i(2) by auto
  have other: "map (entry_set key val) (ht_table ht ! j) = ht_table ht ! j" if "j < ht_size ht" "j \<noteq> i" for j
    using ht_wf_bucket [OF wf that(1)] bi that(2) by (intro entry_set_id) auto
  have eq: "map (map (entry_set key val)) (ht_table ht) = ht_table (ht_set ht i key val)"
  proof (rule nth_equalityI)
    fix j assume "j < length (map (map (entry_set key val)) (ht_table ht))"
    then show "map (map (entry_set key val)) (ht_table ht) ! j = ht_table (ht_set ht i key val) ! j"
      using other [of j] ht_wf_length [OF wf] by (cases "j = i") (simp_all add: ht_set_def chain_set_def)
  qed (simp add: ht_set_def)
  show "concat (ht_table (ht_set ht i key val)) = map (entry_set key val) (concat (ht_table ht))"
    unfolding eq [symmetric] by (rule map_concat [symmetric])
  have "\<forall>e \<in> set (chain_set key val (ht_table ht ! i)). bucket_index ht (hash (fst e)) = i"
    using ht_wf_bucket [OF wf i(1)] by (auto simp: chain_set_def)
  with wf i(1)
  have "ht_wf hash (ht\<lparr>ht_table := (ht_table ht)[i := chain_set key val (ht_table ht ! i)], ht_used := ht_used ht\<rparr>)"
    by (rule ht_wf_update) (simp add: chain_set_def)
  then show "ht_wf hash (ht_set ht i key val)" by (simp add: ht_set_def)
qed

lemma dictSetVal_keeps [simp]:
  "d_type (dictSetVal d r val) = d_type d" "d_iterators (dictSetVal d r val) = d_iterators d"
  "d_rehashidx (dictSetVal d r val) = d_rehashidx d"
  "dictIsRehashing (dictSetVal d r val) = dictIsRehashing d"
  by (auto simp: dictSetVal_def dictIsRehashing_def split: prod.splits)

lemma map_fst_entry_set [simp]: "map fst (map (entry_set key val) es) = map fst es"
  by (induction es) auto

lemma dictSetVal_spec:
  assumes wf: "dict_wf d" and r: "ref_valid d (second, idx, key)"
  shows "dict_wf (dictSetVal d (second, idx, key) val)"
    and "dict_map (dictSetVal d (second, idx, key) val) = (dict_map d)(key \<mapsto> val)"
    and "length (dict_entries (dictSetVal d (second, idx, key) val)) = length (dict_entries d)"
proof -
  let ?f = "entry_set key val" and ?d = "dictSetVal d (second, idx, key) val"
  let ?e0 = "concat (ht_table (d_ht0 d))" and ?e1 = "concat (ht_table (d_ht1 d))"
  have dist: "distinct (map fst (?e0 @ ?e1))" using wf by (simp add: dict_wf_def dict_entries_def)
  have ent: "dict_entries ?d = map ?f (dict_entries d)" and key: "key \<in> fst ` set (dict_entries d)"
    and "dict_wf ?d"
  proof -
    consider (first) "\<not> second" "idx < ht_size (d_ht0 d)" "key \<in> fst ` set (ht_table (d_ht0 d) ! idx)"
      | (second) "second" "dictIsRehashing d" "idx < ht_size (d_ht1 d)" "key \<in> fst ` set (ht_table (d_ht1 d) ! idx)"
      using r by (auto simp: ref_valid_def split: if_splits)
    then have "dict_entries ?d = map ?f (dict_entries d) \<and> key \<in> fst ` set (dict_entries d) \<and> dict_wf ?d"
    proof cases
      case first
      then have h: "ht_wf (hashFunction (d_type d)) (d_ht0 d)"
        using wf by (auto simp: dict_wf_def dictReset_def split: if_splits)
      have "ht_table (d_ht0 d) ! idx \<in> set (ht_table (d_ht0 d))"
        using first(2) ht_wf_length [OF h] by simp
      then have k0: "key \<in> fst ` set ?e0" using first(3) by (force simp: image_iff)
      then have "key \<notin> fst ` set ?e1" using dist by auto
      then have e: "dict_entries ?d = map ?f (dict_entries d)"
        using first(1) ht_set_entries(1) [OF h first(2,3)]
        by (simp add: dictSetVal_def dict_entries_def entry_set_id)
      have pre: "(ht_table (d_ht0 d))[idx := c] ! i = []" if "dictIsRehashing d" "i < nat (d_rehashidx d)" for i c
        using dict_wf_rehashingD(5) [OF wf that] first(3) by (cases "i = idx") auto
      have "dict_wf ?d"
        unfolding dict_wf_def e map_fst_entry_set
        using wf first(1) ht_set_entries(2) [OF h first(2,3)] pre
        by (auto simp: dict_wf_def dictSetVal_def dictIsRehashing_def ht_set_def)
      with e k0 show ?thesis by (simp add: dict_entries_def image_Un)
    next
      case second
      then have h: "ht_wf (hashFunction (d_type d)) (d_ht1 d)"
        using wf by (simp add: dict_wf_def)
      have "ht_table (d_ht1 d) ! idx \<in> set (ht_table (d_ht1 d))"
        using second(3) ht_wf_length [OF h] by simp
      then have k1: "key \<in> fst ` set ?e1" using second(4) by (force simp: image_iff)
      then have "key \<notin> fst ` set ?e0" using dist by auto
      then have e: "dict_entries ?d = map ?f (dict_entries d)"
        using second(1) ht_set_entries(1) [OF h second(3,4)]
        by (simp add: dictSetVal_def dict_entries_def entry_set_id)
      have "dict_wf ?d"
        unfolding dict_wf_def e map_fst_entry_set
        using wf second(1,2) ht_set_entries(2) [OF h second(3,4)]
        by (auto simp: dict_wf_def dictSetVal_def dictIsRehashing_def)
      with e k1 show ?thesis by (simp add: dict_entries_def image_Un)
    qed
    then show "dict_entries ?d = map ?f (dict_entries d)" "key \<in> fst ` set (dict_entries d)" "dict_wf ?d" by auto
  qed
  then show "dict_wf ?d" "dict_map ?d = (dict_map d)(key \<mapsto> val)" "length (dict_entries ?d) = length (dict_entries d)"
    by (simp_all add: dict_map_def map_of_entry_set del: fun_upd_apply)
qed

subsection \<open>Insertion\<close>

text \<open>The bucket of the active table that a new key belongs to.\<close>

definition insert_index :: "('k, 'v) dict \<Rightarrow> 'k \<Rightarrow> nat" where
  "insert_index d key =
     (if dictIsRehashing d then bucket_index (d_ht1 d) (dictHashKey d key)
      else bucket_index (d_ht0 d) (dictHashKey d key))"

lemma map_of_SomeD_fst: "map_of c key = Some v \<Longrightarrow> key \<in> fst ` set c"
  by (metis domI dom_map_of_conv_image_fst)

lemma dictKeyIndex_spec:
  assumes wf: "dict_wf d" and ok: "dictType_ok (d_type d)" and lim: "dictSize d < 2 ^ 62"
  obtains d' where "dict_wf d'" "rehash_keeps d d'" "ht_wf (hashFunction (d_type d')) (d_ht0 d')"
    "dict_map d key = None \<longrightarrow> dictKeyIndex can d key (dictHashKey d key) = (int (insert_index d' key), None, d')"
    "dict_map d key \<noteq> None \<longrightarrow> (\<exists>second idx. dictKeyIndex can d key (dictHashKey d key) = (-1, Some (second, idx, key), d') \<and>
        ref_valid d' (second, idx, key))"
proof -
  obtain d' where d': "dictExpandIfNeeded can d = (DICT_OK, d')" "dict_wf d'" "rehash_keeps d d'"
    "ht_wf (hashFunction (d_type d)) (d_ht0 d')"
    using wf lim by (rule dictExpandIfNeeded_spec)
  have t: "d_type d' = d_type d" using d'(3) by (simp add: rehash_keeps_def)
  have h: "dictHashKey d key = dictHashKey d' key" by (simp add: dictHashKey_def t)
  have m: "dict_map d key = dict_map d' key" using rehash_keeps_map [OF d'(3) wf] by simp
  note find = chain_find_ok [OF ok [folded t]]
  let ?i0 = "bucket_index (d_ht0 d') (dictHashKey d' key)"
  let ?i1 = "bucket_index (d_ht1 d') (dictHashKey d' key)"
  note look = dict_map_lookup [OF d'(2) d'(4) [folded t], of key]
  have b0: "?i0 < ht_size (d_ht0 d')" using d'(4) by (rule bucket_index_less)
  have b1: "?i1 < ht_size (d_ht1 d')" if "dictIsRehashing d'"
    using dict_wf_rehashingD(2) [OF d'(2) that] by (rule bucket_index_less)
  show ?thesis
  proof (rule that [OF d'(2,3) d'(4) [folded t]]; rule impI)
    show "dictKeyIndex can d key (dictHashKey d key) = (int (insert_index d' key), None, d')"
      if "dict_map d key = None"
      using that look m
      by (auto simp: dictKeyIndex_def d'(1) h find insert_index_def split: option.splits if_splits)
    show "\<exists>second idx. dictKeyIndex can d key (dictHashKey d key) = (-1, Some (second, idx, key), d') \<and>
        ref_valid d' (second, idx, key)" if some: "dict_map d key \<noteq> None"
    proof (cases "map_of (ht_table (d_ht0 d') ! ?i0) key")
      case (Some v)
      then show ?thesis
        using b0 by (intro exI [of _ False] exI [of _ ?i0])
          (auto simp: dictKeyIndex_def d'(1) h find ref_valid_def dest: map_of_SomeD_fst)
    next
      case None
      with some look m obtain v where r: "dictIsRehashing d'" "map_of (ht_table (d_ht1 d') ! ?i1) key = Some v"
        by (auto split: if_splits)
      with None show ?thesis
        using b1 by (intro exI [of _ True] exI [of _ ?i1])
          (auto simp: dictKeyIndex_def d'(1) h find ref_valid_def dest: map_of_SomeD_fst)
    qed
  qed
qed

lemma dict_push_spec:
  fixes v :: 'v and d :: "('k, 'v) dict"
  assumes wf: "dict_wf d" and h0: "ht_wf (hashFunction (d_type d)) (d_ht0 d)" and none: "dict_map d key = None"
  defines "i \<equiv> insert_index d key"
  defines "d' \<equiv> (if dictIsRehashing d then d\<lparr>d_ht1 := ht_push (d_ht1 d) i (key, v)\<rparr>
                 else d\<lparr>d_ht0 := ht_push (d_ht0 d) i (key, v)\<rparr>)"
  shows "dict_wf d'" "dict_map d' = (dict_map d)(key \<mapsto> v)" "ref_valid d' (dictIsRehashing d, i, key)"
    "length (dict_entries d') = Suc (length (dict_entries d))"
proof -
  have h1: "ht_wf (hashFunction (d_type d)) (d_ht1 d)" if "dictIsRehashing d"
    using dict_wf_rehashingD(2) [OF wf that] .
  have ms: "mset (dict_entries d') = mset ((key, v) # dict_entries d)"
    using h0 h1 bucket_index_less [OF h0] bucket_index_less [OF h1]
    by (auto simp: d'_def i_def insert_index_def dict_entries_def mset_ht_push ht_wf_length)
  have key: "key \<notin> fst ` set (dict_entries d)"
    using none by (simp add: dict_map_def map_of_eq_None_iff)
  have dist: "distinct (map fst ((key, v) # dict_entries d))"
    using wf key by (simp add: dict_wf_def)
  then have dist': "distinct (map fst (dict_entries d'))"
    using map_of_mset_eq(2) [OF ms [symmetric]] by simp
  show "dict_map d' = (dict_map d)(key \<mapsto> v)"
    using map_of_mset_eq(1) [OF ms [symmetric] dist] by (simp add: dict_map_def)
  show "length (dict_entries d') = Suc (length (dict_entries d))"
    using ms by (metis length_Cons size_mset)
  show "dict_wf d'"
  proof (cases "dictIsRehashing d")
    case True
    have "ht_wf (hashFunction (d_type d)) (ht_push (d_ht1 d) i (key, v))"
      using h1 [OF True] True by (intro ht_wf_push) (auto simp: i_def insert_index_def dictHashKey_def)
    with True wf dist' show ?thesis
      by (simp add: d'_def dict_wf_def dictIsRehashing_def)
  next
    case False
    have "ht_wf (hashFunction (d_type d)) (ht_push (d_ht0 d) i (key, v))"
      using h0 False by (intro ht_wf_push) (auto simp: i_def insert_index_def dictHashKey_def)
    with False wf dist' show ?thesis
      by (simp add: d'_def dict_wf_def dictIsRehashing_def)
  qed
  show "ref_valid d' (dictIsRehashing d, i, key)"
    using h0 h1 bucket_index_less [OF h0] bucket_index_less [OF h1]
    by (auto simp: ref_valid_def d'_def i_def insert_index_def ht_push_def dictIsRehashing_def ht_wf_length)
qed

lemma dictAddRaw_spec:
  assumes wf: "dict_wf d" and ok: "dictType_ok (d_type d)" and lim: "dictSize d < 2 ^ 62"
  obtains (added) second idx d' where
      "dictAddRaw can uninit d key = Some (Some (second, idx, key), None, d')" "dict_map d key = None"
      "dict_wf d'" "d_type d' = d_type d" "d_iterators d' = d_iterators d"
      "dict_map d' = (dict_map d)(key \<mapsto> uninit)" "ref_valid d' (second, idx, key)"
      "length (dict_entries d') = Suc (length (dict_entries d))"
  | (present) second idx d' where
      "dictAddRaw can uninit d key = Some (None, Some (second, idx, key), d')" "dict_map d key \<noteq> None"
      "dict_wf d'" "rehash_keeps d d'" "ref_valid d' (second, idx, key)"
proof -
  obtain d1 where d1: "rehash_step_if_needed d = Some d1" "dict_wf d1" "rehash_keeps d d1"
    using wf by (rule rehash_step_spec)
  have t1: "d_type d1 = d_type d" "d_iterators d1 = d_iterators d" using d1(3) by (simp_all add: rehash_keeps_def)
  have lim1: "dictSize d1 < 2 ^ 62"
    using lim rehash_keeps_size [OF d1(3)] dict_wf_size [OF wf] dict_wf_size [OF d1(2)] by simp
  have m1: "dict_map d1 = dict_map d" using rehash_keeps_map [OF d1(3) wf] .
  obtain d2 where d2: "dict_wf d2" "rehash_keeps d1 d2" "ht_wf (hashFunction (d_type d2)) (d_ht0 d2)"
    "dict_map d1 key = None \<longrightarrow> dictKeyIndex can d1 key (dictHashKey d1 key) = (int (insert_index d2 key), None, d2)"
    "dict_map d1 key \<noteq> None \<longrightarrow> (\<exists>second idx. dictKeyIndex can d1 key (dictHashKey d1 key) = (-1, Some (second, idx, key), d2) \<and>
        ref_valid d2 (second, idx, key))"
    using d1(2) ok [folded t1(1)] lim1 by (rule dictKeyIndex_spec [where key = key and can = can])
  have k2: "rehash_keeps d d2" using d1(3) d2(2) by (rule rehash_keeps_trans)
  have m2: "dict_map d2 = dict_map d" using rehash_keeps_map [OF k2 wf] .
  show ?thesis
  proof (cases "dict_map d key")
    case None
    with m2 have "dict_map d2 key = None" by simp
    note push = dict_push_spec [OF d2(1,3) this, where v = uninit]
    show ?thesis
      using push d1(1) d2(4) None m1 m2 k2 rehash_keeps_size [OF k2]
      by (intro added) (auto simp: dictAddRaw_def rehash_keeps_def)
  next
    case (Some v)
    then obtain second idx where "dictKeyIndex can d1 key (dictHashKey d1 key) = (-1, Some (second, idx, key), d2)"
      "ref_valid d2 (second, idx, key)"
      using d2(5) m1 by auto
    with Some d1(1) d2(1) k2 show ?thesis
      by (intro present) (auto simp: dictAddRaw_def)
  qed
qed

lemma dictAdd_spec:
  assumes wf: "dict_wf d" and ok: "dictType_ok (d_type d)" and lim: "dictSize d < 2 ^ 62"
  obtains rc d' where "dictAdd can uninit d key val = Some (rc, d')" "dict_wf d'" "d_type d' = d_type d"
    "d_iterators d' = d_iterators d"
    "rc = DICT_OK \<longleftrightarrow> dict_map d key = None"
    "dict_map d' = (if dict_map d key = None then (dict_map d)(key \<mapsto> val) else dict_map d)"
  using wf ok lim
proof (cases rule: dictAddRaw_spec [where can = can and uninit = uninit and key = key])
  case (added second idx d')
  note set = dictSetVal_spec [OF added(3) added(7), of val]
  show ?thesis
    using added set by (intro that [of DICT_OK "dictSetVal d' (second, idx, key) val"]) (auto simp: dictAdd_def)
next
  case (present second idx d')
  then show ?thesis
    using rehash_keeps_map [OF present(4) wf]
    by (intro that [of DICT_ERR d']) (auto simp: dictAdd_def rehash_keeps_def)
qed

lemma dictReplace_spec:
  assumes wf: "dict_wf d" and ok: "dictType_ok (d_type d)" and lim: "dictSize d < 2 ^ 62"
  obtains new d' where "dictReplace can uninit d key val = Some (new, d')" "dict_wf d'" "d_type d' = d_type d"
    "d_iterators d' = d_iterators d"
    "new \<longleftrightarrow> dict_map d key = None" "dict_map d' = (dict_map d)(key \<mapsto> val)"
  using wf ok lim
proof (cases rule: dictAddRaw_spec [where can = can and uninit = uninit and key = key])
  case (added second idx d')
  note set = dictSetVal_spec [OF added(3) added(7), of val]
  show ?thesis
    using added set by (intro that [of True "dictSetVal d' (second, idx, key) val"]) (auto simp: dictReplace_def)
next
  case (present second idx d')
  note set = dictSetVal_spec [OF present(3) present(5), of val]
  show ?thesis
    using present set rehash_keeps_map [OF present(4) wf]
    by (intro that [of False "dictSetVal d' (second, idx, key) val"]) (auto simp: dictReplace_def rehash_keeps_def)
qed

subsection \<open>Lookup and deletion\<close>

lemma dictFind_spec:
  assumes wf: "dict_wf d" and ok: "dictType_ok (d_type d)"
  obtains d' where "dictFind d key = Some (map_option (Pair key) (dict_map d key), d')"
    "dict_wf d'" "rehash_keeps d d'"
proof (cases "dictSize d = 0")
  case True
  then have "dict_map d key = None"
    using dict_wf_size [OF wf] by (simp add: dict_map_def)
  with True wf show ?thesis by (intro that [of d]) (auto simp: dictFind_def)
next
  case False
  obtain d1 where d1: "rehash_step_if_needed d = Some d1" "dict_wf d1" "rehash_keeps d d1"
    using wf by (rule rehash_step_spec)
  have t1: "d_type d1 = d_type d" using d1(3) by (simp add: rehash_keeps_def)
  have "dict_entries d1 \<noteq> []"
    using False dict_wf_size [OF wf] rehash_keeps_entries [OF d1(3)] by simp
  then have h0: "ht_wf (hashFunction (d_type d1)) (d_ht0 d1)"
    using dict_wf_hash0 [OF d1(2)] by simp
  note look = dict_map_lookup [OF d1(2) h0, of key]
  have "dict_map d key = dict_map d1 key" using rehash_keeps_map [OF d1(3) wf] by simp
  then have "dictFind d key = Some (map_option (Pair key) (dict_map d key), d1)"
    using False d1(1) look chain_find_ok [OF ok [folded t1]]
    by (auto simp: dictFind_def Let_def split: option.splits if_splits)
  with d1 show ?thesis by (intro that [of d1])
qed

lemma chain_unlink_ok:
  assumes "dictType_ok (d_type d)"
  shows "case chain_unlink d key c of
      None \<Rightarrow> map_of c key = None
    | Some (e, rest) \<Rightarrow> \<exists>v. e = (key, v) \<and> map_of c key = Some v \<and> mset c = add_mset (key, v) (mset rest) \<and>
        set rest \<subseteq> set c"
proof (induction c)
  case (Cons e c)
  then show ?case
    using assms by (cases e) (auto simp: dictCompareKeys_def dictType_ok_def split: option.splits)
qed simp

lemma ht_unlink_ok:
  assumes ok: "dictType_ok (d_type d)" and wf: "ht_wf (hashFunction (d_type d)) ht"
  shows "case ht_unlink d ht key (dictHashKey d key) of
      None \<Rightarrow> map_of (concat (ht_table ht)) key = None
    | Some (e, ht') \<Rightarrow> \<exists>v. e = (key, v) \<and> map_of (concat (ht_table ht)) key = Some v \<and>
        mset (concat (ht_table ht)) = add_mset (key, v) (mset (concat (ht_table ht'))) \<and>
        ht_wf (hashFunction (d_type d)) ht' \<and> ht_size ht' = ht_size ht \<and>
        (\<forall>i < ht_size ht. ht_table ht ! i = [] \<longrightarrow> ht_table ht' ! i = [])"
proof -
  let ?i = "bucket_index ht (dictHashKey d key)"
  have i: "?i < ht_size ht" using wf by (rule bucket_index_less)
  have look: "map_of (ht_table ht ! ?i) key = map_of (concat (ht_table ht)) key"
    using ht_lookup [OF wf, of key] by (simp add: dictHashKey_def)
  show ?thesis
  proof (cases "chain_unlink d key (ht_table ht ! ?i)")
    case None
    then show ?thesis
      using chain_unlink_ok [OF ok, where key = key and c = "ht_table ht ! ?i"] look by (simp add: ht_unlink_def)
  next
    case (Some er)
    obtain e rest where er: "er = (e, rest)" by fastforce
    let ?ht = "ht\<lparr>ht_table := (ht_table ht)[?i := rest], ht_used := ht_used ht - 1\<rparr>"
    obtain v where v: "e = (key, v)" "map_of (ht_table ht ! ?i) key = Some v"
      "mset (ht_table ht ! ?i) = add_mset (key, v) (mset rest)" "set rest \<subseteq> set (ht_table ht ! ?i)"
      using chain_unlink_ok [OF ok, where key = key and c = "ht_table ht ! ?i"] Some er by auto
    have len: "length (ht_table ht ! ?i) = Suc (length rest)"
      using arg_cong [OF v(3), of size] by simp
    have "mset (concat ((ht_table ht)[?i := rest])) + mset (ht_table ht ! ?i) = mset (concat (ht_table ht)) + mset rest"
      using i ht_wf_length [OF wf] by (intro mset_concat_update) simp
    then have ms: "mset (concat (ht_table ht)) = add_mset (key, v) (mset (concat (ht_table ?ht)))"
      by (simp add: v(3))
    have "ht_used ht \<noteq> 0" using arg_cong [OF ms, of size] ht_wf_used [OF wf] by simp
    then have "ht_wf (hashFunction (d_type d)) ?ht"
      using wf i v(4) ht_wf_bucket [OF wf i] len by (intro ht_wf_update) auto
    moreover have "(ht_table ht)[?i := rest] ! j = []" if "ht_table ht ! j = []" "j < ht_size ht" for j
      using that len by (cases "j = ?i") auto
    ultimately show ?thesis
      using Some er v(1,2) look ms by (simp add: ht_unlink_def Let_def)
  qed
qed

lemma map_of_remove:
  assumes "mset es = add_mset (key, v) (mset es')" "distinct (map fst es)"
  shows "map_of es' = (map_of es)(key := None)" "distinct (map fst es')" "map_of es key = Some v"
proof -
  have ms: "mset es = mset ((key, v) # es')" using assms(1) by simp
  have dist: "distinct (map fst ((key, v) # es'))" using map_of_mset_eq(2) [OF ms assms(2)] .
  then have key: "map_of es' key = None" by (simp add: map_of_eq_None_iff)
  have eq: "map_of es = (map_of es')(key \<mapsto> v)" using map_of_mset_eq(1) [OF ms assms(2)] by simp
  show "map_of es' = (map_of es)(key := None)" using key by (auto simp: eq fun_eq_iff)
  show "distinct (map fst es')" using dist by simp
  show "map_of es key = Some v" by (simp add: eq)
qed

lemma dictGenericDelete_spec:
  assumes wf: "dict_wf d" and ok: "dictType_ok (d_type d)"
  obtains d' where "dictGenericDelete d key = Some (map_option (Pair key) (dict_map d key), d')"
    "dict_wf d'" "d_type d' = d_type d" "d_iterators d' = d_iterators d"
    "dict_map d' = (dict_map d)(key := None)"
proof (cases "dict_entries d = []")
  case True
  then have "dictSize d = 0" "dict_map d = Map.empty"
    using dict_wf_size [OF wf] by (simp_all add: dict_map_def)
  with wf show ?thesis by (intro that [of d]) (auto simp: dictGenericDelete_def dictSize_def)
next
  case False
  then have ne: "\<not> (ht_used (d_ht0 d) = 0 \<and> ht_used (d_ht1 d) = 0)"
    using dict_wf_size [OF wf] by (auto simp: dictSize_def)
  obtain d1 where d1: "rehash_step_if_needed d = Some d1" "dict_wf d1" "rehash_keeps d d1"
    using wf by (rule rehash_step_spec)
  have t1: "d_type d1 = d_type d" "d_iterators d1 = d_iterators d" using d1(3) by (simp_all add: rehash_keeps_def)
  have m1: "dict_map d1 = dict_map d" using rehash_keeps_map [OF d1(3) wf] .
  have h0: "ht_wf (hashFunction (d_type d1)) (d_ht0 d1)"
    using dict_wf_hash0 [OF d1(2)] False rehash_keeps_entries [OF d1(3)] by simp
  have h1: "ht_wf (hashFunction (d_type d1)) (d_ht1 d1)" if "dictIsRehashing d1"
    using dict_wf_rehashingD(2) [OF d1(2) that] .
  have dist: "distinct (map fst (dict_entries d1))" using d1(2) by (simp add: dict_wf_def)
  note ok1 = ok [folded t1(1)]
  note u0 = ht_unlink_ok [OF ok1 h0, where key = key] and u1 = ht_unlink_ok [OF ok1 h1, where key = key]
  let ?h = "dictHashKey d1 key"
  consider (first) he ht where "ht_unlink d1 (d_ht0 d1) key ?h = Some (he, ht)"
    | (second) he ht where "ht_unlink d1 (d_ht0 d1) key ?h = None" "dictIsRehashing d1"
        "ht_unlink d1 (d_ht1 d1) key ?h = Some (he, ht)"
    | (none) "ht_unlink d1 (d_ht0 d1) key ?h = None"
        "dictIsRehashing d1 \<Longrightarrow> ht_unlink d1 (d_ht1 d1) key ?h = None"
    by (metis not_None_eq surj_pair)
  then show ?thesis
  proof cases
    case first
    obtain v where v: "he = (key, v)"
      "mset (concat (ht_table (d_ht0 d1))) = add_mset (key, v) (mset (concat (ht_table ht)))"
      "ht_wf (hashFunction (d_type d1)) ht" "ht_size ht = ht_size (d_ht0 d1)"
      "\<forall>i < ht_size (d_ht0 d1). ht_table (d_ht0 d1) ! i = [] \<longrightarrow> ht_table ht ! i = []"
      using u0 first by auto
    let ?d = "d1\<lparr>d_ht0 := ht\<rparr>"
    have "mset (dict_entries d1) = add_mset (key, v) (mset (dict_entries ?d))"
      using v(2) by (simp add: dict_entries_def)
    note r = map_of_remove [OF this dist]
    have "dict_wf ?d"
      using d1(2) r(2) v(3,4,5) by (auto simp: dict_wf_def dictIsRehashing_def)
    with r t1 m1 ne d1(1) first v(1) show ?thesis
      by (intro that [of ?d]) (auto simp: dictGenericDelete_def dict_map_def Let_def)
  next
    case second
    obtain v where v: "he = (key, v)"
      "mset (concat (ht_table (d_ht1 d1))) = add_mset (key, v) (mset (concat (ht_table ht)))"
      "ht_wf (hashFunction (d_type d1)) ht"
      using u1 second by auto
    let ?d = "d1\<lparr>d_ht1 := ht\<rparr>"
    have "mset (dict_entries d1) = add_mset (key, v) (mset (dict_entries ?d))"
      using v(2) by (simp add: dict_entries_def)
    note r = map_of_remove [OF this dist]
    have "dict_wf ?d"
      using d1(2) second(2) r(2) v(3) by (auto simp: dict_wf_def dictIsRehashing_def)
    with r t1 m1 ne d1(1) second v(1) show ?thesis
      by (intro that [of ?d]) (auto simp: dictGenericDelete_def dict_map_def Let_def)
  next
    case none
    have "map_of (concat (ht_table (d_ht1 d1))) key = None"
      using none(2) u1 d1(2) by (cases "dictIsRehashing d1") (auto simp: dict_wf_def dictReset_def)
    moreover have "map_of (concat (ht_table (d_ht0 d1))) key = None"
      using none(1) u0 by simp
    ultimately have "dict_map d key = None"
      unfolding m1 [symmetric] by (simp add: dict_map_def dict_entries_def map_add_def)
    moreover have "dictGenericDelete d key = Some (None, d1)"
      using none ne d1(1) unfolding dictGenericDelete_def if_not_P [OF ne]
      by (cases "dictIsRehashing d1") simp_all
    ultimately show ?thesis
      using d1(2) t1 m1 by (intro that [of d1]) (auto simp: fun_eq_iff)
  qed
qed

lemma dictDelete_spec:
  assumes wf: "dict_wf d" and ok: "dictType_ok (d_type d)"
  obtains d' where "dictDelete d key = Some (if dict_map d key = None then DICT_ERR else DICT_OK, d')"
    "dict_wf d'" "d_type d' = d_type d" "d_iterators d' = d_iterators d"
    "dict_map d' = (dict_map d)(key := None)"
proof (rule dictGenericDelete_spec [OF wf ok, of key])
  fix d'
  assume "dictGenericDelete d key = Some (map_option (Pair key) (dict_map d key), d')"
    "dict_wf d'" "d_type d' = d_type d" "d_iterators d' = d_iterators d"
    "dict_map d' = (dict_map d)(key := None)"
  then show thesis by (intro that [of d']) (auto simp: dictDelete_def)
qed

subsection \<open>Creation and clearing\<close>

lemma dictCreate_wf [simp]:
  "dict_wf (dictCreate t)" "dict_map (dictCreate t) = Map.empty" "d_type (dictCreate t) = t"
  by (simp_all add: dict_wf_def dictCreate_def dict_entries_def dictReset_def dictIsRehashing_def dict_map_def)

lemma clearLoop_all: "clearLoop tbl (length (concat tbl)) = concat tbl"
proof (induction tbl)
  case (Cons c tbl)
  show ?case
  proof (cases "concat (c # tbl) = []")
    case True
    then show ?thesis by simp
  next
    case False
    then have "0 < length (concat (c # tbl))" by blast
    then show ?thesis using Cons by simp
  qed
qed simp

lemma dictClear_all: "ht = dictReset \<or> ht_wf hash ht \<Longrightarrow> dictClear ht = (concat (ht_table ht), dictReset)"
  using clearLoop_all [of "ht_table ht"] by (auto simp: dictClear_def dictReset_def ht_wf_used)

lemma dictEmpty_spec:
  assumes "dict_wf d"
  shows "fst (dictEmpty d) = dict_entries d" "dict_wf (snd (dictEmpty d))" "dict_map (snd (dictEmpty d)) = Map.empty"
    "d_type (snd (dictEmpty d)) = d_type d"
proof -
  have "dictClear (d_ht0 d) = (concat (ht_table (d_ht0 d)), dictReset)"
    "dictClear (d_ht1 d) = (concat (ht_table (d_ht1 d)), dictReset)"
    using assms by (intro dictClear_all [where hash = "hashFunction (d_type d)"]; auto simp: dict_wf_def split: if_splits)+
  then show "fst (dictEmpty d) = dict_entries d" "dict_wf (snd (dictEmpty d))" "dict_map (snd (dictEmpty d)) = Map.empty"
    "d_type (snd (dictEmpty d)) = d_type d"
    by (simp_all add: dictEmpty_def dict_wf_def dict_entries_def dictReset_def dictIsRehashing_def dict_map_def)
qed

lemma dict_size_card:
  assumes "dict_wf d"
  shows "dictSize d = card (dom (dict_map d))"
proof -
  have "card (dom (dict_map d)) = length (map fst (dict_entries d))"
    using assms distinct_card [of "map fst (dict_entries d)"]
    by (simp add: dict_map_def dom_map_of_conv_image_fst dict_wf_def)
  then show ?thesis using dict_wf_size [OF assms] by simp
qed

subsection \<open>Completion of rehashing\<close>

text \<open>The buckets left to visit, the measure of the rehashing loops.\<close>

definition rehash_todo :: "('k, 'v) dict \<Rightarrow> nat" where
  "rehash_todo d = (if dictIsRehashing d then nat (int (ht_size (d_ht0 d)) - d_rehashidx d) else 0)"

lemma rehash_todo_le: "dict_wf d \<Longrightarrow> rehash_todo d \<le> ht_size (d_ht0 d)"
  using dict_wf_rehashingD(3) [of d] by (auto simp: rehash_todo_def)

lemma dictRehash_progress:
  assumes "dict_wf d" "dictRehash d n = Some (True, d')" "0 < n"
  shows "rehash_todo d' < rehash_todo d"
proof (rule dictRehash_spec [OF assms(1), of n])
  fix more d''
  assume "dictRehash d n = Some (more, d'')" and w: "dict_wf d''" and "more \<longleftrightarrow> dictIsRehashing d''"
    "more \<Longrightarrow> dictIsRehashing d"
    "more \<Longrightarrow> 0 < n \<Longrightarrow> ht_size (d_ht0 d'') = ht_size (d_ht0 d) \<and> d_rehashidx d < d_rehashidx d''"
  moreover from this have "dictIsRehashing d'" "d'' = d'" "dictIsRehashing d" using assms by auto
  ultimately show ?thesis
    using assms dict_wf_rehashingD(4) [OF w] by (auto simp: rehash_todo_def)
qed

lemma rehashMsLoop_spec:
  assumes "dict_wf d" "rehash_todo d < fuel"
  shows "\<exists>n d'. rehashMsLoop fuel clock i ms d r = Some (n, d') \<and> dict_wf d' \<and> rehash_keeps d d' \<and>
    ((\<forall>j. clock j - clock 0 \<le> ms) \<longrightarrow> \<not> dictIsRehashing d')"
  using assms
proof (induction fuel arbitrary: d i r)
  case (Suc fuel)
  show ?case
  proof (rule dictRehash_spec [OF Suc.prems(1), of 100])
    fix more d1
    assume d1: "dictRehash d 100 = Some (more, d1)" "dict_wf d1" "rehash_keeps d d1" "more \<longleftrightarrow> dictIsRehashing d1"
    show ?thesis
    proof (cases "more \<and> clock i - clock 0 \<le> ms")
      case True
      then have "rehash_todo d1 < fuel" using dictRehash_progress [OF Suc.prems(1), of 100 d1] d1(1) Suc.prems(2) by auto
      then obtain n d' where "rehashMsLoop fuel clock (i + 1) ms d1 (r + 100) = Some (n, d')"
        "dict_wf d'" "rehash_keeps d1 d'" "(\<forall>j. clock j - clock 0 \<le> ms) \<longrightarrow> \<not> dictIsRehashing d'"
        using Suc.IH [OF d1(2)] by blast
      with True d1(1) rehash_keeps_trans [OF d1(3)] show ?thesis by auto
    next
      case False
      then show ?thesis using d1 by (cases more) auto
    qed
  qed
qed simp

section \<open>The map interface\<close>

definition dict_ok :: "('k, 'v) dict \<Rightarrow> bool" where
  "dict_ok d \<longleftrightarrow> dict_wf d \<and> dictType_ok (d_type d)"

lemma dict_map_finite [simp]: "finite (dom (dict_map d))"
  by (simp add: dict_map_def finite_dom_map_of)

interpretation dm: finite_map_impl dict_ok dict_map "\<lambda>_. True"
  "\<lambda>d k. map_option (\<lambda>(rc, d'). (d', rc = DICT_OK)) (dictDelete d k)"
  "\<lambda>d k. map_option prod.swap (dictFetchValue d k)"
  "\<lambda>_. True" "2 ^ 62" "\<lambda>d k v. map_option prod.swap (dictReplace can uninit d k v)" dictSize
  for can :: bool and uninit :: 'v
proof (unfold_locales, goal_cases)
  case (1 s)
  show ?case by simp
next
  case (2 s k)
  then have s: "dict_wf s" "dictType_ok (d_type s)" by (simp_all add: dict_ok_def)
  show ?case
  proof (rule dictFind_spec [OF s, of k])
    fix d' assume d': "dictFind s k = Some (map_option (Pair k) (dict_map s k), d')" "dict_wf d'" "rehash_keeps s d'"
    then have "dict_ok d'" "dict_map d' = dict_map s"
      using rehash_keeps_map [OF d'(3) s(1)] s(2) by (simp_all add: dict_ok_def rehash_keeps_def)
    then show ?thesis by (simp add: dictFetchValue_def d'(1) option.map_comp comp_def option.map_ident)
  qed
next
  case (3 s k)
  then have s: "dict_wf s" "dictType_ok (d_type s)" by (simp_all add: dict_ok_def)
  show ?case
    by (rule dictDelete_spec [OF s, of k]) (simp add: dict_ok_def s(2))
next
  case (4 s k v)
  then have s: "dict_wf s" "dictType_ok (d_type s)" "dictSize s < 2 ^ 62"
    by (simp_all add: dict_ok_def dict_size_card)
  show ?case
    by (rule dictReplace_spec [OF s, where can = can and uninit = uninit and key = k and val = v])
      (simp add: dict_ok_def s(2))
next
  case (5 s)
  then show ?case by (simp add: dict_ok_def dict_size_card)
qed

section \<open>Properties\<close>

text \<open>
  A table of natural numbers in the middle of a rehash from four to eight buckets: bucket 0
  has been moved, buckets 1 and 2 of the first table are still in place.
\<close>

definition dict_example :: "(nat, int) dict" where
  "dict_example = \<lparr>d_type = \<lparr>hashFunction = of_nat, keyCompare = (=)\<rparr>,
     d_ht0 = \<lparr>ht_table = [[], [(5, 50), (1, 10)], [(2, 20)], []], ht_size = 4, ht_sizemask = 3, ht_used = 3\<rparr>,
     d_ht1 = \<lparr>ht_table = [[], [], [], [], [(4, 40)], [], [], []], ht_size = 8, ht_sizemask = 7, ht_used = 1\<rparr>,
     d_rehashidx = 1, d_iterators = 0\<rparr>"

lemma ht_wfI:
  assumes "k < 64" "ht_size ht = 2 ^ k" "length (ht_table ht) = ht_size ht"
    and "ht_sizemask ht = of_nat (ht_size ht - 1)" "ht_used ht = length (concat (ht_table ht))"
    and "\<forall>i \<in> set [0..<ht_size ht]. \<forall>e \<in> set (ht_table ht ! i). bucket_index ht (hash (fst e)) = i"
  shows "ht_wf hash ht"
  using assms by (auto simp: ht_wf_def)

lemma dict_example_tables:
  "ht_wf of_nat (d_ht0 dict_example)" "ht_wf of_nat (d_ht1 dict_example)"
  by ((rule ht_wfI [where k = 2], simp, code_simp+)[1], rule ht_wfI [where k = 3], simp, code_simp+)

lemma dict_example_facts:
  "dict_wf dict_example" "dictType_ok (d_type dict_example)" "dictSize dict_example < 2 ^ 62"
  "dictIsRehashing dict_example" "dictSize dict_example = 4" "ht_size (d_ht0 dict_example) = 4"
  "dict_map dict_example 5 = Some 50" "dict_map dict_example 4 = Some 40" "dict_map dict_example 7 = None"
proof -
  have "distinct (map fst (dict_entries dict_example))" by code_simp
  moreover have "dictIsRehashing dict_example" by code_simp
  ultimately show "dict_wf dict_example"
    using dict_example_tables unfolding dict_wf_def by (simp add: dict_example_def)
qed (simp add: dict_example_def dictType_ok_def, simp add: dict_example_def dictSize_def, code_simp+)

text \<open>
  C2: \<open>dictAdd\<close> on a well-formed table, rehashing or not, never fails an assertion; it adds
  the pair when the key is absent, reports an error and keeps the map when it is present, and
  leaves a well-formed table, through expansion and rehashing steps.
\<close>

theorem dictAdd_correct:
  assumes "dict_wf d" "dictType_ok (d_type d)" "dictSize d < 2 ^ 62"
  shows "\<exists>d'. dictAdd can uninit d key val =
      Some (if dict_map d key = None then DICT_OK else DICT_ERR, d') \<and> dict_wf d' \<and>
    dict_map d' = (if dict_map d key = None then (dict_map d)(key \<mapsto> val) else dict_map d)"
proof (rule dictAdd_spec [OF assms, where can = can and uninit = uninit and key = key and val = val])
  fix rc d'
  assume "dictAdd can uninit d key val = Some (rc, d')" "dict_wf d'" "rc = DICT_OK \<longleftrightarrow> dict_map d key = None"
    "dict_map d' = (if dict_map d key = None then (dict_map d)(key \<mapsto> val) else dict_map d)"
  then show ?thesis by (cases rc) simp_all
qed

theorem dictAdd_correct_witness:
  "\<exists>d'. dictAdd True 0 dict_example 7 70 = Some (DICT_OK, d') \<and> dict_wf d' \<and>
    dict_map d' = (dict_map dict_example)(7 \<mapsto> 70)"
  using dictAdd_correct [OF dict_example_facts(1-3), of True 0 7 70] by (simp add: dict_example_facts)

text \<open>
  \<open>dictReplace\<close> on a well-formed table stores the value under the key whether it is
  present or not, reports whether the key is new, and keeps the table well-formed.
\<close>

lemma dictReplace_correct:
  assumes "dict_wf d" "dictType_ok (d_type d)" "dictSize d < 2 ^ 62"
  shows "\<exists>d'. dictReplace can uninit d key val = Some (dict_map d key = None, d') \<and> dict_wf d' \<and>
    dict_map d' = (dict_map d)(key \<mapsto> val)"
  by (rule dictReplace_spec [OF assms, where can = can and uninit = uninit and key = key and val = val]) auto

lemma dictReplace_correct_witness:
  "\<exists>d'. dictReplace False 0 dict_example 5 51 = Some (False, d') \<and> dict_wf d' \<and>
    dict_map d' = (dict_map dict_example)(5 \<mapsto> 51)"
  using dictReplace_correct [OF dict_example_facts(1-3), of False 0 5 51] by (simp add: dict_example_facts)

text \<open>
  \<open>dictFind\<close> returns the entry of the key exactly when the map has the key, and the
  rehashing step it performs keeps every entry.
\<close>

lemma dictFind_correct:
  assumes "dict_wf d" "dictType_ok (d_type d)"
  shows "\<exists>d'. dictFind d key = Some (map_option (Pair key) (dict_map d key), d') \<and> dict_wf d' \<and>
    mset (dict_entries d') = mset (dict_entries d)"
  by (rule dictFind_spec [OF assms, of key]) (auto simp: rehash_keeps_def)

lemma dictFind_correct_witness:
  "\<exists>d'. dictFind dict_example 4 = Some (Some (4, 40), d') \<and> dict_wf d' \<and>
    mset (dict_entries d') = mset (dict_entries dict_example)"
  using dictFind_correct [OF dict_example_facts(1,2), of 4] by (simp add: dict_example_facts)

text \<open>
  C13: \<open>dictDelete\<close> removes exactly the entry of the key, from whichever of the two tables
  holds it, and reports whether there was one.
\<close>

theorem dictDelete_correct:
  assumes "dict_wf d" "dictType_ok (d_type d)"
  shows "\<exists>d'. dictDelete d key = Some (if dict_map d key = None then DICT_ERR else DICT_OK, d') \<and>
    dict_wf d' \<and> dict_map d' = (dict_map d)(key := None)"
  by (rule dictDelete_spec [OF assms, of key]) auto

theorem dictDelete_correct_witness:
  "\<exists>d'. dictDelete dict_example 4 = Some (DICT_OK, d') \<and>
    dict_wf d' \<and> dict_map d' = (dict_map dict_example)(4 := None)"
  using dictDelete_correct [OF dict_example_facts(1,2), of 4] by (simp add: dict_example_facts)

text \<open>
  C4: \<open>dictRehash\<close> never runs off the first table and never fails its assertion; it keeps
  the entries as a multiset and the invariant, and returns zero exactly when the rehashing
  has ended.
\<close>

theorem dictRehash_correct:
  assumes "dict_wf d"
  shows "\<exists>more d'. dictRehash d n = Some (more, d') \<and> dict_wf d' \<and>
    mset (dict_entries d') = mset (dict_entries d) \<and> more = dictIsRehashing d'"
  by (rule dictRehash_spec [OF assms, of n]) (auto simp: rehash_keeps_def)

theorem dictRehash_correct_witness:
  "\<exists>more d'. dictRehash dict_example 1 = Some (more, d') \<and> dict_wf d' \<and>
    mset (dict_entries d') = mset (dict_entries dict_example) \<and> more = dictIsRehashing d'"
  using dictRehash_correct [OF dict_example_facts(1), of 1] .

text \<open>
  C14: The loop of \<open>dictRehashMilliseconds\<close> ends: as many calls of \<open>dictRehash\<close> as the first
  table has buckets, and one more, are enough whatever the clock reads; and when the time
  limit is never hit, the table is fully rehashed at the end.
\<close>

theorem dictRehashMilliseconds_ends:
  assumes "dict_wf d"
  shows "\<exists>n d'. dictRehashMilliseconds (ht_size (d_ht0 d) + 1) clock d ms = Some (n, d') \<and> dict_wf d' \<and>
    mset (dict_entries d') = mset (dict_entries d) \<and>
    ((\<forall>j. clock j - clock 0 \<le> ms) \<longrightarrow> \<not> dictIsRehashing d')"
  using rehashMsLoop_spec [OF assms, of "ht_size (d_ht0 d) + 1" clock 1 ms 0] rehash_todo_le [OF assms]
  by (auto simp: dictRehashMilliseconds_def rehash_keeps_def)

theorem dictRehashMilliseconds_ends_witness:
  "\<exists>n d'. dictRehashMilliseconds 5 (\<lambda>_. 0) dict_example 1 = Some (n, d') \<and> dict_wf d' \<and>
    mset (dict_entries d') = mset (dict_entries dict_example) \<and> \<not> dictIsRehashing d'"
  using dictRehashMilliseconds_ends [OF dict_example_facts(1), of "\<lambda>_. 0" 1]
  by (simp add: dict_example_facts)

end
