(* ===== verification/DictScan.thy ===== *)
theory DictScan
  imports Dict
begin

text \<open>
  The cursor iteration of \<open>src/redis-6.0.5/src/dict.c\<close>: \<open>rev\<close>, \<open>dictScan\<close> and the client
  loop that the SCAN family of commands runs over it.

  The cursor is counted from its highest bit: read in reverse it is the lower end of the
  interval of reversed hashes that have not been visited yet, and a call visits the rest of
  the aligned interval that contains it.  Alignment intervals of different table sizes
  nest, which is why the guarantee survives resizing.  \<open>cur\<close> is the cursor read in reverse.
\<close>

section \<open>The program\<close>

text \<open>Reversing the bits of a word.\<close>

function revLoop :: "nat \<Rightarrow> u64 \<Rightarrow> u64 \<Rightarrow> u64" where
  "revLoop s msk v =
     (let s' = s div 2 in
      if s' > 0 then
        let msk' = msk XOR push_bit s' msk;
            v' = (drop_bit s' v AND msk') OR (push_bit s' v AND NOT msk')
        in revLoop s' msk' v'
      else v)"
  by pat_completeness auto
termination
  by (relation "measure (\<lambda>(s, msk, v). s)") auto

definition rev_bits :: "u64 \<Rightarrow> u64" where
  "rev_bits v = revLoop 64 (NOT 0) v"

subsection \<open>Bit reversal\<close>

text \<open>Each round of the loop swaps neighbouring groups of \<open>s\<close> bits.\<close>

definition swap_index :: "nat \<Rightarrow> nat \<Rightarrow> nat" where
  "swap_index s n = (if even (n div s) then n + s else n - s)"

definition swap_bits :: "nat \<Rightarrow> u64 \<Rightarrow> u64 \<Rightarrow> u64" where
  "swap_bits s msk v = (drop_bit s v AND msk) OR (push_bit s v AND NOT msk)"

lemma bit_swap_bits:
  assumes "n < 64" "\<forall>n \<in> set [0..<64]. bit msk n \<longleftrightarrow> even (n div s)"
    "\<forall>n \<in> set [0..<64]. odd (n div s) \<longrightarrow> s \<le> n" 
  shows "bit (swap_bits s msk v) n \<longleftrightarrow> bit v (swap_index s n)"
  using assms
  by (auto simp: swap_bits_def swap_index_def bit_simps add.commute)

lemma revLoop_step:
  "0 < s \<Longrightarrow> msk XOR push_bit s msk = msk' \<Longrightarrow> t = 2 * s \<Longrightarrow>
   revLoop t msk v = revLoop s msk' (swap_bits s msk' v)"
  by (subst revLoop.simps) (simp add: swap_bits_def Let_def del: revLoop.simps)

lemma rev_masks:
  "NOT 0 XOR push_bit 32 (NOT 0) = (0x00000000FFFFFFFF :: u64)"
  "0x00000000FFFFFFFF XOR push_bit 16 0x00000000FFFFFFFF = (0x0000FFFF0000FFFF :: u64)"
  "0x0000FFFF0000FFFF XOR push_bit 8 0x0000FFFF0000FFFF = (0x00FF00FF00FF00FF :: u64)"
  "0x00FF00FF00FF00FF XOR push_bit 4 0x00FF00FF00FF00FF = (0x0F0F0F0F0F0F0F0F :: u64)"
  "0x0F0F0F0F0F0F0F0F XOR push_bit 2 0x0F0F0F0F0F0F0F0F = (0x3333333333333333 :: u64)"
  "0x3333333333333333 XOR push_bit 1 0x3333333333333333 = (0x5555555555555555 :: u64)"
  by code_simp+

lemma rev_bits_unfold:
  "rev_bits v =
    swap_bits 1 0x5555555555555555 (swap_bits 2 0x3333333333333333 (swap_bits 4 0x0F0F0F0F0F0F0F0F
      (swap_bits 8 0x00FF00FF00FF00FF (swap_bits 16 0x0000FFFF0000FFFF (swap_bits 32 0x00000000FFFFFFFF v)))))"
  unfolding rev_bits_def
  by (subst revLoop_step [OF _ rev_masks(1)], simp, simp, subst revLoop_step [OF _ rev_masks(2)], simp, simp,
      subst revLoop_step [OF _ rev_masks(3)], simp, simp, subst revLoop_step [OF _ rev_masks(4)], simp, simp,
      subst revLoop_step [OF _ rev_masks(5)], simp, simp, subst revLoop_step [OF _ rev_masks(6)], simp, simp,
      subst revLoop.simps, simp)

lemma swap_masks:
  "\<forall>n \<in> set [0..<64]. bit (0x5555555555555555 :: u64) n \<longleftrightarrow> even (n div 1)"
  "\<forall>n \<in> set [0..<64]. bit (0x3333333333333333 :: u64) n \<longleftrightarrow> even (n div 2)"
  "\<forall>n \<in> set [0..<64]. bit (0x0F0F0F0F0F0F0F0F :: u64) n \<longleftrightarrow> even (n div 4)"
  "\<forall>n \<in> set [0..<64]. bit (0x00FF00FF00FF00FF :: u64) n \<longleftrightarrow> even (n div 8)"
  "\<forall>n \<in> set [0..<64]. bit (0x0000FFFF0000FFFF :: u64) n \<longleftrightarrow> even (n div 16)"
  "\<forall>n \<in> set [0..<64]. bit (0x00000000FFFFFFFF :: u64) n \<longleftrightarrow> even (n div 32)"
  by code_simp+

lemma swap_below:
  "\<forall>s \<in> set [1, 2, 4, 8, 16, 32]. \<forall>n \<in> set [0..<64]. (odd (n div s) \<longrightarrow> s \<le> n) \<and> swap_index s n < 64"
  by code_simp

lemma swap_index_map:
  "map (swap_index 32) (map (swap_index 16) (map (swap_index 8) (map (swap_index 4) (map (swap_index 2)
     (map (swap_index 1) [0..<64]))))) = map (\<lambda>n. 63 - n) [0..<64]"
  by code_simp

lemma swap_index_all:
  "n < 64 \<Longrightarrow>
   swap_index 32 (swap_index 16 (swap_index 8 (swap_index 4 (swap_index 2 (swap_index 1 n))))) = 63 - n"
  using swap_index_map unfolding map_map map_eq_conv by (simp add: comp_def)

lemma rev_bits_eq: "rev_bits v = word_reverse v"
proof (rule bit_word_eqI)
  fix n assume "n < LENGTH(64)"
  then have n: "n < 64" by simp
  have below: "\<And>s n. s \<in> set [1, 2, 4, 8, 16, 32] \<Longrightarrow> n < 64 \<Longrightarrow> swap_index s n < 64"
    "\<And>s. s \<in> set [1, 2, 4, 8, 16, 32] \<Longrightarrow> \<forall>n \<in> set [0..<64]. odd (n div s) \<longrightarrow> s \<le> n"
    using swap_below by (auto simp del: list.set)
  have "bit (rev_bits v) n = bit v (swap_index 32 (swap_index 16 (swap_index 8 (swap_index 4 (swap_index 2 (swap_index 1 n))))))"
    unfolding rev_bits_unfold
    by (subst bit_swap_bits, (rule n below swap_masks | simp (no_asm))+)+
  also have "\<dots> = bit (word_reverse v) n" using n swap_index_all by (simp add: bit_word_reverse_iff)
  finally show "bit (rev_bits v) n = bit (word_reverse v) n" .
qed

text \<open>One increment of the reversed cursor under a mask.\<close>

definition scan_next :: "u64 \<Rightarrow> u64 \<Rightarrow> u64" where
  "scan_next m v = rev_bits (rev_bits (v OR NOT m) + 1)"

definition cur :: "u64 \<Rightarrow> nat" where "cur v = unat (word_reverse v)"

lemma cur_0 [simp]: "cur 0 = 0"
proof -
  have "word_reverse 0 = (0 :: u64)" by (rule bit_word_eqI) (simp add: bit_word_reverse_iff)
  then show ?thesis by (simp add: cur_def)
qed

lemma cur_less: "cur v < 2 ^ 64"
  using unsigned_less [of "word_reverse v"] by (simp add: cur_def)

lemma cur_inject: "cur v = cur w \<longleftrightarrow> v = w"
  by (metis cur_def unsigned_word_eqI word_rev_rev)

lemma cur_scan_next: "cur (scan_next m v) = (unat (word_reverse v OR word_reverse (NOT m)) + 1) mod 2 ^ 64"
proof -
  have "word_reverse (v OR NOT m) = word_reverse v OR word_reverse (NOT m)"
    by (rule bit_word_eqI) (simp add: bit_word_reverse_iff bit_or_iff)
  then show ?thesis by (simp add: scan_next_def rev_bits_eq cur_def word_rev_rev unat_word_ariths)
qed

lemma unat_or_ge: "unat a \<le> unat (a OR b)" for a b :: u64
proof -
  have "uint a \<le> uint (a OR b)" by (simp add: uint_or or_greater_eq)
  then show ?thesis by (simp add: word_le_nat_alt [symmetric] word_le_def)
qed

lemma cur_scan_next_less:
  assumes "scan_next m v \<noteq> 0"
  shows "cur v < cur (scan_next m v)"
proof -
  let ?u = "unat (word_reverse v OR word_reverse (NOT m))"
  have "?u < 2 ^ 64" using unsigned_less [of "word_reverse v OR word_reverse (NOT m)"] by simp
  moreover have "?u + 1 \<noteq> 2 ^ 64"
    using assms cur_scan_next [of m v] cur_inject [of "scan_next m v" 0] by auto
  ultimately have "cur (scan_next m v) = ?u + 1" by (simp add: cur_scan_next)
  then show ?thesis using unat_or_ge [of "word_reverse v"] by (simp add: cur_def le_imp_less_Suc)
qed

function scanExpand ::
  "('k, 'v) dictht \<Rightarrow> u64 \<Rightarrow> u64 \<Rightarrow> u64 \<Rightarrow> ('k \<times> 'v) list \<times> u64" where
  "scanExpand t1 m0 m1 v =
     (let es = ht_table t1 ! unat (v AND m1);
          v' = scan_next m1 v
      in if v' AND (m0 XOR m1) \<noteq> 0 then
           (case scanExpand t1 m0 m1 v' of (es', v'') \<Rightarrow> (es @ es', v''))
         else (es, v'))"
  by pat_completeness auto
termination
proof (relation "measure (\<lambda>(t1, m0, m1, v). 2 ^ 64 - cur v)", goal_cases)
  case (2 t1 m0 m1 v es v')
  then have "v' \<noteq> 0" by auto
  then have "cur v < cur v'" using cur_scan_next_less [of m1 v] 2 by simp
  then show ?case using cur_less [of v'] by simp
qed simp

text \<open>The new cursor and the entries passed to the callback, in order.\<close>

definition dictScan :: "('k, 'v) dict \<Rightarrow> u64 \<Rightarrow> u64 \<times> ('k \<times> 'v) list" where
  "dictScan d v =
     (if dictSize d = 0 then (0, [])
      else if \<not> dictIsRehashing d then
        let t0 = d_ht0 d; m0 = ht_sizemask t0
        in (scan_next m0 v, ht_table t0 ! unat (v AND m0))
      else
        let (t0, t1) = (if ht_size (d_ht0 d) > ht_size (d_ht1 d) then (d_ht1 d, d_ht0 d) else (d_ht0 d, d_ht1 d));
            m0 = ht_sizemask t0; m1 = ht_sizemask t1;
            es = ht_table t0 ! unat (v AND m0);
            (es', v') = scanExpand t1 m0 m1 v
        in (v', es @ es'))"

subsection \<open>The cursor as an interval bound\<close>

lemma div_cur_eq:
  assumes "k \<le> 64"
  shows "cur v div 2 ^ (64 - k) = cur w div 2 ^ (64 - k) \<longleftrightarrow> v AND mask k = w AND mask k"
proof -
  have d: "cur x div 2 ^ (64 - k) = unat (drop_bit (64 - k) (word_reverse x))" for x
    unfolding cur_def by (subst unat_drop_bit_eq) (rule drop_bit_eq_div [symmetric])
  have k: "64 - k + n < 64 \<longleftrightarrow> n < k" for n using assms by arith
  have "drop_bit (64 - k) (word_reverse v) = drop_bit (64 - k) (word_reverse w) \<longleftrightarrow>
      (\<forall>n < k. bit (word_reverse v) (64 - k + n) = bit (word_reverse w) (64 - k + n))"
    using assms by (auto simp: bit_eq_iff bit_drop_bit_eq bit_word_reverse_iff k simp del: Nat.add_diff_assoc2)
      (meson order_less_le_trans)+
  also have "\<dots> \<longleftrightarrow> (\<forall>n < k. bit v (k - Suc n) = bit w (k - Suc n))"
    using assms by (auto simp: bit_word_reverse_iff)
  also have "\<dots> \<longleftrightarrow> (\<forall>n < k. bit v n = bit w n)"
  proof (rule iffI; intro allI impI)
    fix n assume "\<forall>n < k. bit v (k - Suc n) = bit w (k - Suc n)" "n < k"
    then show "bit v n = bit w n" by (auto dest: spec [of _ "k - Suc n"])
  qed simp
  also have "\<dots> \<longleftrightarrow> v AND mask k = w AND mask k"
    using assms by (auto simp: bit_eq_iff bit_and_iff bit_mask_iff) (meson order_less_le_trans)+
  finally show ?thesis unfolding d by (simp add: word_unat_eq_iff)
qed

lemma cur_scan_next_mask:
  assumes "k \<le> 64"
  shows "cur (scan_next (mask k) v) = ((cur v div 2 ^ (64 - k) + 1) * 2 ^ (64 - k)) mod 2 ^ 64"
proof -
  let ?j = "64 - k"
  have "word_reverse (NOT (mask k)) = (mask ?j :: u64)"
    using assms by (intro bit_word_eqI) (auto simp: bit_word_reverse_iff bit_not_iff bit_mask_iff)
  moreover have "x OR mask ?j = push_bit ?j (drop_bit ?j x) + mask ?j" for x :: nat
    by (subst disjunctive_add) (auto simp: bit_simps intro!: bit_eqI)
  moreover have "unat (x OR mask ?j) = unat x OR mask ?j" for x :: u64
    using assms by (intro bit_eqI) (auto simp: bit_simps)
  ultimately have "unat (word_reverse v OR word_reverse (NOT (mask k))) =
      cur v div 2 ^ ?j * 2 ^ ?j + (2 ^ ?j - 1)"
    by (simp add: cur_def push_bit_eq_mult drop_bit_eq_div mask_nat_def)
  then show ?thesis by (simp add: cur_scan_next add_mult_distrib add.commute)
qed

lemma dvd_cur:
  assumes "k \<le> 64"
  shows "2 ^ (64 - k) dvd cur v \<longleftrightarrow> (\<forall>n \<ge> k. \<not> bit v n)"
proof -
  have b: "bit (cur v) i \<longleftrightarrow> i < 64 \<and> bit v (63 - i)" for i
    by (simp add: cur_def bit_unsigned_iff bit_word_reverse_iff)
  have "2 ^ (64 - k) dvd cur v \<longleftrightarrow> take_bit (64 - k) (cur v) = 0"
    by (simp add: take_bit_eq_0_iff)
  also have "\<dots> \<longleftrightarrow> (\<forall>i < 64 - k. \<not> bit v (63 - i))"
    by (auto simp: bit_eq_iff bit_take_bit_iff b)
  also have "\<dots> \<longleftrightarrow> (\<forall>n \<ge> k. \<not> bit v n)"
  proof (intro iffI allI impI)
    fix n assume a: "\<forall>i < 64 - k. \<not> bit v (63 - i)" "k \<le> n"
    show "\<not> bit v n"
    proof (cases "n < 64")
      case True
      then show ?thesis using a(1) [rule_format, of "63 - n"] a(2) by simp
    qed (auto dest: bit_imp_le_length)
  qed auto
  finally show ?thesis .
qed

lemma ht_wf_mask: "ht_wf hash ht \<Longrightarrow> ht_size ht = 2 ^ k \<Longrightarrow> ht_sizemask ht = mask k"
  by (simp add: ht_wf_def mask_eq_exp_minus_1 of_nat_diff)

lemma ht_wf_power:
  assumes "ht_wf hash ht"
  obtains k where "k < 64" "ht_size ht = 2 ^ k" "ht_sizemask ht = mask k"
  using assms ht_wf_mask [OF assms] by (auto simp: ht_wf_def)

text \<open>The bucket under a cursor holds the entries whose reversed hash is in the aligned interval.\<close>

lemma scan_bucket:
  assumes "ht_wf hash ht" "ht_size ht = 2 ^ k" "k < 64"
  shows "set (ht_table ht ! unat (v AND mask k)) =
    {e \<in> set (concat (ht_table ht)). cur (hash (fst e)) div 2 ^ (64 - k) = cur v div 2 ^ (64 - k)}"
proof -
  note m = ht_wf_mask [OF assms(1,2)]
  have i: "bucket_index ht v < length (ht_table ht)" for v
    using assms(1) by (simp add: bucket_index_less ht_wf_length)
  have idx: "bucket_index ht w = unat (w AND mask k)" for w by (simp add: bucket_index_def m)
  have same: "cur w div 2 ^ (64 - k) = cur v div 2 ^ (64 - k) \<longleftrightarrow> bucket_index ht w = bucket_index ht v" for w
    using assms(3) by (simp add: div_cur_eq idx word_unat_eq_iff)
  have mem: "e \<in> set (ht_table ht ! j) \<Longrightarrow> j < length (ht_table ht) \<Longrightarrow> bucket_index ht (hash (fst e)) = j" for e j
    using ht_wf_bucket [OF assms(1), of j e] assms(1) by (simp add: ht_wf_length)
  show ?thesis unfolding same idx [symmetric]
  proof (intro set_eqI iffI)
    fix e assume "e \<in> set (ht_table ht ! bucket_index ht v)"
    with i [of v] mem show "e \<in> {e \<in> set (concat (ht_table ht)). bucket_index ht (hash (fst e)) = bucket_index ht v}"
      by (auto intro: nth_mem)
  next
    fix e assume "e \<in> {e \<in> set (concat (ht_table ht)). bucket_index ht (hash (fst e)) = bucket_index ht v}"
    moreover from this obtain j where "j < length (ht_table ht)" "e \<in> set (ht_table ht ! j)"
      by (auto simp: in_set_conv_nth [of _ "ht_table ht"])
    ultimately show "e \<in> set (ht_table ht ! bucket_index ht v)" using mem [of e j] by simp
  qed
qed

definition aligned_end :: "nat \<Rightarrow> nat \<Rightarrow> nat" where
  "aligned_end k c = (c div 2 ^ (64 - k) + 1) * 2 ^ (64 - k)"

lemma aligned_end_greater: "c < aligned_end k c"
  using dividend_less_div_times [of "2 ^ (64 - k)" c] by (simp add: aligned_end_def)

lemma aligned_end_le:
  assumes "k \<le> 64" "c < 2 ^ 64"
  shows "aligned_end k c \<le> 2 ^ 64"
proof -
  have p: "(2::nat) ^ 64 = 2 ^ k * 2 ^ (64 - k)" using assms(1) by (simp flip: power_add)
  then have "c div 2 ^ (64 - k) < 2 ^ k" using assms(2) by (simp add: less_mult_imp_div_less)
  then have "(c div 2 ^ (64 - k) + 1) * 2 ^ (64 - k) \<le> 2 ^ k * 2 ^ (64 - k)" by (intro mult_le_mono1) simp
  then show ?thesis unfolding aligned_end_def p .
qed

lemma same_interval:
  assumes "c \<le> x" "x < aligned_end k c"
  shows "x div 2 ^ (64 - k) = c div 2 ^ (64 - k)"
proof (rule antisym)
  have "x div 2 ^ (64 - k) < c div 2 ^ (64 - k) + 1"
    using assms(2) by (intro less_mult_imp_div_less) (simp add: aligned_end_def)
  then show "x div 2 ^ (64 - k) \<le> c div 2 ^ (64 - k)" by simp
  show "c div 2 ^ (64 - k) \<le> x div 2 ^ (64 - k)" using assms(1) by (rule div_le_mono)
qed

lemma aligned_end_cong: "c \<le> x \<Longrightarrow> x < aligned_end k c \<Longrightarrow> aligned_end k x = aligned_end k c"
  using same_interval [of c x k] by (simp add: aligned_end_def)

lemma cur_next: "k \<le> 64 \<Longrightarrow> cur (scan_next (mask k) v) = aligned_end k (cur v) mod 2 ^ 64"
  by (simp add: cur_scan_next_mask aligned_end_def)

lemma scan_stop:
  assumes "k0 \<le> k1" "k1 \<le> 64" "2 ^ (64 - k1) dvd cur v"
  shows "v AND (mask k0 XOR mask k1) = 0 \<longleftrightarrow> 2 ^ (64 - k0) dvd cur v"
proof -
  have "v AND (mask k0 XOR mask k1) = 0 \<longleftrightarrow> (\<forall>n. k0 \<le> n \<and> n < k1 \<longrightarrow> \<not> bit v n)"
    using assms(1,2) by (auto simp: bit_eq_iff bit_simps) (meson leD order_less_le_trans not_le)+
  also have "\<dots> \<longleftrightarrow> (\<forall>n \<ge> k0. \<not> bit v n)"
  proof (intro iffI allI impI)
    fix n assume "\<forall>n. k0 \<le> n \<and> n < k1 \<longrightarrow> \<not> bit v n" "k0 \<le> n"
    then show "\<not> bit v n" using assms(3) unfolding dvd_cur [OF assms(2)] by (cases "n < k1") auto
  qed auto
  finally show ?thesis using assms(1,2) by (simp add: dvd_cur)
qed

lemma aligned_end_mono:
  assumes "k0 \<le> k1" "k1 \<le> 64"
  shows "aligned_end k1 c \<le> aligned_end k0 c" "2 ^ (64 - k0) dvd aligned_end k1 c \<Longrightarrow> aligned_end k1 c = aligned_end k0 c"
proof -
  let ?a = "2 ^ (64 - k1) :: nat" and ?b = "2 ^ (64 - k0) :: nat"
  have "?a dvd ?b" using assms by (simp add: le_imp_power_dvd)
  then obtain q where q: "?b = ?a * q" by blast
  have "c < (c div ?b + 1) * q * ?a"
    using aligned_end_greater [of c k0] by (simp add: aligned_end_def q algebra_simps)
  then have "c div ?a < (c div ?b + 1) * q" by (rule less_mult_imp_div_less)
  then have "(c div ?a + 1) * ?a \<le> (c div ?b + 1) * q * ?a" by (intro mult_le_mono1) simp
  then show le: "aligned_end k1 c \<le> aligned_end k0 c" by (simp add: aligned_end_def q algebra_simps)
  show "aligned_end k1 c = aligned_end k0 c" if d: "?b dvd aligned_end k1 c"
  proof (rule antisym [OF le])
    obtain r where r: "aligned_end k1 c = ?b * r" using d by blast
    have "c div ?b < r" using aligned_end_greater [of c k1] r by (intro less_mult_imp_div_less) (simp add: mult.commute)
    then have "(c div ?b + 1) * ?b \<le> r * ?b" by (intro mult_le_mono1) simp
    then show "aligned_end k0 c \<le> aligned_end k1 c" unfolding r by (simp add: aligned_end_def mult.commute)
  qed
qed

declare scanExpand.simps [simp del] revLoop.simps [simp del]

text \<open>
  The inner loop over the larger table: the cursor moves to the end of the interval of the
  smaller table, and the entries emitted are those of the larger table in between.
\<close>

lemma scanExpand_spec:
  assumes "ht_wf hash t1" "ht_size t1 = 2 ^ k1" "k0 \<le> k1" "k1 < 64"
    and "scanExpand t1 (mask k0) (mask k1) v = (es, v')"
  shows "cur v' = aligned_end k0 (cur v) mod 2 ^ 64 \<and> set es \<subseteq> set (concat (ht_table t1)) \<and>
    (\<forall>e \<in> set (concat (ht_table t1)).
       cur v \<le> cur (hash (fst e)) \<and> cur (hash (fst e)) < aligned_end k0 (cur v) \<longrightarrow> e \<in> set es)"
  using assms
proof (induction t1 "mask k0 :: u64" "mask k1 :: u64" v arbitrary: es v' rule: scanExpand.induct)
  case (1 t1 v)
  let ?n = "scan_next (mask k1) v" and ?T = "set (concat (ht_table t1))"
  let ?b = "ht_table t1 ! unat (v AND mask k1)"
  have c: "cur v < 2 ^ 64" by (rule cur_less)
  have le: "aligned_end k1 (cur v) \<le> aligned_end k0 (cur v)" "aligned_end k0 (cur v) \<le> 2 ^ 64"
    using aligned_end_mono(1) [OF 1(4), of "cur v"] aligned_end_le [of k0 "cur v"] 1(4,5) c by simp_all
  have n: "cur ?n = aligned_end k1 (cur v) mod 2 ^ 64" using 1(5) by (simp add: cur_next)
  have "2 ^ (64 - k1) dvd aligned_end k1 (cur v)" by (simp add: aligned_end_def)
  moreover have "(2::nat) ^ (64 - k1) dvd 2 ^ 64" by (rule le_imp_power_dvd) simp
  ultimately have dvd: "2 ^ (64 - k1) dvd cur ?n" unfolding n by (rule dvd_mod)
  have stop: "?n AND (mask k0 XOR mask k1) = 0 \<longleftrightarrow> 2 ^ (64 - k0) dvd cur ?n"
    using 1(4,5) dvd by (intro scan_stop) simp_all
  have bucket: "set ?b = {e \<in> ?T. cur (hash (fst e)) div 2 ^ (64 - k1) = cur v div 2 ^ (64 - k1)}"
    using 1(2,3,5) by (intro scan_bucket)
  have here: "e \<in> set ?b" if "e \<in> ?T" "cur v \<le> cur (hash (fst e))" "cur (hash (fst e)) < aligned_end k1 (cur v)" for e
    unfolding bucket using that same_interval [of "cur v" "cur (hash (fst e))" k1] by simp
  show ?case
  proof (cases "?n AND (mask k0 XOR mask k1) = 0")
    case True
    then have r: "es = ?b" "v' = ?n" using 1(6) by (simp_all add: Let_def scanExpand.simps [of _ _ _ v])
    have "aligned_end k1 (cur v) = aligned_end k0 (cur v)"
    proof (cases "aligned_end k1 (cur v) = 2 ^ 64")
      case True
      then show ?thesis using le by simp
    next
      case False
      then have "cur ?n = aligned_end k1 (cur v)" using le n by simp
      then show ?thesis using aligned_end_mono(2) [OF 1(4), of "cur v"] stop True 1(5) by simp
    qed
    then show ?thesis using r n here bucket by auto
  next
    case False
    obtain es' where es': "scanExpand t1 (mask k0) (mask k1) ?n = (es', v')" "es = ?b @ es'"
      using 1(6) False by (simp add: Let_def scanExpand.simps [of _ _ _ v] split: prod.splits)
    have "cur ?n \<noteq> 0" using False stop by (intro notI) simp
    then have n': "cur ?n = aligned_end k1 (cur v)" "aligned_end k1 (cur v) < 2 ^ 64"
      using n le by (cases "aligned_end k1 (cur v) = 2 ^ 64"; simp)+
    have "2 ^ (64 - k0) dvd aligned_end k0 (cur v)" by (simp add: aligned_end_def)
    then have "aligned_end k1 (cur v) < aligned_end k0 (cur v)"
      using False stop n'(1) le(1) by (metis le_neq_implies_less)
    then have eq: "aligned_end k0 (cur ?n) = aligned_end k0 (cur v)"
      using n'(1) aligned_end_greater [of "cur v" k1] by (intro aligned_end_cong) simp_all
    note IH = 1(1) [OF refl refl False 1(2-5) es'(1), unfolded eq]
    show ?thesis
    proof (intro conjI ballI impI)
      show "cur v' = aligned_end k0 (cur v) mod 2 ^ 64" using IH by blast
      show "set es \<subseteq> ?T" using IH bucket es'(2) by auto
      fix e assume e: "e \<in> ?T" "cur v \<le> cur (hash (fst e)) \<and> cur (hash (fst e)) < aligned_end k0 (cur v)"
      show "e \<in> set es"
      proof (cases "cur (hash (fst e)) < aligned_end k1 (cur v)")
        case True
        then show ?thesis using here e es'(2) by simp
      next
        case False
        then have "e \<in> set es'" using IH e n'(1) by (simp only: not_less simp_thms)
        then show ?thesis using es'(2) by simp
      qed
    qed
  qed
qed

text \<open>One call, in the terms of the interval the cursor moves over.\<close>

lemma dict_entries_second: "dict_wf d \<Longrightarrow> \<not> dictIsRehashing d \<Longrightarrow> dict_entries d = concat (ht_table (d_ht0 d))"
  by (simp add: dict_wf_def dict_entries_def dictReset_def)

lemma dictScan_spec:
  assumes wf: "dict_wf d" and ne: "dict_entries d \<noteq> []" and r: "dictScan d v = (v', es)"
  obtains k where "k < 64" "2 ^ k \<le> max (ht_size (d_ht0 d)) (ht_size (d_ht1 d))"
    "cur v' = aligned_end k (cur v) mod 2 ^ 64" "set es \<subseteq> set (dict_entries d)"
    "\<forall>e \<in> set (dict_entries d). cur v \<le> cur (hashFunction (d_type d) (fst e)) \<and>
       cur (hashFunction (d_type d) (fst e)) < aligned_end k (cur v) \<longrightarrow> e \<in> set es"
proof -
  let ?h = "hashFunction (d_type d)"
  have sz: "dictSize d \<noteq> 0" using ne dict_wf_size [OF wf] by simp
  have here: "e \<in> set (ht_table t ! unat (v AND mask k))"
    if "ht_wf ?h t" "ht_size t = 2 ^ k" "k < 64" "e \<in> set (concat (ht_table t))"
      "cur v \<le> cur (?h (fst e))" "cur (?h (fst e)) < aligned_end k (cur v)" for t k e
    using that same_interval [of "cur v" "cur (?h (fst e))" k] by (simp add: scan_bucket [OF that(1-3)])
  show ?thesis
  proof (cases "dictIsRehashing d")
    case False
    with wf have ent: "dict_entries d = concat (ht_table (d_ht0 d))" by (rule dict_entries_second)
    have h: "ht_wf ?h (d_ht0 d)" using dict_wf_hash0 [OF wf] ne by simp
    obtain k where k: "k < 64" "ht_size (d_ht0 d) = 2 ^ k" "ht_sizemask (d_ht0 d) = mask k"
      using h by (rule ht_wf_power)
    have "v' = scan_next (mask k) v" "es = ht_table (d_ht0 d) ! unat (v AND mask k)"
      using r sz False k(3) by (simp_all add: dictScan_def Let_def)
    then show ?thesis using k here [OF h k(2,1)] scan_bucket [OF h k(2,1), of v]
      by (intro that [of k]) (auto simp: cur_next ent)
  next
    case True
    note w = dict_wf_rehashingD [OF wf True]
    define t0 where "t0 = (if ht_size (d_ht0 d) > ht_size (d_ht1 d) then d_ht1 d else d_ht0 d)"
    define t1 where "t1 = (if ht_size (d_ht0 d) > ht_size (d_ht1 d) then d_ht0 d else d_ht1 d)"
    have h: "ht_wf ?h t0" "ht_wf ?h t1" using w by (simp_all add: t0_def t1_def)
    have ent: "set (dict_entries d) = set (concat (ht_table t0)) \<union> set (concat (ht_table t1))"
      by (auto simp: dict_entries_def t0_def t1_def)
    have le: "ht_size t0 \<le> ht_size t1" "ht_size t1 = max (ht_size (d_ht0 d)) (ht_size (d_ht1 d))"
      by (auto simp: t0_def t1_def)
    obtain k0 where k0: "k0 < 64" "ht_size t0 = 2 ^ k0" "ht_sizemask t0 = mask k0" using h(1) by (rule ht_wf_power)
    obtain k1 where k1: "k1 < 64" "ht_size t1 = 2 ^ k1" "ht_sizemask t1 = mask k1" using h(2) by (rule ht_wf_power)
    have k: "k0 \<le> k1" using le(1) k0(2) k1(2) by simp
    obtain es' where x: "scanExpand t1 (mask k0) (mask k1) v = (es', v')"
      and es: "es = ht_table t0 ! unat (v AND mask k0) @ es'"
      using r sz True k0(3) k1(3) unfolding dictScan_def t0_def t1_def
      by (simp add: Let_def split: prod.splits if_splits)
    note s = scanExpand_spec [OF h(2) k1(2) k k1(1) x]
    show ?thesis
    proof (rule that [of k0])
      show "k0 < 64" by fact
      show "2 ^ k0 \<le> max (ht_size (d_ht0 d)) (ht_size (d_ht1 d))" using le k0(2) by simp
      show "cur v' = aligned_end k0 (cur v) mod 2 ^ 64" using s by blast
      show "set es \<subseteq> set (dict_entries d)" using s scan_bucket [OF h(1) k0(2,1), of v] ent es by auto
      show "\<forall>e \<in> set (dict_entries d). cur v \<le> cur (?h (fst e)) \<and> cur (?h (fst e)) < aligned_end k0 (cur v) \<longrightarrow> e \<in> set es"
        using s here [OF h(1) k0(2,1)] ent es by auto
    qed
  qed
qed

subsection \<open>A whole iteration\<close>

text \<open>
  A client iterates by calling \<open>dictScan\<close> with the cursor it got last, until the cursor is
  zero.  The table may change between the calls, so the calls see a list of states.
  \<open>None\<close>: the iteration has not ended after the last state.
\<close>

fun scan_loop :: "('k, 'v) dict list \<Rightarrow> u64 \<Rightarrow> ('k \<times> 'v) list option" where
  "scan_loop [] v = None"
| "scan_loop (d # ds) v =
     (case dictScan d v of (v', es) \<Rightarrow>
        if v' = 0 then Some es else map_option ((@) es) (scan_loop ds v'))"

lemma cur_eq_0: "cur v = 0 \<longleftrightarrow> v = 0"
  using cur_inject [of v 0] by simp

lemma scan_loop_complete:
  assumes "scan_loop ds v = Some es"
    and "\<forall>d \<in> set ds. dict_wf d \<and> hashFunction (d_type d) = hash \<and> dict_map d key \<noteq> None"
    and "cur v \<le> cur (hash key)"
  shows "key \<in> fst ` set es"
  using assms
proof (induction ds arbitrary: v es)
  case (Cons d ds)
  obtain v' es1 where s: "dictScan d v = (v', es1)" by fastforce
  have wf: "dict_wf d" and h: "hashFunction (d_type d) = hash" using Cons.prems(2) by simp_all
  obtain val where val: "(key, val) \<in> set (dict_entries d)"
    using Cons.prems(2) by (auto simp: dict_map_def dest: map_of_SomeD)
  then have ne: "dict_entries d \<noteq> []" by auto
  obtain k where k: "k < 64" "cur v' = aligned_end k (cur v) mod 2 ^ 64"
    "\<forall>e \<in> set (dict_entries d). cur v \<le> cur (hash (fst e)) \<and> cur (hash (fst e)) < aligned_end k (cur v) \<longrightarrow> e \<in> set es1"
    using dictScan_spec [OF wf ne s] h by metis
  have sub: "set es1 \<subseteq> set es" using Cons.prems(1) s by (auto split: if_splits)
  show ?case
  proof (cases "cur (hash key) < aligned_end k (cur v)")
    case True
    with k(3) val Cons.prems(3) have "(key, val) \<in> set es1" by auto
    with sub show ?thesis by force
  next
    case False
    then have "aligned_end k (cur v) < 2 ^ 64" using cur_less [of "hash key"] by simp
    then have v': "cur v' = aligned_end k (cur v)" using k(2) by simp
    then have "v' \<noteq> 0" using aligned_end_greater [of "cur v" k] by auto
    then obtain es2 where es2: "scan_loop ds v' = Some es2" "es = es1 @ es2" using Cons.prems(1) s by auto
    have "key \<in> fst ` set es2"
      using Cons.IH [OF es2(1)] Cons.prems(2) False v' by simp
    with es2(2) show ?thesis by auto
  qed
qed simp

lemma dictScan_sound:
  assumes "dict_wf d" "dictScan d v = (v', es)"
  shows "set es \<subseteq> set (dict_entries d)"
proof (cases "dict_entries d = []")
  case True
  then show ?thesis using assms by (simp add: dictScan_def dict_wf_size)
next
  case False
  show ?thesis by (rule dictScan_spec [OF assms(1) False assms(2)])
qed

lemma scan_loop_sound:
  assumes "scan_loop ds v = Some es" "\<forall>d \<in> set ds. dict_wf d" "e \<in> set es"
  shows "\<exists>d \<in> set ds. e \<in> set (dict_entries d)"
  using assms
proof (induction ds arbitrary: v es)
  case (Cons d ds)
  obtain v' es1 where s: "dictScan d v = (v', es1)" by fastforce
  have "set es1 \<subseteq> set (dict_entries d)" using dictScan_sound [OF _ s] Cons.prems(2) by simp
  moreover have "\<exists>d \<in> set ds. e \<in> set (dict_entries d)" if new: "e \<notin> set es1"
  proof -
    obtain es2 where "scan_loop ds v' = Some es2" "e \<in> set es2"
      using Cons.prems(1,3) s new by (auto split: if_splits)
    then show ?thesis using Cons.IH Cons.prems(2) by simp
  qed
  ultimately show ?case by (metis list.set_intros subsetD)
qed simp

lemma scan_loop_ends:
  assumes "K < 64" "\<forall>d \<in> set ds. dict_wf d \<and> ht_size (d_ht0 d) \<le> 2 ^ K \<and> ht_size (d_ht1 d) \<le> 2 ^ K"
    and "2 ^ (64 - K) dvd cur v" "2 ^ 64 \<le> cur v + length ds * 2 ^ (64 - K)"
  shows "\<exists>es. scan_loop ds v = Some es"
  using assms(2-)
proof (induction ds arbitrary: v)
  case Nil
  then show ?case using cur_less [of v] by simp
next
  case (Cons d ds)
  obtain v' es1 where s: "dictScan d v = (v', es1)" by fastforce
  show ?case
  proof (cases "v' = 0")
    case True
    then show ?thesis using s by simp
  next
    case False
    then have ne: "dict_entries d \<noteq> []"
      using s dict_wf_size [of d] Cons.prems(1) by (auto simp: dictScan_def)
    obtain k where k: "k < 64" "2 ^ k \<le> max (ht_size (d_ht0 d)) (ht_size (d_ht1 d))"
      "cur v' = aligned_end k (cur v) mod 2 ^ 64"
      using dictScan_spec [OF _ ne s] Cons.prems(1) by (metis list.set_intros(1))
    have "max (ht_size (d_ht0 d)) (ht_size (d_ht1 d)) \<le> 2 ^ K" using Cons.prems(1) by simp
    then have "(2::nat) ^ k \<le> 2 ^ K" using k(2) by (rule le_trans [rotated])
    then have kK: "k \<le> K" by simp
    have "cur v' \<noteq> 0" using False cur_eq_0 by simp
    then have "aligned_end k (cur v) \<noteq> 2 ^ 64" using k(3) by auto
    then have v': "cur v' = aligned_end k (cur v)"
      using k aligned_end_le [of k "cur v"] cur_less [of v] by simp
    have "aligned_end K (cur v) \<le> aligned_end k (cur v)" using aligned_end_mono(1) [OF kK] assms(1) by simp
    moreover have "aligned_end K (cur v) = cur v + 2 ^ (64 - K)"
      using Cons.prems(2) by (simp add: aligned_end_def)
    ultimately have "2 ^ 64 \<le> cur v' + length ds * 2 ^ (64 - K)" using Cons.prems(3) v' by simp
    moreover have "2 ^ (64 - K) dvd aligned_end k (cur v)"
      unfolding aligned_end_def using kK by (intro dvd_mult le_imp_power_dvd) simp
    ultimately have "\<exists>es. scan_loop ds v' = Some es" using Cons.IH [of v'] Cons.prems(1) v' by simp
    then show ?thesis using s False by auto
  qed
qed

section \<open>Properties\<close>

text \<open>The example table of \<open>Dict\<close> and the same table after one rehashing step, as a client sees them.\<close>

definition scan_example :: "(nat, int) dict list" where
  "scan_example = dict_example # replicate 7 (snd (the (dictRehash dict_example 1)))"

lemma scan_example_facts:
  "\<forall>d \<in> set scan_example. dict_wf d \<and> hashFunction (d_type d) = of_nat \<and> dict_map d 5 \<noteq> None"
  "\<forall>d \<in> set scan_example. dict_wf d \<and> ht_size (d_ht0 d) \<le> 2 ^ 3 \<and> ht_size (d_ht1 d) \<le> 2 ^ 3"
proof -
  let ?d = "snd (the (dictRehash dict_example 1))"
  have d: "dict_wf ?d \<and> d_type ?d = d_type dict_example \<and> dict_map ?d = dict_map dict_example"
  proof (rule dictRehash_spec [OF dict_example_facts(1), of 1])
    fix more d'
    assume d': "dictRehash dict_example 1 = Some (more, d')" "dict_wf d'" "rehash_keeps dict_example d'"
    then show ?thesis using rehash_keeps_map [OF d'(3) dict_example_facts(1)] by (simp add: rehash_keeps_def)
  qed
  have set: "set scan_example = {dict_example, ?d}" by (auto simp: scan_example_def)
  show "\<forall>d \<in> set scan_example. dict_wf d \<and> hashFunction (d_type d) = of_nat \<and> dict_map d 5 \<noteq> None"
    unfolding set using d dict_example_facts by (simp add: dict_example_def)
  have "ht_size (d_ht0 ?d) = 4" "ht_size (d_ht1 ?d) = 8" "ht_size (d_ht1 dict_example) = 8" by code_simp+
  with d show "\<forall>d \<in> set scan_example. dict_wf d \<and> ht_size (d_ht0 d) \<le> 2 ^ 3 \<and> ht_size (d_ht1 d) \<le> 2 ^ 3"
    unfolding set using dict_example_facts by simp
qed

text \<open>
  C1: The guarantee of \<open>dictScan\<close>.  Let a client iterate from cursor 0 until the cursor is
  0 again, over a table that changes arbitrarily between the calls (it may grow, shrink, be
  rehashed, gain and lose other keys) under one hash function.  Then a key that is in the
  table at every call is reported, and every pair reported is in the table at some call.
\<close>

theorem dictScan_guarantee:
  assumes "scan_loop ds 0 = Some es" "\<forall>d \<in> set ds. dict_wf d \<and> hashFunction (d_type d) = hash"
  shows "((\<forall>d \<in> set ds. dict_map d key \<noteq> None) \<longrightarrow> key \<in> fst ` set es) \<and>
    (e \<in> set es \<longrightarrow> (\<exists>d \<in> set ds. e \<in> set (dict_entries d)))"
  using scan_loop_complete [OF assms(1), of hash key] scan_loop_sound [OF assms(1), of e] assms(2) by auto

theorem dictScan_guarantee_witness:
  "\<exists>es. scan_loop scan_example 0 = Some es \<and> 5 \<in> fst ` set es \<and>
     ((2, 20) \<in> set es \<longrightarrow> (\<exists>d \<in> set scan_example. (2, 20) \<in> set (dict_entries d)))"
proof -
  obtain es where s: "scan_loop scan_example 0 = Some es"
    using scan_loop_ends [of 3 scan_example 0, OF _ scan_example_facts(2)] by (auto simp: scan_example_def)
  then show ?thesis
    using dictScan_guarantee [OF s, of of_nat 5 "(2, 20)"] scan_example_facts(1) by simp
qed

text \<open>
  C15: An iteration ends.  While the tables have at most $2^K$ buckets, $2^K$ calls bring
  the cursor back to 0, whatever the table contains and however it changes.
\<close>

theorem dictScan_ends:
  assumes "K < 64" "2 ^ K \<le> length ds"
    and "\<forall>d \<in> set ds. dict_wf d \<and> ht_size (d_ht0 d) \<le> 2 ^ K \<and> ht_size (d_ht1 d) \<le> 2 ^ K"
  shows "\<exists>es. scan_loop ds 0 = Some es"
proof -
  have "(2::nat) ^ 64 = 2 ^ K * 2 ^ (64 - K)" using assms(1) by (simp flip: power_add)
  also have "\<dots> \<le> length ds * 2 ^ (64 - K)" using assms(2) by (intro mult_le_mono1)
  finally show ?thesis using assms by (intro scan_loop_ends [of K]) simp_all
qed

theorem dictScan_ends_witness: "\<exists>es. scan_loop scan_example 0 = Some es"
  using dictScan_ends [of 3 scan_example, OF _ _ scan_example_facts(2)] by (simp add: scan_example_def)

end
