(* ===== verification/DictIter.thy ===== *)
theory DictIter
  imports Dict
begin

text \<open>
  The iterators of \<open>src/redis-6.0.5/src/dict.c\<close>: \<open>dictGetIterator\<close>, \<open>dictGetSafeIterator\<close>,
  \<open>dictNext\<close>, \<open>dictReleaseIterator\<close> and \<open>dictFingerprint\<close>.  \<open>dictNext\<close> works on the table as
  it is at the call; the properties are about a table that the client leaves alone.
\<close>

section \<open>The program\<close>

text \<open>The fingerprint: \<open>ptr0\<close> and \<open>ptr1\<close> are the addresses of the two tables.  The hash is a
  signed integer, so the shifts to the right are arithmetic.\<close>

definition fingerprint_mix :: "u64 \<Rightarrow> u64 \<Rightarrow> u64" where
  "fingerprint_mix hash i =
     (let hash = hash + i;
          hash = NOT hash + push_bit 21 hash;
          hash = hash XOR signed_drop_bit 24 hash;
          hash = (hash + push_bit 3 hash) + push_bit 8 hash;
          hash = hash XOR signed_drop_bit 14 hash;
          hash = (hash + push_bit 2 hash) + push_bit 4 hash;
          hash = hash XOR signed_drop_bit 28 hash
      in hash + push_bit 31 hash)"

definition dictFingerprint :: "u64 \<Rightarrow> u64 \<Rightarrow> ('k, 'v) dict \<Rightarrow> u64" where
  "dictFingerprint ptr0 ptr1 d =
     foldl fingerprint_mix 0
       [ptr0, of_nat (ht_size (d_ht0 d)), of_nat (ht_used (d_ht0 d)),
        ptr1, of_nat (ht_size (d_ht1 d)), of_nat (ht_used (d_ht1 d))]"

text \<open>
  An iterator.  \<open>entry\<close> and \<open>nextEntry\<close> point into a chain: the model keeps the rest of the
  chain from there, the empty list for a null pointer.  \<open>it_second\<close> is the table number.
\<close>

record ('k, 'v) dictIterator =
  it_index :: int
  it_second :: bool
  it_safe :: bool
  it_entry :: "('k, 'v) chain"
  it_nextEntry :: "('k, 'v) chain"
  it_fingerprint :: u64

definition dictGetIterator :: "('k, 'v) dictIterator" where
  "dictGetIterator = \<lparr>it_index = -1, it_second = False, it_safe = False, it_entry = [],
     it_nextEntry = [], it_fingerprint = 0\<rparr>"

definition dictGetSafeIterator :: "('k, 'v) dictIterator" where
  "dictGetSafeIterator = dictGetIterator\<lparr>it_safe := True\<rparr>"

text \<open>The first call registers a safe iterator, or takes the fingerprint for an unsafe one.\<close>

definition iter_first ::
  "u64 \<Rightarrow> u64 \<Rightarrow> ('k, 'v) dict \<Rightarrow> ('k, 'v) dictIterator \<Rightarrow> ('k, 'v) dict \<times> ('k, 'v) dictIterator" where
  "iter_first ptr0 ptr1 d it =
     (if it_index it = -1 \<and> \<not> it_second it then
        (if it_safe it then (d\<lparr>d_iterators := d_iterators d + 1\<rparr>, it)
         else (d, it\<lparr>it_fingerprint := dictFingerprint ptr0 ptr1 d\<rparr>))
      else (d, it))"

text \<open>
  The body of the loop of \<open>dictNext\<close> that finds the next pointer; \<open>False\<close> when the loop
  breaks at the end of the last table.
\<close>

definition iter_move ::
  "u64 \<Rightarrow> u64 \<Rightarrow> ('k, 'v) dict \<Rightarrow> ('k, 'v) dictIterator \<Rightarrow> bool \<times> ('k, 'v) dict \<times> ('k, 'v) dictIterator" where
  "iter_move ptr0 ptr1 d it =
     (if it_entry it = [] then
        let ht = (if it_second it then d_ht1 d else d_ht0 d);
            (d, it) = iter_first ptr0 ptr1 d it;
            it = it\<lparr>it_index := it_index it + 1\<rparr>
        in if it_index it \<ge> int (ht_size ht) then
             (if dictIsRehashing d \<and> \<not> it_second it
              then (True, d, it\<lparr>it_second := True, it_index := 0, it_entry := ht_table (d_ht1 d) ! 0\<rparr>)
              else (False, d, it))
           else (True, d, it\<lparr>it_entry := ht_table ht ! nat (it_index it)\<rparr>)
      else (True, d, it\<lparr>it_entry := it_nextEntry it\<rparr>))"

definition iter_measure :: "('k, 'v) dict \<Rightarrow> ('k, 'v) dictIterator \<Rightarrow> nat" where
  "iter_measure d it =
     2 * (if it_second it then nat (int (ht_size (d_ht1 d)) - it_index it)
          else nat (int (ht_size (d_ht0 d)) - it_index it) + ht_size (d_ht1 d) + 1) +
     (if it_entry it = [] then 0 else 1)"

lemma iter_move_measure:
  "iter_move p0 p1 d it = (True, d', it') \<Longrightarrow> it_entry it' = [] \<Longrightarrow> iter_measure d' it' < iter_measure d it"
  by (auto simp: iter_move_def iter_first_def iter_measure_def dictIsRehashing_def Let_def split: if_splits)

function dictNext ::
  "u64 \<Rightarrow> u64 \<Rightarrow> ('k, 'v) dict \<Rightarrow> ('k, 'v) dictIterator \<Rightarrow>
   ('k \<times> 'v) option \<times> ('k, 'v) dict \<times> ('k, 'v) dictIterator" where
  "dictNext ptr0 ptr1 d it =
     (case iter_move ptr0 ptr1 d it of
        (False, d', it') \<Rightarrow> (None, d', it')
      | (True, d', it') \<Rightarrow>
          (case it_entry it' of
             [] \<Rightarrow> dictNext ptr0 ptr1 d' it'
           | e # next \<Rightarrow> (Some e, d', it'\<lparr>it_nextEntry := next\<rparr>)))"
  by pat_completeness auto
termination
  by (relation "measure (\<lambda>(p0, p1, d, it). iter_measure d it)") (auto simp: iter_move_measure)

definition dictReleaseIterator ::
  "u64 \<Rightarrow> u64 \<Rightarrow> ('k, 'v) dict \<Rightarrow> ('k, 'v) dictIterator \<Rightarrow> ('k, 'v) dict option" where
  "dictReleaseIterator ptr0 ptr1 d it =
     (if \<not> (it_index it = -1 \<and> \<not> it_second it) then
        (if it_safe it then Some (d\<lparr>d_iterators := d_iterators d - 1\<rparr>)
         else if it_fingerprint it = dictFingerprint ptr0 ptr1 d then Some d else None)
      else Some d)"

text \<open>The client's loop: call \<open>dictNext\<close> until it returns null; \<open>None\<close> when \<open>fuel\<close> calls are not enough.\<close>

fun iter_all ::
  "nat \<Rightarrow> u64 \<Rightarrow> u64 \<Rightarrow> ('k, 'v) dict \<Rightarrow> ('k, 'v) dictIterator \<Rightarrow>
   (('k \<times> 'v) list \<times> ('k, 'v) dict \<times> ('k, 'v) dictIterator) option" where
  "iter_all 0 p0 p1 d it = None"
| "iter_all (Suc fuel) p0 p1 d it =
     (case dictNext p0 p1 d it of
        (None, d', it') \<Rightarrow> Some ([], d', it')
      | (Some e, d', it') \<Rightarrow> map_option (\<lambda>(es, r). (e # es, r)) (iter_all fuel p0 p1 d' it'))"

section \<open>Lemmas\<close>

declare dictNext.simps [simp del]

text \<open>What an iterator still has to return.\<close>

definition iter_rest :: "('k, 'v) dict \<Rightarrow> ('k, 'v) dictIterator \<Rightarrow> ('k \<times> 'v) list" where
  "iter_rest d it =
     (if it_entry it = [] then [] else it_nextEntry it) @
     (if it_second it then concat (drop (nat (it_index it + 1)) (ht_table (d_ht1 d)))
      else concat (drop (nat (it_index it + 1)) (ht_table (d_ht0 d))) @ concat (ht_table (d_ht1 d)))"

definition iter_ok :: "('k, 'v) dict \<Rightarrow> ('k, 'v) dictIterator \<Rightarrow> bool" where
  "iter_ok d it \<longleftrightarrow> dict_wf d \<and> -1 \<le> it_index it \<and> (it_second it \<longrightarrow> dictIsRehashing d \<and> 0 \<le> it_index it) \<and>
     (it_index it = -1 \<longrightarrow> it_entry it = [])"

text \<open>How the table changes: only the count of safe iterators, at the first call.\<close>

definition iter_mark :: "('k, 'v) dictIterator \<Rightarrow> ('k, 'v) dict \<Rightarrow> ('k, 'v) dict" where
  "iter_mark it d = (if it_index it = -1 \<and> \<not> it_second it \<and> it_safe it then d\<lparr>d_iterators := d_iterators d + 1\<rparr> else d)"

lemma drop_table:
  "nat i < length tbl \<Longrightarrow> 0 \<le> i \<Longrightarrow> concat (drop (nat i) tbl) = tbl ! nat i @ concat (drop (nat (i + 1)) tbl)"
  by (simp add: Cons_nth_drop_Suc [symmetric] nat_add_distrib)

lemma dict_wf_lengths:
  assumes "dict_wf d"
  shows "length (ht_table (d_ht0 d)) = ht_size (d_ht0 d)" "length (ht_table (d_ht1 d)) = ht_size (d_ht1 d)"
    "dictIsRehashing d \<Longrightarrow> 0 < ht_size (d_ht1 d)" "\<not> dictIsRehashing d \<Longrightarrow> ht_table (d_ht1 d) = []"
  using assms ht_wf_size_pos [of "hashFunction (d_type d)" "d_ht1 d"]
  by (auto simp: dict_wf_def dictReset_def ht_wf_length split: if_splits)

lemma iterators_irrelevant [simp]:
  "dict_wf (d\<lparr>d_iterators := n\<rparr>) = dict_wf d" "dictIsRehashing (d\<lparr>d_iterators := n\<rparr>) = dictIsRehashing d"
  by (simp_all add: dict_wf_def dictIsRehashing_def dict_entries_def)

lemma iter_rest_irrelevant [simp]: "iter_rest (d\<lparr>d_iterators := n\<rparr>) it = iter_rest d it"
  by (simp add: iter_rest_def)

lemma iter_move_keeps:
  assumes ok: "iter_ok d it" and m: "iter_move p0 p1 d it = (b, d', it')"
  shows "d' = iter_mark it d" "iter_ok d' it'" "it_safe it' = it_safe it" "0 \<le> it_index it'"
    "it_fingerprint it' = (if it_index it = -1 \<and> \<not> it_second it \<and> \<not> it_safe it then dictFingerprint p0 p1 d else it_fingerprint it)"
  using ok m
  by (auto simp: iter_move_def iter_first_def iter_mark_def iter_ok_def Let_def split: if_splits)

lemma iter_move_rest:
  assumes ok: "iter_ok d it" and m: "iter_move p0 p1 d it = (b, d', it')"
  shows "if b then iter_rest d it = it_entry it' @ iter_rest d' (it'\<lparr>it_entry := []\<rparr>) else iter_rest d it = []"
proof (cases "it_entry it = []")
  case False
  then show ?thesis using ok m by (auto simp: iter_move_def iter_rest_def)
next
  case True
  have wf: "dict_wf d" using ok by (simp add: iter_ok_def)
  note len = dict_wf_lengths [OF wf]
  let ?i = "it_index it + 1"
  have i: "0 \<le> ?i" using ok by (simp add: iter_ok_def)
  consider (in1) "it_second it" "?i < int (ht_size (d_ht1 d))" | (end1) "it_second it" "\<not> ?i < int (ht_size (d_ht1 d))"
    | (in0) "\<not> it_second it" "?i < int (ht_size (d_ht0 d))"
    | (switch) "\<not> it_second it" "\<not> ?i < int (ht_size (d_ht0 d))" "dictIsRehashing d"
    | (end0) "\<not> it_second it" "\<not> ?i < int (ht_size (d_ht0 d))" "\<not> dictIsRehashing d" by blast
  then show ?thesis
  proof cases
    case in1
    with drop_table [of ?i "ht_table (d_ht1 d)"] i len True m show ?thesis
      by (auto simp: iter_move_def iter_first_def iter_rest_def Let_def nat_less_iff split: if_splits)
  next
    case in0
    with drop_table [of ?i "ht_table (d_ht0 d)"] i len True m show ?thesis
      by (auto simp: iter_move_def iter_first_def iter_rest_def Let_def nat_less_iff split: if_splits)
  next
    case switch
    with drop_table [of 0 "ht_table (d_ht1 d)"] i len True m show ?thesis
      by (auto simp: iter_move_def iter_first_def iter_rest_def Let_def split: if_splits)
  qed (use i len True m in \<open>auto simp: iter_move_def iter_first_def iter_rest_def Let_def split: if_splits\<close>)
qed

definition iter_print :: "u64 \<Rightarrow> u64 \<Rightarrow> ('k, 'v) dict \<Rightarrow> ('k, 'v) dictIterator \<Rightarrow> u64" where
  "iter_print p0 p1 d it =
     (if it_index it = -1 \<and> \<not> it_second it \<and> \<not> it_safe it then dictFingerprint p0 p1 d else it_fingerprint it)"

lemma dictNext_spec:
  assumes "iter_ok d it"
  shows "case dictNext p0 p1 d it of (r, d', it') \<Rightarrow>
    d' = iter_mark it d \<and> iter_ok d' it' \<and> it_safe it' = it_safe it \<and> 0 \<le> it_index it' \<and>
    it_fingerprint it' = iter_print p0 p1 d it \<and>
    iter_rest d it = (case r of None \<Rightarrow> [] | Some e \<Rightarrow> e # iter_rest d' it')"
  using assms
proof (induction p0 p1 d it rule: dictNext.induct)
  case (1 p0 p1 d it)
  obtain b d1 it1 where m: "iter_move p0 p1 d it = (b, d1, it1)" by (metis prod_cases3)
  note k = iter_move_keeps [OF 1(2) m, folded iter_print_def] and r = iter_move_rest [OF 1(2) m]
  show ?case
  proof (cases b)
    case False
    then show ?thesis using m k r by (simp add: dictNext.simps [of p0 p1 d it])
  next
    case b: True
    show ?thesis
    proof (cases "it_entry it1")
      case Nil
      have eq: "dictNext p0 p1 d it = dictNext p0 p1 d1 it1"
        using m b Nil by (simp add: dictNext.simps [of p0 p1 d it])
      have same: "iter_mark it1 d1 = d1" "iter_print p0 p1 d1 it1 = it_fingerprint it1" "it1\<lparr>it_entry := []\<rparr> = it1"
        using k(4) Nil by (simp_all add: iter_mark_def iter_print_def)
      have IH: "case dictNext p0 p1 d1 it1 of (r, d', it') \<Rightarrow>
        d' = iter_mark it1 d1 \<and> iter_ok d' it' \<and> it_safe it' = it_safe it1 \<and> 0 \<le> it_index it' \<and>
        it_fingerprint it' = iter_print p0 p1 d1 it1 \<and>
        iter_rest d1 it1 = (case r of None \<Rightarrow> [] | Some e \<Rightarrow> e # iter_rest d' it')"
        using 1(1) [OF m [symmetric] _ refl Nil k(2)] b by simp
      show ?thesis
        using IH k(1,3,5) r b Nil unfolding eq same by (auto split: prod.splits)
    next
      case (Cons e c)
      have "dictNext p0 p1 d it = (Some e, d1, it1\<lparr>it_nextEntry := c\<rparr>)"
        using m b Cons by (simp add: dictNext.simps [of p0 p1 d it])
      moreover have "iter_ok d1 (it1\<lparr>it_nextEntry := c\<rparr>)" using k(2) by (simp add: iter_ok_def)
      ultimately show ?thesis using k r b Cons by (simp add: iter_rest_def)
    qed
  qed
qed

lemma iter_all_spec:
  assumes "iter_ok d it" "length (iter_rest d it) < fuel"
  shows "\<exists>it'. iter_all fuel p0 p1 d it = Some (iter_rest d it, iter_mark it d, it') \<and>
    it_safe it' = it_safe it \<and> 0 \<le> it_index it' \<and> it_fingerprint it' = iter_print p0 p1 d it"
  using assms
proof (induction fuel arbitrary: d it)
  case (Suc fuel)
  obtain r d1 it1 where n: "dictNext p0 p1 d it = (r, d1, it1)" by (metis prod_cases3)
  have s: "d1 = iter_mark it d" "iter_ok d1 it1" "it_safe it1 = it_safe it" "0 \<le> it_index it1"
    "it_fingerprint it1 = iter_print p0 p1 d it"
    "iter_rest d it = (case r of None \<Rightarrow> [] | Some e \<Rightarrow> e # iter_rest d1 it1)"
    using dictNext_spec [OF Suc.prems(1), where ?p0.0 = p0 and ?p1.0 = p1, unfolded n prod.case] by blast+
  show ?case
  proof (cases r)
    case None
    then show ?thesis using n s by simp
  next
    case (Some e)
    have same: "iter_mark it1 d1 = d1" "iter_print p0 p1 d1 it1 = it_fingerprint it1"
      using s(4) by (simp_all add: iter_mark_def iter_print_def)
    obtain it' where "iter_all fuel p0 p1 d1 it1 = Some (iter_rest d1 it1, d1, it')"
      "it_safe it' = it_safe it1" "0 \<le> it_index it'" "it_fingerprint it' = it_fingerprint it1"
      using Suc.IH [OF s(2)] Suc.prems(2) s(6) Some same by auto
    then show ?thesis using n s Some by simp
  qed
qed simp

section \<open>Properties\<close>

text \<open>
  C16: An iterator, safe or not, over a table that is not modified returns every entry
  exactly once, in the order of the buckets of the first and then of the second table, in one
  call more than there are entries.  Releasing it passes the fingerprint check and restores
  the table; in between, a safe iterator keeps the rehashing steps from moving entries.
\<close>

theorem dictIterator_complete:
  assumes "dict_wf d" "it = dictGetIterator \<or> it = dictGetSafeIterator"
  shows "\<exists>d' it'. iter_all (dictSize d + 1) ptr0 ptr1 d it = Some (dict_entries d, d', it') \<and>
    dictReleaseIterator ptr0 ptr1 d' it' = Some d \<and>
    (it_safe it \<longrightarrow> dictRehashStep d' = Some d')"
proof -
  have it: "it_index it = -1" "\<not> it_second it" "it_entry it = []"
    using assms(2) by (auto simp: dictGetSafeIterator_def dictGetIterator_def)
  then have "iter_ok d it" "iter_rest d it = dict_entries d"
    using assms(1) by (simp_all add: iter_ok_def iter_rest_def dict_entries_def)
  then obtain it' where it': "iter_all (dictSize d + 1) ptr0 ptr1 d it = Some (dict_entries d, iter_mark it d, it')"
    "it_safe it' = it_safe it" "0 \<le> it_index it'" "it_fingerprint it' = iter_print ptr0 ptr1 d it"
    using iter_all_spec [of d it "dictSize d + 1" ptr0 ptr1] dict_wf_size [OF assms(1)] by auto
  then show ?thesis
    using it by (auto simp: dictReleaseIterator_def iter_mark_def iter_print_def dictRehashStep_def)
qed

theorem dictIterator_complete_witness:
  "\<exists>d' it'. iter_all 5 4096 8192 dict_example dictGetSafeIterator = Some (dict_entries dict_example, d', it') \<and>
    dictReleaseIterator 4096 8192 d' it' = Some dict_example \<and> dictRehashStep d' = Some d'"
  using dictIterator_complete [OF dict_example_facts(1), of dictGetSafeIterator 4096 8192]
  by (simp add: dict_example_facts dictGetSafeIterator_def)

end
