(* ===== verification/Numbers.thy ===== *)
theory Numbers
  imports Prelude
begin

text \<open>
  The conversions between integers and their decimal notation in
  \<open>src/redis-6.0.5/src/util.c\<close>: \<open>digits10\<close>, \<open>sdigits10\<close>, \<open>ll2string\<close>, \<open>string2ll\<close> and
  \<open>string2l\<close>.

  Strings are byte lists.  An unsigned 64-bit value is a natural number: the code only divides
  and compares it, and multiplies it after its overflow checks.  A buffer passed to
  \<open>ll2string\<close> is returned updated, together with the result of the function.
\<close>

section \<open>The program\<close>

definition LLONG_MAX :: int where "LLONG_MAX = 9223372036854775807"
definition LLONG_MIN :: int where "LLONG_MIN = - 9223372036854775808"
definition ULLONG_MAX :: nat where "ULLONG_MAX = 18446744073709551615"

fun digits10 :: "nat \<Rightarrow> nat" where
  "digits10 v =
     (if v < 10 then 1
      else if v < 100 then 2
      else if v < 1000 then 3
      else if v < 1000000000000 then
        (if v < 100000000 then
           (if v < 1000000 then
              (if v < 10000 then 4 else 5 + (if v \<ge> 100000 then 1 else 0))
            else 7 + (if v \<ge> 10000000 then 1 else 0))
         else if v < 10000000000 then 9 + (if v \<ge> 1000000000 then 1 else 0)
         else 11 + (if v \<ge> 100000000000 then 1 else 0))
      else 12 + digits10 (v div 1000000000000))"

declare digits10.simps [simp del]

definition abs_value :: "int \<Rightarrow> nat" where
  "abs_value v = (if v \<noteq> LLONG_MIN then nat (- v) else nat LLONG_MAX + 1)"

definition sdigits10 :: "int \<Rightarrow> nat" where
  "sdigits10 v = (if v < 0 then digits10 (abs_value v) + 1 else digits10 (nat v))"

definition digits :: "byte list" where
  "digits = map of_char
    (''0001020304050607080910111213141516171819'' @
     ''2021222324252627282930313233343536373839'' @
     ''4041424344454647484950515253545556575859'' @
     ''6061626364656667686970717273747576777879'' @
     ''8081828384858687888990919293949596979899'')"

fun ll2stringLoop :: "byte list \<Rightarrow> nat \<Rightarrow> nat \<Rightarrow> byte list \<times> nat \<times> nat" where
  "ll2stringLoop dst next value =
     (if value \<ge> 100 then
        let i = (value mod 100) * 2
        in ll2stringLoop (dst[next := digits ! (i + 1), next - 1 := digits ! i]) (next - 2) (value div 100)
      else (dst, next, value))"

declare ll2stringLoop.simps [simp del]

definition ll2string :: "byte list \<Rightarrow> nat \<Rightarrow> int \<Rightarrow> nat \<times> byte list" where
  "ll2string dst dstlen svalue =
     (let (negative, value) = (if svalue < 0 then (1, abs_value svalue) else (0, nat svalue));
          len = digits10 value + negative
      in if len \<ge> dstlen then (0, dst)
         else
           let dst = dst[len := 0];
               (dst, next, value) = ll2stringLoop dst (len - 1) value;
               dst = (if value < 10 then dst[next := 48 + of_nat value]
                      else dst[next := digits ! (value * 2 + 1), next - 1 := digits ! (value * 2)]);
               dst = (if negative = 1 then dst[0 := 45] else dst)
           in (len, dst))"

text \<open>
  The digits after the first one.  \<open>None\<close> for an overflow; otherwise the value and the bytes
  that were not consumed.
\<close>

fun string2llLoop :: "byte list \<Rightarrow> nat \<Rightarrow> (nat \<times> byte list) option" where
  "string2llLoop [] v = Some (v, [])"
| "string2llLoop (c # p) v =
     (if c \<ge> 48 \<and> c \<le> 57 then
        (if v > ULLONG_MAX div 10 then None
         else if v * 10 > ULLONG_MAX - unat (c - 48) then None
         else string2llLoop p (v * 10 + unat (c - 48)))
      else Some (v, c # p))"

definition string2ll :: "byte list \<Rightarrow> int option" where
  "string2ll s =
     (if s = [] then None
      else if length s = 1 \<and> hd s = 48 then Some 0
      else
        let negative = (hd s = 45); p = (if negative then tl s else s)
        in if p = [] then None
           else if hd p \<ge> 49 \<and> hd p \<le> 57 then
             (case string2llLoop (tl p) (unat (hd p - 48)) of
                None \<Rightarrow> None
              | Some (v, rest) \<Rightarrow>
                  if rest \<noteq> [] then None
                  else if negative then
                    (if v > nat (- (LLONG_MIN + 1)) + 1 then None else Some (- int v))
                  else (if v > nat LLONG_MAX then None else Some (int v)))
           else None)"

definition string2l :: "byte list \<Rightarrow> int option" where
  "string2l s =
     (case string2ll s of
        None \<Rightarrow> None
      | Some llval \<Rightarrow> if llval < LLONG_MIN \<or> llval > LLONG_MAX then None else Some llval)"

section \<open>Decimal notation\<close>

fun dec_nat :: "nat \<Rightarrow> byte list" where
  "dec_nat n = (if n < 10 then [48 + of_nat n] else dec_nat (n div 10) @ [48 + of_nat (n mod 10)])"

declare dec_nat.simps [simp del]

definition dec_bytes :: "int \<Rightarrow> byte list" where
  "dec_bytes v = (if v < 0 then 45 # dec_nat (nat (- v)) else dec_nat (nat v))"

lemma dec_nat_small [simp]: "n < 10 \<Longrightarrow> dec_nat n = [48 + of_nat n]"
  by (simp add: dec_nat.simps)

lemma dec_nat_step: "n \<ge> 10 \<Longrightarrow> dec_nat n = dec_nat (n div 10) @ [48 + of_nat (n mod 10)]"
  by (subst dec_nat.simps) simp

lemma length_dec_nat_pos: "0 < length (dec_nat n)"
  by (subst dec_nat.simps) simp

lemma length_dec_nat: "length (dec_nat n) = (if n < 10 then 1 else length (dec_nat (n div 10)) + 1)"
  by (subst dec_nat.simps) simp

lemma length_dec_nat_div:
  "10 ^ k \<le> v \<Longrightarrow> length (dec_nat v) = k + length (dec_nat (v div 10 ^ k))"
proof (induction k arbitrary: v)
  case (Suc k)
  have "10 ^ k \<le> v div 10" using Suc.prems by (simp add: less_eq_div_iff_mult_less_eq mult.commute)
  then have "length (dec_nat (v div 10)) = k + length (dec_nat (v div 10 div 10 ^ k))" by (rule Suc.IH)
  moreover have "10 \<le> v"
    using power_increasing [of 1 "Suc k" "10::nat"] by (intro le_trans [OF _ Suc.prems]) simp
  ultimately show ?case using length_dec_nat [of v] by (simp add: div_mult2_eq)
qed simp

lemma length_dec_nat_range:
  assumes "10 ^ k \<le> v" "v < 10 ^ Suc k"
  shows "length (dec_nat v) = Suc k"
proof -
  have "v div 10 ^ k < 10" using assms(2) by (intro less_mult_imp_div_less) simp
  then show ?thesis using length_dec_nat_div [OF assms(1)] by simp
qed

lemma digits10_length: "digits10 v = length (dec_nat v)"
proof (induction v rule: digits10.induct)
  case (1 v)
  note r = length_dec_nat_range [of 1 v] length_dec_nat_range [of 2 v] length_dec_nat_range [of 3 v]
    length_dec_nat_range [of 4 v] length_dec_nat_range [of 5 v] length_dec_nat_range [of 6 v]
    length_dec_nat_range [of 7 v] length_dec_nat_range [of 8 v] length_dec_nat_range [of 9 v]
    length_dec_nat_range [of 10 v] length_dec_nat_range [of 11 v]
  show ?case
  proof (cases "v < 1000000000000")
    case True
    show ?thesis
      using r True by (subst digits10.simps) (simp add: not_less)
  next
    case False
    then show ?thesis using 1 length_dec_nat_div [of 12 v] by (simp add: digits10.simps [of v])
  qed
qed

lemma nth_concat_pairs:
  "i < n \<Longrightarrow> concat (map (\<lambda>i. [f i, g i]) [0..<n]) ! (i * 2) = f i \<and>
     concat (map (\<lambda>i. [f i, g i]) [0..<n]) ! (i * 2 + 1) = g i"
proof (induction n)
  case (Suc n)
  have "length (concat (map (\<lambda>i. [f i, g i]) [0..<n])) = n * 2" by (induction n) auto
  then show ?case using Suc by (cases "i = n") (auto simp: nth_append)
qed simp

lemma digits_eq: "digits = concat (map (\<lambda>i. [48 + of_nat (i div 10), 48 + of_nat (i mod 10)]) [0..<100])"
  by code_simp

lemma digits_table:
  assumes "i < 100"
  shows "digits ! (i * 2) = 48 + of_nat (i div 10)" "digits ! (i * 2 + 1) = 48 + of_nat (i mod 10)"
  unfolding digits_eq
  by (rule conjunct1 [OF nth_concat_pairs [OF assms]], rule conjunct2 [OF nth_concat_pairs [OF assms]])

section \<open>Printing\<close>

text \<open>The end of \<open>ll2string\<close>: the last one or two digits.\<close>

definition last_digits :: "byte list \<times> nat \<times> nat \<Rightarrow> byte list" where
  "last_digits = (\<lambda>(dst, next, value).
     if value < 10 then dst[next := 48 + of_nat value]
     else dst[next := digits ! (value * 2 + 1), next - 1 := digits ! (value * 2)])"

lemma update_pair: "0 < n \<Longrightarrow> n < length xs \<Longrightarrow> xs[n := b, n - 1 := a] = write_at (n - 1) [a, b] xs"
  by (rule nth_equalityI)
    (auto simp: write_at_def nth_append nth_Cons nth_list_update split: nat.splits intro!: arg_cong [where f = "(!) xs"])

lemma update_one: "n < length xs \<Longrightarrow> xs[n := b] = write_at n [b] xs"
  by (simp add: write_at_def upd_conv_take_nth_drop)

lemma write_at_write_at:
  "off + length bs + length cs \<le> length xs \<Longrightarrow>
   write_at off bs (write_at (off + length bs) cs xs) = write_at off (bs @ cs) xs"
  by (simp add: write_at_def add.assoc)

lemma dec_nat_hundred:
  assumes "n \<ge> 10"
  shows "dec_nat n = (if n < 100 then [] else dec_nat (n div 100)) @ [48 + of_nat (n mod 100 div 10), 48 + of_nat (n mod 10)]"
proof -
  have "n div 10 mod 10 = n mod 100 div 10" "n div 10 div 10 = n div 100"
    using mod_mult2_eq [of n 10 10] div_mult2_eq [of n 10 10] by simp_all
  moreover have "n < 100 \<Longrightarrow> n mod 100 div 10 = n div 10" by simp
  ultimately show ?thesis
    using assms dec_nat_step [of n] dec_nat_step [of "n div 10"] by auto
qed

lemma ll2stringLoop_spec:
  assumes "length (dec_nat value) \<le> next + 1" "next < length dst"
  shows "last_digits (ll2stringLoop dst next value) = write_at (next + 1 - length (dec_nat value)) (dec_nat value) dst"
  using assms
proof (induction dst "next" "value" rule: ll2stringLoop.induct)
  case (1 dst "next" "value")
  have two: "digits ! (v mod 100 * 2) = 48 + of_nat (v mod 100 div 10)"
    "digits ! (v mod 100 * 2 + 1) = 48 + of_nat (v mod 10)" for v
    using digits_table [of "v mod 100"] by (simp_all add: mod_mod_cancel)
  show ?case
  proof (cases "value \<ge> 100")
    case True
    let ?ds = "[48 + of_nat (value mod 100 div 10), 48 + of_nat (value mod 10)] :: byte list"
    let ?dst = "dst[next := digits ! (value mod 100 * 2 + 1), next - 1 := digits ! (value mod 100 * 2)]"
    have dec: "dec_nat value = dec_nat (value div 100) @ ?ds" using dec_nat_hundred [of "value"] True by simp
    have n: "2 \<le> next" "length (dec_nat (value div 100)) \<le> next - 2 + 1"
      using 1(2) arg_cong [OF dec, of length] length_dec_nat_pos [of "value div 100"]
      unfolding length_append list.size by linarith+
    have "last_digits (ll2stringLoop dst next value) = last_digits (ll2stringLoop ?dst (next - 2) (value div 100))"
      using True by (subst ll2stringLoop.simps) (simp add: Let_def)
    also have "\<dots> = write_at (next - 2 + 1 - length (dec_nat (value div 100))) (dec_nat (value div 100)) ?dst"
      using True n 1(3) by (intro 1(1)) simp_all
    also have "?dst = write_at (next - 1) ?ds dst"
      unfolding two using n 1(3) by (intro update_pair) simp_all
    also have "write_at (next - 2 + 1 - length (dec_nat (value div 100))) (dec_nat (value div 100)) (write_at (next - 1) ?ds dst) =
        write_at (next + 1 - length (dec_nat value)) (dec_nat value) dst"
      using write_at_write_at [of "next - 2 + 1 - length (dec_nat (value div 100))" "dec_nat (value div 100)" ?ds dst] n 1(3)
      by (simp add: dec)
    finally show ?thesis .
  next
    case False
    then have "ll2stringLoop dst next value = (dst, next, value)" by (subst ll2stringLoop.simps) simp
    moreover have "value \<ge> 10 \<Longrightarrow> dec_nat value = [48 + of_nat (value div 10), 48 + of_nat (value mod 10)]"
      using False dec_nat_hundred [of "value"] by simp
    ultimately show ?thesis
      using False 1(2,3) digits_table [of "value"] update_one [of "next" dst] update_pair [of "next" dst]
      by (cases "value < 10") (simp_all add: last_digits_def)
  qed
qed

lemma abs_value_eq: "in_i64 v \<Longrightarrow> v < 0 \<Longrightarrow> abs_value v = nat (- v)"
  by (simp add: abs_value_def LLONG_MIN_def LLONG_MAX_def)

lemma sdigits10_length: "in_i64 v \<Longrightarrow> sdigits10 v = length (dec_bytes v)"
  by (simp add: sdigits10_def dec_bytes_def abs_value_eq digits10_length)

lemma ll2string_spec:
  assumes "in_i64 v" "dstlen \<le> length dst"
  shows "ll2string dst dstlen v =
    (if length (dec_bytes v) < dstlen then (length (dec_bytes v), write_at 0 (dec_bytes v @ [0]) dst) else (0, dst))"
proof -
  define n where "n = (if v < 0 then abs_value v else nat v)"
  have n: "n = nat (abs v)" using abs_value_eq [OF assms(1)] by (simp add: n_def)
  let ?L = "length (dec_nat n)"
  have dec: "dec_bytes v = (if v < 0 then [45] else []) @ dec_nat n"
    by (simp add: dec_bytes_def n)
  define s where "s = (if v < 0 then 1 else 0 :: nat)"
  have len: "length (dec_bytes v) = ?L + s" by (simp add: dec s_def)
  have eq: "ll2string dst dstlen v =
    (if ?L + s \<ge> dstlen then (0, dst)
     else (?L + s, let dst = last_digits (ll2stringLoop (dst[?L + s := 0]) (?L + s - 1) n)
                   in if s = 1 then dst[0 := 45] else dst))"
    by (simp add: ll2string_def last_digits_def n_def s_def digits10_length Let_def split: prod.splits)
  show ?thesis
  proof (cases "?L + s < dstlen")
    case False
    then show ?thesis using eq len by simp
  next
    case True
    have pos: "0 < ?L" by (rule length_dec_nat_pos)
    have b: "?L + s < length dst" using True assms(2) by simp
    have "last_digits (ll2stringLoop (dst[?L + s := 0]) (?L + s - 1) n) = write_at s (dec_nat n) (dst[?L + s := 0])"
      using ll2stringLoop_spec [of n "?L + s - 1" "dst[?L + s := 0]"] pos b by simp
    also have "\<dots> = write_at s (dec_nat n @ [0]) dst"
      using write_at_write_at [of s "dec_nat n" "[0]" dst] update_one [OF b, of 0] b by (simp add: add.commute)
    finally have digits: "last_digits (ll2stringLoop (dst[?L + s := 0]) (?L + s - 1) n) = write_at s (dec_nat n @ [0]) dst" .
    have sign: "(write_at 1 (dec_nat n @ [0]) dst)[0 := 45] = write_at 0 (45 # dec_nat n @ [0]) dst" if "s = 1"
      using b that by (cases dst) (simp_all add: write_at_def)
    show ?thesis
      using True sign unfolding eq digits len by (auto simp: dec s_def Let_def)
  qed
qed

section \<open>Parsing\<close>

definition is_dec_digit :: "byte \<Rightarrow> bool" where
  "is_dec_digit c \<longleftrightarrow> c \<ge> 48 \<and> c \<le> 57"

definition dec_value :: "nat \<Rightarrow> byte list \<Rightarrow> nat" where
  "dec_value v p = foldl (\<lambda>v c. v * 10 + unat (c - 48)) v p"

lemma digit_range:
  "d < 10 \<Longrightarrow> is_dec_digit (48 + of_nat d) \<and> unat (48 + of_nat d - 48 :: byte) = d \<and> (0 < d \<longrightarrow> 49 \<le> (48 + of_nat d :: byte))"
proof -
  have "\<forall>d \<in> set [0..<10]. is_dec_digit (48 + of_nat d) \<and> unat (48 + of_nat d - 48 :: byte) = d \<and>
      (0 < d \<longrightarrow> 49 \<le> (48 + of_nat d :: byte))"
    by code_simp
  then show "d < 10 \<Longrightarrow> ?thesis" by simp
qed

lemma digit_of_byte:
  assumes "is_dec_digit c"
  shows "unat (c - 48) < 10" "48 + of_nat (unat (c - 48)) = c"
proof -
  have "unat (c - 48) = unat c - 48" "unat c \<le> 57"
    using assms by (simp_all add: is_dec_digit_def unat_sub word_le_nat_alt)
  then show "unat (c - 48) < 10" by simp
  show "48 + of_nat (unat (c - 48)) = c" by simp
qed

lemma dec_value_ge: "v \<le> dec_value v p"
proof (induction p arbitrary: v)
  case (Cons c p)
  have "v \<le> v * 10 + unat (c - 48)" by simp
  also have "\<dots> \<le> dec_value v (c # p)" using Cons [of "v * 10 + unat (c - 48)"] by (simp add: dec_value_def)
  finally show ?case .
qed (simp add: dec_value_def)

lemma string2llLoop_spec:
  assumes "v \<le> ULLONG_MAX"
  shows "string2llLoop p v = Some (n, []) \<longleftrightarrow> list_all is_dec_digit p \<and> n = dec_value v p \<and> n \<le> ULLONG_MAX"
  using assms
proof (induction p arbitrary: v)
  case (Cons c p)
  let ?v = "v * 10 + unat (c - 48)"
  show ?case
  proof (cases "is_dec_digit c")
    case True
    have d: "unat (c - 48) < 10" using True by (rule digit_of_byte)
    have ov: "v > ULLONG_MAX div 10 \<or> v * 10 > ULLONG_MAX - unat (c - 48) \<longleftrightarrow> ?v > ULLONG_MAX"
      using d by (auto simp: ULLONG_MAX_def)
    have big: "?v \<le> dec_value v (c # p)" using dec_value_ge [of ?v p] by (simp add: dec_value_def)
    show ?thesis
      using True ov big Cons.IH [of ?v] by (auto simp: is_dec_digit_def dec_value_def)
  next
    case False
    then show ?thesis by (auto simp: is_dec_digit_def)
  qed
qed (auto simp: dec_value_def)

lemma dec_nat_snoc: "0 < v \<Longrightarrow> d < 10 \<Longrightarrow> dec_nat (v * 10 + d) = dec_nat v @ [48 + of_nat d]"
  by (subst dec_nat.simps) simp

lemma dec_nat_dec_value: "0 < v \<Longrightarrow> list_all is_dec_digit p \<Longrightarrow> dec_nat (dec_value v p) = dec_nat v @ p"
proof (induction p arbitrary: v)
  case (Cons c p)
  then show ?case
    using Cons.IH [of "v * 10 + unat (c - 48)"] dec_nat_snoc [OF Cons.prems(1), of "unat (c - 48)"] digit_of_byte [of c]
    by (simp add: dec_value_def)
qed (simp add: dec_value_def)

lemma dec_nat_form:
  "0 < n \<Longrightarrow> \<exists>c p. dec_nat n = c # p \<and> 49 \<le> c \<and> c \<le> 57 \<and> list_all is_dec_digit p \<and> dec_value (unat (c - 48)) p = n"
proof (induction n rule: dec_nat.induct)
  case (1 n)
  show ?case
  proof (cases "n < 10")
    case True
    then show ?thesis
      using 1(2) digit_range [OF True] by (simp add: dec_value_def is_dec_digit_def)
  next
    case False
    then obtain c p where cp: "dec_nat (n div 10) = c # p" "49 \<le> c" "c \<le> 57" "list_all is_dec_digit p"
      "dec_value (unat (c - 48)) p = n div 10"
      using 1(1) by (auto simp: div_greater_zero_iff)
    have "dec_value (unat (c - 48)) (p @ [48 + of_nat (n mod 10)]) = n"
      using cp(5) digit_range [of "n mod 10"] by (simp add: dec_value_def)
    moreover have "is_dec_digit (48 + of_nat (n mod 10))" using digit_range [of "n mod 10"] by simp
    ultimately show ?thesis using cp False by (simp add: dec_nat_step)
  qed
qed

lemma string2ll_pos:
  assumes "c \<ge> 49" "c \<le> 57"
  shows "string2llLoop p (unat (c - 48)) = Some (n, []) \<longleftrightarrow> dec_nat n = c # p \<and> n \<le> ULLONG_MAX \<and> 0 < n"
proof -
  have c: "is_dec_digit c" "0 < unat (c - 48)"
  proof -
    show "is_dec_digit c" using assms by (auto simp: is_dec_digit_def intro: order_trans [of _ 49])
    have "48 \<le> c" using assms(1) by (rule order_trans [rotated]) simp
    then show "0 < unat (c - 48)" using assms by (simp add: unat_sub word_le_nat_alt)
  qed
  have "string2llLoop p (unat (c - 48)) = Some (n, []) \<longleftrightarrow>
      list_all is_dec_digit p \<and> n = dec_value (unat (c - 48)) p \<and> n \<le> ULLONG_MAX"
    using digit_of_byte(1) [OF c(1)] by (intro string2llLoop_spec) (simp add: ULLONG_MAX_def)
  also have "\<dots> \<longleftrightarrow> dec_nat n = c # p \<and> n \<le> ULLONG_MAX \<and> 0 < n"
  proof (intro iffI; elim conjE; intro conjI)
    assume "list_all is_dec_digit p" "n = dec_value (unat (c - 48)) p" "n \<le> ULLONG_MAX"
    then show "dec_nat n = c # p"
      using dec_nat_dec_value [OF c(2), of p] digit_of_byte [OF c(1)] by simp
    show "0 < n" using \<open>n = dec_value (unat (c - 48)) p\<close> dec_value_ge [of "unat (c - 48)" p] c(2) by simp
  next
    assume n: "dec_nat n = c # p" "0 < n"
    then show "list_all is_dec_digit p" "n = dec_value (unat (c - 48)) p" using dec_nat_form [of n] by auto
  qed
  finally show ?thesis .
qed

lemma dec_nat_zero: "dec_nat n = [48] \<longleftrightarrow> n = 0"
proof
  assume a: "dec_nat n = [48]"
  show "n = 0"
  proof (rule ccontr)
    assume "n \<noteq> 0"
    then show False using dec_nat_form [of n] a by auto
  qed
qed simp

lemma dec_nat_first: "dec_nat n = c # p \<Longrightarrow> n = 0 \<and> c = 48 \<and> p = [] \<or> 0 < n \<and> 49 \<le> c \<and> c \<le> 57"
  using dec_nat_form [of n] by (cases "n = 0") auto

lemma dec_bytes_neg: "dec_bytes v = 45 # p \<longleftrightarrow> v < 0 \<and> dec_nat (nat (- v)) = p"
  using dec_nat_first [of "nat v" 45 p] by (auto simp: dec_bytes_def)

lemma dec_bytes_nonneg: "c \<noteq> 45 \<Longrightarrow> dec_bytes v = c # p \<longleftrightarrow> 0 \<le> v \<and> dec_nat (nat v) = c # p"
  by (auto simp: dec_bytes_def)

lemma string2ll_digits:
  assumes "c \<ge> 49" "c \<le> 57"
  shows "(case string2llLoop p (unat (c - 48)) of None \<Rightarrow> None
      | Some (n, rest) \<Rightarrow> if rest \<noteq> [] then None else if n > lim then None else Some (f n)) = Some v \<longleftrightarrow>
    (\<exists>n. dec_nat n = c # p \<and> n \<le> ULLONG_MAX \<and> 0 < n \<and> n \<le> lim \<and> v = f n)"
proof -
  have "(case x of None \<Rightarrow> None
      | Some (n, rest) \<Rightarrow> if rest \<noteq> [] then None else if n > lim then None else Some (f n)) = Some v \<longleftrightarrow>
    (\<exists>n. x = Some (n, []) \<and> n \<le> lim \<and> v = f n)" for x :: "(nat \<times> byte list) option"
    by (auto split: option.splits if_splits)
  then show ?thesis by (simp only: string2ll_pos [OF assms] conj_assoc)
qed

lemma string2ll_iff: "string2ll s = Some v \<longleftrightarrow> in_i64 v \<and> s = dec_bytes v"
proof -
  have lim: "nat (- (LLONG_MIN + 1)) + 1 = 2 ^ 63" "nat LLONG_MAX = 2 ^ 63 - 1" "ULLONG_MAX = 2 ^ 64 - 1"
    by (simp_all add: LLONG_MIN_def LLONG_MAX_def ULLONG_MAX_def)
  have ne: "dec_bytes v \<noteq> []" using length_dec_nat_pos by (auto simp: dec_bytes_def)
  consider (empty) "s = []" | (zero) "s = [48]" | (minus) "s = [45]"
    | (neg) c p where "s = 45 # c # p" | (pos) c p where "s = c # p" "c \<noteq> 45" "s \<noteq> [48]"
    by (metis list.exhaust)
  then show ?thesis
  proof cases
    case empty
    then show ?thesis using ne by (simp add: string2ll_def)
  next
    case zero
    have "dec_bytes v = [48] \<longleftrightarrow> v = 0" using dec_bytes_nonneg [of 48 v "[]"] dec_nat_zero [of "nat v"] by auto
    moreover have "string2ll s = Some 0" using zero by (simp add: string2ll_def)
    ultimately show ?thesis using zero by (auto simp: in_signed_def eq_commute [of s])
  next
    case minus
    have "dec_bytes v \<noteq> s" using minus dec_bytes_neg [of v "[]"] length_dec_nat_pos [of "nat (- v)"] by simp
    moreover have "string2ll s = None" using minus by (simp add: string2ll_def)
    ultimately show ?thesis by (simp add: eq_commute [of s])
  next
    case neg
    note d = dec_bytes_neg [of v "c # p", folded neg]
    show ?thesis
    proof (cases "c \<ge> 49 \<and> c \<le> 57")
      case True
      have "string2ll s = (case string2llLoop p (unat (c - 48)) of None \<Rightarrow> None
          | Some (n, rest) \<Rightarrow> if rest \<noteq> [] then None else if n > 2 ^ 63 then None else Some (- int n))"
        using True neg by (simp add: string2ll_def Let_def LLONG_MIN_def split: option.split prod.split)
      then have "string2ll s = Some v \<longleftrightarrow>
          (\<exists>n. dec_nat n = c # p \<and> n \<le> ULLONG_MAX \<and> 0 < n \<and> n \<le> 2 ^ 63 \<and> v = - int n)"
        by (simp only: string2ll_digits [OF conjunct1 [OF True] conjunct2 [OF True]])
      also have "\<dots> \<longleftrightarrow> in_i64 v \<and> v < 0 \<and> dec_nat (nat (- v)) = c # p"
        unfolding lim by (auto simp: in_signed_def intro!: exI [of _ "nat (- v)"])
      finally show ?thesis using d by (simp add: eq_commute [of s])
    next
      case False
      then have "string2ll s = None" using neg by (auto simp: string2ll_def Let_def)
      moreover have "dec_bytes v \<noteq> s"
      proof
        assume "dec_bytes v = s"
        then have "v < 0" "dec_nat (nat (- v)) = c # p" using d by simp_all
        then show False using dec_nat_first [of "nat (- v)" c p] False by simp
      qed
      ultimately show ?thesis by (simp add: eq_commute [of s])
    qed
  next
    case pos
    note d = dec_bytes_nonneg [OF pos(2), of v p, folded pos(1)]
    show ?thesis
    proof (cases "c \<ge> 49 \<and> c \<le> 57")
      case True
      have "string2ll s = (case string2llLoop p (unat (c - 48)) of None \<Rightarrow> None
          | Some (n, rest) \<Rightarrow> if rest \<noteq> [] then None else if n > 2 ^ 63 - 1 then None else Some (int n))"
        using True pos by (simp add: string2ll_def Let_def LLONG_MAX_def split: option.split prod.split)
      then have "string2ll s = Some v \<longleftrightarrow>
          (\<exists>n. dec_nat n = c # p \<and> n \<le> ULLONG_MAX \<and> 0 < n \<and> n \<le> 2 ^ 63 - 1 \<and> v = int n)"
        by (simp only: string2ll_digits [OF conjunct1 [OF True] conjunct2 [OF True]])
      also have "\<dots> \<longleftrightarrow> in_i64 v \<and> 0 \<le> v \<and> dec_nat (nat v) = c # p"
        unfolding lim using dec_nat_first [of "nat v" c p] True
        by (auto simp: in_signed_def intro!: exI [of _ "nat v"])
      finally show ?thesis using d by (simp add: eq_commute [of "c # p"] pos(1))
    next
      case False
      have "length s = 1 \<and> hd s = 48 \<longleftrightarrow> s = [48]" by (cases s) auto
      then have "string2ll s = None" using pos False by (auto simp: string2ll_def Let_def)
      moreover have "dec_bytes v \<noteq> s"
      proof
        assume "dec_bytes v = s"
        then have "dec_nat (nat v) = c # p" using d pos(1) by simp
        then show False using dec_nat_first [of "nat v" c p] False pos by simp
      qed
      ultimately show ?thesis by (simp add: eq_commute [of s])
    qed
  qed
qed

lemma dec_bytes_nonzero: "0 \<notin> set (dec_bytes v)"
proof -
  have "0 \<notin> set (dec_nat n)" for n
  proof (induction n rule: dec_nat.induct)
    case (1 n)
    have "(48 + of_nat (n mod 10) :: byte) \<noteq> 0" using digit_range [of "n mod 10"] by auto
    then show ?case using 1 digit_range [of n] by (cases "n < 10") (auto simp: dec_nat_step)
  qed
  then show ?thesis by (simp add: dec_bytes_def)
qed

lemma dec_bytes_inject: "in_i64 v \<Longrightarrow> in_i64 w \<Longrightarrow> dec_bytes v = dec_bytes w \<Longrightarrow> v = w"
  by (metis option.inject string2ll_iff)

lemma length_dec_nat_le: "n < 10 ^ k \<Longrightarrow> 0 < k \<Longrightarrow> length (dec_nat n) \<le> k"
proof (induction k arbitrary: n)
  case (Suc k)
  show ?case
  proof (cases "n < 10")
    case False
    then have "n div 10 < 10 ^ k" "0 < k" using Suc.prems by (auto intro: Suc_leI gr0I less_mult_imp_div_less)
    with Suc.IH [of "n div 10"] False show ?thesis using length_dec_nat [of n] by simp
  qed simp
qed simp

section \<open>Properties\<close>

text \<open>
  C17: \<open>string2ll\<close> accepts exactly the decimal notation of the 64-bit signed integers: no
  leading zeros, no other byte, no overflow; and it returns the number denoted.  So a string
  that it accepts is recovered from its value without loss.
\<close>

theorem string2ll_exact: "string2ll s = Some v \<longleftrightarrow> in_i64 v \<and> s = dec_bytes v"
  by (rule string2ll_iff)

text \<open>
  \<open>ll2string\<close> writes the decimal notation of the number and a terminating zero at the
  start of the buffer and returns its length, which \<open>sdigits10\<close> predicts, leaving the rest
  of the buffer alone; a buffer too small is left unchanged and 0 is returned.
\<close>

lemma ll2string_correct:
  assumes "in_i64 v" "dstlen \<le> length dst"
  shows "ll2string dst dstlen v =
    (if sdigits10 v < dstlen then (sdigits10 v, dec_bytes v @ [0] @ drop (sdigits10 v + 1) dst) else (0, dst))"
  using ll2string_spec [OF assms] by (simp add: sdigits10_length [OF assms(1)] write_at_def)

lemma ll2string_correct_witness:
  "ll2string (replicate 6 7) 6 (-1024) = (5, [45, 49, 48, 50, 52, 0])"
proof -
  have "sdigits10 (-1024) = 5" "dec_bytes (-1024) = [45, 49, 48, 50, 52]"
    by (simp_all add: sdigits10_def abs_value_def LLONG_MIN_def digits10.simps dec_bytes_def dec_nat_step)
  then show ?thesis using ll2string_correct [of "-1024" 6 "replicate 6 7"] by (simp add: in_signed_def)
qed

text \<open>
  C18: Printing and parsing are inverse: parsing what \<open>ll2string\<close> has written to a buffer
  of the size the server uses (32 bytes) gives the number back.
\<close>

theorem string2ll_ll2string:
  assumes "in_i64 v" "length dst = 32"
  shows "case ll2string dst 32 v of (len, dst') \<Rightarrow> string2ll (take len dst') = Some v"
proof -
  have "nat (- v) < 10 ^ 19" "nat v < 10 ^ 19" using assms(1) by (auto simp: in_signed_def nat_less_iff)
  then have "length (dec_bytes v) < 32"
    using length_dec_nat_le [of "nat (- v)" 19] length_dec_nat_le [of "nat v" 19] by (simp add: dec_bytes_def)
  then show ?thesis
    using assms ll2string_spec [of v 32 dst] by (simp add: string2ll_iff write_at_def)
qed

theorem string2ll_ll2string_witness:
  "case ll2string (replicate 32 0) 32 (-7) of (len, dst') \<Rightarrow> string2ll (take len dst') = Some (-7)"
  by (rule string2ll_ll2string) (simp_all add: in_signed_def)

end
