(* ===== verification/Glob.thy ===== *)
theory Glob
  imports Prelude
begin

text \<open>
  The glob matcher \<open>stringmatchlen\<close> of \<open>src/redis-6.0.5/src/util.c\<close>, which KEYS, SCAN and
  PSUBSCRIBE use.  Its specification is the language of a pattern: \<open>glob_parse\<close> reads the
  pattern into tokens and \<open>glob_lang\<close> gives the strings they denote.
\<close>

section \<open>The program\<close>

text \<open>
  The pattern and the string are the bytes from the current pointer to the end; the pattern is
  terminated by a zero byte, which a read at the end returns.
\<close>

definition peek :: "byte list \<Rightarrow> byte" where
  "peek p = (case p of [] \<Rightarrow> 0 | c # _ \<Rightarrow> c)"

text \<open>\<open>char\<close> is signed; \<open>tolower\<close> in the C locale.\<close>

definition char_int :: "byte \<Rightarrow> int" where
  "char_int c = sint c"

definition tolower :: "int \<Rightarrow> int" where
  "tolower c = (if 65 \<le> c \<and> c \<le> 90 then c + 32 else c)"

definition same_char :: "bool \<Rightarrow> byte \<Rightarrow> byte \<Rightarrow> bool" where
  "same_char nocase a b =
     (if \<not> nocase then a = b else tolower (char_int a) = tolower (char_int b))"

definition in_range :: "bool \<Rightarrow> byte \<Rightarrow> byte \<Rightarrow> byte \<Rightarrow> bool" where
  "in_range nocase a b ch =
     (let start = char_int a; end' = char_int b; c = char_int ch;
          (start, end') = (if start > end' then (end', start) else (start, end'));
          (start, end', c) = (if nocase then (tolower start, tolower end', tolower c) else (start, end', c))
      in c \<ge> start \<and> c \<le> end')"

text \<open>
  The loop over a bracket class, for the character \<open>ch\<close>.  The result is whether an item
  matched and the pattern after the class.  At a missing bracket the code steps back to the
  last byte and the increment after the switch brings it to the end of the pattern again.
\<close>

fun classLoop :: "bool \<Rightarrow> byte \<Rightarrow> byte list \<Rightarrow> bool \<Rightarrow> bool \<times> byte list" where
  "classLoop nocase ch pattern mtch =
     (if peek pattern = 92 \<and> length pattern \<ge> 2
      then classLoop nocase ch (drop 2 pattern) (mtch \<or> pattern ! 1 = ch)
      else if peek pattern = 93 then (mtch, tl pattern)
      else if pattern = [] then (mtch, [])
      else if length pattern \<ge> 3 \<and> pattern ! 1 = 45
      then classLoop nocase ch (drop 3 pattern) (mtch \<or> in_range nocase (pattern ! 0) (pattern ! 2) ch)
      else classLoop nocase ch (tl pattern) (mtch \<or> same_char nocase (pattern ! 0) ch))"

declare classLoop.simps [simp del]

definition matchClass :: "bool \<Rightarrow> byte \<Rightarrow> byte list \<Rightarrow> bool \<times> byte list" where
  "matchClass nocase ch pattern =
     (let neg = (peek pattern = 94);
          pattern = (if neg then tl pattern else pattern);
          (mtch, rest) = classLoop nocase ch pattern False
      in (mtch \<noteq> neg, rest))"

fun skipStars :: "byte list \<Rightarrow> byte list" where
  "skipStars (a # b # p) = (if b = 42 then skipStars (b # p) else a # b # p)"
| "skipStars p = p"

text \<open>
  One pass of the switch that does not meet a star: the pattern that is left, or \<open>None\<close> for
  a mismatch.  It consumes the first character of the string.
\<close>

definition matchOne :: "bool \<Rightarrow> byte list \<Rightarrow> byte \<Rightarrow> byte list option" where
  "matchOne nocase pattern ch =
     (if peek pattern = 63 then Some (tl pattern)
      else if peek pattern = 91 then
        (case matchClass nocase ch (tl pattern) of (mtch, rest) \<Rightarrow> if mtch then Some rest else None)
      else
        let pattern = (if peek pattern = 92 \<and> length pattern \<ge> 2 then tl pattern else pattern)
        in if same_char nocase (peek pattern) ch then Some (tl pattern) else None)"

lemma length_skipStars: "length (skipStars p) \<le> length p"
  by (induction p rule: skipStars.induct) auto

lemma length_classLoop: "length (snd (classLoop nocase ch p mtch)) \<le> length p"
  by (induction nocase ch p mtch rule: classLoop.induct) (subst classLoop.simps, auto)

lemma length_matchOne: "p \<noteq> [] \<Longrightarrow> matchOne nocase p ch = Some p' \<Longrightarrow> length p' < length p"
proof -
  have "length rest \<le> length q" if "matchClass nocase ch q = (b, rest)" for q b rest
    using that length_classLoop [of nocase ch "if peek q = 94 then tl q else q" False]
    by (auto simp: matchClass_def Let_def split: prod.splits if_splits)
  then show "p \<noteq> [] \<Longrightarrow> matchOne nocase p ch = Some p' \<Longrightarrow> length p' < length p"
    by (cases p) (fastforce simp: matchOne_def Let_def split: prod.splits if_splits)+
qed

function stringmatchlen :: "bool \<Rightarrow> byte list \<Rightarrow> byte list \<Rightarrow> bool"
  and starLoop :: "bool \<Rightarrow> byte list \<Rightarrow> byte list \<Rightarrow> bool" where
  "stringmatchlen nocase pattern string =
     (if pattern \<noteq> [] \<and> string \<noteq> [] then
        (if peek pattern = 42 then
           let pattern = skipStars pattern
           in if length pattern = 1 then True else starLoop nocase (tl pattern) string
         else
           (case matchOne nocase pattern (hd string) of
              None \<Rightarrow> False
            | Some pattern' \<Rightarrow>
                if tl string = [] then dropWhile (\<lambda>c. c = 42) pattern' = []
                else stringmatchlen nocase pattern' (tl string)))
      else pattern = [] \<and> string = [])"
| "starLoop nocase pattern string =
     (if string \<noteq> [] then
        (if stringmatchlen nocase pattern string then True else starLoop nocase pattern (tl string))
      else False)"
  by pat_completeness auto
termination
proof (relation "measure (case_sum (\<lambda>(_, p, s). 2 * (length p + length s)) (\<lambda>(_, p, s). 2 * (length p + length s) + 1))", goal_cases)
  case (2 nocase pattern string x)
  then show ?case using length_skipStars [of pattern] by (cases pattern) auto
next
  case (3 nocase pattern string p')
  then show ?case using length_matchOne [of pattern nocase "hd string" p'] by (cases string) auto
qed auto

declare stringmatchlen.simps [simp del] starLoop.simps [simp del]

definition stringmatch :: "bool \<Rightarrow> byte list \<Rightarrow> byte list \<Rightarrow> bool" where
  "stringmatch nocase pattern string =
     stringmatchlen nocase (takeWhile (\<lambda>c. c \<noteq> 0) pattern) (takeWhile (\<lambda>c. c \<noteq> 0) string)"

section \<open>The language of a pattern\<close>

datatype class_item = CEsc byte | CRange byte byte | CPlain byte
datatype glob_token = GStar | GAny | GClass bool "class_item list" | GLit byte

fun class_items :: "byte list \<Rightarrow> class_item list \<times> byte list" where
  "class_items p =
     (if peek p = 92 \<and> length p \<ge> 2 then apfst ((#) (CEsc (p ! 1))) (class_items (drop 2 p))
      else if peek p = 93 then ([], tl p)
      else if p = [] then ([], [])
      else if length p \<ge> 3 \<and> p ! 1 = 45 then apfst ((#) (CRange (p ! 0) (p ! 2))) (class_items (drop 3 p))
      else apfst ((#) (CPlain (p ! 0))) (class_items (tl p)))"

declare class_items.simps [simp del]

lemma length_class_items: "length (snd (class_items p)) \<le> length p"
  by (induction p rule: class_items.induct) (subst class_items.simps, auto)

text \<open>The first token of a pattern and the pattern after it.\<close>

definition first_token :: "byte list \<Rightarrow> glob_token \<times> byte list" where
  "first_token p =
     (if peek p = 42 then (GStar, tl p)
      else if peek p = 63 then (GAny, tl p)
      else if peek p = 91 then
        let neg = (peek (tl p) = 94); (items, rest) = class_items (if neg then tl (tl p) else tl p)
        in (GClass neg items, rest)
      else if peek p = 92 \<and> length p \<ge> 2 then (GLit (p ! 1), drop 2 p)
      else (GLit (peek p), tl p))"

lemma length_first_token: "p \<noteq> [] \<Longrightarrow> length (snd (first_token p)) < length p"
  using length_class_items [of "tl p"] length_class_items [of "tl (tl p)"]
  by (cases p) (auto simp: first_token_def Let_def split: prod.splits)

function glob_parse :: "byte list \<Rightarrow> glob_token list" where
  "glob_parse p = (if p = [] then [] else fst (first_token p) # glob_parse (snd (first_token p)))"
  by pat_completeness auto
termination
  by (relation "measure length") (auto simp: length_first_token)

declare glob_parse.simps [simp del]

fun item_matches :: "bool \<Rightarrow> byte \<Rightarrow> class_item \<Rightarrow> bool" where
  "item_matches nocase ch (CEsc c) \<longleftrightarrow> c = ch"
| "item_matches nocase ch (CRange a b) \<longleftrightarrow> in_range nocase a b ch"
| "item_matches nocase ch (CPlain c) \<longleftrightarrow> same_char nocase c ch"

fun token_lang :: "bool \<Rightarrow> glob_token \<Rightarrow> byte list set" where
  "token_lang nocase GStar = UNIV"
| "token_lang nocase GAny = {[ch] | ch. True}"
| "token_lang nocase (GClass neg items) = {[ch] | ch. (\<exists>i \<in> set items. item_matches nocase ch i) \<noteq> neg}"
| "token_lang nocase (GLit c) = {[ch] | ch. same_char nocase c ch}"

fun glob_lang :: "bool \<Rightarrow> glob_token list \<Rightarrow> byte list set" where
  "glob_lang nocase [] = {[]}"
| "glob_lang nocase (t # ts) = {u @ v | u v. u \<in> token_lang nocase t \<and> v \<in> glob_lang nocase ts}"

section \<open>Lemmas\<close>

lemma classLoop_items:
  "classLoop nocase ch p m = (m \<or> (\<exists>i \<in> set (fst (class_items p)). item_matches nocase ch i), snd (class_items p))"
proof (induction nocase ch p m rule: classLoop.induct)
  case (1 nocase ch p m)
  show ?case
    by (subst classLoop.simps, subst (1 2) class_items.simps) (use 1 in auto)
qed

lemma matchOne_token:
  assumes "p \<noteq> []" "peek p \<noteq> 42"
  shows "matchOne nocase p ch =
    (if [ch] \<in> token_lang nocase (fst (first_token p)) then Some (snd (first_token p)) else None)"
    and "fst (first_token p) \<noteq> GStar"
proof -
  show "matchOne nocase p ch =
    (if [ch] \<in> token_lang nocase (fst (first_token p)) then Some (snd (first_token p)) else None)"
    using assms
    by (cases p; cases "tl p")
      (auto simp: matchOne_def first_token_def matchClass_def classLoop_items Let_def peek_def split: prod.splits)
  show "fst (first_token p) \<noteq> GStar" using assms by (auto simp: first_token_def Let_def split: prod.splits)
qed

lemma token_lang_single: "t \<noteq> GStar \<Longrightarrow> u \<in> token_lang nocase t \<Longrightarrow> \<exists>ch. u = [ch]"
  by (cases t) auto

lemma glob_parse_Nil [simp]: "glob_parse [] = []"
  by (simp add: glob_parse.simps)

lemma glob_parse_star: "glob_parse (42 # p) = GStar # glob_parse p"
  by (subst glob_parse.simps) (simp add: first_token_def peek_def)

lemma glob_lang_Cons:
  assumes "t \<noteq> GStar"
  shows "s \<in> glob_lang nocase (t # ts) \<longleftrightarrow> s \<noteq> [] \<and> [hd s] \<in> token_lang nocase t \<and> tl s \<in> glob_lang nocase ts"
proof
  assume "s \<in> glob_lang nocase (t # ts)"
  then show "s \<noteq> [] \<and> [hd s] \<in> token_lang nocase t \<and> tl s \<in> glob_lang nocase ts"
    using token_lang_single [OF assms] by fastforce
next
  assume a: "s \<noteq> [] \<and> [hd s] \<in> token_lang nocase t \<and> tl s \<in> glob_lang nocase ts"
  then have "s = [hd s] @ tl s" by simp
  with a show "s \<in> glob_lang nocase (t # ts)" unfolding glob_lang.simps by blast
qed

lemma glob_lang_star: "s \<in> glob_lang nocase (GStar # ts) \<longleftrightarrow> (\<exists>u v. s = u @ v \<and> v \<in> glob_lang nocase ts)"
  by auto

lemma glob_lang_star_star: "glob_lang nocase (GStar # GStar # ts) = glob_lang nocase (GStar # ts)"
proof (rule set_eqI)
  fix s
  have "(\<exists>u v. s = u @ v \<and> (\<exists>u' v'. v = u' @ v' \<and> v' \<in> glob_lang nocase ts)) \<longleftrightarrow> (\<exists>u v. s = u @ v \<and> v \<in> glob_lang nocase ts)"
    by (metis append.assoc append_Nil)
  then show "s \<in> glob_lang nocase (GStar # GStar # ts) \<longleftrightarrow> s \<in> glob_lang nocase (GStar # ts)"
    by (simp only: glob_lang_star)
qed

lemma glob_lang_skipStars: "peek p = 42 \<Longrightarrow> glob_lang nocase (glob_parse (skipStars p)) = glob_lang nocase (glob_parse p) \<and>
   (\<exists>q. skipStars p = 42 # q \<and> peek q \<noteq> 42)"
proof (induction p rule: skipStars.induct)
  case (1 a b p)
  then show ?case by (cases "b = 42") (auto simp: peek_def glob_parse_star glob_lang_star_star simp del: glob_lang.simps)
qed (auto simp: peek_def)

lemma glob_lang_Nil: "[] \<in> glob_lang nocase (glob_parse p) \<longleftrightarrow> dropWhile (\<lambda>c. c = 42) p = []"
proof (induction p)
  case (Cons c p)
  show ?case
  proof (cases "c = 42")
    case True
    then show ?thesis using Cons by (simp add: glob_parse_star del: dropWhile_eq_Nil_conv)
  next
    case False
    then have "fst (first_token (c # p)) \<noteq> GStar" using matchOne_token(2) [of "c # p"] by (simp add: peek_def)
    then show ?thesis using False by (subst glob_parse.simps) (simp add: glob_lang_Cons del: glob_lang.simps)
  qed
qed simp

lemma glob_main:
  "string \<noteq> [] \<Longrightarrow> stringmatchlen nocase pattern string \<longleftrightarrow> string \<in> glob_lang nocase (glob_parse pattern)"
  "starLoop nocase pattern string \<longleftrightarrow> (\<exists>u v. string = u @ v \<and> v \<noteq> [] \<and> v \<in> glob_lang nocase (glob_parse pattern))"
proof (induction nocase pattern string and nocase pattern string rule: stringmatchlen_starLoop.induct)
  case (1 nocase pattern string)
  show ?case
  proof (cases "pattern = []")
    case True
    then show ?thesis using 1(3) by (subst stringmatchlen.simps) simp
  next
    case ne: False
    show ?thesis
    proof (cases "peek pattern = 42")
      case True
      obtain q where q: "skipStars pattern = 42 # q" "peek q \<noteq> 42"
        and lang: "glob_lang nocase (glob_parse pattern) = glob_lang nocase (GStar # glob_parse q)"
        using glob_lang_skipStars [OF True, of nocase] by (auto simp: glob_parse_star simp del: glob_lang.simps)
      show ?thesis
      proof (cases "q = []")
        case True
        have "string \<in> glob_lang nocase [GStar]" unfolding glob_lang_star by (rule exI [of _ string]) simp
        then show ?thesis
          using ne 1(3) \<open>peek pattern = 42\<close> q(1) True lang by (subst stringmatchlen.simps) (simp add: Let_def)
      next
        case False
        have "[] \<notin> glob_lang nocase (glob_parse q)"
          using False q(2) by (cases q) (auto simp: glob_lang_Nil peek_def)
        then have "(\<exists>u v. string = u @ v \<and> v \<noteq> [] \<and> v \<in> glob_lang nocase (glob_parse q)) \<longleftrightarrow>
            string \<in> glob_lang nocase (glob_parse pattern)"
          unfolding lang glob_lang_star by metis
        moreover have "stringmatchlen nocase pattern string \<longleftrightarrow> starLoop nocase q string"
          using ne 1(3) True q(1) False by (subst stringmatchlen.simps) (simp add: Let_def)
        moreover have "starLoop nocase q string \<longleftrightarrow> (\<exists>u v. string = u @ v \<and> v \<noteq> [] \<and> v \<in> glob_lang nocase (glob_parse q))"
          using 1(1) [OF _ True refl] ne 1(3) q(1) False by simp
        ultimately show ?thesis by simp
      qed
    next
      case False
      let ?t = "fst (first_token pattern)" and ?p = "snd (first_token pattern)"
      note one = matchOne_token [OF ne False]
      have lang: "string \<in> glob_lang nocase (glob_parse pattern) \<longleftrightarrow>
          [hd string] \<in> token_lang nocase ?t \<and> tl string \<in> glob_lang nocase (glob_parse ?p)"
        using ne 1(3) by (subst glob_parse.simps) (simp add: glob_lang_Cons [OF one(2)] del: glob_lang.simps)
      show ?thesis
      proof (cases "[hd string] \<in> token_lang nocase ?t")
        case m: True
        have mo: "matchOne nocase pattern (hd string) = Some ?p" using one(1) [of nocase] m by simp
        show ?thesis
        proof (cases "tl string = []")
          case True
          then show ?thesis
            using ne 1(3) False mo m lang glob_lang_Nil [of nocase ?p] by (subst stringmatchlen.simps) simp
        next
          case tl: False
          then have "stringmatchlen nocase pattern string \<longleftrightarrow> stringmatchlen nocase ?p (tl string)"
            using ne 1(3) False mo by (subst stringmatchlen.simps) simp
          then show ?thesis using 1(2) [OF _ False mo tl tl] ne 1(3) m lang by simp
        qed
      next
        case no: False
        then have "matchOne nocase pattern (hd string) = None" using one(1) [of nocase] by simp
        then show ?thesis using ne 1(3) False no lang by (subst stringmatchlen.simps) simp
      qed
    qed
  qed
next
  case (2 nocase pattern string)
  let ?L = "glob_lang nocase (glob_parse pattern)"
  show ?case
  proof (cases "string = []")
    case True
    then show ?thesis by (subst starLoop.simps) simp
  next
    case False
    have "(\<exists>u v. string = u @ v \<and> v \<noteq> [] \<and> v \<in> ?L) \<longleftrightarrow> string \<in> ?L \<or> (\<exists>u v. tl string = u @ v \<and> v \<noteq> [] \<and> v \<in> ?L)"
      using False by (cases string) (auto simp: Cons_eq_append_conv)
    then show ?thesis using 2 False by (subst starLoop.simps) auto
  qed
qed

section \<open>Properties\<close>

text \<open>
  C19: On a non-empty string the matcher decides membership in the language of the pattern,
  for every pattern: stars, question marks, classes with ranges and negation, escapes, and
  the unterminated forms.
\<close>

theorem stringmatchlen_language:
  assumes "string \<noteq> []"
  shows "stringmatchlen nocase pattern string \<longleftrightarrow> string \<in> glob_lang nocase (glob_parse pattern)"
  using assms by (rule glob_main)

theorem stringmatchlen_language_witness:
  "stringmatchlen False (map of_char ''h[a-e]l*o'') (map of_char ''hello'') \<and>
   map of_char ''hello'' \<in> glob_lang False (glob_parse (map of_char ''h[a-e]l*o''))"
proof -
  have "stringmatchlen False (map of_char ''h[a-e]l*o'') (map of_char ''hello'')" by code_simp
  then show ?thesis
    using stringmatchlen_language [of "map of_char ''hello''" False "map of_char ''h[a-e]l*o''"] by simp
qed

text \<open>
  On the empty string the matcher departs from the language of the pattern: it accepts
  the empty pattern only, while the empty string is in the language of every pattern that
  consists of stars.
\<close>

theorem stringmatchlen_empty:
  "(stringmatchlen nocase pattern [] \<longleftrightarrow> pattern = []) \<and>
   ([] \<in> glob_lang nocase (glob_parse pattern) \<longleftrightarrow> pattern = replicate (length pattern) 42)"
proof -
  have "dropWhile (\<lambda>c. c = 42) pattern = [] \<longleftrightarrow> pattern = replicate (length pattern) 42"
    by (metis (mono_tags, lifting) dropWhile_eq_Nil_conv in_set_replicate replicate_eqI)
  then show ?thesis by (subst stringmatchlen.simps) (simp add: glob_lang_Nil)
qed

end
