(* ===== verification/Sds.thy ===== *)
theory Sds
  imports Numbers
begin

text \<open>
  The dynamic strings of \<open>src/redis-6.0.5/src/sds.c\<close> and \<open>sds.h\<close>: five header types that
  differ in the width of their length and allocation fields, growth with preallocation,
  concatenation, formatted append, trimming, substrings and comparison.

  An sds is a record of its header type, the two header fields and the bytes behind the
  header, terminator included.  A store to a header field is reduced to the width of the
  field, so a length that does not fit its header is lost in the model as it is in C.
  Allocation succeeds.  \<open>sds_wf\<close> is the invariant of a string between two calls and
  \<open>sds_val\<close> the bytes it holds; every operation is specified by its effect on \<open>sds_val\<close>.
\<close>

section \<open>The program\<close>

datatype sds_type = SDS_TYPE_5 | SDS_TYPE_8 | SDS_TYPE_16 | SDS_TYPE_32 | SDS_TYPE_64

text \<open>The width of the length field of a header, and the size of the header.\<close>

fun sds_bits :: "sds_type \<Rightarrow> nat" where
  "sds_bits SDS_TYPE_5 = 5"
| "sds_bits SDS_TYPE_8 = 8"
| "sds_bits SDS_TYPE_16 = 16"
| "sds_bits SDS_TYPE_32 = 32"
| "sds_bits SDS_TYPE_64 = 64"

fun sdsHdrSize :: "sds_type \<Rightarrow> nat" where
  "sdsHdrSize SDS_TYPE_5 = 1"
| "sdsHdrSize SDS_TYPE_8 = 3"
| "sdsHdrSize SDS_TYPE_16 = 5"
| "sdsHdrSize SDS_TYPE_32 = 9"
| "sdsHdrSize SDS_TYPE_64 = 17"

record sds =
  sds_type :: sds_type
  hdr_len :: nat
  hdr_alloc :: nat
  sds_buf :: "byte list"

definition SDS_MAX_PREALLOC :: nat where "SDS_MAX_PREALLOC = 1024 * 1024"

definition sdsReqType :: "nat \<Rightarrow> sds_type" where
  "sdsReqType string_size =
     (if string_size < 2 ^ 5 then SDS_TYPE_5
      else if string_size < 2 ^ 8 then SDS_TYPE_8
      else if string_size < 2 ^ 16 then SDS_TYPE_16
      else if string_size < 2 ^ 32 then SDS_TYPE_32
      else SDS_TYPE_64)"

definition sdslen :: "sds \<Rightarrow> nat" where
  "sdslen s = hdr_len s"

definition sdsalloc :: "sds \<Rightarrow> nat" where
  "sdsalloc s = (if sds_type s = SDS_TYPE_5 then hdr_len s else hdr_alloc s)"

definition sdsavail :: "sds \<Rightarrow> nat" where
  "sdsavail s = (if sds_type s = SDS_TYPE_5 then 0 else hdr_alloc s - hdr_len s)"

definition sdssetlen :: "sds \<Rightarrow> nat \<Rightarrow> sds" where
  "sdssetlen s newlen = s\<lparr>hdr_len := newlen mod 2 ^ sds_bits (sds_type s)\<rparr>"

definition sdsinclen :: "sds \<Rightarrow> nat \<Rightarrow> sds" where
  "sdsinclen s inc = s\<lparr>hdr_len := (hdr_len s + inc) mod 2 ^ sds_bits (sds_type s)\<rparr>"

definition sdssetalloc :: "sds \<Rightarrow> nat \<Rightarrow> sds" where
  "sdssetalloc s newlen =
     (if sds_type s = SDS_TYPE_5 then s else s\<lparr>hdr_alloc := newlen mod 2 ^ sds_bits (sds_type s)\<rparr>)"

text \<open>
  \<open>init\<close> is \<open>None\<close> for a null pointer.  The header fields of the chosen type are set to the
  length; type 5 has no field for the allocated size.
\<close>

definition sdsnewlen :: "byte list option \<Rightarrow> nat \<Rightarrow> sds" where
  "sdsnewlen init initlen =
     (let type = sdsReqType initlen;
          type = (if type = SDS_TYPE_5 \<and> initlen = 0 then SDS_TYPE_8 else type);
          buf = (case init of None \<Rightarrow> replicate initlen 0 | Some b \<Rightarrow> take initlen b) @ [0];
          s = \<lparr>sds_type = type, hdr_len = 0, hdr_alloc = 0, sds_buf = buf\<rparr>
      in sdssetalloc (sdssetlen s initlen) initlen)"

definition sdsempty :: sds where
  "sdsempty = sdsnewlen (Some []) 0"

definition sdsdup :: "sds \<Rightarrow> sds" where
  "sdsdup s = sdsnewlen (Some (sds_buf s)) (sdslen s)"

text \<open>The length of a C string: the bytes before the first zero.\<close>

definition strlen :: "byte list \<Rightarrow> nat" where
  "strlen b = length (takeWhile (\<lambda>c. c \<noteq> 0) b)"

definition sdsnew :: "byte list \<Rightarrow> sds" where
  "sdsnew init = sdsnewlen (Some init) (strlen init)"

definition sdsupdatelen :: "sds \<Rightarrow> sds" where
  "sdsupdatelen s = sdssetlen s (strlen (sds_buf s))"

definition put_byte :: "nat \<Rightarrow> byte \<Rightarrow> sds \<Rightarrow> sds" where
  "put_byte i c s = s\<lparr>sds_buf := (sds_buf s)[i := c]\<rparr>"

definition put_bytes :: "nat \<Rightarrow> byte list \<Rightarrow> sds \<Rightarrow> sds" where
  "put_bytes i bs s = s\<lparr>sds_buf := write_at i bs (sds_buf s)\<rparr>"

definition sdsclear :: "sds \<Rightarrow> sds" where
  "sdsclear s = put_byte 0 0 (sdssetlen s 0)"

text \<open>
  Growing the buffer.  Sizes are \<open>size_t\<close>.  With an unchanged type the block is reallocated;
  otherwise a new one is allocated and the string copied with its terminator.
\<close>

definition sdsMakeRoomFor :: "sds \<Rightarrow> nat \<Rightarrow> sds" where
  "sdsMakeRoomFor s addlen =
     (if sdsavail s \<ge> addlen then s
      else
        let len = sdslen s;
            newlen = (len + addlen) mod 2 ^ 64;
            newlen = (if newlen < SDS_MAX_PREALLOC then newlen * 2 else newlen + SDS_MAX_PREALLOC) mod 2 ^ 64;
            type = sdsReqType newlen;
            type = (if type = SDS_TYPE_5 then SDS_TYPE_8 else type);
            s = (if sds_type s = type then s\<lparr>sds_buf := realloc_bytes (newlen + 1) (sds_buf s)\<rparr>
                 else sdssetlen (s\<lparr>sds_type := type,
                        sds_buf := realloc_bytes (newlen + 1) (take (len + 1) (sds_buf s))\<rparr>) len)
        in sdssetalloc s newlen)"

definition sdsRemoveFreeSpace :: "sds \<Rightarrow> sds" where
  "sdsRemoveFreeSpace s =
     (if sdsavail s = 0 then s
      else
        let len = sdslen s;
            type = sdsReqType len;
            s = (if sds_type s = type \<or> type \<in> {SDS_TYPE_16, SDS_TYPE_32, SDS_TYPE_64}
                 then s\<lparr>sds_buf := realloc_bytes (len + 1) (sds_buf s)\<rparr>
                 else sdssetlen (s\<lparr>sds_type := type, sds_buf := take (len + 1) (sds_buf s)\<rparr>) len)
        in sdssetalloc s len)"

definition sdsAllocSize :: "sds \<Rightarrow> nat" where
  "sdsAllocSize s = sdsHdrSize (sds_type s) + sdsalloc s + 1"

text \<open>
  \<open>None\<close> is a failed assertion or a terminator written outside the buffer.  The assertions cast the
  increment to \<open>unsigned int\<close>, except for the widest header; the differences of the two widest
  headers are unsigned.
\<close>

definition sdsIncrLen :: "sds \<Rightarrow> int \<Rightarrow> sds option" where
  "sdsIncrLen s incr =
     (let type = sds_type s;
          oldlen = int (sdslen s);
          wide = type = SDS_TYPE_32 \<or> type = SDS_TYPE_64;
          cast = (\<lambda>v. v mod (if type = SDS_TYPE_64 then 2 ^ 64 else 2 ^ 32));
          free = (if wide then (int (hdr_alloc s) - oldlen) mod 2 ^ sds_bits type else int (hdr_alloc s) - oldlen);
          ok = (if type = SDS_TYPE_5 then incr > 0 \<and> oldlen + incr < 32 \<or> incr < 0 \<and> oldlen \<ge> cast (- incr)
                else incr \<ge> 0 \<and> free \<ge> (if wide then cast incr else incr) \<or> incr < 0 \<and> oldlen \<ge> cast (- incr));
          len = nat ((oldlen + incr) mod (if type = SDS_TYPE_5 then 2 ^ 64 else 2 ^ sds_bits type))
      in if ok \<and> len < length (sds_buf s) then Some (put_byte len 0 (sdssetlen s len)) else None)"

definition sdsgrowzero :: "sds \<Rightarrow> nat \<Rightarrow> sds" where
  "sdsgrowzero s len =
     (let curlen = sdslen s
      in if len \<le> curlen then s
         else sdssetlen (put_bytes curlen (replicate (len - curlen + 1) 0) (sdsMakeRoomFor s (len - curlen))) len)"

definition sdscatlen :: "sds \<Rightarrow> byte list \<Rightarrow> sds" where
  "sdscatlen s t =
     (let curlen = sdslen s; len = length t;
          s = sdsMakeRoomFor s len;
          s = put_bytes curlen t s;
          s = sdssetlen s (curlen + len)
      in put_byte (curlen + len) 0 s)"

definition sdscatsds :: "sds \<Rightarrow> sds \<Rightarrow> sds" where
  "sdscatsds s t = sdscatlen s (take (sdslen t) (sds_buf t))"

definition sdscat :: "sds \<Rightarrow> byte list \<Rightarrow> sds" where
  "sdscat s t = sdscatlen s (take (strlen t) t)"

definition sdscpylen :: "sds \<Rightarrow> byte list \<Rightarrow> sds" where
  "sdscpylen s t =
     (let len = length t;
          s = (if sdsalloc s < len then sdsMakeRoomFor s (len - sdslen s) else s)
      in sdssetlen (put_byte len 0 (put_bytes 0 t s)) len)"

definition sdscpy :: "sds \<Rightarrow> byte list \<Rightarrow> sds" where
  "sdscpy s t = sdscpylen s (take (strlen t) t)"

section \<open>The string an sds holds\<close>

definition sds_val :: "sds \<Rightarrow> byte list" where
  "sds_val s = take (sdslen s) (sds_buf s)"

definition sds_wf :: "sds \<Rightarrow> bool" where
  "sds_wf s \<longleftrightarrow> sdslen s \<le> sdsalloc s \<and> sdsalloc s < 2 ^ sds_bits (sds_type s) \<and>
     sdsalloc s < length (sds_buf s) \<and> sds_buf s ! sdslen s = 0"

text \<open>The same before the terminator is written.\<close>

definition sds_room :: "sds \<Rightarrow> bool" where
  "sds_room s \<longleftrightarrow> sdslen s \<le> sdsalloc s \<and> sdsalloc s < 2 ^ sds_bits (sds_type s) \<and> sdsalloc s < length (sds_buf s)"

lemma sds_wf_room: "sds_wf s \<longleftrightarrow> sds_room s \<and> sds_buf s ! sdslen s = 0"
  by (auto simp: sds_wf_def sds_room_def)

lemma length_sds_val [simp]: "sds_wf s \<Longrightarrow> length (sds_val s) = sdslen s"
  by (simp add: sds_val_def sds_wf_def)

lemma sdsReqType_bits: "n < 2 ^ 64 \<Longrightarrow> n < 2 ^ sds_bits (sdsReqType n)"
  by (simp add: sdsReqType_def)

lemma sds_fields [simp]:
  "sds_type (sdssetlen s n) = sds_type s" "sds_buf (sdssetlen s n) = sds_buf s"
  "sds_type (sdssetalloc s n) = sds_type s" "sds_buf (sdssetalloc s n) = sds_buf s"
  "sds_type (put_byte i c s) = sds_type s" "sds_type (put_bytes i bs s) = sds_type s"
  "sds_buf (put_byte i c s) = (sds_buf s)[i := c]" "sds_buf (put_bytes i bs s) = write_at i bs (sds_buf s)"
  "sdslen (put_byte i c s) = sdslen s" "sdslen (put_bytes i bs s) = sdslen s"
  "sdsalloc (put_byte i c s) = sdsalloc s" "sdsalloc (put_bytes i bs s) = sdsalloc s"
  "sdslen (sdssetalloc s n) = sdslen s"
  by (simp_all add: sdssetlen_def sdssetalloc_def put_byte_def put_bytes_def sdslen_def sdsalloc_def)

lemma sdslen_sdssetlen [simp]: "n < 2 ^ sds_bits (sds_type s) \<Longrightarrow> sdslen (sdssetlen s n) = n"
  by (simp add: sdslen_def sdssetlen_def)

lemma sdsalloc_sdssetlen: "n < 2 ^ sds_bits (sds_type s) \<Longrightarrow> sdsalloc (sdssetlen s n) = (if sds_type s = SDS_TYPE_5 then n else sdsalloc s)"
  by (simp add: sdsalloc_def sdssetlen_def)

lemma sdsalloc_sdssetalloc: "n < 2 ^ sds_bits (sds_type s) \<Longrightarrow> sdsalloc (sdssetalloc s n) = (if sds_type s = SDS_TYPE_5 then sdslen s else n)"
  by (simp add: sdsalloc_def sdssetalloc_def sdslen_def)

lemma sdsavail_eq: "sdsavail s = sdsalloc s - sdslen s"
  by (simp add: sdsavail_def sdsalloc_def sdslen_def)

text \<open>Setting the length after writing the string and its terminator.\<close>

lemma sds_store:
  assumes "sds_wf s" "n \<le> sdsalloc s" "length b = length (sds_buf s)" "b ! n = 0"
    and "s' = sdssetlen (s\<lparr>sds_buf := b\<rparr>) n"
  shows "sds_wf s' \<and> sds_val s' = take n b"
proof -
  have n: "n < 2 ^ sds_bits (sds_type s)" using assms(1,2) by (simp add: sds_wf_def)
  then have "sdslen s' = n" "sds_buf s' = b" "sds_type s' = sds_type s" using assms(5) by simp_all
  moreover have "sdsalloc s' = (if sds_type s = SDS_TYPE_5 then n else sdsalloc s)"
    using n assms(5) by (simp add: sdsalloc_sdssetlen) (simp add: sdsalloc_def)
  ultimately show ?thesis using assms n by (auto simp: sds_wf_def sds_val_def)
qed

lemma sdsnewlen_spec:
  assumes "initlen < 2 ^ 64" "\<And>b. init = Some b \<Longrightarrow> initlen \<le> length b"
  shows "sds_wf (sdsnewlen init initlen) \<and>
    sds_val (sdsnewlen init initlen) = (case init of None \<Rightarrow> replicate initlen 0 | Some b \<Rightarrow> take initlen b)"
proof -
  define t where "t = (if sdsReqType initlen = SDS_TYPE_5 \<and> initlen = 0 then SDS_TYPE_8 else sdsReqType initlen)"
  have n: "initlen < 2 ^ sds_bits t" using sdsReqType_bits [OF assms(1)] by (simp add: t_def)
  define c where "c = (case init of None \<Rightarrow> replicate initlen 0 | Some b \<Rightarrow> take initlen b)"
  have c: "length c = initlen" using assms(2) by (auto simp: c_def split: option.splits)
  define s0 where "s0 = \<lparr>sds_type = t, hdr_len = 0, hdr_alloc = 0, sds_buf = c @ [0]\<rparr>"
  have s: "sdsnewlen init initlen = sdssetalloc (sdssetlen s0 initlen) initlen"
    unfolding sdsnewlen_def Let_def s0_def c_def t_def by simp
  have "sdslen (sdsnewlen init initlen) = initlen" "sds_buf (sdsnewlen init initlen) = c @ [0]"
    "sds_type (sdsnewlen init initlen) = t"
    unfolding s using n by (simp_all add: s0_def)
  moreover have "sdsalloc (sdsnewlen init initlen) = initlen"
    unfolding s using n sdslen_sdssetlen [of initlen s0] by (auto simp: sdsalloc_sdssetalloc s0_def)
  ultimately show ?thesis using n c by (simp add: sds_wf_def sds_val_def c_def [symmetric] nth_append)
qed

lemma nth_realloc: "i < length xs \<Longrightarrow> i < n \<Longrightarrow> realloc_bytes n xs ! i = xs ! i"
  by (simp add: realloc_bytes_def nth_append)

lemma take_realloc: "k \<le> length xs \<Longrightarrow> k \<le> n \<Longrightarrow> take k (realloc_bytes n xs) = take k xs"
  by (simp add: realloc_bytes_def)

lemma sdsMakeRoomFor_room:
  assumes wf: "sds_room s" and lim: "sdslen s + addlen < 2 ^ 63"
  shows "sds_room (sdsMakeRoomFor s addlen) \<and> sds_val (sdsMakeRoomFor s addlen) = sds_val s \<and>
    sdslen (sdsMakeRoomFor s addlen) = sdslen s \<and> sdslen s + addlen \<le> sdsalloc (sdsMakeRoomFor s addlen) \<and>
    sds_buf (sdsMakeRoomFor s addlen) ! sdslen s = sds_buf s ! sdslen s"
proof (cases "sdsavail s \<ge> addlen")
  case True
  then show ?thesis using wf sdsavail_eq [of s] by (auto simp: sdsMakeRoomFor_def sds_room_def)
next
  case False
  define len where "len = sdslen s"
  define n where "n = (if len + addlen < SDS_MAX_PREALLOC then (len + addlen) * 2 else len + addlen + SDS_MAX_PREALLOC)"
  have n: "len + addlen \<le> n" "n < 2 ^ 64" using lim by (simp_all add: n_def SDS_MAX_PREALLOC_def len_def)
  define t where "t = (if sdsReqType n = SDS_TYPE_5 then SDS_TYPE_8 else sdsReqType n)"
  have "n < 2 ^ sds_bits (sdsReqType n)" using n(2) by (rule sdsReqType_bits)
  then have t: "n < 2 ^ sds_bits t" "t \<noteq> SDS_TYPE_5"
    by (cases "sdsReqType n"; simp add: t_def)+
  define s1 where "s1 = (if sds_type s = t then s\<lparr>sds_buf := realloc_bytes (n + 1) (sds_buf s)\<rparr>
      else sdssetlen (s\<lparr>sds_type := t, sds_buf := realloc_bytes (n + 1) (take (len + 1) (sds_buf s))\<rparr>) len)"
  have e1: "(len + addlen) mod 2 ^ 64 = len + addlen" using lim by (simp add: len_def)
  have e2: "(if len + addlen < SDS_MAX_PREALLOC then (len + addlen) * 2 else len + addlen + SDS_MAX_PREALLOC) mod 2 ^ 64 = n"
    unfolding n_def [symmetric] using n(2) by simp
  have s': "sdsMakeRoomFor s addlen = sdssetalloc s1 n"
    unfolding sdsMakeRoomFor_def Let_def if_not_P [OF False] len_def [symmetric] e1 e2 t_def [symmetric]
      s1_def [symmetric] by (rule refl)
  have lb: "len < length (sds_buf s)" using wf by (auto simp: sds_room_def len_def)
  have "len < 2 ^ sds_bits t" using t(1) n(1) by simp
  then have s1: "sdslen s1 = len" "sds_type s1 = t" "length (sds_buf s1) = n + 1"
    "take len (sds_buf s1) = take len (sds_buf s)" "sds_buf s1 ! len = sds_buf s ! len"
    using n(1) lb by (auto simp: s1_def len_def take_realloc nth_realloc) (simp add: sdslen_def)
  have a: "sdsalloc (sdssetalloc s1 n) = n" using s1(2) t by (simp add: sdsalloc_sdssetalloc)
  show ?thesis unfolding s' using a s1 n(1) t(1)
    by (auto simp: sds_room_def sds_val_def len_def)
qed

lemma sdsMakeRoomFor_spec:
  assumes "sds_wf s" "sdslen s + addlen < 2 ^ 63"
  shows "sds_wf (sdsMakeRoomFor s addlen) \<and> sds_val (sdsMakeRoomFor s addlen) = sds_val s \<and>
    sdslen (sdsMakeRoomFor s addlen) = sdslen s \<and> sdslen s + addlen \<le> sdsalloc (sdsMakeRoomFor s addlen)"
  using sdsMakeRoomFor_room [of s addlen] assms by (simp add: sds_wf_room)

lemma sdscatlen_spec:
  assumes wf: "sds_wf s" and lim: "sdslen s + length t < 2 ^ 63"
  shows "sds_wf (sdscatlen s t) \<and> sds_val (sdscatlen s t) = sds_val s @ t"
proof -
  define r where "r = sdsMakeRoomFor s (length t)"
  define n where "n = sdslen s + length t"
  have r: "sds_wf r" "sds_val r = sds_val s" "sdslen r = sdslen s" "n \<le> sdsalloc r"
    using sdsMakeRoomFor_spec [OF wf lim] by (simp_all add: r_def n_def)
  have b: "n < length (sds_buf r)" using r(1,4) by (simp add: sds_wf_def)
  let ?b = "(write_at (sdslen s) t (sds_buf r))[n := 0]"
  have "sdscatlen s t = sdssetlen (r\<lparr>sds_buf := ?b\<rparr>) n"
    by (simp add: sdscatlen_def Let_def r_def n_def put_byte_def put_bytes_def sdssetlen_def)
  then have "sds_wf (sdscatlen s t) \<and> sds_val (sdscatlen s t) = take n ?b"
    using b by (intro sds_store [OF r(1,4)]) (simp_all add: n_def)
  moreover have "take n ?b = take (sdslen s) (sds_buf r) @ t"
    using b by (simp add: write_at_def n_def)
  moreover have "take (sdslen s) (sds_buf r) = sds_val s" using r(2,3) by (simp add: sds_val_def)
  ultimately show ?thesis by simp
qed

lemma sdscpylen_spec:
  assumes wf: "sds_wf s" and lim: "length t < 2 ^ 63" and len: "sdslen s < 2 ^ 63"
  shows "sds_wf (sdscpylen s t) \<and> sds_val (sdscpylen s t) = t"
proof -
  define r where "r = (if sdsalloc s < length t then sdsMakeRoomFor s (length t - sdslen s) else s)"
  have "sdslen s \<le> sdsalloc s" using wf by (simp add: sds_wf_def)
  then have r: "sds_wf r" "length t \<le> sdsalloc r"
    using wf lim sdsMakeRoomFor_spec [OF wf, of "length t - sdslen s"] by (auto simp: r_def)
  have b: "length t < length (sds_buf r)" using r by (simp add: sds_wf_def)
  let ?b = "(write_at 0 t (sds_buf r))[length t := 0]"
  have "sdscpylen s t = sdssetlen (r\<lparr>sds_buf := ?b\<rparr>) (length t)"
    by (simp add: sdscpylen_def Let_def r_def put_byte_def put_bytes_def)
  then have "sds_wf (sdscpylen s t) \<and> sds_val (sdscpylen s t) = take (length t) ?b"
    using b by (intro sds_store [OF r]) simp_all
  then show ?thesis using b by (simp add: write_at_def)
qed

lemma sdsgrowzero_spec:
  assumes wf: "sds_wf s" and lim: "len < 2 ^ 63"
  shows "sds_wf (sdsgrowzero s len) \<and> sds_val (sdsgrowzero s len) = sds_val s @ replicate (len - sdslen s) 0"
proof (cases "len \<le> sdslen s")
  case True
  then show ?thesis using wf by (simp add: sdsgrowzero_def)
next
  case False
  define r where "r = sdsMakeRoomFor s (len - sdslen s)"
  have r: "sds_wf r" "sds_val r = sds_val s" "sdslen r = sdslen s" "len \<le> sdsalloc r"
    using sdsMakeRoomFor_spec [OF wf, of "len - sdslen s"] lim False by (simp_all add: r_def)
  have b: "len < length (sds_buf r)" using r(1,4) by (simp add: sds_wf_def)
  let ?b = "write_at (sdslen s) (replicate (len - sdslen s + 1) 0) (sds_buf r)"
  have "sdsgrowzero s len = sdssetlen (r\<lparr>sds_buf := ?b\<rparr>) len"
    using False by (simp add: sdsgrowzero_def Let_def r_def put_bytes_def)
  then have "sds_wf (sdsgrowzero s len) \<and> sds_val (sdsgrowzero s len) = take len ?b"
    using b False by (intro sds_store [OF r(1,4)]) (simp_all add: write_at_def nth_append del: replicate_Suc)
  moreover have "take len ?b = take (sdslen s) (sds_buf r) @ replicate (len - sdslen s) 0"
    using b False by (simp add: write_at_def min_def del: replicate_Suc)
  moreover have "take (sdslen s) (sds_buf r) = sds_val s" using r(2,3) by (simp add: sds_val_def)
  ultimately show ?thesis by simp
qed

lemma sdsclear_spec:
  assumes "sds_wf s"
  shows "sds_wf (sdsclear s) \<and> sds_val (sdsclear s) = []"
proof -
  have "sdsclear s = sdssetlen (s\<lparr>sds_buf := (sds_buf s)[0 := 0]\<rparr>) 0"
    by (simp add: sdsclear_def put_byte_def sdssetlen_def)
  then have "sds_wf (sdsclear s) \<and> sds_val (sdsclear s) = take 0 ((sds_buf s)[0 := 0])"
    using assms by (intro sds_store [OF assms]) (cases "sds_buf s"; auto simp: sds_wf_def)+
  then show ?thesis by simp
qed

lemma sdsRemoveFreeSpace_spec:
  assumes wf: "sds_wf s"
  shows "sds_wf (sdsRemoveFreeSpace s) \<and> sds_val (sdsRemoveFreeSpace s) = sds_val s \<and>
    sdsavail (sdsRemoveFreeSpace s) = 0"
proof (cases "sdsavail s = 0")
  case True
  then show ?thesis using wf by (simp add: sdsRemoveFreeSpace_def)
next
  case False
  define len where "len = sdslen s"
  have n5: "sds_type s \<noteq> SDS_TYPE_5" using False by (auto simp: sdsavail_def)
  have lb: "len < length (sds_buf s)" "sds_buf s ! len = 0" "len \<le> sdsalloc s" "sdsalloc s < 2 ^ sds_bits (sds_type s)"
    using wf by (auto simp: sds_wf_def len_def)
  have lim: "len < 2 ^ sds_bits (sds_type s)" using lb by simp
  have "len < 2 ^ 64" using lim by (cases "sds_type s") simp_all
  then have fit: "len < 2 ^ sds_bits (sdsReqType len)" by (rule sdsReqType_bits)
  define s1 where "s1 = (if sds_type s = sdsReqType len \<or> sdsReqType len \<in> {SDS_TYPE_16, SDS_TYPE_32, SDS_TYPE_64}
      then s\<lparr>sds_buf := realloc_bytes (len + 1) (sds_buf s)\<rparr>
      else sdssetlen (s\<lparr>sds_type := sdsReqType len, sds_buf := take (len + 1) (sds_buf s)\<rparr>) len)"
  have s': "sdsRemoveFreeSpace s = sdssetalloc s1 len"
    unfolding sdsRemoveFreeSpace_def Let_def if_not_P [OF False] len_def [symmetric] s1_def [symmetric] by (rule refl)
  have s1: "sdslen s1 = len" "len < 2 ^ sds_bits (sds_type s1)" "length (sds_buf s1) = len + 1"
    "take len (sds_buf s1) = take len (sds_buf s)" "sds_buf s1 ! len = 0"
    using fit lim lb(1,2) by (auto simp: s1_def len_def take_realloc nth_realloc) (simp_all add: sdslen_def)
  have a: "sdsalloc (sdssetalloc s1 len) = len" using s1(1,2) by (simp add: sdsalloc_sdssetalloc)
  have "sds_wf (sdssetalloc s1 len) \<and> sds_val (sdssetalloc s1 len) = sds_val s"
    using a s1 by (simp add: sds_wf_def sds_val_def len_def)
  then show ?thesis unfolding s' using a s1(1) sdsavail_eq [of "sdssetalloc s1 len"] by simp
qed

text \<open>\<open>sdsIncrLen\<close> after the caller has written \<open>incr\<close> bytes behind the string.\<close>

lemma sdsIncrLen_spec:
  assumes wf: "sds_wf s" and inc: "0 < incr" "sdslen s + incr \<le> sdsalloc s"
  shows "\<exists>s'. sdsIncrLen s (int incr) = Some s' \<and> sds_wf s' \<and>
    sds_val s' = take (sdslen s + incr) (sds_buf s)"
proof -
  have n5: "sds_type s \<noteq> SDS_TYPE_5" using inc by (auto simp: sdsalloc_def sdslen_def)
  define n where "n = sdslen s + incr"
  have n: "n < length (sds_buf s)" "n < 2 ^ sds_bits (sds_type s)" "sdsalloc s < 2 ^ sds_bits (sds_type s)" "hdr_alloc s = sdsalloc s"
    using wf inc(2) n5 by (simp_all add: sds_wf_def n_def sdsalloc_def)
  have m: "(int (sdslen s) + int incr) mod 2 ^ sds_bits (sds_type s) = int n"
    using n(2) by (simp add: n_def flip: of_nat_add of_nat_power zmod_int)
  have f: "(int (hdr_alloc s) - int (sdslen s)) mod 2 ^ sds_bits (sds_type s) = int (hdr_alloc s) - int (sdslen s)"
    using n inc(2) by (intro mod_pos_pos_trivial) (simp_all add: order.strict_trans1 [of _ "int (hdr_alloc s)"])
  have "int incr mod 2 ^ sds_bits (sds_type s) = int incr" using n(2) by (simp add: n_def flip: of_nat_power zmod_int)
  then have c: "int incr mod 2 ^ 32 = int incr" if "sds_type s = SDS_TYPE_32" using that by simp
  have d: "int incr mod 2 ^ 64 = int incr" if "sds_type s = SDS_TYPE_64"
    using that \<open>int incr mod 2 ^ sds_bits (sds_type s) = int incr\<close> by simp
  have r: "sdsIncrLen s (int incr) = Some (sdssetlen (s\<lparr>sds_buf := (sds_buf s)[n := 0]\<rparr>) n)"
    using n5 n inc f c d unfolding sdsIncrLen_def Let_def by (auto simp: m put_byte_def sdssetlen_def)
  have "sds_wf (sdssetlen (s\<lparr>sds_buf := (sds_buf s)[n := 0]\<rparr>) n) \<and>
      sds_val (sdssetlen (s\<lparr>sds_buf := (sds_buf s)[n := 0]\<rparr>) n) = take n ((sds_buf s)[n := 0])"
    using inc(2) n(1) by (intro sds_store [OF wf]) (simp_all add: n_def)
  then show ?thesis using r by (simp add: n_def)
qed

section \<open>Trimming, substrings and comparison\<close>

text \<open>\<open>strchr\<close> also finds the terminator of its first argument.\<close>

definition strchr :: "byte list \<Rightarrow> byte \<Rightarrow> bool" where
  "strchr cset c \<longleftrightarrow> c \<in> set (takeWhile (\<lambda>c. c \<noteq> 0) cset) \<or> c = 0"

function trimStart :: "byte list \<Rightarrow> byte list \<Rightarrow> int \<Rightarrow> int \<Rightarrow> int" where
  "trimStart cset b sp last' =
     (if sp \<le> last' \<and> strchr cset (b ! nat sp) then trimStart cset b (sp + 1) last' else sp)"
  by pat_completeness auto
termination by (relation "measure (\<lambda>(cset, b, sp, last'). nat (last' + 1 - sp))") auto

function trimEnd :: "byte list \<Rightarrow> byte list \<Rightarrow> int \<Rightarrow> int \<Rightarrow> int" where
  "trimEnd cset b sp ep =
     (if ep > sp \<and> strchr cset (b ! nat ep) then trimEnd cset b sp (ep - 1) else ep)"
  by pat_completeness auto
termination by (relation "measure (\<lambda>(cset, b, sp, ep). nat (ep - sp))") auto

declare trimStart.simps [simp del] trimEnd.simps [simp del]

definition sdstrim :: "sds \<Rightarrow> byte list \<Rightarrow> sds" where
  "sdstrim s cset =
     (let last' = int (sdslen s) - 1;
          sp = trimStart cset (sds_buf s) 0 last';
          ep = trimEnd cset (sds_buf s) sp last';
          len = (if sp > ep then 0 else nat (ep - sp + 1));
          s = (if sp \<noteq> 0 then s\<lparr>sds_buf := memmove_bytes 0 (nat sp) len (sds_buf s)\<rparr> else s)
      in sdssetlen (put_byte len 0 s) len)"

definition sdsrange :: "sds \<Rightarrow> int \<Rightarrow> int \<Rightarrow> sds" where
  "sdsrange s start end' =
     (let len = int (sdslen s)
      in if len = 0 then s
         else
           let start = (if start < 0 then (if len + start < 0 then 0 else len + start) else start);
               end' = (if end' < 0 then (if len + end' < 0 then 0 else len + end') else end');
               newlen = (if start > end' then 0 else end' - start + 1);
               (start, newlen) =
                 (if newlen \<noteq> 0 then
                    (if start \<ge> len then (start, 0)
                     else if end' \<ge> len then (start, if start > len - 1 then 0 else len - 1 - start + 1)
                     else (start, newlen))
                  else (0, newlen));
               s = (if start \<noteq> 0 \<and> newlen \<noteq> 0
                    then s\<lparr>sds_buf := memmove_bytes 0 (nat start) (nat newlen) (sds_buf s)\<rparr> else s)
           in sdssetlen (put_byte (nat newlen) 0 s) (nat newlen))"

text \<open>The sign of \<open>memcmp\<close>, and the comparison of two strings.\<close>

fun memcmp :: "byte list \<Rightarrow> byte list \<Rightarrow> nat \<Rightarrow> int" where
  "memcmp (a # as) (b # bs) (Suc n) = (if a < b then -1 else if a > b then 1 else memcmp as bs n)"
| "memcmp _ _ _ = 0"

definition sdscmp :: "sds \<Rightarrow> sds \<Rightarrow> int" where
  "sdscmp s1 s2 =
     (let l1 = sdslen s1; l2 = sdslen s2;
          minlen = (if l1 < l2 then l1 else l2);
          cmp = memcmp (sds_buf s1) (sds_buf s2) minlen
      in if cmp = 0 then (if l1 > l2 then 1 else if l1 < l2 then -1 else 0) else cmp)"

definition trim :: "(byte \<Rightarrow> bool) \<Rightarrow> byte list \<Rightarrow> byte list" where
  "trim P xs = rev (dropWhile P (rev (dropWhile P xs)))"

definition substring :: "int \<Rightarrow> int \<Rightarrow> byte list \<Rightarrow> byte list" where
  "substring start end' xs =
     (let n = int (length xs);
          from = (if start < 0 then max 0 (n + start) else start);
          upto = (if end' < 0 then max 0 (n + end') else min end' (n - 1))
      in take (nat (upto - from + 1)) (drop (nat from) xs))"

lemma trimStart_eq:
  "0 \<le> sp \<Longrightarrow> trimStart cset b sp (int len - 1) = sp + int (length (takeWhile (strchr cset) (drop (nat sp) (take len b))))"
  if "len \<le> length b"
proof (induction "nat (int len - sp)" arbitrary: sp)
  case 0
  then show ?case using that by (subst trimStart.simps) simp
next
  case (Suc n)
  then have lt: "nat sp < len" by linarith
  then have "drop (nat sp) (take len b) = b ! nat sp # drop (nat (sp + 1)) (take len b)"
    using that Suc.prems by (simp add: Cons_nth_drop_Suc [symmetric] nat_add_distrib)
  moreover have "trimStart cset b (sp + 1) (int len - 1) =
      sp + 1 + int (length (takeWhile (strchr cset) (drop (nat (sp + 1)) (take len b))))"
    using Suc by (intro Suc.hyps(1)) auto
  ultimately show ?case using lt Suc.prems by (subst trimStart.simps) simp
qed

lemma trimEnd_eq:
  assumes "ys \<noteq> []" "\<not> strchr cset (hd ys)" "length xs + length ys \<le> length b" "take (length xs + length ys) b = xs @ ys"
  shows "trimEnd cset b (int (length xs)) (int (length xs + length ys) - 1) =
    int (length xs + length (dropWhile (strchr cset) (rev ys))) - 1"
  using assms
proof (induction ys rule: rev_induct)
  case (snoc y ys)
  let ?ep = "int (length xs + length (ys @ [y])) - 1"
  have nat: "nat ?ep = length xs + length ys" by simp
  have last: "b ! (length xs + length ys) = y"
    using arg_cong [OF snoc.prems(4), of "\<lambda>l. l ! (length xs + length ys)"] by (simp add: nth_append)
  show ?case
  proof (cases "ys = []")
    case True
    then show ?thesis using snoc.prems(2) by (subst trimEnd.simps) simp
  next
    case False
    have "take (length xs + length ys) b = take (length xs + length ys) (take (length xs + length (ys @ [y])) b)" by simp
    then have "take (length xs + length ys) b = xs @ ys" unfolding snoc.prems(4) by simp
    then have IH: "trimEnd cset b (int (length xs)) (int (length xs + length ys) - 1) =
        int (length xs + length (dropWhile (strchr cset) (rev ys))) - 1"
      using snoc.IH snoc.prems False by simp
    have "?ep > int (length xs)" using False by simp
    then show ?thesis
      using IH last unfolding trimEnd.simps [of cset b _ ?ep] nat by simp
  qed
qed simp

lemma memmove_front: "src + n \<le> length b \<Longrightarrow> take n (memmove_bytes 0 src n b) = take n (drop src b)"
  by (simp add: memmove_bytes_def write_at_def read_at_def)

lemma put_byte_store: "sdssetlen (put_byte n c s) k = sdssetlen (s\<lparr>sds_buf := (sds_buf s)[n := c]\<rparr>) k"
  by (simp add: put_byte_def)

text \<open>Keeping \<open>n\<close> bytes from position \<open>src\<close>, moved to the front.\<close>

lemma sds_keep:
  assumes "sds_wf s" "src + n \<le> sdslen s"
    and "s' = sdssetlen (put_byte n 0 (if src \<noteq> 0 \<and> k then s\<lparr>sds_buf := memmove_bytes 0 src n (sds_buf s)\<rparr> else s)) n"
    and "n \<noteq> 0 \<Longrightarrow> k"
  shows "sds_wf s' \<and> sds_val s' = take n (drop src (sds_val s))"
proof -
  define b where "b = (if src \<noteq> 0 \<and> k then memmove_bytes 0 src n (sds_buf s) else sds_buf s)"
  have len: "sdslen s \<le> sdsalloc s" "sdsalloc s < length (sds_buf s)" using assms(1) by (simp_all add: sds_wf_def)
  then have lb: "length b = length (sds_buf s)" using assms(2) by (simp add: b_def)
  have "s' = sdssetlen (s\<lparr>sds_buf := b[n := 0]\<rparr>) n"
    using assms(3) by (simp add: put_byte_def b_def)
  then have "sds_wf s' \<and> sds_val s' = take n (b[n := 0])"
    using assms(1,2) len lb by (intro sds_store [of s]) auto
  moreover have "take n b = take n (drop src (sds_buf s))"
    using assms(2,4) len by (cases "n = 0") (auto simp: b_def memmove_front)
  moreover have "take n (drop src (sds_val s)) = take n (drop src (sds_buf s))"
    using assms(2) by (simp add: sds_val_def take_drop [symmetric] drop_take min_def)
  ultimately show ?thesis by simp
qed

lemma sdstrim_spec:
  assumes "sds_wf s"
  shows "sds_wf (sdstrim s cset) \<and> sds_val (sdstrim s cset) = trim (strchr cset) (sds_val s)"
proof -
  let ?P = "strchr cset" and ?b = "sds_buf s" and ?l = "sdslen s"
  define xs where "xs = takeWhile ?P (sds_val s)"
  define ys where "ys = dropWhile ?P (sds_val s)"
  have val: "sds_val s = xs @ ys" by (simp add: xs_def ys_def)
  have l: "?l = length xs + length ys" "?l \<le> length ?b"
    using assms length_sds_val [OF assms] unfolding val by (auto simp: sds_wf_def)
  have sp: "trimStart cset ?b 0 (int ?l - 1) = int (length xs)"
    using trimStart_eq [OF l(2), of 0 cset] by (simp add: xs_def sds_val_def)
  define n where "n = length (dropWhile ?P (rev ys))"
  have n: "n \<le> length ys" by (simp add: n_def length_dropWhile_le [of ?P "rev ys", simplified])
  have ep: "trimEnd cset ?b (int (length xs)) (int ?l - 1) = int (length xs + n) - 1"
  proof (cases "ys = []")
    case True
    then show ?thesis unfolding l(1) by (subst trimEnd.simps) (simp add: n_def)
  next
    case False
    then have "\<not> ?P (hd ys)" unfolding ys_def by (rule hd_dropWhile)
    then show ?thesis
      using trimEnd_eq [OF False, of cset xs ?b] val l by (simp add: n_def sds_val_def)
  qed
  have "sdstrim s cset = sdssetlen (put_byte n 0 (if length xs \<noteq> 0 \<and> True
      then s\<lparr>sds_buf := memmove_bytes 0 (length xs) n (sds_buf s)\<rparr> else s)) n"
    unfolding sdstrim_def Let_def sp ep by simp
  then have "sds_wf (sdstrim s cset) \<and> sds_val (sdstrim s cset) = take n (drop (length xs) (sds_val s))"
    using n l by (intro sds_keep [OF assms]) auto
  moreover have "take n ys = trim ?P (sds_val s)"
    unfolding trim_def n_def ys_def [symmetric]
    using dropWhile_eq_drop [of ?P "rev ys"]
    by (simp add: rev_drop length_dropWhile_le) 
  ultimately show ?thesis by (simp add: val)
qed

lemma sdsrange_unfold:
  assumes "sdslen s \<noteq> 0"
    and "st = (if a < 0 then max 0 (int (sdslen s) + a) else a)"
    and "en = (if e < 0 then max 0 (int (sdslen s) + e) else min e (int (sdslen s) - 1))"
    and "n = (if st \<ge> int (sdslen s) then 0 else nat (en - st + 1))" "src = (if n = 0 then 0 else nat st)"
  shows "sdsrange s a e = sdssetlen (put_byte n 0 (if src \<noteq> 0 \<and> n \<noteq> 0
      then s\<lparr>sds_buf := memmove_bytes 0 src n (sds_buf s)\<rparr> else s)) n"
proof -
  define L where "L = int (sdslen s)"
  define e0 where "e0 = (if e < 0 then max 0 (L + e) else e)"
  have L: "0 < L" using assms(1) by (simp add: L_def)
  have st: "(if a < 0 then if L + a < 0 then 0 else L + a else a) = st" by (simp add: assms(2) L_def)
  have e0: "(if e < 0 then if L + e < 0 then 0 else L + e else e) = e0" by (simp add: e0_def)
  have en: "en = min e0 (L - 1)" using L by (simp add: assms(3) e0_def L_def)
  have st0: "0 \<le> st" by (simp add: assms(2))
  consider "st > e0" | "st \<le> e0" "st \<ge> L" | "st \<le> e0" "st < L" "e0 \<ge> L" | "st \<le> e0" "st < L" "e0 < L" by linarith
  then show ?thesis
    unfolding sdsrange_def Let_def L_def [symmetric] st e0 assms(4,5) en
    using L st0 by cases auto
qed

lemma sdsrange_spec:
  assumes "sds_wf s"
  shows "sds_wf (sdsrange s a e) \<and> sds_val (sdsrange s a e) = substring a e (sds_val s)"
proof (cases "sdslen s = 0")
  case True
  then show ?thesis using assms by (simp add: sdsrange_def sds_val_def substring_def Let_def)
next
  case False
  define st where "st = (if a < 0 then max 0 (int (sdslen s) + a) else a)"
  define en where "en = (if e < 0 then max 0 (int (sdslen s) + e) else min e (int (sdslen s) - 1))"
  define n where "n = (if st \<ge> int (sdslen s) then 0 else nat (en - st + 1))"
  define src where "src = (if n = 0 then 0 else nat st)"
  have b: "0 \<le> st" "en \<le> int (sdslen s) - 1" using False by (auto simp: st_def en_def)
  have "src + n \<le> sdslen s"
  proof (cases "en - st + 1 \<le> 0 \<or> st \<ge> int (sdslen s)")
    case True
    then show ?thesis by (auto simp: n_def src_def)
  next
    case False
    then have "nat st + nat (en - st + 1) = nat (en + 1)" using b by linarith
    also have "nat (en + 1) \<le> sdslen s" using b by linarith
    finally show ?thesis using False by (simp add: n_def src_def)
  qed
  then have "sds_wf (sdsrange s a e) \<and> sds_val (sdsrange s a e) = take n (drop src (sds_val s))"
    by (intro sds_keep [OF assms _ sdsrange_unfold [OF False st_def en_def n_def src_def]]) auto
  moreover have "take n (drop src (sds_val s)) = take (nat (en - st + 1)) (drop (nat st) (sds_val s))"
    using assms b by (simp add: n_def src_def)
  ultimately show ?thesis
    using assms by (simp add: substring_def Let_def st_def en_def)
qed

lemma memcmp_zero: "n \<le> length a \<Longrightarrow> n \<le> length b \<Longrightarrow> memcmp a b n = 0 \<longleftrightarrow> take n a = take n b"
  by (induction a b n rule: memcmp.induct) auto

lemma memcmp_less:
  "n \<le> length a \<Longrightarrow> n \<le> length b \<Longrightarrow> take n a \<noteq> take n b \<Longrightarrow>
   memcmp a b n < 0 \<longleftrightarrow> ord_class.lexordp (take n a @ x) (take n b @ y)"
  by (induction a b n rule: memcmp.induct) auto

lemma memcmp_sign: "memcmp a b n \<in> {-1, 0, 1}"
  by (induction a b n rule: memcmp.induct) auto

lemma prefix_cases:
  assumes "take m v1 = take m v2" "m = min (length v1) (length v2)"
  obtains (lt) w where "length v1 < length v2" "v2 = v1 @ w" "w \<noteq> []"
    | (gt) w where "length v1 > length v2" "v1 = v2 @ w" "w \<noteq> []" | (eq) "v1 = v2"
proof -
  consider "length v1 < length v2" "m = length v1" | "length v2 < length v1" "m = length v2"
    | "length v1 = length v2" "m = length v1" using assms(2) by linarith
  then show ?thesis
  proof cases
    case 1
    then have "v2 = v1 @ drop m v2" using assms(1) append_take_drop_id [of m v2] by simp
    then show ?thesis using 1 by (intro lt [of "drop m v2"]) auto
  next
    case 2
    then have "v1 = v2 @ drop m v1" using assms(1) append_take_drop_id [of m v1] by simp
    then show ?thesis using 2 by (intro gt [of "drop m v1"]) auto
  next
    case 3
    then show ?thesis using assms(1) by (intro eq) simp
  qed
qed

lemma sdscmp_spec:
  assumes "sds_wf s1" "sds_wf s2"
  shows "(sdscmp s1 s2 = 0 \<longleftrightarrow> sds_val s1 = sds_val s2) \<and> (sdscmp s1 s2 < 0 \<longleftrightarrow> ord_class.lexordp (sds_val s1) (sds_val s2))"
proof -
  define m where "m = min (sdslen s1) (sdslen s2)"
  define v1 v2 where v: "v1 = sds_val s1" "v2 = sds_val s2"
  have len: "length v1 = sdslen s1" "length v2 = sdslen s2" using assms by (simp_all add: v)
  have t: "take m (sds_buf s1) = take m v1" "take m (sds_buf s2) = take m v2"
    by (simp_all add: v sds_val_def m_def min.absorb1)
  have b: "m \<le> length (sds_buf s1)" "m \<le> length (sds_buf s2)" using assms by (auto simp: sds_wf_def m_def)
  have c: "sdscmp s1 s2 = (if memcmp (sds_buf s1) (sds_buf s2) m = 0
      then (if length v1 > length v2 then 1 else if length v1 < length v2 then -1 else 0)
      else memcmp (sds_buf s1) (sds_buf s2) m)"
    by (simp add: sdscmp_def Let_def m_def min_def len)
  have m: "m = min (length v1) (length v2)" by (simp add: m_def len)
  show ?thesis
  proof (cases "take m v1 = take m v2")
    case True
    then have c: "sdscmp s1 s2 = (if length v1 > length v2 then 1 else if length v1 < length v2 then -1 else 0)"
      using memcmp_zero [OF b] c t by simp
    from True m show ?thesis
    proof (cases rule: prefix_cases)
      case (lt w)
      then have "ord_class.lexordp v1 v2" "v1 \<noteq> v2" by (simp_all add: lexordp_append_rightI)
      then show ?thesis using c lt(1) by (simp add: v)
    next
      case (gt w)
      then have "ord_class.lexordp v2 v1" "v1 \<noteq> v2" by (simp_all add: lexordp_append_rightI)
      then show ?thesis using c gt(1) lexordp_antisym [of v1 v2] by (auto simp: v)
    next
      case eq
      then show ?thesis using c by (simp add: v lexordp_irreflexive')
    qed
  next
    case False
    then have "memcmp (sds_buf s1) (sds_buf s2) m < 0 \<longleftrightarrow> ord_class.lexordp v1 v2"
      using memcmp_less [OF b, of "drop m v1" "drop m v2"] t by simp
    moreover have "memcmp (sds_buf s1) (sds_buf s2) m \<noteq> 0" using memcmp_zero [OF b] t False by simp
    ultimately show ?thesis using c False v by auto
  qed
qed

section \<open>Numbers as strings\<close>

fun ll2strDigits :: "byte list \<Rightarrow> nat \<Rightarrow> nat \<Rightarrow> byte list \<times> nat" where
  "ll2strDigits b p v =
     (let b = b[p := 48 + of_nat (v mod 10)]; v' = v div 10
      in if v' \<noteq> 0 then ll2strDigits b (p + 1) v' else (b, p + 1))"

declare ll2strDigits.simps [simp del]

fun ll2strReverse :: "byte list \<Rightarrow> nat \<Rightarrow> nat \<Rightarrow> byte list" where
  "ll2strReverse b s p = (if s < p then ll2strReverse (b[s := b ! p, p := b ! s]) (s + 1) (p - 1) else b)"

declare ll2strReverse.simps [simp del]

text \<open>\<open>-value\<close> of the smallest value wraps to itself; as unsigned it is 2 to the 63.\<close>

definition sdsll2str :: "byte list \<Rightarrow> int \<Rightarrow> nat \<times> byte list" where
  "sdsll2str s value =
     (let v = nat ((if value < 0 then - value else value) mod 2 ^ 64);
          (s, p) = ll2strDigits s 0 v;
          (s, p) = (if value < 0 then (s[p := 45], p + 1) else (s, p));
          l = p;
          s = s[p := 0]
      in (l, ll2strReverse s 0 (p - 1)))"

definition sdsull2str :: "byte list \<Rightarrow> nat \<Rightarrow> nat \<times> byte list" where
  "sdsull2str s v =
     (let (s, p) = ll2strDigits s 0 v;
          l = p;
          s = s[p := 0]
      in (l, ll2strReverse s 0 (p - 1)))"

definition SDS_LLSTR_SIZE :: nat where "SDS_LLSTR_SIZE = 21"

definition sdsfromlonglong :: "int \<Rightarrow> sds" where
  "sdsfromlonglong value =
     (let (len, buf) = sdsll2str (replicate SDS_LLSTR_SIZE 0) value in sdsnewlen (Some buf) len)"

lemma ll2strDigits_spec:
  "p + length (dec_nat v) \<le> length b \<Longrightarrow>
   ll2strDigits b p v = (write_at p (rev (dec_nat v)) b, p + length (dec_nat v))"
proof (induction b p v rule: ll2strDigits.induct)
  case (1 b p v)
  show ?case
  proof (cases "v < 10")
    case True
    then show ?thesis using 1(2) by (subst ll2strDigits.simps) (simp add: update_one)
  next
    case False
    let ?b = "b[p := 48 + of_nat (v mod 10)]"
    have d: "dec_nat v = dec_nat (v div 10) @ [48 + of_nat (v mod 10)]" using False by (simp add: dec_nat_step)
    then have "ll2strDigits ?b (p + 1) (v div 10) =
        (write_at (p + 1) (rev (dec_nat (v div 10))) ?b, p + 1 + length (dec_nat (v div 10)))"
      using 1 False by (intro "1.IH") auto
    then have "ll2strDigits b p v = (write_at (p + 1) (rev (dec_nat (v div 10))) ?b, p + 1 + length (dec_nat (v div 10)))"
      using False by (subst ll2strDigits.simps) (simp add: Let_def)
    then show ?thesis using 1(2) d by (simp add: write_at_def upd_conv_take_nth_drop min_def)
  qed
qed

lemma ll2strReverse_spec:
  "xs = a @ m @ c \<Longrightarrow> m \<noteq> [] \<Longrightarrow> ll2strReverse xs (length a) (length a + length m - 1) = a @ rev m @ c"
proof (induction "length m" arbitrary: xs a m c rule: less_induct)
  case less
  show ?case
  proof (cases "length m = 1")
    case True
    then obtain x where "m = [x]" by (auto simp: length_Suc_conv)
    then show ?thesis using less.prems by (subst ll2strReverse.simps) simp
  next
    case False
    then obtain x m' where m1: "m = x # m'" "m' \<noteq> []" using less.prems(2) by (cases m) auto
    then obtain k y where m: "m = x # k @ [y]" by (cases m' rule: rev_cases) auto
    let ?xs = "(a @ [y]) @ k @ x # c"
    have x1: "xs ! length a = x" "xs ! (length a + length m - 1) = y"
      using less.prems(1) m by (simp_all add: nth_append)
    have "xs[length a := y, length a + length m - 1 := x] = ?xs"
      using less.prems(1) m by (simp add: list_update_append)
    then have "ll2strReverse xs (length a) (length a + length m - 1) =
        ll2strReverse ?xs (length (a @ [y])) (length (a @ [y]) + length k - 1)"
      using x1 m by (subst ll2strReverse.simps) simp
    also have "\<dots> = (a @ [y]) @ rev k @ x # c"
    proof (cases "k = []")
      case True
      then show ?thesis by (subst ll2strReverse.simps) simp
    next
      case False
      then show ?thesis using m by (intro less.hyps) auto
    qed
    finally show ?thesis by (simp add: m)
  qed
qed

lemma ll2str_finish:
  assumes "ys \<noteq> []" "length ys < length b" "length ys = n"
  shows "ll2strReverse ((write_at 0 ys b)[n := 0]) 0 (n - 1) = write_at 0 (rev ys @ [0]) b"
proof -
  obtain c where "drop (length ys) b = c # drop (Suc (length ys)) b"
    using assms(2) by (metis Cons_nth_drop_Suc)
  then have "(write_at 0 ys b)[n := 0] = [] @ ys @ 0 # drop (Suc (length ys)) b"
    using assms(3) by (simp add: write_at_def list_update_append)
  from ll2strReverse_spec [OF this assms(1)] show ?thesis
    using assms(3) by (simp add: write_at_def)
qed

lemma sdsull2str_spec:
  assumes "length (dec_nat v) < length b"
  shows "sdsull2str b v = (length (dec_nat v), write_at 0 (dec_nat v @ [0]) b)"
  using assms ll2strDigits_spec [of 0 v b] ll2str_finish [of "rev (dec_nat v)" b "length (dec_nat v)"]
    length_dec_nat_pos [of v]
  by (simp add: sdsull2str_def Let_def)

lemma sdsll2str_spec:
  assumes "in_i64 value" "length (dec_bytes value) < length b"
  shows "sdsll2str b value = (length (dec_bytes value), write_at 0 (dec_bytes value @ [0]) b)"
proof -
  define v where "v = nat (if value < 0 then - value else value)"
  have v: "nat ((if value < 0 then - value else value) mod 2 ^ 64) = v"
    using assms(1) by (auto simp: v_def in_signed_def)
  have d: "dec_bytes value = (if value < 0 then [45] else []) @ dec_nat v" by (simp add: dec_bytes_def v_def)
  have ds: "ll2strDigits b 0 v = (write_at 0 (rev (dec_nat v)) b, length (dec_nat v))"
    using assms(2) d by (simp add: ll2strDigits_spec)
  have w: "(write_at 0 (rev (dec_nat v)) b)[length (dec_nat v) := 45] = write_at 0 (rev (dec_nat v) @ [45]) b"
    if "value < 0"
    using that assms(2) d by (simp add: write_at_def list_update_append Cons_nth_drop_Suc [symmetric])
  have pos: "dec_nat v \<noteq> []" using length_dec_nat_pos [of v] by auto
  show ?thesis
    unfolding sdsll2str_def v Let_def ds
    using w ll2str_finish [of "rev (dec_bytes value)" b "length (dec_bytes value)"] assms(2) pos
    by (auto simp: d split: if_splits)
qed

lemma dec_bytes_length: "in_i64 v \<Longrightarrow> length (dec_bytes v) \<le> 20"
proof -
  assume "in_i64 v"
  then have "nat v < 10 ^ 19" "nat (- v) < 10 ^ 19" by (auto simp: in_signed_def)
  then have "length (dec_nat (nat v)) \<le> 19" "length (dec_nat (nat (- v))) \<le> 19"
    by (simp_all add: length_dec_nat_le)
  then show ?thesis by (simp add: dec_bytes_def)
qed

lemma dec_nat_length: "v < 2 ^ 64 \<Longrightarrow> length (dec_nat v) \<le> 20"
  using length_dec_nat_le [of v 20] by auto

lemma sdsfromlonglong_spec:
  assumes "in_i64 v"
  shows "sds_wf (sdsfromlonglong v) \<and> sds_val (sdsfromlonglong v) = dec_bytes v"
proof -
  have "length (dec_bytes v) < length (replicate SDS_LLSTR_SIZE (0 :: byte))"
    using dec_bytes_length [OF assms] by (simp add: SDS_LLSTR_SIZE_def)
  note s = sdsll2str_spec [OF assms this]
  have l: "length (dec_bytes v) < 2 ^ 64" using dec_bytes_length [OF assms] by simp
  show ?thesis
    unfolding sdsfromlonglong_def s Let_def prod.case
    using sdsnewlen_spec [OF l, of "Some (write_at 0 (dec_bytes v @ [0]) (replicate SDS_LLSTR_SIZE 0))"]
    by (simp add: write_at_def)
qed

section \<open>Formatted append\<close>

text \<open>
  The arguments of \<open>sdscatfmt\<close>: a C string, a dynamic string, and the four integer types, each with
  its width.  The loop ends with \<open>None\<close> where the C code reads an argument of
  another type than the one passed, or reads past the terminator of a format that ends in a
  single percent sign.
\<close>

datatype fmt_arg = ArgStr "byte list" | ArgSds sds | ArgInt u32 | ArgLongLong u64 | ArgUint u32 | ArgUlongLong u64

fun fmtText :: "byte \<Rightarrow> fmt_arg \<Rightarrow> byte list option" where
  "fmtText next (ArgStr str) = (if next = 115 then Some (take (strlen str) str) else None)"
| "fmtText next (ArgSds str) = (if next = 83 then Some (take (sdslen str) (sds_buf str)) else None)"
| "fmtText next (ArgInt num) =
     (if next = 105 then (let (l, buf) = sdsll2str (replicate SDS_LLSTR_SIZE 0) (sint num) in Some (take l buf)) else None)"
| "fmtText next (ArgLongLong num) =
     (if next = 73 then (let (l, buf) = sdsll2str (replicate SDS_LLSTR_SIZE 0) (sint num) in Some (take l buf)) else None)"
| "fmtText next (ArgUint unum) =
     (if next = 117 then (let (l, buf) = sdsull2str (replicate SDS_LLSTR_SIZE 0) (unat unum) in Some (take l buf)) else None)"
| "fmtText next (ArgUlongLong unum) =
     (if next = 85 then (let (l, buf) = sdsull2str (replicate SDS_LLSTR_SIZE 0) (unat unum) in Some (take l buf)) else None)"

definition fmtAppend :: "sds \<Rightarrow> nat \<Rightarrow> byte list \<Rightarrow> sds" where
  "fmtAppend s i t =
     (let l = length t;
          s = (if sdsavail s < l then sdsMakeRoomFor s l else s)
      in sdsinclen (put_bytes i t s) l)"

fun sdscatfmtLoop :: "sds \<Rightarrow> nat \<Rightarrow> byte list \<Rightarrow> fmt_arg list \<Rightarrow> sds option" where
  "sdscatfmtLoop s i [] args = Some (put_byte i 0 s)"
| "sdscatfmtLoop s i (c # f) args =
     (let s = (if sdsavail s = 0 then sdsMakeRoomFor s 1 else s)
      in if c = 37 then
           (case f of
              [] \<Rightarrow> None
            | next # f \<Rightarrow>
                if next \<in> {115, 83, 105, 73, 117, 85} then
                  (case args of
                     [] \<Rightarrow> None
                   | a # args \<Rightarrow>
                       (case fmtText next a of
                          None \<Rightarrow> None
                        | Some t \<Rightarrow> sdscatfmtLoop (fmtAppend s i t) (i + length t) f args))
                else sdscatfmtLoop (sdsinclen (put_byte i next s) 1) (i + 1) f args)
         else sdscatfmtLoop (sdsinclen (put_byte i c s) 1) (i + 1) f args)"

definition sdscatfmt :: "sds \<Rightarrow> byte list \<Rightarrow> fmt_arg list \<Rightarrow> sds option" where
  "sdscatfmt s fmt args =
     (let initlen = sdslen s;
          s = sdsMakeRoomFor s (initlen + strlen fmt * 2)
      in sdscatfmtLoop s initlen (take (strlen fmt) fmt) args)"

text \<open>The text a format denotes.\<close>

fun arg_ok :: "fmt_arg \<Rightarrow> bool" where
  "arg_ok (ArgSds s) = sds_wf s"
| "arg_ok _ = True"

fun fmt_value :: "byte \<Rightarrow> fmt_arg \<Rightarrow> byte list option" where
  "fmt_value n (ArgStr b) = (if n = 115 then Some (takeWhile (\<lambda>c. c \<noteq> 0) b) else None)"
| "fmt_value n (ArgSds s) = (if n = 83 then Some (sds_val s) else None)"
| "fmt_value n (ArgInt v) = (if n = 105 then Some (dec_bytes (sint v)) else None)"
| "fmt_value n (ArgLongLong v) = (if n = 73 then Some (dec_bytes (sint v)) else None)"
| "fmt_value n (ArgUint v) = (if n = 117 then Some (dec_nat (unat v)) else None)"
| "fmt_value n (ArgUlongLong v) = (if n = 85 then Some (dec_nat (unat v)) else None)"

fun fmt_expand :: "byte list \<Rightarrow> fmt_arg list \<Rightarrow> byte list option" where
  "fmt_expand [] args = Some []"
| "fmt_expand (c # f) args =
     (if c = 37 then
        (case f of
           [] \<Rightarrow> None
         | n # f \<Rightarrow>
             if n \<in> {115, 83, 105, 73, 117, 85} then
               (case args of
                  [] \<Rightarrow> None
                | a # args \<Rightarrow> (case fmt_value n a of None \<Rightarrow> None | Some t \<Rightarrow> map_option ((@) t) (fmt_expand f args)))
             else map_option ((#) n) (fmt_expand f args))
      else map_option ((#) c) (fmt_expand f args))"

lemma take_strlen: "take (strlen b) b = takeWhile (\<lambda>c. c \<noteq> 0) b"
  by (simp add: strlen_def takeWhile_eq_take [symmetric])

lemma takeWhile_zero: "0 \<notin> set xs \<Longrightarrow> takeWhile (\<lambda>c. c \<noteq> 0) (xs @ (0 :: byte) # d) = xs"
  by (induction xs) auto

lemma sdsll2str_text:
  "in_i64 v \<Longrightarrow> (let (l, buf) = sdsll2str (replicate SDS_LLSTR_SIZE 0) v in Some (take l buf)) = Some (dec_bytes v)"
  using sdsll2str_spec [of v "replicate SDS_LLSTR_SIZE 0"] dec_bytes_length [of v] by (simp add: SDS_LLSTR_SIZE_def write_at_def)

lemma sdsull2str_text:
  "v < 2 ^ 64 \<Longrightarrow> (let (l, buf) = sdsull2str (replicate SDS_LLSTR_SIZE 0) v in Some (take l buf)) = Some (dec_nat v)"
  using sdsull2str_spec [of v "replicate SDS_LLSTR_SIZE 0"] dec_nat_length [of v] by (simp add: SDS_LLSTR_SIZE_def write_at_def)

lemma sint_in_i64: "in_i64 (sint (v :: u32))" "in_i64 (sint (w :: u64))"
  using sint_greater_eq [of v] sint_lt [of v] sint_greater_eq [of w] sint_lt [of w] by (auto simp: in_signed_def)

lemma unat_less_64: "unat (v :: u32) < 2 ^ 64" "unat (w :: u64) < 2 ^ 64"
  using unsigned_less [of v, where ?'a = nat] unsigned_less [of w, where ?'a = nat] by simp_all

lemma fmtText_value: "arg_ok a \<Longrightarrow> fmtText n a = fmt_value n a"
  by (cases a) (simp_all only: fmtText.simps fmt_value.simps sdsll2str_text [OF sint_in_i64(1)] sdsll2str_text [OF sint_in_i64(2)]
    sdsull2str_text [OF unat_less_64(1)] sdsull2str_text [OF unat_less_64(2)] take_strlen sds_val_def)

lemma sdslen_sdsinclen: "sdslen s + n < 2 ^ sds_bits (sds_type s) \<Longrightarrow> sdsinclen s n = sdssetlen s (sdslen s + n)"
  by (simp add: sdsinclen_def sdssetlen_def sdslen_def)

text \<open>Appending at the end of a string whose buffer has room.\<close>

lemma sds_append_room:
  assumes "sds_room s" "sdslen s + length t \<le> sdsalloc s" "i = sdslen s"
    and "s' = sdsinclen (put_bytes i t s) (length t)"
  shows "sds_room s' \<and> sds_val s' = sds_val s @ t \<and> sdslen s' = i + length t"
proof -
  let ?n = "sdslen s + length t"
  have b: "?n < 2 ^ sds_bits (sds_type s)" "?n < length (sds_buf s)" using assms(1,2) by (simp_all add: sds_room_def)
  then have s': "s' = sdssetlen (put_bytes i t s) ?n" using assms(4) sdslen_sdsinclen [of "put_bytes i t s" "length t"] by simp
  then have "sdslen s' = ?n" "sds_buf s' = write_at i t (sds_buf s)" "sds_type s' = sds_type s" using b by simp_all
  moreover have "sdsalloc s' = (if sds_type s = SDS_TYPE_5 then ?n else sdsalloc s)"
    using b s' by (simp add: sdsalloc_sdssetlen)
  ultimately show ?thesis
    using b assms(1-3) by (auto simp: sds_room_def sds_val_def write_at_def)
qed

lemma sdsMakeRoomFor_if:
  assumes "sds_room s" "sdslen s + k < 2 ^ 63" "r = (if sdsavail s < k then sdsMakeRoomFor s k else s)"
  shows "sds_room r \<and> sds_val r = sds_val s \<and> sdslen r = sdslen s \<and> sdslen s + k \<le> sdsalloc r"
  using sdsMakeRoomFor_room [OF assms(1,2)] assms(1,3) sdsavail_eq [of s] by (auto simp: sds_room_def)

lemma fmtAppend_spec:
  assumes "sds_room s" "i = sdslen s" "i + length t < 2 ^ 63"
  shows "sds_room (fmtAppend s i t) \<and> sds_val (fmtAppend s i t) = sds_val s @ t \<and> sdslen (fmtAppend s i t) = i + length t"
proof -
  define r where "r = (if sdsavail s < length t then sdsMakeRoomFor s (length t) else s)"
  have r: "sds_room r" "sds_val r = sds_val s" "sdslen r = sdslen s" "sdslen s + length t \<le> sdsalloc r"
    using sdsMakeRoomFor_if [OF assms(1) _ r_def] assms by auto
  have "fmtAppend s i t = sdsinclen (put_bytes i t r) (length t)"
    by (simp add: fmtAppend_def Let_def r_def)
  from sds_append_room [OF r(1) _ _ this] r(2,3,4) assms(2) show ?thesis by simp
qed

lemma put_byte_bytes: "i < length (sds_buf s) \<Longrightarrow> put_byte i c s = put_bytes i [c] s"
  by (simp add: put_byte_def put_bytes_def update_one)

lemma sds_append_byte:
  assumes "sds_room s" "sdslen s + 1 \<le> sdsalloc s" "i = sdslen s"
  shows "sds_room (sdsinclen (put_byte i c s) 1) \<and> sds_val (sdsinclen (put_byte i c s) 1) = sds_val s @ [c] \<and>
    sdslen (sdsinclen (put_byte i c s) 1) = i + 1"
proof -
  have "put_byte i c s = put_bytes i [c] s" using assms by (intro put_byte_bytes) (simp add: sds_room_def)
  then have "sdsinclen (put_byte i c s) 1 = sdsinclen (put_bytes i [c] s) (length [c])" by simp
  from sds_append_room [OF assms(1) _ assms(3) this] assms(2) show ?thesis by simp
qed

lemma sdscatfmtLoop_spec:
  "sds_room s \<Longrightarrow> i = sdslen s \<Longrightarrow> list_all arg_ok args \<Longrightarrow> fmt_expand f args = Some t \<Longrightarrow>
   i + length t + 1 < 2 ^ 63 \<Longrightarrow>
   \<exists>s'. sdscatfmtLoop s i f args = Some s' \<and> sds_wf s' \<and> sds_val s' = sds_val s @ t"
proof (induction f args arbitrary: s i t rule: fmt_expand.induct)
  case (1 args)
  then have "sds_wf (put_byte i 0 s)" by (simp add: sds_wf_room) (simp add: sds_room_def)
  then show ?case using 1 by (auto simp: sds_val_def)
next
  case (2 c f args)
  define r where "r = (if sdsavail s = 0 then sdsMakeRoomFor s 1 else s)"
  have lim: "sdslen s + 1 < 2 ^ 63" using "2.prems"(2,5) by linarith
  have "r = (if sdsavail s < 1 then sdsMakeRoomFor s 1 else s)" by (simp add: r_def)
  from sdsMakeRoomFor_if [OF "2.prems"(1) lim this]
  have r: "sds_room r" "sds_val r = sds_val s" "sdslen r = sdslen s" "sdslen r + 1 \<le> sdsalloc r" by auto
  have i: "i = sdslen r" using r(3) "2.prems"(2) by simp
  show ?case
  proof (cases "c = 37")
    case False
    then obtain t' where t: "fmt_expand f args = Some t'" "t = c # t'" using "2.prems"(4) by auto
    let ?s = "sdsinclen (put_byte i c r) 1"
    note a = sds_append_byte [OF r(1,4) i, of c]
    have "\<exists>s'. sdscatfmtLoop ?s (i + 1) f args = Some s' \<and> sds_wf s' \<and> sds_val s' = sds_val ?s @ t'"
      using a "2.prems"(3,5) t by (intro "2.IH"(3) [OF False]) auto
    then show ?thesis using a False t(2) r(2) by (auto simp: r_def [symmetric])
  next
    case True
    then obtain n f' where f: "f = n # f'" using "2.prems"(4) by (cases f) auto
    show ?thesis
    proof (cases "n \<in> {115, 83, 105, 73, 117, 85}")
      case False
      then obtain t' where t: "fmt_expand f' args = Some t'" "t = n # t'" using "2.prems"(4) True f by auto
      let ?s = "sdsinclen (put_byte i n r) 1"
      note a = sds_append_byte [OF r(1,4) i, of n]
      have "\<exists>s'. sdscatfmtLoop ?s (i + 1) f' args = Some s' \<and> sds_wf s' \<and> sds_val s' = sds_val ?s @ t'"
        using a "2.prems"(3,5) t by (intro "2.IH"(2) [OF True f False]) auto
      then show ?thesis using a False True f t(2) r(2) by (auto simp: r_def [symmetric])
    next
      case spec: True
      then obtain a as t1 t' where t: "args = a # as" "fmt_value n a = Some t1" "fmt_expand f' as = Some t'" "t = t1 @ t'"
        using "2.prems"(4) True f by (auto split: list.splits option.splits)
      let ?s = "fmtAppend r i t1"
      have v: "fmtText n a = Some t1" using "2.prems"(3) t by (simp add: fmtText_value)
      have ap: "sds_room ?s \<and> sds_val ?s = sds_val r @ t1 \<and> sdslen ?s = i + length t1"
        using fmtAppend_spec [OF r(1) i] "2.prems"(5) t(4) by simp
      have "\<exists>s'. sdscatfmtLoop ?s (i + length t1) f' as = Some s' \<and> sds_wf s' \<and> sds_val s' = sds_val ?s @ t'"
        using ap "2.prems"(3,5) t by (intro "2.IH"(1) [OF True f spec t(1,2)]) auto
      then show ?thesis using ap True spec f t v r(2) by (auto simp: r_def [symmetric])
    qed
  qed
qed

lemma sdscatfmt_spec:
  assumes "sds_wf s" "list_all arg_ok args" "fmt_expand (takeWhile (\<lambda>c. c \<noteq> 0) fmt) args = Some t"
    and "2 * (sdslen s + strlen fmt) < 2 ^ 63" "sdslen s + length t + 1 < 2 ^ 63"
  shows "\<exists>s'. sdscatfmt s fmt args = Some s' \<and> sds_wf s' \<and> sds_val s' = sds_val s @ t"
proof -
  define r where "r = sdsMakeRoomFor s (sdslen s + strlen fmt * 2)"
  have r: "sds_room r" "sds_val r = sds_val s" "sdslen s = sdslen r"
    using sdsMakeRoomFor_room [of s "sdslen s + strlen fmt * 2"] assms(1,4) by (simp_all add: sds_wf_room r_def)
  have "sdscatfmt s fmt args = sdscatfmtLoop r (sdslen s) (takeWhile (\<lambda>c. c \<noteq> 0) fmt) args"
    by (simp add: sdscatfmt_def Let_def take_strlen r_def)
  then show ?thesis using sdscatfmtLoop_spec [OF r(1,3) assms(2,3,5)] r(2) by simp
qed

section \<open>Properties\<close>

definition example_sds :: sds where
  "example_sds = \<lparr>sds_type = SDS_TYPE_8, hdr_len = 3, hdr_alloc = 6, sds_buf = [102, 111, 111, 0, 7, 7, 7]\<rparr>"

lemma example_sds_wf: "sds_wf example_sds" by code_simp

lemma example_sds_val: "sds_val example_sds = [102, 111, 111]" by code_simp

text \<open>
  C22: appending keeps the header, the buffer and the terminator consistent, whatever header type the
  grown string needs, and the string is the old one followed by the appended bytes.
\<close>

theorem sdscatlen_correct:
  assumes "sds_wf s" "sdslen s + length t < 2 ^ 63"
  shows "sds_wf (sdscatlen s t) \<and> sds_val (sdscatlen s t) = sds_val s @ t"
  using assms by (rule sdscatlen_spec)

theorem sdscatlen_correct_witness:
  "sds_wf (sdscatlen example_sds [98, 97, 114, 33, 33]) \<and>
   sds_val (sdscatlen example_sds [98, 97, 114, 33, 33]) = [102, 111, 111, 98, 97, 114, 33, 33]"
proof -
  have "sdslen example_sds + length [98 :: byte, 97, 114, 33, 33] < 2 ^ 63" by (simp add: example_sds_def sdslen_def)
  from sdscatlen_correct [OF example_sds_wf this] show ?thesis by (simp add: example_sds_val)
qed

text \<open>
  \<open>sdsrange\<close> keeps exactly the bytes between two inclusive positions, where negative positions count
  from the end and positions outside the string are clipped.
\<close>

lemma sdsrange_correct:
  assumes "sds_wf s"
  shows "sds_wf (sdsrange s start end') \<and> sds_val (sdsrange s start end') = substring start end' (sds_val s)"
  using assms by (rule sdsrange_spec)

lemma sdsrange_correct_witness: "sds_val (sdsrange example_sds (-2) 7) = [111, 111]"
  using sdsrange_correct [OF example_sds_wf, of "-2" 7] by (simp add: example_sds_val substring_def)

text \<open>
  \<open>sdscmp\<close> is zero exactly for equal binary strings, and negative exactly when the first one is
  smaller in the lexicographic order of unsigned bytes, a proper prefix being smaller.
\<close>

lemma sdscmp_correct:
  assumes "sds_wf s1" "sds_wf s2"
  shows "(sdscmp s1 s2 = 0 \<longleftrightarrow> sds_val s1 = sds_val s2) \<and>
    (sdscmp s1 s2 < 0 \<longleftrightarrow> ord_class.lexordp (sds_val s1) (sds_val s2))"
  using assms by (rule sdscmp_spec)

lemma sdscmp_correct_witness: "sdscmp example_sds (sdsnew [102, 112]) < 0"
proof -
  have "sds_wf (sdsnew [102, 112])" by code_simp
  moreover have "sds_val (sdsnew [102, 112]) = [102, 112]" by code_simp
  ultimately show ?thesis using sdscmp_correct [OF example_sds_wf] by (simp add: example_sds_val)
qed

text \<open>
  C23: \<open>sdscatfmt\<close> appends exactly the text its format and arguments denote, growing the string as needed
  and leaving it terminated.  The specifiers \<open>%i\<close> and \<open>%u\<close> take 32-bit arguments, \<open>%I\<close> and \<open>%U\<close> 64-bit ones.
\<close>

theorem sdscatfmt_correct:
  assumes "sds_wf s" "list_all arg_ok args" "fmt_expand (takeWhile (\<lambda>c. c \<noteq> 0) fmt) args = Some t"
    and "2 * (sdslen s + strlen fmt) < 2 ^ 63" "sdslen s + length t + 1 < 2 ^ 63"
  shows "\<exists>s'. sdscatfmt s fmt args = Some s' \<and> sds_wf s' \<and> sds_val s' = sds_val s @ t"
  using assms by (rule sdscatfmt_spec)

theorem sdscatfmt_correct_witness:
  "\<exists>s'. sdscatfmt example_sds [37, 73, 44, 37, 115, 44, 37, 105, 0] [ArgLongLong (-12), ArgStr [104, 105, 0], ArgInt (-1)] = Some s' \<and>
     sds_wf s' \<and> sds_val s' = [102, 111, 111, 45, 49, 50, 44, 104, 105, 44, 45, 49]"
proof -
  have "sint (-12 :: u64) = -12" "sint (-1 :: u32) = -1" by simp_all
  then have "fmt_expand (takeWhile (\<lambda>c. c \<noteq> 0) [37, 73, 44, 37, 115, 44, 37, 105, 0]) [ArgLongLong (-12), ArgStr [104, 105, 0], ArgInt (-1)] =
      Some [45, 49, 50, 44, 104, 105, 44, 45, 49]" by (simp add: dec_bytes_def dec_nat_step del: sint_numeral)
  moreover have "list_all arg_ok [ArgLongLong (-12), ArgStr [104, 105, 0], ArgInt (-1)]" by simp
  moreover have "sdslen example_sds = 3" "strlen [37, 73, 44, 37, 115, 44, 37, 105, 0] = 8" by code_simp+
  ultimately show ?thesis
    using sdscatfmt_correct [OF example_sds_wf, of "[ArgLongLong (-12), ArgStr [104, 105, 0], ArgInt (-1)]" "[37, 73, 44, 37, 115, 44, 37, 105, 0]"]
    by (simp add: example_sds_val)
qed

end
