(* ===== verification/SdsText.thy ===== *)
theory SdsText
  imports Sds "HOL-Library.Sublist"
begin

text \<open>
  The text processing half of \<open>src/redis-6.0.5/src/sds.c\<close>: character maps, splitting by a
  separator and joining, the quoted representation of a binary string and the splitting of a
  command line into arguments.

  \<open>isprint\<close>, \<open>isspace\<close>, \<open>tolower\<close> and \<open>toupper\<close> are those of the C locale.  A line given to
  \<open>sdssplitargs\<close> ends at its first zero byte; \<open>peek\<close> reads that terminator at the end.
\<close>

section \<open>Character maps\<close>

text \<open>The loop \<open>for (j = 0; j < len; j++) s[j] = f(s[j])\<close>: \<open>n\<close> bytes are left, the next one is at \<open>j\<close>.\<close>

fun mapLoop :: "(byte \<Rightarrow> byte) \<Rightarrow> byte list \<Rightarrow> nat \<Rightarrow> nat \<Rightarrow> byte list" where
  "mapLoop f b j 0 = b"
| "mapLoop f b j (Suc n) = mapLoop f (b[j := f (b ! j)]) (j + 1) n"

definition tolower :: "byte \<Rightarrow> byte" where
  "tolower c = (if 65 \<le> c \<and> c \<le> 90 then c + 32 else c)"

definition toupper :: "byte \<Rightarrow> byte" where
  "toupper c = (if 97 \<le> c \<and> c \<le> 122 then c - 32 else c)"

definition sdstolower :: "sds \<Rightarrow> sds" where
  "sdstolower s = s\<lparr>sds_buf := mapLoop tolower (sds_buf s) 0 (sdslen s)\<rparr>"

definition sdstoupper :: "sds \<Rightarrow> sds" where
  "sdstoupper s = s\<lparr>sds_buf := mapLoop toupper (sds_buf s) 0 (sdslen s)\<rparr>"

fun mapchar :: "byte list \<Rightarrow> byte list \<Rightarrow> nat \<Rightarrow> byte \<Rightarrow> byte" where
  "mapchar (f # from) (t # to) (Suc n) c = (if c = f then t else mapchar from to n c)"
| "mapchar _ _ _ c = c"

definition sdsmapchars :: "sds \<Rightarrow> byte list \<Rightarrow> byte list \<Rightarrow> nat \<Rightarrow> sds" where
  "sdsmapchars s from to setlen = s\<lparr>sds_buf := mapLoop (mapchar from to setlen) (sds_buf s) 0 (sdslen s)\<rparr>"

lemma mapLoop_eq: "j + n \<le> length b \<Longrightarrow> mapLoop f b j n = take j b @ map f (take n (drop j b)) @ drop (j + n) b"
proof (induction f b j n rule: mapLoop.induct)
  case (2 f b j n)
  then have "drop j b = b ! j # drop (Suc j) b" by (simp add: Cons_nth_drop_Suc)
  then show ?case using 2 by (simp add: take_Suc_conv_app_nth)
qed simp

lemma mapLoop_sds:
  assumes "sds_wf s"
  shows "sds_wf (s\<lparr>sds_buf := mapLoop f (sds_buf s) 0 (sdslen s)\<rparr>) \<and>
    sds_val (s\<lparr>sds_buf := mapLoop f (sds_buf s) 0 (sdslen s)\<rparr>) = map f (sds_val s)"
proof -
  have l: "sdslen s \<le> length (sds_buf s)" "sdslen s < length (sds_buf s)" using assms by (simp_all add: sds_wf_def)
  have "mapLoop f (sds_buf s) 0 (sdslen s) = map f (sds_val s) @ drop (sdslen s) (sds_buf s)"
    using l mapLoop_eq [of 0 "sdslen s" "sds_buf s" f] by (simp add: sds_val_def)
  then show ?thesis using assms l
    by (auto simp: sds_wf_def sdslen_def sdsalloc_def sds_val_def nth_append)
qed

section \<open>Splitting and joining\<close>

text \<open>
  The counters \<open>elements\<close> and \<open>slots\<close> and the length of the separator are of type \<open>int\<close>.  The
  loop ends with \<open>None\<close> where one of them would overflow or a token would be written behind the
  array of \<open>slots\<close> tokens.
\<close>

function sdssplitLoop :: "byte list \<Rightarrow> byte list \<Rightarrow> int \<Rightarrow> int \<Rightarrow> nat \<Rightarrow> nat \<Rightarrow> sds list option" where
  "sdssplitLoop s sep elements slots start j =
     (if sep = [] then None
      else if int j < int (length s) - (int (length sep) - 1) then
        let slots = (if slots < elements + 2 then slots * 2 else slots)
        in if slots \<ge> 2 ^ 31 \<or> elements + 2 \<ge> 2 ^ 31 then None
           else if length sep = 1 \<and> s ! j = sep ! 0 \<or> memcmp (drop j s) sep (length sep) = 0 then
             if elements \<ge> slots then None
             else map_option ((#) (sdsnewlen (Some (drop start s)) (j - start)))
                    (sdssplitLoop s sep (elements + 1) slots (j + length sep) (j + length sep - 1 + 1))
           else sdssplitLoop s sep elements slots start (j + 1)
      else if elements \<ge> slots then None
      else Some [sdsnewlen (Some (drop start s)) (length s - start)])"
  by pat_completeness auto
termination
proof (relation "measure (\<lambda>(s, sep, elements, slots, start, j). length s - j)", goal_cases)
  case (2 s sep elements slots start j)
  then show ?case by (cases sep) auto
next
  case (3 s sep elements slots start j)
  then show ?case by (cases sep) auto
qed simp

declare sdssplitLoop.simps [simp del]

text \<open>\<open>Some None\<close> is the null pointer.\<close>

definition sdssplitlen :: "byte list \<Rightarrow> byte list \<Rightarrow> sds list option option" where
  "sdssplitlen s sep =
     (if length sep \<ge> 2 ^ 31 then None
      else if length sep < 1 then Some None
      else if length s = 0 then Some (Some [])
      else map_option Some (sdssplitLoop s sep 0 5 0 0))"

fun sdsjoinLoop :: "sds \<Rightarrow> byte list list \<Rightarrow> byte list \<Rightarrow> sds" where
  "sdsjoinLoop join [] sep = join"
| "sdsjoinLoop join (a # argv) sep =
     (let join = sdscat join a in sdsjoinLoop (if argv \<noteq> [] then sdscat join sep else join) argv sep)"

definition sdsjoin :: "byte list list \<Rightarrow> byte list \<Rightarrow> sds" where
  "sdsjoin argv sep = sdsjoinLoop sdsempty argv sep"

fun sdsjoinsdsLoop :: "sds \<Rightarrow> sds list \<Rightarrow> byte list \<Rightarrow> sds" where
  "sdsjoinsdsLoop join [] sep = join"
| "sdsjoinsdsLoop join (a # argv) sep =
     (let join = sdscatsds join a in sdsjoinsdsLoop (if argv \<noteq> [] then sdscatlen join sep else join) argv sep)"

definition sdsjoinsds :: "sds list \<Rightarrow> byte list \<Rightarrow> sds" where
  "sdsjoinsds argv sep = sdsjoinsdsLoop sdsempty argv sep"

fun join_with :: "byte list \<Rightarrow> byte list list \<Rightarrow> byte list" where
  "join_with sep [] = []"
| "join_with sep [x] = x"
| "join_with sep (x # xs) = x @ sep @ join_with sep xs"

lemma join_with_Cons: "xs \<noteq> [] \<Longrightarrow> join_with sep (x # xs) = x @ sep @ join_with sep xs"
  by (cases xs) auto

lemma memcmp_prefix: "length sep \<le> length s \<Longrightarrow> memcmp s sep (length sep) = 0 \<longleftrightarrow> take (length sep) s = sep"
  by (simp add: memcmp_zero)

lemma split_test:
  assumes "sep \<noteq> []" "j + length sep \<le> length s"
  shows "(length sep = 1 \<and> s ! j = sep ! 0 \<or> memcmp (drop j s) sep (length sep) = 0) \<longleftrightarrow> take (length sep) (drop j s) = sep"
proof -
  have "take (length sep) (drop j s) = sep" if "length sep = 1" "s ! j = sep ! 0"
    using that assms(2) by (cases sep) (simp_all add: take_Suc hd_drop_conv_nth)
  then show ?thesis using assms memcmp_prefix [of sep "drop j s"] by auto
qed

lemma no_separator:
  assumes "\<And>p. k \<le> p \<Longrightarrow> p + length sep \<le> k + n \<Longrightarrow> take (length sep) (drop p s) \<noteq> sep" "k + n \<le> length s"
  shows "\<not> sublist sep (take n (drop k s))"
proof
  assume "sublist sep (take n (drop k s))"
  then obtain ps ss where e: "take n (drop k s) = ps @ sep @ ss" by (auto simp: sublist_def)
  have l: "length ps + length sep \<le> n" using arg_cong [OF e, of length] assms(2) by simp
  have "take (length sep) (drop (length ps) (take n (drop k s))) = sep" by (simp add: e)
  moreover have "length sep \<le> n - length ps" using l by simp
  ultimately have "take (length sep) (drop (k + length ps) s) = sep"
    by (simp add: drop_take add.commute min.absorb1)
  then show False using l assms(1) [of "k + length ps"] by simp
qed

lemma sdsnewlen_val: "n < 2 ^ 64 \<Longrightarrow> n \<le> length b \<Longrightarrow> sds_wf (sdsnewlen (Some b) n) \<and> sds_val (sdsnewlen (Some b) n) = take n b"
  using sdsnewlen_spec [of n "Some b"] by simp

text \<open>The tokens, without the bookkeeping of the array.\<close>

function split_tokens :: "byte list \<Rightarrow> byte list \<Rightarrow> nat \<Rightarrow> nat \<Rightarrow> sds list" where
  "split_tokens s sep start j =
     (if sep = [] then []
      else if int j < int (length s) - (int (length sep) - 1) then
        if length sep = 1 \<and> s ! j = sep ! 0 \<or> memcmp (drop j s) sep (length sep) = 0
        then sdsnewlen (Some (drop start s)) (j - start)
               # split_tokens s sep (j + length sep) (j + length sep - 1 + 1)
        else split_tokens s sep start (j + 1)
      else [sdsnewlen (Some (drop start s)) (length s - start)])"
  by pat_completeness auto
termination
proof (relation "measure (\<lambda>(s, sep, start, j). length s - j)")
  fix s sep :: "byte list" and start j
  assume "sep \<noteq> []" "int j < int (length s) - (int (length sep) - 1)"
  then show "((s, sep, j + length sep, j + length sep - 1 + 1), s, sep, start, j) \<in> measure (\<lambda>(s, sep, start, j). length s - j)"
    "((s, sep, start, j + 1), s, sep, start, j) \<in> measure (\<lambda>(s, sep, start, j). length s - j)"
    by (cases sep; simp)+
qed simp

declare split_tokens.simps [simp del]

text \<open>The array always has room for the next token, and its size does not overflow.\<close>

lemma sdssplitLoop_tokens:
  "sep \<noteq> [] \<Longrightarrow> length s < 2 ^ 30 \<Longrightarrow> 0 \<le> elements \<Longrightarrow> elements \<le> int j \<Longrightarrow> elements < slots \<Longrightarrow> slots < 2 ^ 31 \<Longrightarrow>
   sdssplitLoop s sep elements slots start j = Some (split_tokens s sep start j)"
proof (induction s sep elements slots start j rule: sdssplitLoop.induct)
  case (1 s sep elements slots start j)
  define slots' where "slots' = (if slots < elements + 2 then slots * 2 else slots)"
  show ?case
  proof (cases "int j < int (length s) - (int (length sep) - 1)")
    case False
    then show ?thesis using "1.prems" by (simp add: sdssplitLoop.simps [of s] split_tokens.simps [of s])
  next
    case True
    have l: "1 \<le> length sep" using "1.prems"(1) by (cases sep) auto
    have "int (length s) < 2 ^ 30" using "1.prems"(2) by simp
    then have b: "elements + 1 < 2 ^ 30" using True l "1.prems"(4) by linarith
    have s': "elements + 1 < slots'" "slots' < 2 ^ 31" using "1.prems"(3,5,6) b by (auto simp: slots'_def)
    have g: "\<not> (2 ^ 31 \<le> slots' \<or> 2 ^ 31 \<le> elements + 2)" "\<not> slots' \<le> elements" using s' b by linarith+
    show ?thesis
    proof (cases "length sep = 1 \<and> s ! j = sep ! 0 \<or> memcmp (drop j s) sep (length sep) = 0")
      case yes: True
      have "sdssplitLoop s sep (elements + 1) slots' (j + length sep) (j + length sep - 1 + 1) =
          Some (split_tokens s sep (j + length sep) (j + length sep - 1 + 1))"
        using "1.prems" s' g l by (intro "1.IH"(1) [OF "1.prems"(1) True slots'_def g(1) yes]) auto
      then show ?thesis
        unfolding sdssplitLoop.simps [of s sep elements slots start j] split_tokens.simps [of s sep start j] slots'_def [symmetric] Let_def
        by (simp only: "1.prems"(1) True yes g if_True if_False option.map)
    next
      case no: False
      have "sdssplitLoop s sep elements slots' start (j + 1) = Some (split_tokens s sep start (j + 1))"
        using "1.prems" s' by (intro "1.IH"(2) [OF "1.prems"(1) True slots'_def g(1) no]) auto
      then show ?thesis
        unfolding sdssplitLoop.simps [of s sep elements slots start j] split_tokens.simps [of s sep start j] slots'_def [symmetric] Let_def
        by (simp only: "1.prems"(1) True no g if_True if_False)
    qed
  qed
qed

lemma split_tokens_spec:
  "sep \<noteq> [] \<Longrightarrow> length s < 2 ^ 63 \<Longrightarrow> start \<le> j \<Longrightarrow> j \<le> length s \<Longrightarrow>
   (\<And>p. start \<le> p \<Longrightarrow> p < j \<Longrightarrow> take (length sep) (drop p s) \<noteq> sep) \<Longrightarrow>
   (let ts = split_tokens s sep start j
    in ts \<noteq> [] \<and> join_with sep (map sds_val ts) = drop start s \<and> (\<forall>t\<in>set ts. sds_wf t \<and> \<not> sublist sep (sds_val t)))"
proof (induction s sep start j rule: split_tokens.induct)
  case (1 s sep start j)
  have c: "int j < int (length s) - (int (length sep) - 1) \<longleftrightarrow> j + length sep \<le> length s" by linarith
  show ?case
  proof (cases "j + length sep \<le> length s")
    case False
    have "\<not> sublist sep (take (length s - start) (drop start s))"
      using "1.prems"(3,4,5) False by (intro no_separator) auto
    moreover have "split_tokens s sep start j = [sdsnewlen (Some (drop start s)) (length s - start)]"
      using False "1.prems"(1) by (subst split_tokens.simps) (simp add: c)
    ultimately show ?thesis using sdsnewlen_val [of "length s - start" "drop start s"] "1.prems"(2) by simp
  next
    case True
    note t = split_test [OF "1.prems"(1) True]
    show ?thesis
    proof (cases "take (length sep) (drop j s) = sep")
      case no: False
      then have "split_tokens s sep start j = split_tokens s sep start (j + 1)"
        using True "1.prems"(1) t by (subst split_tokens.simps) (auto simp: c)
      moreover have "let ts = split_tokens s sep start (j + 1)
          in ts \<noteq> [] \<and> join_with sep (map sds_val ts) = drop start s \<and> (\<forall>t\<in>set ts. sds_wf t \<and> \<not> sublist sep (sds_val t))"
      proof (rule "1.IH"(2))
        show "int j < int (length s) - (int (length sep) - 1)" using True by (simp add: c)
        show "\<not> (length sep = 1 \<and> s ! j = sep ! 0 \<or> memcmp (drop j s) sep (length sep) = 0)"
          using no unfolding t .
        show "j + 1 \<le> length s" using True "1.prems"(1) by (cases sep) auto
        show "take (length sep) (drop p s) \<noteq> sep" if "start \<le> p" "p < j + 1" for p
          using that no "1.prems"(5) by (cases "p = j") auto
      qed (use "1.prems" in auto)
      ultimately show ?thesis by simp
    next
      case yes: True
      define x where "x = sdsnewlen (Some (drop start s)) (j - start)"
      have r: "split_tokens s sep start j = x # split_tokens s sep (j + length sep) (j + length sep)"
        using True yes "1.prems"(1) t by (subst split_tokens.simps) (simp add: c x_def)
      have "\<not> sublist sep (take (j - start) (drop start s))"
      proof (rule no_separator)
        show "take (length sep) (drop p s) \<noteq> sep" if "start \<le> p" "p + length sep \<le> start + (j - start)" for p
          using that "1.prems"(1,3) by (intro "1.prems"(5)) (cases sep; simp)+
      qed (use "1.prems"(3,4) in simp)
      moreover have "sds_wf x \<and> sds_val x = take (j - start) (drop start s)"
        unfolding x_def using "1.prems"(2,4) by (intro sdsnewlen_val) auto
      moreover have "let ts = split_tokens s sep (j + length sep) (j + length sep - 1 + 1)
          in ts \<noteq> [] \<and> join_with sep (map sds_val ts) = drop (j + length sep) s \<and>
             (\<forall>t\<in>set ts. sds_wf t \<and> \<not> sublist sep (sds_val t))"
      proof (rule "1.IH"(1))
        show "length sep = 1 \<and> s ! j = sep ! 0 \<or> memcmp (drop j s) sep (length sep) = 0"
          using yes unfolding t .
        show "j + length sep \<le> j + length sep - 1 + 1" by simp
        show "j + length sep - 1 + 1 \<le> length s" using True "1.prems"(1) by (cases sep) auto
        show "take (length sep) (drop p s) \<noteq> sep" if "j + length sep \<le> p" "p < j + length sep - 1 + 1" for p
          using that "1.prems"(1) by (cases sep) auto
      qed (use "1.prems" True c in auto)
      moreover have "take (j - start) (drop start s) @ sep @ drop (j + length sep) s = drop start s"
        using yes "1.prems"(3,4) append_take_drop_id [of "length sep" "drop j s"]
          append_take_drop_id [of "j - start" "drop start s"] by (simp add: add.commute)
      ultimately show ?thesis using "1.prems"(1) unfolding r Let_def by (simp add: join_with_Cons)
    qed
  qed
qed

lemma sdsempty_spec [simp]: "sds_wf sdsempty \<and> sds_val sdsempty = []"
  using sdsnewlen_spec [of 0 "Some []"] by (simp add: sdsempty_def)

lemma sdsjoinsdsLoop_spec:
  "sds_wf join \<Longrightarrow> list_all sds_wf argv \<Longrightarrow> sdslen join + length (join_with sep (map sds_val argv)) < 2 ^ 63 \<Longrightarrow>
   sds_wf (sdsjoinsdsLoop join argv sep) \<and>
   sds_val (sdsjoinsdsLoop join argv sep) = sds_val join @ join_with sep (map sds_val argv)"
proof (induction join argv sep rule: sdsjoinsdsLoop.induct)
  case (2 join a argv sep)
  define j1 where "j1 = sdscatsds join a"
  define j2 where "j2 = (if argv \<noteq> [] then sdscatlen j1 sep else j1)"
  have jw: "join_with sep (map sds_val (a # argv)) = sds_val a @ (if argv \<noteq> [] then sep else []) @ join_with sep (map sds_val argv)"
    by (cases argv) auto
  have "sdslen join + length (sds_val a) < 2 ^ 63" using "2.prems"(3) unfolding jw by simp
  then have j1: "sds_wf j1" "sds_val j1 = sds_val join @ sds_val a"
    using sdscatlen_spec [OF "2.prems"(1), of "sds_val a"] by (simp_all add: j1_def sdscatsds_def sds_val_def)
  have l1: "sdslen j1 = sdslen join + length (sds_val a)"
    using arg_cong [OF j1(2), of length] j1(1) "2.prems"(1) by simp
  have j2: "sds_wf j2" "sds_val j2 = sds_val join @ sds_val a @ (if argv \<noteq> [] then sep else [])"
    using sdscatlen_spec [OF j1(1), of sep] j1 l1 "2.prems"(3) unfolding jw by (auto simp: j2_def)
  have l2: "sdslen j2 = sdslen join + length (sds_val a) + length (if argv \<noteq> [] then sep else [])"
    using arg_cong [OF j2(2), of length] j2(1) "2.prems"(1) by simp
  have "sds_wf (sdsjoinsdsLoop j2 argv sep) \<and>
      sds_val (sdsjoinsdsLoop j2 argv sep) = sds_val j2 @ join_with sep (map sds_val argv)"
    using "2.IH" [OF j1_def] j2(1) l2 "2.prems"(2,3) unfolding jw j2_def [symmetric] by simp
  moreover have "sdsjoinsdsLoop join (a # argv) sep = sdsjoinsdsLoop j2 argv sep"
    by (simp add: j2_def j1_def Let_def)
  ultimately show ?case using j2(2) unfolding jw by simp
qed simp

section \<open>Quoted representation and argument splitting\<close>

definition isprint :: "byte \<Rightarrow> bool" where
  "isprint c \<longleftrightarrow> 32 \<le> c \<and> c \<le> 126"

definition isspace :: "byte \<Rightarrow> bool" where
  "isspace c \<longleftrightarrow> c = 32 \<or> 9 \<le> c \<and> c \<le> 13"

text \<open>One lower case digit of the format \<open>%02x\<close>.\<close>

definition hex_char :: "byte \<Rightarrow> byte" where
  "hex_char d = (if d < 10 then 48 + d else 87 + d)"

definition reprChar :: "sds \<Rightarrow> byte \<Rightarrow> sds" where
  "reprChar s c =
     (if c = 92 \<or> c = 34 then sdscat s [92, c]
      else if c = 10 then sdscatlen s [92, 110]
      else if c = 13 then sdscatlen s [92, 114]
      else if c = 9 then sdscatlen s [92, 116]
      else if c = 7 then sdscatlen s [92, 97]
      else if c = 8 then sdscatlen s [92, 98]
      else if isprint c then sdscat s [c]
      else sdscat s [92, 120, hex_char (c div 16), hex_char (c mod 16)])"

definition sdscatrepr :: "sds \<Rightarrow> byte list \<Rightarrow> sds" where
  "sdscatrepr s p = sdscatlen (foldl reprChar (sdscatlen s [34]) p) [34]"

definition is_hex_digit :: "byte \<Rightarrow> bool" where
  "is_hex_digit c \<longleftrightarrow> 48 \<le> c \<and> c \<le> 57 \<or> 97 \<le> c \<and> c \<le> 102 \<or> 65 \<le> c \<and> c \<le> 70"

definition hex_digit_to_int :: "byte \<Rightarrow> byte" where
  "hex_digit_to_int c =
     (if 48 \<le> c \<and> c \<le> 57 then c - 48
      else if 97 \<le> c \<and> c \<le> 102 then c - 87
      else if 65 \<le> c \<and> c \<le> 70 then c - 55
      else 0)"

text \<open>The byte at offset \<open>k\<close> of the rest of a zero-terminated line, and \<open>if (*p) p++\<close>.\<close>

definition peek :: "byte list \<Rightarrow> nat \<Rightarrow> byte" where
  "peek p k = (if k < length p then p ! k else 0)"

definition advance :: "byte list \<Rightarrow> byte list" where
  "advance p = (if peek p 0 \<noteq> 0 then drop 1 p else p)"

definition unescape :: "byte \<Rightarrow> byte" where
  "unescape c =
     (if c = 110 then 10 else if c = 114 then 13 else if c = 116 then 9
      else if c = 98 then 8 else if c = 97 then 7 else c)"

datatype quote_mode = NoQ | InQ | InSQ

lemma advance_le: "length (advance p) \<le> length p"
  by (simp add: advance_def)

lemma advance_less: "peek p 0 \<noteq> 0 \<Longrightarrow> length (advance p) < length p"
  by (cases p) (simp_all add: advance_def peek_def)

lemma advance_drop_less: "peek p 0 \<noteq> 0 \<Longrightarrow> 0 < n \<Longrightarrow> length (advance (drop n p)) < length p"
  using advance_le [of "drop n p"] by (cases p) (simp_all add: peek_def)

text \<open>The inner loop: \<open>None\<close> is the jump to \<open>err\<close>.\<close>

function splitargsToken :: "quote_mode \<Rightarrow> sds \<Rightarrow> byte list \<Rightarrow> (sds \<times> byte list) option" where
  "splitargsToken InQ current p =
     (if peek p 0 = 92 \<and> peek p 1 = 120 \<and> is_hex_digit (peek p 2) \<and> is_hex_digit (peek p 3)
      then splitargsToken InQ
             (sdscatlen current [hex_digit_to_int (peek p 2) * 16 + hex_digit_to_int (peek p 3)]) (advance (drop 3 p))
      else if peek p 0 = 92 \<and> peek p 1 \<noteq> 0
      then splitargsToken InQ (sdscatlen current [unescape (peek p 1)]) (advance (drop 1 p))
      else if peek p 0 = 34
      then (if peek p 1 \<noteq> 0 \<and> \<not> isspace (peek p 1) then None else Some (current, advance p))
      else if peek p 0 = 0 then None
      else splitargsToken InQ (sdscatlen current [peek p 0]) (advance p))"
| "splitargsToken InSQ current p =
     (if peek p 0 = 92 \<and> peek p 1 = 39
      then splitargsToken InSQ (sdscatlen current [39]) (advance (drop 1 p))
      else if peek p 0 = 39
      then (if peek p 1 \<noteq> 0 \<and> \<not> isspace (peek p 1) then None else Some (current, advance p))
      else if peek p 0 = 0 then None
      else splitargsToken InSQ (sdscatlen current [peek p 0]) (advance p))"
| "splitargsToken NoQ current p =
     (if peek p 0 \<in> {32, 10, 13, 9, 0} then Some (current, advance p)
      else if peek p 0 = 34 then splitargsToken InQ current (advance p)
      else if peek p 0 = 39 then splitargsToken InSQ current (advance p)
      else splitargsToken NoQ (sdscatlen current [peek p 0]) (advance p))"
  by pat_completeness auto

termination
  by (relation "measure (\<lambda>(m, current, p). length p)") (auto intro: advance_less advance_drop_less)

declare splitargsToken.simps [simp del]

lemma splitargsToken_length:
  "splitargsToken m c p = Some (c', p') \<Longrightarrow> length p' \<le> length p \<and> (peek p 0 \<noteq> 0 \<longrightarrow> length p' < length p)"
proof (induction m c p arbitrary: c' p' rule: splitargsToken.induct)
  case (1 c p)
  show ?case
    using "1.prems" "1.IH"(1) [of c' p'] "1.IH"(2) [of c' p'] "1.IH"(3) [of c' p']
      advance_drop_less [of p 3] advance_drop_less [of p 1] advance_less [of p] advance_le [of p]
    by (subst (asm) splitargsToken.simps) (force split: if_splits)
next
  case (2 c p)
  show ?case
    using "2.prems" "2.IH"(1) [of c' p'] "2.IH"(2) [of c' p']
      advance_drop_less [of p 1] advance_less [of p] advance_le [of p]
    by (subst (asm) splitargsToken.simps) (force split: if_splits)
next
  case (3 c p)
  show ?case
    using "3.prems" "3.IH"(1) [of c' p'] "3.IH"(2) [of c' p'] "3.IH"(3) [of c' p'] advance_less [of p] advance_le [of p]
    by (subst (asm) splitargsToken.simps) (force split: if_splits)
qed

function splitargsLoop :: "sds list \<Rightarrow> byte list \<Rightarrow> sds list option" where
  "splitargsLoop vector p =
     (let p = dropWhile (\<lambda>c. c \<noteq> 0 \<and> isspace c) p
      in if peek p 0 \<noteq> 0 then
           (case splitargsToken NoQ sdsempty p of
              None \<Rightarrow> None
            | Some (current, p) \<Rightarrow> splitargsLoop (vector @ [current]) p)
         else Some vector)"
  by pat_completeness auto
termination
proof (relation "measure (\<lambda>(vector, p). length p)")
  fix vector p q x current p'
  assume q: "q = dropWhile (\<lambda>c. c \<noteq> 0 \<and> isspace c) p" and "peek q 0 \<noteq> 0"
    and "splitargsToken NoQ sdsempty q = Some x" "(current, p') = x"
  then have "length p' < length q" using splitargsToken_length by metis
  moreover have "length q \<le> length p" unfolding q by (rule length_dropWhile_le)
  ultimately show "((vector @ [current], p'), vector, p) \<in> measure (\<lambda>(vector, p). length p)" by simp
qed simp

declare splitargsLoop.simps [simp del]

definition sdssplitargs :: "byte list \<Rightarrow> sds list option" where
  "sdssplitargs line = splitargsLoop [] (take (strlen line) line)"

definition repr_char :: "byte \<Rightarrow> byte list" where
  "repr_char c =
     (if c = 92 \<or> c = 34 then [92, c]
      else if c = 10 then [92, 110] else if c = 13 then [92, 114] else if c = 9 then [92, 116]
      else if c = 7 then [92, 97] else if c = 8 then [92, 98]
      else if isprint c then [c]
      else [92, 120, hex_char (c div 16), hex_char (c mod 16)])"

definition repr :: "byte list \<Rightarrow> byte list" where
  "repr p = [34] @ concat (map repr_char p) @ [34]"

lemma hex_char_digit:
  assumes "d < 16"
  shows "is_hex_digit (hex_char d) \<and> hex_digit_to_int (hex_char d) = d \<and> hex_char d \<noteq> 0"
proof -
  have "word_of_nat (unat d) \<in> (word_of_nat ` {..<16} :: byte set)"
    using assms by (intro imageI) (simp add: word_less_nat_alt)
  then have "d \<in> set (map of_nat [0..<16])" by (simp add: atLeast0LessThan)
  moreover have "list_all (\<lambda>d. is_hex_digit (hex_char d) \<and> hex_digit_to_int (hex_char d) = d \<and> hex_char d \<noteq> 0)
      (map of_nat [0..<16])" by code_simp
  ultimately show ?thesis unfolding list_all_iff by blast
qed

lemma byte_split: "(c :: byte) div 16 < 16" "c mod 16 < 16" "c div 16 * 16 + c mod 16 = c"
proof -
  have "unat c < 256" using unsigned_less [of c, where ?'a = nat] by simp
  then show "c div 16 < 16" by (simp add: word_less_nat_alt unat_div)
  show "c mod 16 < 16" by (simp add: word_less_nat_alt unat_mod)
  show "c div 16 * 16 + c mod 16 = c" by (rule div_mult_mod_eq)
qed

lemma repr_char_nonzero: "0 \<notin> set (repr_char c)"
  using hex_char_digit [of "c div 16"] hex_char_digit [of "c mod 16"] byte_split [of c]
  by (auto simp: repr_char_def isprint_def)

lemma repr_char_length: "length (repr_char c) \<le> 4"
  by (simp add: repr_char_def)

lemma reprChar_repr: "reprChar s c = sdscatlen s (repr_char c)"
proof -
  have "takeWhile (\<lambda>c. c \<noteq> 0) (repr_char c) = repr_char c"
    using repr_char_nonzero [of c] by (simp add: takeWhile_eq_all_conv) metis
  then have "sdscat s (repr_char c) = sdscatlen s (repr_char c)" unfolding sdscat_def take_strlen by (rule arg_cong)
  then show ?thesis by (auto simp: reprChar_def repr_char_def split: if_splits)
qed

lemma foldl_reprChar:
  "sds_wf s \<Longrightarrow> sdslen s + length (concat (map repr_char p)) < 2 ^ 63 \<Longrightarrow>
   sds_wf (foldl reprChar s p) \<and> sds_val (foldl reprChar s p) = sds_val s @ concat (map repr_char p)"
proof (induction p arbitrary: s)
  case (Cons c p)
  have c: "sds_wf (reprChar s c)" "sds_val (reprChar s c) = sds_val s @ repr_char c"
    using sdscatlen_spec [of s "repr_char c"] Cons.prems by (simp_all add: reprChar_repr)
  then have "sdslen (reprChar s c) = sdslen s + length (repr_char c)"
    using Cons.prems(1) length_sds_val [OF c(1)] by simp
  then show ?case using Cons.IH [OF c(1)] Cons.prems(2) c(2) by simp
qed simp

lemma sdscatrepr_spec:
  assumes "sds_wf s" "sdslen s + length (repr p) < 2 ^ 63"
  shows "sds_wf (sdscatrepr s p) \<and> sds_val (sdscatrepr s p) = sds_val s @ repr p"
proof -
  define a where "a = sdscatlen s [34]"
  define b where "b = foldl reprChar a p"
  have a: "sds_wf a" "sds_val a = sds_val s @ [34]"
    using sdscatlen_spec [OF assms(1), of "[34]"] assms(2) by (simp_all add: a_def repr_def)
  have la: "sdslen a = sdslen s + 1" using a assms(1) length_sds_val [OF a(1)] by simp
  have b: "sds_wf b" "sds_val b = sds_val a @ concat (map repr_char p)"
    using foldl_reprChar [OF a(1), of p] assms(2) la by (simp_all add: b_def repr_def)
  have "sdslen b = sdslen a + length (concat (map repr_char p))" using b a(1) length_sds_val [OF b(1)] by simp
  then show ?thesis
    using sdscatlen_spec [OF b(1), of "[34]"] assms(2) la a(2) b(2)
    by (simp add: sdscatrepr_def a_def [symmetric] b_def [symmetric] repr_def)
qed

text \<open>The parser undoes the escapes of one character.\<close>

lemma peek_Cons [simp]: "peek (c # p) 0 = c" "peek (c # p) (Suc k) = peek p k" "peek [] k = 0"
  by (simp_all add: peek_def)

lemma peek_numeral [simp]:
  "peek (c # p) 1 = peek p 0" "peek (c # p) 2 = peek p 1" "peek (c # p) 3 = peek p 2"
  by (simp_all add: peek_def)

lemma advance_Cons [simp]: "c \<noteq> 0 \<Longrightarrow> advance (c # p) = p"
  by (simp add: advance_def)

lemma token_repr_char:
  "splitargsToken InQ cur (repr_char c @ rest) = splitargsToken InQ (sdscatlen cur [c]) rest"
proof -
  have h: "is_hex_digit (hex_char (c div 16))" "is_hex_digit (hex_char (c mod 16))"
    "hex_digit_to_int (hex_char (c div 16)) * 16 + hex_digit_to_int (hex_char (c mod 16)) = c" "hex_char (c mod 16) \<noteq> 0"
    using hex_char_digit [of "c div 16"] hex_char_digit [of "c mod 16"] byte_split [of c] by auto
  consider "c \<in> {92, 34, 10, 13, 9, 7, 8}" | "c \<notin> {92, 34, 10, 13, 9, 7, 8}" "isprint c"
    | "c \<notin> {92, 34, 10, 13, 9, 7, 8}" "\<not> isprint c" by blast
  then show ?thesis
  proof cases
    case 1
    then show ?thesis
      by (subst splitargsToken.simps) (auto simp: repr_char_def unescape_def is_hex_digit_def)
  next
    case 2
    then have "c \<noteq> 0" by (auto simp: isprint_def)
    then show ?thesis using 2 by (subst splitargsToken.simps) (auto simp: repr_char_def)
  next
    case 3
    then show ?thesis using h by (subst splitargsToken.simps) (auto simp: repr_char_def)
  qed
qed

lemma token_repr:
  "sds_wf cur \<Longrightarrow> sdslen cur + length q < 2 ^ 63 \<Longrightarrow>
   \<exists>cur'. splitargsToken InQ cur (concat (map repr_char q) @ [34]) = Some (cur', []) \<and> sds_wf cur' \<and>
     sds_val cur' = sds_val cur @ q"
proof (induction q arbitrary: cur)
  case Nil
  then show ?case by (subst splitargsToken.simps) simp
next
  case (Cons c q)
  have c: "sds_wf (sdscatlen cur [c])" "sds_val (sdscatlen cur [c]) = sds_val cur @ [c]"
    using sdscatlen_spec [of cur "[c]"] Cons.prems by simp_all
  have "sdslen (sdscatlen cur [c]) = sdslen cur + 1"
    using c Cons.prems(1) length_sds_val [OF c(1)] by simp
  then show ?case using Cons.IH [OF c(1)] Cons.prems(2) c(2) by (simp add: token_repr_char)
qed

lemma splitargs_repr:
  assumes "length q < 2 ^ 63"
  shows "\<exists>t. splitargsLoop [] (repr q) = Some [t] \<and> sds_wf t \<and> sds_val t = q"
proof -
  obtain t where t: "splitargsToken InQ sdsempty (concat (map repr_char q) @ [34]) = Some (t, [])"
      "sds_wf t" "sds_val t = q"
    using token_repr [of sdsempty q] assms sdsempty_spec length_sds_val [of sdsempty] by auto
  have d: "dropWhile (\<lambda>c. c \<noteq> 0 \<and> isspace c) (repr q) = repr q" by (simp add: repr_def isspace_def)
  have "splitargsToken NoQ sdsempty (repr q) = Some (t, [])"
    using t(1) by (subst splitargsToken.simps) (simp add: repr_def)
  moreover have "peek (repr q) 0 \<noteq> 0" by (simp add: repr_def)
  moreover have "splitargsLoop [t] [] = Some [t]" by (subst splitargsLoop.simps) simp
  ultimately have "splitargsLoop [] (repr q) = Some [t]"
    by (subst splitargsLoop.simps) (simp add: d)
  then show ?thesis using t by auto
qed

lemma strlen_sds:
  assumes "sds_wf s" "0 \<notin> set (sds_val s)"
  shows "take (strlen (sds_buf s)) (sds_buf s) = sds_val s"
proof -
  have l: "sdslen s < length (sds_buf s)" using assms(1) by (simp add: sds_wf_def)
  have "sds_buf s = sds_val s @ sds_buf s ! sdslen s # drop (Suc (sdslen s)) (sds_buf s)"
    unfolding sds_val_def by (rule id_take_nth_drop [OF l])
  also have "sds_buf s ! sdslen s = 0" using assms(1) by (simp add: sds_wf_def)
  finally have b: "sds_buf s = sds_val s @ 0 # drop (Suc (sdslen s)) (sds_buf s)" .
  show ?thesis unfolding take_strlen by (subst b) (rule takeWhile_zero [OF assms(2)])
qed

lemma repr_nonzero: "0 \<notin> set (repr q)"
  using repr_char_nonzero by (auto simp: repr_def)

section \<open>Properties\<close>

text \<open>
  C21: splitting a string of less than $2^{30}$ bytes by a separator and joining again with it gives the input back, and no
  token contains the separator; the array of tokens is never overrun and its counters never overflow.  The empty
  string is split into no tokens, though the comment above \<open>sdssplitlen\<close> promises a null pointer.
\<close>

theorem sdssplitlen_join:
  assumes "sep \<noteq> []" "length sep < 2 ^ 31" "length s < 2 ^ 30"
  shows "\<exists>ts. sdssplitlen s sep = Some (Some ts) \<and> sds_val (sdsjoinsds ts sep) = s \<and> (ts = [] \<longleftrightarrow> s = []) \<and>
    (\<forall>t\<in>set ts. sds_wf t \<and> \<not> sublist sep (sds_val t))"
proof (cases "s = []")
  case True
  then show ?thesis using assms(1,2) by (cases sep) (simp_all add: sdssplitlen_def sdsjoinsds_def)
next
  case False
  have "let ts = split_tokens s sep 0 0
      in ts \<noteq> [] \<and> join_with sep (map sds_val ts) = drop 0 s \<and> (\<forall>t\<in>set ts. sds_wf t \<and> \<not> sublist sep (sds_val t))"
    using assms by (intro split_tokens_spec) auto
  moreover have "sdslen sdsempty = 0" using sdsempty_spec length_sds_val [of sdsempty] by simp
  moreover have "sdssplitLoop s sep 0 5 0 0 = Some (split_tokens s sep 0 0)" using assms by (intro sdssplitLoop_tokens) simp_all
  ultimately show ?thesis
    using sdsjoinsdsLoop_spec [of sdsempty "split_tokens s sep 0 0" sep] assms False
    by (auto simp: sdssplitlen_def sdsjoinsds_def Let_def list_all_iff Suc_le_eq)
qed

theorem sdssplitlen_join_witness:
  "\<exists>ts. sdssplitlen [97, 58, 58, 98] [58] = Some (Some ts) \<and> sds_val (sdsjoinsds ts [58]) = [97, 58, 58, 98] \<and>
    (\<forall>t\<in>set ts. sds_wf t \<and> \<not> sublist [58] (sds_val t))"
  using sdssplitlen_join [of "[58]" "[97, 58, 58, 98]"] by auto

text \<open>
  C20: the quoted representation of any binary string is read back by \<open>sdssplitargs\<close> as one argument
  equal to that string.
\<close>

theorem sdssplitargs_sdscatrepr:
  assumes "4 * length q + 2 < 2 ^ 63"
  shows "\<exists>t. sdssplitargs (sds_buf (sdscatrepr sdsempty q)) = Some [t] \<and> sds_wf t \<and> sds_val t = q"
proof -
  have "length (concat (map repr_char q)) \<le> 4 * length q"
    by (induction q) (use repr_char_length in \<open>auto simp: add_le_mono\<close>)
  then have "length (repr q) < 2 ^ 63" using assms by (simp add: repr_def)
  moreover have "sdslen sdsempty = 0" using sdsempty_spec length_sds_val [of sdsempty] by simp
  ultimately have r: "sds_wf (sdscatrepr sdsempty q)" "sds_val (sdscatrepr sdsempty q) = repr q"
    using sdscatrepr_spec [of sdsempty q] by simp_all
  then show ?thesis
    using strlen_sds [OF r(1)] repr_nonzero [of q] splitargs_repr [of q] assms by (simp add: sdssplitargs_def)
qed

theorem sdssplitargs_sdscatrepr_witness:
  "\<exists>t. sdssplitargs (sds_buf (sdscatrepr sdsempty [34, 0, 255, 92, 10])) = Some [t] \<and> sds_wf t \<and>
     sds_val t = [34, 0, 255, 92, 10]"
  by (rule sdssplitargs_sdscatrepr) simp

end
