(* ===== verification/Tset.thy ===== *)
theory Tset
  imports DictIter Intset Sds
begin

text \<open>
  The set objects of \<open>src/redis-6.0.5/src/t_set.c\<close>: a set of strings kept as a sorted array
  of integers while all its elements are small integers and there are few of them, and as a
  hash table afterwards.

  Elements are the bytes of the strings.  The hash function is a parameter, the field
  \<open>dictSdsHash\<close> of the configuration.  An operation returns the object it leaves behind;
  \<open>None\<close> is a failed assertion.  The set object is a provider of the finite-set interface of
  the theory Interfaces, on top of the integer set and the hash table.
\<close>

section \<open>The program\<close>

record set_config =
  set_max_intset_entries :: nat
  dict_can_resize :: bool
  dictSdsHash :: "byte list \<Rightarrow> u64"

definition dictSdsKeyCompare :: "byte list \<Rightarrow> byte list \<Rightarrow> bool" where
  "dictSdsKeyCompare key1 key2 =
     (let l1 = length key1; l2 = length key2
      in if l1 \<noteq> l2 then False else memcmp key1 key2 l1 = 0)"

definition setDictType :: "'a set_config_scheme \<Rightarrow> byte list dictType" where
  "setDictType cfg = \<lparr>hashFunction = dictSdsHash cfg, keyCompare = dictSdsKeyCompare\<rparr>"

datatype set_obj = SetIntset intset | SetHT "(byte list, unit) dict"

definition isSdsRepresentableAsLongLong :: "byte list \<Rightarrow> int option" where
  "isSdsRepresentableAsLongLong s = string2ll s"

definition HASHTABLE_MIN_FILL :: nat where "HASHTABLE_MIN_FILL = 10"

definition htNeedsResize :: "('k, 'v) dict \<Rightarrow> bool" where
  "htNeedsResize d \<longleftrightarrow>
     (let size = ht_size (d_ht0 d) + ht_size (d_ht1 d); used = dictSize d
      in size > DICT_HT_INITIAL_SIZE \<and> used * 100 div size < HASHTABLE_MIN_FILL)"

definition createSetObject :: "'a set_config_scheme \<Rightarrow> set_obj" where
  "createSetObject cfg = SetHT (dictCreate (setDictType cfg))"

definition createIntsetObject :: set_obj where
  "createIntsetObject = SetIntset intsetNew"

definition setTypeCreate :: "'a set_config_scheme \<Rightarrow> byte list \<Rightarrow> set_obj" where
  "setTypeCreate cfg value =
     (case isSdsRepresentableAsLongLong value of Some _ \<Rightarrow> createIntsetObject | None \<Rightarrow> createSetObject cfg)"

definition setTypeSize :: "set_obj \<Rightarrow> nat" where
  "setTypeSize subject = (case subject of SetHT d \<Rightarrow> dictSize d | SetIntset is \<Rightarrow> intsetLen is)"

text \<open>\<open>None\<close> is a failed assertion: an element could not be added to the new table.\<close>

function setConvertLoop ::
  "'a set_config_scheme \<Rightarrow> intset \<Rightarrow> nat \<Rightarrow> (byte list, unit) dict \<Rightarrow> (byte list, unit) dict option" where
  "setConvertLoop cfg is ii d =
     (case intsetGet is ii of
        None \<Rightarrow> Some d
      | Some intele \<Rightarrow>
          (case dictAdd (dict_can_resize cfg) () d (sds_val (sdsfromlonglong intele)) () of
             Some (DICT_OK, d) \<Rightarrow> setConvertLoop cfg is (ii + 1) d
           | _ \<Rightarrow> None))"
  by pat_completeness auto
termination
  by (relation "measure (\<lambda>(cfg, is, ii, d). is_length is - ii)") (auto simp: intsetGet_def split: if_splits)

declare setConvertLoop.simps [simp del]

definition setTypeConvert :: "'a set_config_scheme \<Rightarrow> set_obj \<Rightarrow> set_obj option" where
  "setTypeConvert cfg setobj =
     (case setobj of
        SetIntset is \<Rightarrow>
          (let d = dictCreate (setDictType cfg);
               d = snd (dictExpand d (intsetLen is))
           in map_option SetHT (setConvertLoop cfg is 0 d))
      | SetHT _ \<Rightarrow> None)"

definition setTypeAdd :: "'a set_config_scheme \<Rightarrow> set_obj \<Rightarrow> byte list \<Rightarrow> (set_obj \<times> bool) option" where
  "setTypeAdd cfg subject value =
     (case subject of
        SetHT ht \<Rightarrow>
          (case dictAddRaw (dict_can_resize cfg) () ht value of
             None \<Rightarrow> None
           | Some (Some de, _, ht) \<Rightarrow> Some (SetHT (dictSetVal ht de ()), True)
           | Some (None, _, ht) \<Rightarrow> Some (SetHT ht, False))
      | SetIntset is \<Rightarrow>
          (case isSdsRepresentableAsLongLong value of
             Some llval \<Rightarrow>
               (case intsetAdd is llval of
                  (is, True) \<Rightarrow>
                    (if intsetLen is > set_max_intset_entries cfg
                     then map_option (\<lambda>o'. (o', True)) (setTypeConvert cfg (SetIntset is))
                     else Some (SetIntset is, True))
                | (is, False) \<Rightarrow> Some (SetIntset is, False))
           | None \<Rightarrow>
               (case setTypeConvert cfg (SetIntset is) of
                  Some (SetHT d) \<Rightarrow>
                    (case dictAdd (dict_can_resize cfg) () d value () of
                       Some (DICT_OK, d) \<Rightarrow> Some (SetHT d, True)
                     | _ \<Rightarrow> None)
                | _ \<Rightarrow> None)))"

definition setTypeRemove :: "'a set_config_scheme \<Rightarrow> set_obj \<Rightarrow> byte list \<Rightarrow> (set_obj \<times> bool) option" where
  "setTypeRemove cfg setobj value =
     (case setobj of
        SetHT d \<Rightarrow>
          (case dictDelete d value of
             None \<Rightarrow> None
           | Some (DICT_OK, d) \<Rightarrow>
               Some (SetHT (if htNeedsResize d then snd (dictResize (dict_can_resize cfg) d) else d), True)
           | Some (DICT_ERR, d) \<Rightarrow> Some (SetHT d, False))
      | SetIntset is \<Rightarrow>
          (case isSdsRepresentableAsLongLong value of
             Some llval \<Rightarrow> (case intsetRemove is llval of (is, success) \<Rightarrow> Some (SetIntset is, success))
           | None \<Rightarrow> Some (SetIntset is, False)))"

definition setTypeIsMember :: "set_obj \<Rightarrow> byte list \<Rightarrow> (set_obj \<times> bool) option" where
  "setTypeIsMember subject value =
     (case subject of
        SetHT d \<Rightarrow> (case dictFind d value of None \<Rightarrow> None | Some (de, d) \<Rightarrow> Some (SetHT d, de \<noteq> None))
      | SetIntset is \<Rightarrow>
          (case isSdsRepresentableAsLongLong value of
             Some llval \<Rightarrow> Some (SetIntset is, intsetFind is llval)
           | None \<Rightarrow> Some (SetIntset is, False)))"

section \<open>Iteration\<close>

datatype setTypeIterator = IterHT "(byte list, unit) dictIterator" | IterIntset nat
datatype set_element = EleSds "byte list" | EleInt int

definition setTypeInitIterator :: "set_obj \<Rightarrow> setTypeIterator" where
  "setTypeInitIterator subject = (case subject of SetHT _ \<Rightarrow> IterHT dictGetIterator | SetIntset _ \<Rightarrow> IterIntset 0)"

text \<open>
  \<open>p0\<close> and \<open>p1\<close> are the addresses of the two tables, which the iterator's fingerprint reads.
  The outer \<open>None\<close> is a failed assertion, the inner one the end of the set.
\<close>

definition setTypeNext ::
  "u64 \<Rightarrow> u64 \<Rightarrow> set_obj \<Rightarrow> setTypeIterator \<Rightarrow> (set_element option \<times> set_obj \<times> setTypeIterator) option" where
  "setTypeNext p0 p1 subject si =
     (case (subject, si) of
        (SetHT d, IterHT it) \<Rightarrow>
          (case dictNext p0 p1 d it of (de, d, it) \<Rightarrow> Some (map_option (EleSds \<circ> fst) de, SetHT d, IterHT it))
      | (SetIntset is, IterIntset ii) \<Rightarrow> Some (map_option EleInt (intsetGet is ii), SetIntset is, IterIntset (ii + 1))
      | _ \<Rightarrow> None)"

definition setTypeReleaseIterator :: "u64 \<Rightarrow> u64 \<Rightarrow> set_obj \<Rightarrow> setTypeIterator \<Rightarrow> set_obj option" where
  "setTypeReleaseIterator p0 p1 subject si =
     (case (subject, si) of
        (SetHT d, IterHT it) \<Rightarrow> map_option SetHT (dictReleaseIterator p0 p1 d it)
      | (_, IterIntset _) \<Rightarrow> Some subject
      | _ \<Rightarrow> None)"

definition setTypeNextObject ::
  "u64 \<Rightarrow> u64 \<Rightarrow> set_obj \<Rightarrow> setTypeIterator \<Rightarrow> (byte list option \<times> set_obj \<times> setTypeIterator) option" where
  "setTypeNextObject p0 p1 subject si =
     (case setTypeNext p0 p1 subject si of
        None \<Rightarrow> None
      | Some (None, r) \<Rightarrow> Some (None, r)
      | Some (Some (EleInt intele), r) \<Rightarrow> Some (Some (sds_val (sdsfromlonglong intele)), r)
      | Some (Some (EleSds sdsele), r) \<Rightarrow> Some (Some sdsele, r))"

section \<open>The elements of a set object\<close>

definition set_elems :: "set_obj \<Rightarrow> byte list set" where
  "set_elems s = (case s of SetIntset is \<Rightarrow> dec_bytes ` set (intset_elems is) | SetHT d \<Rightarrow> dom (dict_map d))"

definition set_wf :: "'a set_config_scheme \<Rightarrow> set_obj \<Rightarrow> bool" where
  "set_wf cfg s \<longleftrightarrow>
     (case s of SetIntset is \<Rightarrow> intset_wf is | SetHT d \<Rightarrow> dict_wf d \<and> d_type d = setDictType cfg)"

lemma dictSdsKeyCompare_eq: "dictSdsKeyCompare a b \<longleftrightarrow> a = b"
  using memcmp_zero [of "length a" a b] by (auto simp: dictSdsKeyCompare_def Let_def)

lemma setDictType_ok [simp]: "dictType_ok (setDictType cfg)"
  by (simp add: dictType_ok_def setDictType_def dictSdsKeyCompare_eq)

lemma inj_dec_bytes: "inj_on dec_bytes {v. in_i64 v}"
  by (rule inj_onI) (simp add: dec_bytes_inject)

lemma intset_elems_i64: "intset_wf is \<Longrightarrow> v \<in> set (intset_elems is) \<Longrightarrow> in_i64 v"
  using intset_wf_holds [of "is"] by (auto simp: intset_holds_def intset_encs intro: in_signed_mono)

lemma card_set_intset:
  assumes "intset_wf is"
  shows "card (set_elems (SetIntset is)) = length (intset_elems is)"
proof -
  have "inj_on dec_bytes (set (intset_elems is))"
    using intset_elems_i64 [OF assms] by (intro inj_on_subset [OF inj_dec_bytes]) auto
  then show ?thesis
    by (simp add: set_elems_def card_image distinct_card [OF intset_distinct [OF assms]])
qed

lemma setTypeSize_card: "set_wf cfg s \<Longrightarrow> setTypeSize s = card (set_elems s)"
proof (cases s)
  case (SetIntset "is")
  moreover assume "set_wf cfg s"
  ultimately show ?thesis by (simp add: set_wf_def setTypeSize_def card_set_intset intsetLen_def intset_length)
next
  case (SetHT d)
  moreover assume "set_wf cfg s"
  ultimately show ?thesis by (simp add: set_wf_def setTypeSize_def dict_size_card set_elems_def)
qed

lemma intsetGet_nth: "intsetGet is ii = (if ii < length (intset_elems is) then Some (intset_elems is ! ii) else None)"
  by (simp add: intsetGet_def intset_elems_def)

lemma setConvertLoop_spec:
  assumes wf: "intset_wf is" and lim: "length (intset_elems is) < 2 ^ 62"
  shows "dict_wf d \<Longrightarrow> d_type d = setDictType cfg \<Longrightarrow> ii \<le> length (intset_elems is) \<Longrightarrow>
    dom (dict_map d) = dec_bytes ` set (take ii (intset_elems is)) \<Longrightarrow>
    \<exists>d'. setConvertLoop cfg is ii d = Some d' \<and> dict_wf d' \<and> d_type d' = setDictType cfg \<and>
      dom (dict_map d') = dec_bytes ` set (intset_elems is)"
proof (induction "length (intset_elems is) - ii" arbitrary: ii d)
  case 0
  then show ?case by (subst setConvertLoop.simps) (simp add: intsetGet_nth)
next
  case (Suc n)
  let ?xs = "intset_elems is"
  define v where "v = ?xs ! ii"
  have lt: "ii < length ?xs" using Suc.hyps(2) by simp
  have v: "in_i64 v" using intset_elems_i64 [OF wf] lt by (simp add: v_def)
  have b: "sds_val (sdsfromlonglong v) = dec_bytes v" using sdsfromlonglong_spec [OF v] by simp
  have take: "take (Suc ii) ?xs = take ii ?xs @ [v]" using lt by (simp add: take_Suc_conv_app_nth v_def)
  have "dec_bytes v \<notin> dec_bytes ` set (take ii ?xs)"
  proof
    assume "dec_bytes v \<in> dec_bytes ` set (take ii ?xs)"
    then obtain w where w: "w \<in> set (take ii ?xs)" "dec_bytes v = dec_bytes w" by auto
    moreover have "in_i64 w" using w(1) in_set_takeD intset_elems_i64 [OF wf] by metis
    ultimately have "v \<in> set (take ii ?xs)" using inj_onD [OF inj_dec_bytes, of v w] v by simp
    then show False using take intset_distinct [OF wf] distinct_take [of ?xs "Suc ii"] by simp
  qed
  then have new: "dict_map d (dec_bytes v) = None" using Suc.prems(4) by auto
  have "card (dom (dict_map d)) \<le> length (take ii ?xs)"
    unfolding Suc.prems(4) by (rule le_trans [OF card_image_le card_length]) simp
  then have "dictSize d < 2 ^ 62" using lim lt dict_size_card [OF Suc.prems(1)] by simp
  moreover have "dictType_ok (d_type d)" using Suc.prems(2) by simp
  ultimately obtain rc d1 where d1: "dictAdd (dict_can_resize cfg) () d (dec_bytes v) () = Some (rc, d1)"
      "dict_wf d1" "d_type d1 = d_type d" "rc = DICT_OK \<longleftrightarrow> dict_map d (dec_bytes v) = None"
      "dict_map d1 = (if dict_map d (dec_bytes v) = None then (dict_map d)(dec_bytes v \<mapsto> ()) else dict_map d)"
    using dictAdd_spec [OF Suc.prems(1), where can = "dict_can_resize cfg" and uninit = "()" and key = "dec_bytes v" and val = "()"]
    by metis
  have "\<exists>d'. setConvertLoop cfg is (Suc ii) d1 = Some d' \<and> dict_wf d' \<and> d_type d' = setDictType cfg \<and>
      dom (dict_map d') = dec_bytes ` set ?xs"
    using Suc.hyps(2) Suc.prems d1 new lt by (intro Suc.hyps(1)) (auto simp: take)
  moreover have "setConvertLoop cfg is ii d = setConvertLoop cfg is (Suc ii) d1"
    using d1(1,4) new lt by (subst setConvertLoop.simps) (simp add: intsetGet_nth v_def [symmetric] b)
  ultimately show ?case by simp
qed

lemma setTypeConvert_spec:
  assumes "intset_wf is" "length (intset_elems is) < 2 ^ 62"
  shows "\<exists>d. setTypeConvert cfg (SetIntset is) = Some (SetHT d) \<and> set_wf cfg (SetHT d) \<and>
    set_elems (SetHT d) = set_elems (SetIntset is)"
proof -
  define d0 :: "(byte list, unit) dict" where "d0 = dictCreate (setDictType cfg)"
  define d where "d = snd (dictExpand d0 (intsetLen is))"
  have d0: "dict_wf d0" "\<not> dictIsRehashing d0" "dict_map d0 = Map.empty" "d_type d0 = setDictType cfg"
    by (simp_all add: d0_def) (simp add: dictCreate_def dictIsRehashing_def)
  have "intsetLen is \<le> 2 ^ 63" using assms(2) by (simp add: intsetLen_def intset_length)
  note e = dictExpand_spec [OF d0(1,2) this]
  have d: "dict_wf d" "d_type d = setDictType cfg" "dict_map d = Map.empty"
    using e(1,2) rehash_keeps_map [OF e(2) d0(1)] d0(3,4) by (simp_all add: d_def rehash_keeps_def)
  have "\<exists>d'. setConvertLoop cfg is 0 d = Some d' \<and> dict_wf d' \<and> d_type d' = setDictType cfg \<and>
      dom (dict_map d') = dec_bytes ` set (intset_elems is)"
    by (rule setConvertLoop_spec [OF assms]) (simp_all add: d)
  then show ?thesis
    by (auto simp: setTypeConvert_def Let_def d_def d0_def set_wf_def set_elems_def)
qed

lemma representable_elem:
  assumes "string2ll x = Some v" "intset_wf is"
  shows "x \<in> set_elems (SetIntset is) \<longleftrightarrow> v \<in> set (intset_elems is)"
proof -
  have v: "in_i64 v" "x = dec_bytes v" using assms(1) by (simp_all add: string2ll_iff)
  then show ?thesis
    using inj_onD [OF inj_dec_bytes, of v] intset_elems_i64 [OF assms(2)] by (auto simp: set_elems_def)
qed

lemma not_representable_elem: "string2ll x = None \<Longrightarrow> intset_wf is \<Longrightarrow> x \<notin> set_elems (SetIntset is)"
  using intset_elems_i64 [of "is"] by (auto simp: set_elems_def) (metis option.distinct(1) string2ll_iff)

text \<open>Adding one element, by encoding.\<close>

lemma setTypeAdd_HT:
  assumes "set_wf cfg (SetHT d)" "dictSize d < 2 ^ 62"
  shows "\<exists>s'. setTypeAdd cfg (SetHT d) x = Some (s', x \<notin> set_elems (SetHT d)) \<and> set_wf cfg s' \<and>
    set_elems s' = insert x (set_elems (SetHT d))"
proof -
  have d: "dict_wf d" "dictType_ok (d_type d)" "d_type d = setDictType cfg" using assms(1) by (simp_all add: set_wf_def)
  show ?thesis
    using d(1,2) assms(2)
  proof (cases rule: dictAddRaw_spec [where can = "dict_can_resize cfg" and uninit = "()" and key = x])
    case (added second idx d')
    note s = dictSetVal_spec [OF added(3,7), of "()"]
    then show ?thesis
      using added d(3) by (auto simp: setTypeAdd_def set_elems_def set_wf_def domIff)
  next
    case (present second idx d')
    then show ?thesis
      using rehash_keeps_map [OF present(4) d(1)] d(3)
      by (auto simp: setTypeAdd_def set_elems_def set_wf_def rehash_keeps_def)
  qed
qed

lemma setTypeAdd_intset_string:
  assumes wf: "intset_wf is" and lim: "length (intset_elems is) < 2 ^ 28" and x: "string2ll x = None"
  shows "\<exists>s'. setTypeAdd cfg (SetIntset is) x = Some (s', x \<notin> set_elems (SetIntset is)) \<and> set_wf cfg s' \<and>
    set_elems s' = insert x (set_elems (SetIntset is))"
proof -
  obtain d where d: "setTypeConvert cfg (SetIntset is) = Some (SetHT d)" "set_wf cfg (SetHT d)"
      "set_elems (SetHT d) = set_elems (SetIntset is)"
    using setTypeConvert_spec [OF wf] lim by fastforce
  then have dw: "dict_wf d" "dictType_ok (d_type d)" "d_type d = setDictType cfg" by (simp_all add: set_wf_def)
  have "dictSize d = card (set_elems (SetHT d))" using dw(1) by (simp add: dict_size_card set_elems_def)
  then have sz: "dictSize d < 2 ^ 62" using d(3) card_set_intset [OF wf] lim by simp
  have new: "dict_map d x = None" using not_representable_elem [OF x wf] d(3) by (auto simp: set_elems_def)
  obtain rc d1 where d1: "dictAdd (dict_can_resize cfg) () d x () = Some (rc, d1)"
      "dict_wf d1" "d_type d1 = d_type d" "rc = DICT_OK \<longleftrightarrow> dict_map d x = None"
      "dict_map d1 = (if dict_map d x = None then (dict_map d)(x \<mapsto> ()) else dict_map d)"
    using dictAdd_spec [OF dw(1,2) sz, where can = "dict_can_resize cfg" and uninit = "()" and key = x and val = "()"]
    by metis
  show ?thesis
    using x d d1 new dw(3) not_representable_elem [OF x wf]
    by (auto simp: setTypeAdd_def isSdsRepresentableAsLongLong_def set_wf_def set_elems_def)
qed

lemma setTypeAdd_intset_int:
  assumes wf: "intset_wf is" and lim: "length (intset_elems is) < 2 ^ 28" and x: "string2ll x = Some v"
  shows "\<exists>s'. setTypeAdd cfg (SetIntset is) x = Some (s', x \<notin> set_elems (SetIntset is)) \<and> set_wf cfg s' \<and>
    set_elems s' = insert x (set_elems (SetIntset is))"
proof -
  have v: "in_i64 v" "x = dec_bytes v" using x by (simp_all add: string2ll_iff)
  note mem = representable_elem [OF x wf]
  from wf v(1) lim show ?thesis
  proof (cases rule: intsetAdd_cases)
    case present
    then show ?thesis using x mem wf by (auto simp: setTypeAdd_def isSdsRepresentableAsLongLong_def set_wf_def)
  next
    case (added is')
    then have e: "set_elems (SetIntset is') = insert x (set_elems (SetIntset is))"
      by (simp add: set_elems_def v(2) set_insort_key)
    have l: "length (intset_elems is') < 2 ^ 62" using added(4) lim by simp
    from setTypeConvert_spec [OF added(3) l, of cfg] show ?thesis
      using x mem added e by (force simp: setTypeAdd_def isSdsRepresentableAsLongLong_def set_wf_def)
  qed
qed

lemma dictResize_spec:
  assumes "dict_wf d" "dictSize d \<le> 2 ^ 62"
  shows "dict_wf (snd (dictResize can d)) \<and> rehash_keeps d (snd (dictResize can d))"
proof (cases "\<not> can \<or> dictIsRehashing d")
  case True
  then show ?thesis using assms by (simp add: dictResize_def)
next
  case False
  define n where "n = (if ht_used (d_ht0 d) < DICT_HT_INITIAL_SIZE then DICT_HT_INITIAL_SIZE else ht_used (d_ht0 d))"
  have "n \<le> 2 ^ 63" using assms(2) by (simp add: n_def DICT_HT_INITIAL_SIZE_def dictSize_def)
  then have "dict_wf (snd (dictExpand d n))" "rehash_keeps d (snd (dictExpand d n))"
    using False dictExpand_spec [OF assms(1)] by simp_all
  then show ?thesis using False by (simp add: dictResize_def n_def Let_def)
qed

lemma setTypeRemove_HT:
  assumes "set_wf cfg (SetHT d)" "dictSize d < 2 ^ 62"
  shows "\<exists>s'. setTypeRemove cfg (SetHT d) x = Some (s', x \<in> set_elems (SetHT d)) \<and> set_wf cfg s' \<and>
    set_elems s' = set_elems (SetHT d) - {x}"
proof -
  have d: "dict_wf d" "dictType_ok (d_type d)" "d_type d = setDictType cfg" using assms(1) by (simp_all add: set_wf_def)
  from d(1,2) obtain d' where d': "dictDelete d x = Some (if dict_map d x = None then DICT_ERR else DICT_OK, d')"
      "dict_wf d'" "d_type d' = d_type d" "dict_map d' = (dict_map d)(x := None)"
    by (rule dictDelete_spec [where key = x])
  have "card (dom (dict_map d')) \<le> card (dom (dict_map d))" by (rule card_mono) (auto simp: d'(4))
  then have "dictSize d' \<le> 2 ^ 62" using assms(2) dict_size_card [OF d(1)] dict_size_card [OF d'(2)] by simp
  note r = dictResize_spec [OF d'(2) this, of "dict_can_resize cfg"]
  have m: "dict_map (snd (dictResize (dict_can_resize cfg) d')) = dict_map d'"
    using r rehash_keeps_map [OF _ d'(2)] by blast
  show ?thesis
    using d' d(3) r m by (auto simp: setTypeRemove_def set_wf_def set_elems_def rehash_keeps_def split: if_splits)
qed

lemma setTypeRemove_intset:
  assumes wf: "intset_wf is" and lim: "length (intset_elems is) < 2 ^ 28"
  shows "\<exists>s'. setTypeRemove cfg (SetIntset is) x = Some (s', x \<in> set_elems (SetIntset is)) \<and> set_wf cfg s' \<and>
    set_elems s' = set_elems (SetIntset is) - {x}"
proof (cases "string2ll x")
  case None
  then show ?thesis
    using not_representable_elem [OF None wf] wf
    by (auto simp: setTypeRemove_def isSdsRepresentableAsLongLong_def set_wf_def)
next
  case (Some v)
  then have v: "in_i64 v" "x = dec_bytes v" by (simp_all add: string2ll_iff)
  note mem = representable_elem [OF Some wf]
  from wf v(1) lim show ?thesis
  proof (cases rule: intsetRemove_cases)
    case absent
    then show ?thesis using Some mem wf
      by (auto simp: setTypeRemove_def isSdsRepresentableAsLongLong_def set_wf_def)
  next
    case (removed is')
    have "inj_on dec_bytes (set (intset_elems is))"
      using intset_elems_i64 [OF wf] by (intro inj_on_subset [OF inj_dec_bytes]) auto
    then have "set_elems (SetIntset is') = set_elems (SetIntset is) - {x}"
      using removed(1,4) inj_on_image_set_diff [of dec_bytes "set (intset_elems is)" "set (intset_elems is)" "{v}"]
      by (simp add: set_elems_def v(2) set_diff_eq image_insert)
    then show ?thesis using Some mem removed
      by (auto simp: setTypeRemove_def isSdsRepresentableAsLongLong_def set_wf_def)
  qed
qed

lemma set_wf_len:
  assumes "set_wf cfg s" "card (set_elems s) < 2 ^ 28"
  shows "s = SetIntset is \<Longrightarrow> length (intset_elems is) < 2 ^ 28" "s = SetHT d \<Longrightarrow> dictSize d < 2 ^ 62"
proof -
  show "length (intset_elems is) < 2 ^ 28" if "s = SetIntset is"
    using assms that card_set_intset [of "is"] by (simp add: set_wf_def)
  show "dictSize d < 2 ^ 62" if "s = SetHT d"
    using assms that dict_size_card [of d] by (simp add: set_wf_def set_elems_def)
qed

lemma setTypeAdd_spec:
  assumes wf: "set_wf cfg s" and lim: "card (set_elems s) < 2 ^ 28"
  shows "\<exists>s'. setTypeAdd cfg s x = Some (s', x \<notin> set_elems s) \<and> set_wf cfg s' \<and> set_elems s' = insert x (set_elems s)"
proof (cases s)
  case (SetIntset "is")
  then have "intset_wf is" "length (intset_elems is) < 2 ^ 28" using wf set_wf_len [OF wf lim] by (simp_all add: set_wf_def)
  then show ?thesis using SetIntset setTypeAdd_intset_int setTypeAdd_intset_string by (cases "string2ll x") blast+
next
  case (SetHT d)
  then show ?thesis using wf set_wf_len(2) [OF wf lim SetHT] setTypeAdd_HT by blast
qed

lemma setTypeRemove_spec:
  assumes wf: "set_wf cfg s" and lim: "card (set_elems s) < 2 ^ 28"
  shows "\<exists>s'. setTypeRemove cfg s x = Some (s', x \<in> set_elems s) \<and> set_wf cfg s' \<and> set_elems s' = set_elems s - {x}"
proof (cases s)
  case (SetIntset "is")
  then show ?thesis using wf set_wf_len(1) [OF wf lim SetIntset] setTypeRemove_intset by (simp add: set_wf_def)
next
  case (SetHT d)
  then show ?thesis using wf set_wf_len(2) [OF wf lim SetHT] setTypeRemove_HT by blast
qed

lemma setTypeIsMember_spec:
  assumes wf: "set_wf cfg s"
  shows "\<exists>s'. setTypeIsMember s x = Some (s', x \<in> set_elems s) \<and> set_wf cfg s' \<and> set_elems s' = set_elems s"
proof (cases s)
  case (SetIntset "is")
  then have "intset_wf is" using wf by (simp add: set_wf_def)
  then show ?thesis
    using SetIntset wf representable_elem [of x _ "is"] not_representable_elem [of x "is"] intsetFind_iff [of "is"] string2ll_iff [of x]
    by (cases "string2ll x") (auto simp: setTypeIsMember_def isSdsRepresentableAsLongLong_def)
next
  case (SetHT d)
  then have d: "dict_wf d" "dictType_ok (d_type d)" "d_type d = setDictType cfg" using wf by (simp_all add: set_wf_def)
  from d(1,2) obtain d' where d': "dictFind d x = Some (map_option (Pair x) (dict_map d x), d')" "dict_wf d'" "rehash_keeps d d'"
    by (rule dictFind_spec [where key = x])
  then show ?thesis
    using SetHT d(3) rehash_keeps_map [OF d'(3) d(1)]
    by (auto simp: setTypeIsMember_def set_wf_def set_elems_def rehash_keeps_def)
qed

lemma set_elems_finite: "finite (set_elems s)"
  by (cases s) (simp_all add: set_elems_def)

text \<open>A set object is a provider of the finite-set interface for all binary strings.\<close>

interpretation so: finite_set_impl "set_wf cfg" set_elems "\<lambda>_. True" "2 ^ 28"
  "setTypeAdd cfg" "setTypeRemove cfg" setTypeIsMember setTypeSize
  for cfg :: "'a set_config_scheme"
proof (unfold_locales, goal_cases)
  case (1 s)
  show ?case by (rule set_elems_finite)
next
  case (2 s a)
  show ?case using 2(1) by (rule setTypeIsMember_spec)
next
  case (3 s a)
  show ?case using 3(1,3) by (rule setTypeAdd_spec)
next
  case (4 s a)
  show ?case using 4(1,3) by (rule setTypeRemove_spec)
next
  case (5 s)
  then show ?case by (rule setTypeSize_card)
qed

lemma setTypeCreate_spec [simp]: "set_wf cfg (setTypeCreate cfg x) \<and> set_elems (setTypeCreate cfg x) = {}"
  by (cases "string2ll x")
    (simp_all add: setTypeCreate_def isSdsRepresentableAsLongLong_def createIntsetObject_def createSetObject_def
      set_wf_def set_elems_def)

end
