(* ===== verification/StringObj.thy ===== *)
theory StringObj
  imports Sds
begin

text \<open>
  The string objects of \<open>src/redis-6.0.5/src/object.c\<close>: a string value is an integer, an sds
  embedded in the object, or an sds of its own; the encoding is chosen by
  \<open>tryObjectEncoding\<close>, and every reader accepts all three.

  Objects are values: reference counts, the shared small integers and the access time used
  by eviction have no counterpart.  \<open>str_val\<close> is the binary string an object stands for.
\<close>

section \<open>The program\<close>

datatype string_obj = StrInt int | StrEmb sds | StrRaw sds

definition OBJ_ENCODING_EMBSTR_SIZE_LIMIT :: nat where "OBJ_ENCODING_EMBSTR_SIZE_LIMIT = 44"

fun sdsEncodedObject :: "string_obj \<Rightarrow> bool" where
  "sdsEncodedObject (StrInt _) = False"
| "sdsEncodedObject _ = True"

definition createRawStringObject :: "byte list \<Rightarrow> nat \<Rightarrow> string_obj" where
  "createRawStringObject ptr len = StrRaw (sdsnewlen (Some ptr) len)"

definition createEmbeddedStringObject :: "byte list \<Rightarrow> nat \<Rightarrow> string_obj" where
  "createEmbeddedStringObject ptr len =
     StrEmb \<lparr>sds_type = SDS_TYPE_8, hdr_len = len mod 2 ^ 8, hdr_alloc = len mod 2 ^ 8, sds_buf = take len ptr @ [0]\<rparr>"

definition createStringObject :: "byte list \<Rightarrow> nat \<Rightarrow> string_obj" where
  "createStringObject ptr len =
     (if len \<le> OBJ_ENCODING_EMBSTR_SIZE_LIMIT then createEmbeddedStringObject ptr len
      else createRawStringObject ptr len)"

text \<open>
  A shared integer object and a fresh one have the same value, so the choice between them
  is not visible here.  \<open>long\<close> and \<open>long long\<close> have 64 bits.
\<close>

definition createStringObjectFromLongLong :: "int \<Rightarrow> string_obj" where
  "createStringObjectFromLongLong value =
     (if LLONG_MIN \<le> value \<and> value \<le> LLONG_MAX then StrInt value else StrRaw (sdsfromlonglong value))"

fun trimStringObjectIfNeeded :: "string_obj \<Rightarrow> string_obj" where
  "trimStringObjectIfNeeded (StrRaw s) =
     (if sdsavail s > sdslen s div 10 then StrRaw (sdsRemoveFreeSpace s) else StrRaw s)"
| "trimStringObjectIfNeeded o' = o'"

fun obj_sds :: "string_obj \<Rightarrow> sds" where
  "obj_sds (StrEmb s) = s"
| "obj_sds (StrRaw s) = s"
| "obj_sds (StrInt v) = sdsempty"

definition tryObjectEncoding :: "nat \<Rightarrow> string_obj \<Rightarrow> string_obj" where
  "tryObjectEncoding refcount o' =
     (if \<not> sdsEncodedObject o' then o'
      else if refcount > 1 then o'
      else
        let s = obj_sds o'; len = sdslen s in
        (case (if len \<le> 20 then string2l (take len (sds_buf s)) else None) of
           Some value \<Rightarrow> createStringObjectFromLongLong value
         | None \<Rightarrow>
             if len \<le> OBJ_ENCODING_EMBSTR_SIZE_LIMIT then
               (case o' of StrEmb _ \<Rightarrow> o' | _ \<Rightarrow> createEmbeddedStringObject (sds_buf s) (sdslen s))
             else trimStringObjectIfNeeded o'))"

definition getDecodedObject :: "string_obj \<Rightarrow> string_obj" where
  "getDecodedObject o' =
     (case o' of
        StrInt v \<Rightarrow> (let buf = snd (ll2string (replicate 32 0) 32 v) in createStringObject buf (strlen buf))
      | _ \<Rightarrow> o')"

definition stringObjectLen :: "string_obj \<Rightarrow> nat" where
  "stringObjectLen o' = (case o' of StrInt v \<Rightarrow> sdigits10 v | _ \<Rightarrow> sdslen (obj_sds o'))"

text \<open>The characters a comparison reads: those of the sds, or the number printed in a buffer.\<close>

definition compareText :: "string_obj \<Rightarrow> byte list \<times> nat" where
  "compareText a =
     (case a of
        StrInt v \<Rightarrow> (case ll2string (replicate 128 0) 128 v of (alen, bufa) \<Rightarrow> (bufa, alen))
      | _ \<Rightarrow> (sds_buf (obj_sds a), sdslen (obj_sds a)))"

text \<open>The binary comparison; the difference of the lengths is returned as a 32-bit integer.\<close>

definition compareStringObjects :: "string_obj \<Rightarrow> string_obj \<Rightarrow> int" where
  "compareStringObjects a b =
     (if a = b then 0
      else
        let (astr, alen) = compareText a; (bstr, blen) = compareText b;
            minlen = (if alen < blen then alen else blen);
            cmp = memcmp astr bstr minlen
        in if cmp = 0 then sint (word_of_int (int alen - int blen) :: 32 word) else cmp)"

definition equalStringObjects :: "string_obj \<Rightarrow> string_obj \<Rightarrow> bool" where
  "equalStringObjects a b =
     (case (a, b) of (StrInt v, StrInt w) \<Rightarrow> v = w | _ \<Rightarrow> compareStringObjects a b = 0)"

text \<open>A null pointer reads as zero; \<open>None\<close> is \<open>C_ERR\<close>.\<close>

definition getLongLongFromObject :: "string_obj option \<Rightarrow> int option" where
  "getLongLongFromObject o' =
     (case o' of
        None \<Rightarrow> Some 0
      | Some (StrInt v) \<Rightarrow> Some v
      | Some ob \<Rightarrow> string2ll (take (sdslen (obj_sds ob)) (sds_buf (obj_sds ob))))"

section \<open>The value of a string object\<close>

fun str_val :: "string_obj \<Rightarrow> byte list" where
  "str_val (StrInt v) = dec_bytes v"
| "str_val (StrEmb s) = sds_val s"
| "str_val (StrRaw s) = sds_val s"

fun str_wf :: "string_obj \<Rightarrow> bool" where
  "str_wf (StrInt v) = in_i64 v"
| "str_wf (StrEmb s) = sds_wf s"
| "str_wf (StrRaw s) = sds_wf s"

lemma createEmbedded_spec:
  assumes "len \<le> length ptr" "len < 256"
  shows "str_wf (createEmbeddedStringObject ptr len) \<and> str_val (createEmbeddedStringObject ptr len) = take len ptr"
  using assms by (simp add: createEmbeddedStringObject_def sds_wf_def sds_val_def sdslen_def sdsalloc_def nth_append)

lemma createStringObject_spec:
  assumes "len \<le> length ptr" "len < 2 ^ 64"
  shows "str_wf (createStringObject ptr len) \<and> str_val (createStringObject ptr len) = take len ptr"
  using createEmbedded_spec [OF assms(1)] sdsnewlen_spec [OF assms(2), of "Some ptr"] assms(1)
  by (auto simp: createStringObject_def createRawStringObject_def OBJ_ENCODING_EMBSTR_SIZE_LIMIT_def)

lemma createRaw_spec:
  assumes "len \<le> length ptr" "len < 2 ^ 64"
  shows "str_wf (createRawStringObject ptr len) \<and> str_val (createRawStringObject ptr len) = take len ptr"
  using sdsnewlen_spec [OF assms(2), of "Some ptr"] assms(1) by (simp add: createRawStringObject_def)

lemma in_i64_long: "in_i64 v \<longleftrightarrow> LLONG_MIN \<le> v \<and> v \<le> LLONG_MAX"
  by (auto simp: in_signed_def LLONG_MIN_def LLONG_MAX_def)

lemma createFromLongLong_spec: "in_i64 v \<Longrightarrow> createStringObjectFromLongLong v = StrInt v"
  by (simp add: createStringObjectFromLongLong_def in_i64_long)

lemma string2l_iff: "string2l s = Some v \<longleftrightarrow> in_i64 v \<and> s = dec_bytes v"
  unfolding string2l_def using string2ll_iff [of s v] by (auto simp: in_i64_long split: option.splits if_splits)

lemma obj_sds_val: "sdsEncodedObject o' \<Longrightarrow> str_wf o' \<Longrightarrow> sds_wf (obj_sds o') \<and> sds_val (obj_sds o') = str_val o'"
  by (cases o') auto

lemma trim_spec: "str_wf o' \<Longrightarrow> str_wf (trimStringObjectIfNeeded o') \<and> str_val (trimStringObjectIfNeeded o') = str_val o'"
  using sdsRemoveFreeSpace_spec by (cases o') auto

lemma tryObjectEncoding_spec:
  assumes "str_wf o'"
  shows "str_wf (tryObjectEncoding r o') \<and> str_val (tryObjectEncoding r o') = str_val o'"
proof (cases "\<not> sdsEncodedObject o' \<or> r > 1")
  case True
  then show ?thesis using assms by (auto simp: tryObjectEncoding_def)
next
  case False
  define s where "s = obj_sds o'"
  have s: "sds_wf s" "sds_val s = str_val o'" using obj_sds_val [of o'] assms False by (simp_all add: s_def)
  then have l: "sdslen s \<le> length (sds_buf s)" by (simp add: sds_wf_def)
  have t: "tryObjectEncoding r o' = (case (if sdslen s \<le> 20 then string2l (sds_val s) else None) of
           Some value \<Rightarrow> createStringObjectFromLongLong value
         | None \<Rightarrow>
             if sdslen s \<le> OBJ_ENCODING_EMBSTR_SIZE_LIMIT then
               (case o' of StrEmb _ \<Rightarrow> o' | _ \<Rightarrow> createEmbeddedStringObject (sds_buf s) (sdslen s))
             else trimStringObjectIfNeeded o')"
    using False unfolding tryObjectEncoding_def Let_def s_def sds_val_def by simp
  consider v where "sdslen s \<le> 20" "string2l (sds_val s) = Some v"
    | "(if sdslen s \<le> 20 then string2l (sds_val s) else None) = None" by (metis option.exhaust)
  then show ?thesis
  proof cases
    case 1
    then show ?thesis using t s string2l_iff [of "sds_val s" v] by (simp add: createFromLongLong_spec)
  next
    case 2
    then show ?thesis
      using t s assms trim_spec [OF assms] createEmbedded_spec [OF l]
      by (cases o') (auto simp: OBJ_ENCODING_EMBSTR_SIZE_LIMIT_def sds_val_def [symmetric])
  qed
qed

lemma getDecodedObject_spec:
  assumes "str_wf o'"
  shows "str_wf (getDecodedObject o') \<and> str_val (getDecodedObject o') = str_val o' \<and> sdsEncodedObject (getDecodedObject o')"
proof (cases o')
  case (StrInt v)
  define b where "b = write_at 0 (dec_bytes v @ [0]) (replicate 32 (0 :: byte))"
  have v: "in_i64 v" using assms StrInt by simp
  have l: "length (dec_bytes v) \<le> 20" using dec_bytes_length [OF v] .
  have b: "snd (ll2string (replicate 32 0) 32 v) = b" using ll2string_spec [OF v, of 32 "replicate 32 0"] l by (simp add: b_def)
  have z: "0 \<notin> set (dec_bytes v)" by (rule dec_bytes_nonzero)
  have t: "takeWhile (\<lambda>c. c \<noteq> 0) b = dec_bytes v"
    using takeWhile_zero [OF z] by (simp add: b_def write_at_def)
  then have "strlen b = length (dec_bytes v)" by (simp add: strlen_def)
  moreover have "length b = 32" using l by (simp add: b_def)
  moreover have "take (length (dec_bytes v)) b = dec_bytes v" by (simp add: b_def write_at_def)
  ultimately show ?thesis
    using StrInt b createStringObject_spec [of "length (dec_bytes v)" b] l
    by (auto simp: getDecodedObject_def Let_def createStringObject_def createEmbeddedStringObject_def createRawStringObject_def)
qed (use assms in \<open>simp_all add: getDecodedObject_def\<close>)

lemma stringObjectLen_spec: "str_wf o' \<Longrightarrow> stringObjectLen o' = length (str_val o')"
  by (cases o') (simp_all add: stringObjectLen_def sdigits10_length)

lemma getLongLong_spec: "str_wf o' \<Longrightarrow> getLongLongFromObject (Some o') = string2ll (str_val o')"
  by (cases o') (auto simp: getLongLongFromObject_def sds_val_def string2ll_iff intro: sym)

lemma compareText_spec:
  assumes "str_wf o'" "compareText o' = (t, n)"
  shows "n = length (str_val o') \<and> take n t = str_val o' \<and> n \<le> length t"
proof (cases o')
  case (StrInt v)
  then have v: "in_i64 v" using assms(1) by simp
  then show ?thesis
    using assms(2) StrInt ll2string_spec [OF v, of 128 "replicate 128 0"] dec_bytes_length [OF v]
    by (auto simp: compareText_def write_at_def)
qed (use assms in \<open>auto simp: compareText_def sds_val_def sds_wf_def\<close>)

lemma compareStringObjects_zero:
  assumes "str_wf a" "str_wf b" "length (str_val a) < 2 ^ 31" "length (str_val b) < 2 ^ 31"
  shows "compareStringObjects a b = 0 \<longleftrightarrow> str_val a = str_val b"
proof (cases "a = b")
  case True
  then show ?thesis by (simp add: compareStringObjects_def)
next
  case False
  obtain s n where s: "compareText a = (s, n)" by fastforce
  obtain t m where t: "compareText b = (t, m)" by fastforce
  note sa = compareText_spec [OF assms(1) s] and tb = compareText_spec [OF assms(2) t]
  define k where "k = min n m"
  have c: "compareStringObjects a b = (if memcmp s t k = 0 then sint (word_of_int (int n - int m) :: 32 word) else memcmp s t k)"
    using False by (simp add: compareStringObjects_def s t Let_def k_def min_def)
  have "int n < 2 ^ 31" "int m < 2 ^ 31" using sa tb assms(3,4) by auto
  then have w: "sint (word_of_int (int n - int m) :: 32 word) = int n - int m"
    by (subst signed_of_int) (simp add: signed_take_bit_int_eq_self)
  have "memcmp s t k = 0 \<longleftrightarrow> take k s = take k t" using sa tb by (intro memcmp_zero) (auto simp: k_def)
  moreover have "take k s = take k (str_val a)" "take k t = take k (str_val b)"
    using sa tb by (metis k_def min.cobounded1 min.cobounded2 take_take min.absorb1)+
  ultimately have z: "memcmp s t k = 0 \<longleftrightarrow> take k (str_val a) = take k (str_val b)" by simp
  show ?thesis
  proof (cases "n = m")
    case True
    then show ?thesis unfolding c w using z sa tb by (auto simp: k_def)
  next
    case False
    then show ?thesis unfolding c w using sa tb by auto
  qed
qed

lemma equalStringObjects_spec:
  assumes "str_wf a" "str_wf b" "length (str_val a) < 2 ^ 31" "length (str_val b) < 2 ^ 31"
  shows "equalStringObjects a b \<longleftrightarrow> str_val a = str_val b"
  using compareStringObjects_zero [OF assms] assms(1,2) dec_bytes_inject
  by (cases a; cases b) (auto simp: equalStringObjects_def)

section \<open>Properties\<close>

text \<open>
  C24: whatever encoding a string object is given, it stands for the same bytes: encoding and
  decoding keep the value, and length, integer value and equality are those of the bytes.
\<close>

theorem string_encoding_transparent:
  assumes "str_wf a" "str_wf b" "length (str_val a) < 2 ^ 31" "length (str_val b) < 2 ^ 31"
  shows "str_val (tryObjectEncoding refcount a) = str_val a \<and> str_val (getDecodedObject a) = str_val a \<and>
    stringObjectLen a = length (str_val a) \<and> getLongLongFromObject (Some a) = string2ll (str_val a) \<and>
    equalStringObjects (tryObjectEncoding refcount a) b = (str_val a = str_val b)"
  using assms tryObjectEncoding_spec [OF assms(1), of refcount] getDecodedObject_spec [OF assms(1)]
    stringObjectLen_spec [OF assms(1)] getLongLong_spec [OF assms(1)]
    equalStringObjects_spec [OF _ assms(2), of "tryObjectEncoding refcount a"]
  by simp

theorem string_encoding_transparent_witness:
  "str_val (tryObjectEncoding 1 (StrRaw (sdsnew [49, 50, 0]))) = [49, 50] \<and>
   equalStringObjects (tryObjectEncoding 1 (StrRaw (sdsnew [49, 50, 0]))) (StrInt 12)"
proof -
  have a: "str_wf (StrRaw (sdsnew [49, 50, 0]))" "str_val (StrRaw (sdsnew [49, 50, 0])) = [49, 50]" by code_simp+
  have b: "str_wf (StrInt 12)" "str_val (StrInt 12) = [49, 50]"
    by (simp_all add: in_signed_def dec_bytes_def dec_nat_step)
  show ?thesis
    using string_encoding_transparent [OF a(1) b(1), of 1] a(2) b(2) by simp
qed

end
