(* ===== verification/Keyspace.thy ===== *)
theory Keyspace
  imports Tset StringObj "HOL-Library.Monad_Syntax"
begin

text \<open>
  The keyspace of \<open>src/redis-6.0.5/src/db.c\<close>: one database, that is the table of the keys and
  the table of their expire times, with the lookups that remove expired keys on the way.

  The state is the record \<open>server\<close>: the two tables, the counters, and the list of the
  notifications, invalidations and replicated deletions in the order they are issued.  The
  configuration is the record \<open>server_config\<close>, with the clock readings of one command; it
  does not change during a command.  Cluster mode and the access time of objects are left
  out.  Values of the types that are not modelled are the constructor \<open>ObjOther\<close>.
  An object is changed in place through the entry that points to it: \<open>obj_update\<close>.
  \<open>None\<close> is a failed assertion.
\<close>

section \<open>The program\<close>

type_synonym key = "byte list"

datatype obj_type = OBJ_STRING | OBJ_LIST | OBJ_SET | OBJ_ZSET | OBJ_HASH | OBJ_MODULE | OBJ_STREAM

datatype robj = ObjString string_obj | ObjSet set_obj | ObjOther obj_type

fun robj_type :: "robj \<Rightarrow> obj_type" where
  "robj_type (ObjString _) = OBJ_STRING"
| "robj_type (ObjSet _) = OBJ_SET"
| "robj_type (ObjOther t) = t"

record server_config = set_config +
  masterhost :: bool
  repl_slave_ro :: bool
  loading :: bool
  lua_caller :: bool
  lua_time_start :: int
  fixed_time_expire :: nat
  cached_mstime :: int
  mstime :: int
  current_client :: bool
  current_client_master :: bool
  current_cmd_readonly :: "bool option"
  master_client :: bool
  lazyfree_lazy_expire :: bool
  lazyfree_lazy_server_del :: bool
  lazyfree_lazy_user_del :: bool

text \<open>
  The client on whose behalf the server works, if there is one: whether it is the link to the
  master, and whether its command, if it has one, is flagged as read-only.
\<close>

definition readonly_client :: "'a server_config_scheme \<Rightarrow> bool" where
  "readonly_client cfg \<longleftrightarrow>
     current_client cfg \<and> \<not> current_client_master cfg \<and> (case current_cmd_readonly cfg of None \<Rightarrow> False | Some readonly \<Rightarrow> readonly)"

datatype notify_class = NOTIFY_GENERIC | NOTIFY_STRING | NOTIFY_SET | NOTIFY_EXPIRED | NOTIFY_KEY_MISS

datatype event =
    Notify notify_class string key
  | SignalModified key
  | PropagateDel bool key
  | SignalReady key
  | RememberSlaveKey key

record server =
  db_dict :: "(key, robj) dict"
  db_expires :: "(key, int) dict"
  dirty :: nat
  stat_expiredkeys :: nat
  stat_keyspace_hits :: nat
  stat_keyspace_misses :: nat
  events :: "event list"

definition dbDictType :: "'a set_config_scheme \<Rightarrow> byte list dictType" where
  "dbDictType cfg = \<lparr>hashFunction = dictSdsHash cfg, keyCompare = dictSdsKeyCompare\<rparr>"

definition emit :: "event \<Rightarrow> server \<Rightarrow> server" where
  "emit e s = s\<lparr>events := events s @ [e]\<rparr>"

definition count_miss :: "key \<Rightarrow> server \<Rightarrow> server" where
  "count_miss key s = emit (Notify NOTIFY_KEY_MISS ''keymiss'' key) (s\<lparr>stat_keyspace_misses := stat_keyspace_misses s + 1\<rparr>)"

text \<open>Storing a value through the pointer to the entry of a key, wherever the entry is.\<close>

definition entry_store :: "('k, 'v) dict \<Rightarrow> 'k \<Rightarrow> 'v \<Rightarrow> ('k, 'v) dict" where
  "entry_store d key val =
     d\<lparr>d_ht0 := (d_ht0 d)\<lparr>ht_table := map (chain_set key val) (ht_table (d_ht0 d))\<rparr>,
       d_ht1 := (d_ht1 d)\<lparr>ht_table := map (chain_set key val) (ht_table (d_ht1 d))\<rparr>\<rparr>"

subsection \<open>Lookup and expiry\<close>

definition lookupKey :: "server \<Rightarrow> key \<Rightarrow> (robj option \<times> server) option" where
  "lookupKey s key = do {
     (de, d) \<leftarrow> dictFind (db_dict s) key;
     Some (map_option snd de, s\<lparr>db_dict := d\<rparr>)
   }"

definition getExpire :: "server \<Rightarrow> key \<Rightarrow> (int \<times> server) option" where
  "getExpire s key =
     (if dictSize (db_expires s) = 0 then Some (-1, s)
      else do {
        (de, e) \<leftarrow> dictFind (db_expires s) key;
        (case de of
           None \<Rightarrow> Some (-1, s\<lparr>db_expires := e\<rparr>)
         | Some (_, when) \<Rightarrow> do {
             (kde, d) \<leftarrow> dictFind (db_dict s) key;
             if kde = None then None else Some (when, s\<lparr>db_expires := e, db_dict := d\<rparr>)
           })
      })"

definition keyIsExpired :: "'a server_config_scheme \<Rightarrow> server \<Rightarrow> key \<Rightarrow> (bool \<times> server) option" where
  "keyIsExpired cfg s key = do {
     (when, s) \<leftarrow> getExpire s key;
     if when < 0 then Some (False, s)
     else if loading cfg then Some (False, s)
     else
       let now = (if lua_caller cfg then lua_time_start cfg
                  else if fixed_time_expire cfg > 0 then cached_mstime cfg
                  else mstime cfg)
       in Some (now > when, s)
   }"

definition dbSyncDelete :: "server \<Rightarrow> key \<Rightarrow> (bool \<times> server) option" where
  "dbSyncDelete s key = do {
     s \<leftarrow> (if dictSize (db_expires s) > 0
           then map_option (\<lambda>(_, e). s\<lparr>db_expires := e\<rparr>) (dictDelete (db_expires s) key) else Some s);
     (rc, d) \<leftarrow> dictDelete (db_dict s) key;
     Some (rc = DICT_OK, s\<lparr>db_dict := d\<rparr>)
   }"

text \<open>The value is released later by another thread; the keyspace changes at once.\<close>

definition dbAsyncDelete :: "server \<Rightarrow> key \<Rightarrow> (bool \<times> server) option" where
  "dbAsyncDelete s key = do {
     s \<leftarrow> (if dictSize (db_expires s) > 0
           then map_option (\<lambda>(_, e). s\<lparr>db_expires := e\<rparr>) (dictDelete (db_expires s) key) else Some s);
     (de, d) \<leftarrow> dictUnlink (db_dict s) key;
     Some (de \<noteq> None, s\<lparr>db_dict := d\<rparr>)
   }"

definition dbDelete :: "'a server_config_scheme \<Rightarrow> server \<Rightarrow> key \<Rightarrow> (bool \<times> server) option" where
  "dbDelete cfg s key = (if lazyfree_lazy_server_del cfg then dbAsyncDelete s key else dbSyncDelete s key)"

definition propagateExpire :: "bool \<Rightarrow> key \<Rightarrow> server \<Rightarrow> server" where
  "propagateExpire lazy key s = emit (PropagateDel lazy key) s"

definition expireIfNeeded :: "'a server_config_scheme \<Rightarrow> server \<Rightarrow> key \<Rightarrow> (bool \<times> server) option" where
  "expireIfNeeded cfg s key = do {
     (expired, s) \<leftarrow> keyIsExpired cfg s key;
     if \<not> expired then Some (False, s)
     else if masterhost cfg then Some (True, s)
     else do {
       let s = s\<lparr>stat_expiredkeys := stat_expiredkeys s + 1\<rparr>;
       let s = propagateExpire (lazyfree_lazy_expire cfg) key s;
       let s = emit (Notify NOTIFY_EXPIRED ''expired'' key) s;
       (retval, s) \<leftarrow> (if lazyfree_lazy_expire cfg then dbAsyncDelete s key else dbSyncDelete s key);
       Some (retval, if retval then emit (SignalModified key) s else s)
     }
   }"

definition lookupKeyReadWithFlags :: "'a server_config_scheme \<Rightarrow> server \<Rightarrow> key \<Rightarrow> (robj option \<times> server) option" where
  "lookupKeyReadWithFlags cfg s key = do {
     (expired, s) \<leftarrow> expireIfNeeded cfg s key;
     if expired \<and> \<not> masterhost cfg then Some (None, count_miss key s)
     else if expired \<and> readonly_client cfg then Some (None, count_miss key s)
     else do {
       (val, s) \<leftarrow> lookupKey s key;
       (case val of
          None \<Rightarrow> Some (None, count_miss key s)
        | Some v \<Rightarrow> Some (Some v, s\<lparr>stat_keyspace_hits := stat_keyspace_hits s + 1\<rparr>))
     }
   }"

definition lookupKeyRead :: "'a server_config_scheme \<Rightarrow> server \<Rightarrow> key \<Rightarrow> (robj option \<times> server) option" where
  "lookupKeyRead cfg s key = lookupKeyReadWithFlags cfg s key"

definition lookupKeyWriteWithFlags :: "'a server_config_scheme \<Rightarrow> server \<Rightarrow> key \<Rightarrow> (robj option \<times> server) option" where
  "lookupKeyWriteWithFlags cfg s key = do {
     (_, s) \<leftarrow> expireIfNeeded cfg s key;
     lookupKey s key
   }"

definition lookupKeyWrite :: "'a server_config_scheme \<Rightarrow> server \<Rightarrow> key \<Rightarrow> (robj option \<times> server) option" where
  "lookupKeyWrite cfg s key = lookupKeyWriteWithFlags cfg s key"

subsection \<open>Stores\<close>

definition dbAdd :: "'a server_config_scheme \<Rightarrow> server \<Rightarrow> key \<Rightarrow> robj \<Rightarrow> server option" where
  "dbAdd cfg s key val = do {
     (retval, d) \<leftarrow> dictAdd (dict_can_resize cfg) val (db_dict s) key val;
     if retval \<noteq> DICT_OK then None
     else
       let s = s\<lparr>db_dict := d\<rparr>
       in Some (if robj_type val \<in> {OBJ_LIST, OBJ_ZSET, OBJ_STREAM} then emit (SignalReady key) s else s)
   }"

definition dbOverwrite :: "server \<Rightarrow> key \<Rightarrow> robj \<Rightarrow> server option" where
  "dbOverwrite s key val = do {
     (de, d) \<leftarrow> dictFind (db_dict s) key;
     if de = None then None else Some (s\<lparr>db_dict := entry_store d key val\<rparr>)
   }"

text \<open>An object changed in place is stored back into the entry that points to it.\<close>

definition obj_update :: "server \<Rightarrow> key \<Rightarrow> robj \<Rightarrow> server" where
  "obj_update s key val = s\<lparr>db_dict := entry_store (db_dict s) key val\<rparr>"

definition removeExpire :: "server \<Rightarrow> key \<Rightarrow> (bool \<times> server) option" where
  "removeExpire s key = do {
     (de, d) \<leftarrow> dictFind (db_dict s) key;
     if de = None then None
     else do {
       (rc, e) \<leftarrow> dictDelete (db_expires s) key;
       Some (rc = DICT_OK, s\<lparr>db_dict := d, db_expires := e\<rparr>)
     }
   }"

definition setExpire :: "'a server_config_scheme \<Rightarrow> server \<Rightarrow> key \<Rightarrow> int \<Rightarrow> server option" where
  "setExpire cfg s key when = do {
     (kde, d) \<leftarrow> dictFind (db_dict s) key;
     if kde = None then None
     else do {
       (de, e) \<leftarrow> dictAddOrFind (dict_can_resize cfg) 0 (db_expires s) key;
       r \<leftarrow> de;
       let s = s\<lparr>db_dict := d, db_expires := dictSetVal e r when\<rparr>;
       Some (if masterhost cfg \<and> \<not> repl_slave_ro cfg \<and> \<not> master_client cfg then emit (RememberSlaveKey key) s else s)
     }
   }"

definition genericSetKey ::
  "'a server_config_scheme \<Rightarrow> server \<Rightarrow> key \<Rightarrow> robj \<Rightarrow> bool \<Rightarrow> bool \<Rightarrow> server option" where
  "genericSetKey cfg s key val keepttl signal = do {
     (old, s) \<leftarrow> lookupKeyWrite cfg s key;
     s \<leftarrow> (if old = None then dbAdd cfg s key val else dbOverwrite s key val);
     s \<leftarrow> (if \<not> keepttl then map_option snd (removeExpire s key) else Some s);
     Some (if signal then emit (SignalModified key) s else s)
   }"

definition setKey :: "'a server_config_scheme \<Rightarrow> server \<Rightarrow> key \<Rightarrow> robj \<Rightarrow> server option" where
  "setKey cfg s key val = genericSetKey cfg s key val False True"

definition dbExists :: "server \<Rightarrow> key \<Rightarrow> (bool \<times> server) option" where
  "dbExists s key = do {
     (de, d) \<leftarrow> dictFind (db_dict s) key;
     Some (de \<noteq> None, s\<lparr>db_dict := d\<rparr>)
   }"

section \<open>Lemmas\<close>

subsection \<open>Storing through an entry\<close>

lemma chain_set_map: "chain_set key val = map (entry_set key val)"
  by (rule ext) (simp add: chain_set_def)

lemma entry_store_entries: "dict_entries (entry_store d key val) = map (entry_set key val) (dict_entries d)"
  by (simp add: entry_store_def dict_entries_def chain_set_map map_concat)

lemma ht_wf_entry_store:
  assumes "ht_wf hash ht"
  shows "ht_wf hash (ht\<lparr>ht_table := map (chain_set key val) (ht_table ht)\<rparr>)"
proof -
  have l: "length (concat (map (chain_set key val) t)) = length (concat t)" for t :: "('a \<times> 'b) list list"
    by (induction t) (simp_all add: chain_set_def)
  have b: "bucket_index (ht\<lparr>ht_table := t\<rparr>) h = bucket_index ht h" for t h by (simp add: bucket_index_def)
  have "bucket_index ht (hash (fst e)) = i" if "i < ht_size ht" "e \<in> set (chain_set key val (ht_table ht ! i))" for i e
    using ht_wf_bucket [OF assms that(1)] that(2) by (cases e) (auto simp: chain_set_def split: if_splits)
  then show ?thesis
    using assms unfolding ht_wf_def by (auto simp: l b)
qed

lemma entry_store_spec:
  assumes "dict_wf d" "key \<in> dom (dict_map d)"
  shows "dict_wf (entry_store d key val) \<and> d_type (entry_store d key val) = d_type d \<and>
    dict_map (entry_store d key val) = (dict_map d)(key \<mapsto> val)"
proof -
  have m: "dict_map (entry_store d key val) = (dict_map d)(key \<mapsto> val)"
    using assms(2) unfolding dict_map_def entry_store_entries
    by (intro map_of_entry_set) (simp add: dom_map_of_conv_image_fst)
  have t: "d_type (entry_store d key val) = d_type d" "dictIsRehashing (entry_store d key val) = dictIsRehashing d"
    "d_rehashidx (entry_store d key val) = d_rehashidx d"
    by (simp_all add: entry_store_def dictIsRehashing_def)
  have r: "dictReset\<lparr>ht_table := map (chain_set key val) (ht_table dictReset)\<rparr> = dictReset"
    by (simp add: dictReset_def)
  have "dict_wf (entry_store d key val)"
  proof (cases "dictIsRehashing d")
    case True
    then have l: "length (ht_table (d_ht0 d)) = ht_size (d_ht0 d)" "d_rehashidx d \<le> int (ht_size (d_ht0 d))"
      using assms(1) ht_wf_length by (auto simp: dict_wf_def)
    have e: "map (chain_set key val) (ht_table (d_ht0 d)) ! i = []" if "ht_table (d_ht0 d) ! i = []" "i < nat (d_rehashidx d)" for i
    proof -
      have "i < length (ht_table (d_ht0 d))" using l that(2) by linarith
      then show ?thesis using that(1) by (simp add: chain_set_def)
    qed
    show ?thesis
      using True assms(1) ht_wf_entry_store t e unfolding dict_wf_def entry_store_entries t map_fst_entry_set
      by (auto simp: entry_store_def)
  next
    case False
    then have "d_ht1 d = dictReset" "d_ht0 d = dictReset \<or> ht_wf (hashFunction (d_type d)) (d_ht0 d)"
      using assms(1) by (auto simp: dict_wf_def)
    moreover from this(2) have "d_ht0 (entry_store d key val) = dictReset \<or>
        ht_wf (hashFunction (d_type d)) (d_ht0 (entry_store d key val))"
      using ht_wf_entry_store [of "hashFunction (d_type d)" "d_ht0 d" key val] r by (auto simp: entry_store_def)
    ultimately show ?thesis
      using False assms(1) r unfolding dict_wf_def entry_store_entries t map_fst_entry_set
      by (simp add: entry_store_def)
  qed
  then show ?thesis using m t by simp
qed

subsection \<open>The keyspace of a server\<close>

definition ks_val :: "server \<Rightarrow> key \<rightharpoonup> robj" where
  "ks_val s = dict_map (db_dict s)"

definition ks_exp :: "server \<Rightarrow> key \<rightharpoonup> int" where
  "ks_exp s = dict_map (db_expires s)"

fun obj_wf :: "'a set_config_scheme \<Rightarrow> robj \<Rightarrow> bool" where
  "obj_wf cfg (ObjString o') = str_wf o'"
| "obj_wf cfg (ObjSet o') = set_wf cfg o'"
| "obj_wf cfg (ObjOther t) = (t \<notin> {OBJ_STRING, OBJ_SET})"

definition db_wf :: "'a set_config_scheme \<Rightarrow> server \<Rightarrow> bool" where
  "db_wf cfg s \<longleftrightarrow>
     dict_wf (db_dict s) \<and> d_type (db_dict s) = dbDictType cfg \<and>
     dict_wf (db_expires s) \<and> d_type (db_expires s) = dbDictType cfg \<and>
     dom (ks_exp s) \<subseteq> dom (ks_val s) \<and> (\<forall>k v. ks_val s k = Some v \<longrightarrow> obj_wf cfg v)"

definition db_room :: "server \<Rightarrow> bool" where
  "db_room s \<longleftrightarrow> card (dom (ks_val s)) < 2 ^ 60"

text \<open>Only the two tables differ.\<close>

definition rest_same :: "server \<Rightarrow> server \<Rightarrow> bool" where
  "rest_same s s' \<longleftrightarrow> s' = s\<lparr>db_dict := db_dict s', db_expires := db_expires s'\<rparr>"

definition ks_same :: "server \<Rightarrow> server \<Rightarrow> bool" where
  "ks_same s s' \<longleftrightarrow> rest_same s s' \<and> ks_val s' = ks_val s \<and> ks_exp s' = ks_exp s"

lemma rest_sameI: "s' = s\<lparr>db_dict := d, db_expires := e\<rparr> \<Longrightarrow> rest_same s s'"
  by (simp add: rest_same_def)

lemma rest_same_fields:
  "rest_same s s' \<Longrightarrow> dirty s' = dirty s \<and> events s' = events s"
  by (metis rest_same_def server.select_convs(3,7) server.update_convs(1,2) server.surjective)

lemma rest_same_trans: "rest_same a b \<Longrightarrow> rest_same b c \<Longrightarrow> rest_same a c"
  unfolding rest_same_def by (metis server.update_convs(1,2) server.surjective)

lemma ks_same_trans: "ks_same a b \<Longrightarrow> ks_same b c \<Longrightarrow> ks_same a c"
  using rest_same_trans by (auto simp: ks_same_def)

lemma ks_same_refl [simp]: "ks_same s s"
  by (simp add: ks_same_def rest_same_def)

lemma dbDictType_ok [simp]: "dictType_ok (dbDictType cfg)"
  by (simp add: dictType_ok_def dbDictType_def dictSdsKeyCompare_eq)

lemma db_wf_dicts:
  assumes "db_wf cfg s"
  shows "dict_wf (db_dict s)" "dictType_ok (d_type (db_dict s))" "dict_wf (db_expires s)"
    "dictType_ok (d_type (db_expires s))" "d_type (db_dict s) = dbDictType cfg" "d_type (db_expires s) = dbDictType cfg"
  using assms by (simp_all add: db_wf_def)

lemma db_wf_obj: "db_wf cfg s \<Longrightarrow> ks_val s k = Some v \<Longrightarrow> obj_wf cfg v"
  by (simp add: db_wf_def)

lemma db_wf_exp: "db_wf cfg s \<Longrightarrow> ks_exp s k = Some w \<Longrightarrow> ks_val s k \<noteq> None"
  by (auto simp: db_wf_def)

lemma ks_upd [simp]:
  "ks_val (s\<lparr>dirty := n\<rparr>) = ks_val s" "ks_exp (s\<lparr>dirty := n\<rparr>) = ks_exp s"
  "ks_val (s\<lparr>stat_expiredkeys := n\<rparr>) = ks_val s" "ks_exp (s\<lparr>stat_expiredkeys := n\<rparr>) = ks_exp s"
  "ks_val (s\<lparr>stat_keyspace_hits := n\<rparr>) = ks_val s" "ks_exp (s\<lparr>stat_keyspace_hits := n\<rparr>) = ks_exp s"
  "ks_val (emit e s) = ks_val s" "ks_exp (emit e s) = ks_exp s" "dirty (emit e s) = dirty s"
  "events (emit e s) = events s @ [e]"
  "ks_val (count_miss k s) = ks_val s" "ks_exp (count_miss k s) = ks_exp s" "dirty (count_miss k s) = dirty s"
  by (simp_all add: ks_val_def ks_exp_def emit_def count_miss_def)

lemma db_wf_upd [simp]:
  "db_wf cfg (s\<lparr>dirty := n\<rparr>) = db_wf cfg s" "db_wf cfg (s\<lparr>stat_expiredkeys := n\<rparr>) = db_wf cfg s"
  "db_wf cfg (s\<lparr>stat_keyspace_hits := n\<rparr>) = db_wf cfg s"
  "db_wf cfg (emit e s) = db_wf cfg s" "db_wf cfg (count_miss k s) = db_wf cfg s"
  by (simp_all add: db_wf_def ks_val_def ks_exp_def emit_def count_miss_def)

text \<open>A lookup in either table keeps the keyspace.\<close>

lemma find_dict:
  assumes "db_wf cfg s"
  obtains d where "dictFind (db_dict s) k = Some (map_option (Pair k) (ks_val s k), d)"
    "db_wf cfg (s\<lparr>db_dict := d\<rparr>)" "ks_same s (s\<lparr>db_dict := d\<rparr>)" "dict_map d = ks_val s" "dict_wf d" "d_type d = dbDictType cfg"
proof -
  note w = db_wf_dicts [OF assms]
  from w(1,2) obtain d where d: "dictFind (db_dict s) k = Some (map_option (Pair k) (dict_map (db_dict s) k), d)"
      "dict_wf d" "rehash_keeps (db_dict s) d" by (rule dictFind_spec [where key = k])
  have m: "dict_map d = ks_val s" using rehash_keeps_map [OF d(3) w(1)] by (simp add: ks_val_def)
  have t: "d_type d = dbDictType cfg" using d(3) w(5) by (simp add: rehash_keeps_def)
  have "ks_same s (s\<lparr>db_dict := d\<rparr>)"
    using m by (simp add: ks_same_def rest_same_def ks_val_def ks_exp_def)
  moreover have "db_wf cfg (s\<lparr>db_dict := d\<rparr>)"
    using assms d(2) t m by (simp add: db_wf_def ks_val_def ks_exp_def)
  ultimately show thesis using d m t by (intro that [of d]) (simp_all add: ks_val_def)
qed

lemma find_expires:
  assumes "db_wf cfg s"
  obtains e where "dictFind (db_expires s) k = Some (map_option (Pair k) (ks_exp s k), e)"
    "db_wf cfg (s\<lparr>db_expires := e\<rparr>)" "ks_same s (s\<lparr>db_expires := e\<rparr>)"
proof -
  note w = db_wf_dicts [OF assms]
  from w(3,4) obtain e where e: "dictFind (db_expires s) k = Some (map_option (Pair k) (dict_map (db_expires s) k), e)"
      "dict_wf e" "rehash_keeps (db_expires s) e" by (rule dictFind_spec [where key = k])
  have m: "dict_map e = ks_exp s" using rehash_keeps_map [OF e(3) w(3)] by (simp add: ks_exp_def)
  have "ks_same s (s\<lparr>db_expires := e\<rparr>)"
    using m by (simp add: ks_same_def rest_same_def ks_val_def ks_exp_def)
  moreover have "db_wf cfg (s\<lparr>db_expires := e\<rparr>)"
    using assms e(2,3) w(6) m by (simp add: db_wf_def ks_val_def ks_exp_def rehash_keeps_def)
  ultimately show thesis using e by (intro that [of e]) (simp_all add: ks_exp_def)
qed

lemma lookupKey_spec:
  assumes "db_wf cfg s"
  shows "\<exists>s'. lookupKey s k = Some (ks_val s k, s') \<and> db_wf cfg s' \<and> ks_same s s'"
  using assms by (rule find_dict [where k = k]) (auto simp: lookupKey_def option.map_comp comp_def option.map_ident)

lemma getExpire_spec:
  assumes "db_wf cfg s"
  shows "\<exists>s'. getExpire s k = Some (case ks_exp s k of None \<Rightarrow> -1 | Some w \<Rightarrow> w, s') \<and> db_wf cfg s' \<and> ks_same s s'"
proof (cases "dictSize (db_expires s) = 0")
  case True
  then have "ks_exp s = Map.empty"
    using dict_size_card [OF db_wf_dicts(3) [OF assms]] by (simp add: ks_exp_def)
  then show ?thesis using True assms by (simp add: getExpire_def)
next
  case False
  from assms obtain e where e: "dictFind (db_expires s) k = Some (map_option (Pair k) (ks_exp s k), e)"
    "db_wf cfg (s\<lparr>db_expires := e\<rparr>)" "ks_same s (s\<lparr>db_expires := e\<rparr>)" by (rule find_expires [where k = k])
  show ?thesis
  proof (cases "ks_exp s k")
    case None
    then show ?thesis using False e by (auto simp: getExpire_def)
  next
    case (Some w)
    from e(2) obtain d where d: "dictFind (db_dict s) k = Some (map_option (Pair k) (ks_val s k), d)"
      "db_wf cfg (s\<lparr>db_expires := e, db_dict := d\<rparr>)" "ks_same (s\<lparr>db_expires := e\<rparr>) (s\<lparr>db_expires := e, db_dict := d\<rparr>)"
      by (rule find_dict [where k = k]) (simp add: ks_val_def)
    then show ?thesis
      using False e Some db_wf_exp [OF assms Some] ks_same_trans [OF e(3) d(3)] by (auto simp: getExpire_def)
  qed
qed

subsection \<open>Expiry\<close>

definition virtual_now :: "'a server_config_scheme \<Rightarrow> int" where
  "virtual_now cfg =
     (if lua_caller cfg then lua_time_start cfg
      else if fixed_time_expire cfg > 0 then cached_mstime cfg else mstime cfg)"

definition expired :: "'a server_config_scheme \<Rightarrow> server \<Rightarrow> key \<Rightarrow> bool" where
  "expired cfg s k \<longleftrightarrow> \<not> loading cfg \<and> (\<exists>w. ks_exp s k = Some w \<and> 0 \<le> w \<and> w < virtual_now cfg)"

text \<open>The logical value and time to live of a key.\<close>

definition live_val :: "'a server_config_scheme \<Rightarrow> server \<Rightarrow> key \<rightharpoonup> robj" where
  "live_val cfg s k = (if expired cfg s k then None else ks_val s k)"

definition live_exp :: "'a server_config_scheme \<Rightarrow> server \<Rightarrow> key \<rightharpoonup> int" where
  "live_exp cfg s k = (if expired cfg s k then None else ks_exp s k)"

lemma keyIsExpired_spec:
  assumes "db_wf cfg s"
  shows "\<exists>s'. keyIsExpired cfg s k = Some (expired cfg s k, s') \<and> db_wf cfg s' \<and> ks_same s s'"
  using getExpire_spec [OF assms, of k]
  by (auto simp: keyIsExpired_def expired_def virtual_now_def Let_def split: option.splits)

text \<open>Both deletions remove the key from both tables.\<close>

lemma delete_expires:
  assumes "db_wf cfg s"
  obtains s' where
    "(if dictSize (db_expires s) > 0
      then map_option (\<lambda>(_, e). s\<lparr>db_expires := e\<rparr>) (dictDelete (db_expires s) k) else Some s) = Some s'"
    "db_wf cfg s'" "rest_same s s'" "ks_val s' = ks_val s" "ks_exp s' = (ks_exp s)(k := None)" "db_dict s' = db_dict s"
proof (cases "dictSize (db_expires s) = 0")
  case True
  then have "ks_exp s = Map.empty"
    using dict_size_card [OF db_wf_dicts(3) [OF assms]] by (simp add: ks_exp_def)
  then show thesis using True assms by (intro that [of s]) (simp_all add: rest_same_def)
next
  case False
  note w = db_wf_dicts [OF assms]
  from w(3,4) obtain e where e: "dictDelete (db_expires s) k = Some (if dict_map (db_expires s) k = None then DICT_ERR else DICT_OK, e)"
      "dict_wf e" "d_type e = d_type (db_expires s)" "dict_map e = (dict_map (db_expires s))(k := None)"
    by (rule dictDelete_spec [where key = k])
  then have "db_wf cfg (s\<lparr>db_expires := e\<rparr>)"
    using assms w(6) by (auto simp: db_wf_def ks_val_def ks_exp_def)
  then show thesis
    using False e by (intro that [of "s\<lparr>db_expires := e\<rparr>"]) (simp_all add: rest_same_def ks_val_def ks_exp_def)
qed

definition delete_spec :: "'a set_config_scheme \<Rightarrow> server \<Rightarrow> key \<Rightarrow> (bool \<times> server) option \<Rightarrow> bool" where
  "delete_spec cfg s k r \<longleftrightarrow> (\<exists>s'. r = Some (k \<in> dom (ks_val s), s') \<and> db_wf cfg s' \<and> rest_same s s' \<and>
     ks_val s' = (ks_val s)(k := None) \<and> ks_exp s' = (ks_exp s)(k := None))"

lemma delete_dict:
  assumes s1: "db_wf cfg s1" "rest_same s s1" "ks_val s1 = ks_val s" "ks_exp s1 = (ks_exp s)(k := None)"
    and d: "dict_wf d" "d_type d = d_type (db_dict s1)" "dict_map d = (ks_val s)(k := None)"
  shows "db_wf cfg (s1\<lparr>db_dict := d\<rparr>) \<and> rest_same s (s1\<lparr>db_dict := d\<rparr>) \<and>
    ks_val (s1\<lparr>db_dict := d\<rparr>) = (ks_val s)(k := None) \<and> ks_exp (s1\<lparr>db_dict := d\<rparr>) = (ks_exp s)(k := None)"
proof -
  have "rest_same s1 (s1\<lparr>db_dict := d\<rparr>)" by (simp add: rest_same_def)
  then have "rest_same s (s1\<lparr>db_dict := d\<rparr>)" using rest_same_trans s1(2) by blast
  moreover have "ks_exp (s1\<lparr>db_dict := d\<rparr>) = (ks_exp s)(k := None)" using s1(4) by (simp add: ks_exp_def)
  moreover have "ks_val (s1\<lparr>db_dict := d\<rparr>) = (ks_val s)(k := None)" using d(3) by (simp add: ks_val_def)
  ultimately show ?thesis
    using s1 d by (auto simp: db_wf_def)
qed

lemma dbSyncDelete_spec:
  assumes "db_wf cfg s"
  shows "delete_spec cfg s k (dbSyncDelete s k)"
proof -
  obtain s1 where s1: "(if dictSize (db_expires s) > 0
      then map_option (\<lambda>(_, e). s\<lparr>db_expires := e\<rparr>) (dictDelete (db_expires s) k) else Some s) = Some s1"
    "db_wf cfg s1" "rest_same s s1" "ks_val s1 = ks_val s" "ks_exp s1 = (ks_exp s)(k := None)" "db_dict s1 = db_dict s"
    using assms by (rule delete_expires [where k = k])
  note w = db_wf_dicts [OF s1(2)]
  from w(1,2) obtain d where d: "dictDelete (db_dict s1) k = Some (if dict_map (db_dict s1) k = None then DICT_ERR else DICT_OK, d)"
      "dict_wf d" "d_type d = d_type (db_dict s1)" "dict_map d = (dict_map (db_dict s1))(k := None)"
    by (rule dictDelete_spec [where key = k])
  have m: "dict_map (db_dict s1) = ks_val s" using s1(4) by (simp add: ks_val_def)
  note r = delete_dict [OF s1(2-5) d(2,3)]
  show ?thesis
    using r d(1,4) m unfolding delete_spec_def dbSyncDelete_def s1(1) by auto
qed

lemma dbAsyncDelete_spec:
  assumes "db_wf cfg s"
  shows "delete_spec cfg s k (dbAsyncDelete s k)"
proof -
  obtain s1 where s1: "(if dictSize (db_expires s) > 0
      then map_option (\<lambda>(_, e). s\<lparr>db_expires := e\<rparr>) (dictDelete (db_expires s) k) else Some s) = Some s1"
    "db_wf cfg s1" "rest_same s s1" "ks_val s1 = ks_val s" "ks_exp s1 = (ks_exp s)(k := None)" "db_dict s1 = db_dict s"
    using assms by (rule delete_expires [where k = k])
  note w = db_wf_dicts [OF s1(2)]
  from w(1,2) obtain d where d: "dictGenericDelete (db_dict s1) k = Some (map_option (Pair k) (dict_map (db_dict s1) k), d)"
      "dict_wf d" "d_type d = d_type (db_dict s1)" "dict_map d = (dict_map (db_dict s1))(k := None)"
    by (rule dictGenericDelete_spec [where key = k])
  have m: "dict_map (db_dict s1) = ks_val s" using s1(4) by (simp add: ks_val_def)
  note r = delete_dict [OF s1(2-5) d(2,3)]
  show ?thesis
    using r d(1,4) m unfolding delete_spec_def dbAsyncDelete_def dictUnlink_def s1(1) by auto
qed

lemma dbDelete_spec: "db_wf cfg s \<Longrightarrow> delete_spec cfg s k (dbDelete cfg s k)"
  by (simp add: dbDelete_def dbSyncDelete_spec dbAsyncDelete_spec)

text \<open>What an access to a key does on a master: it removes the key if it has expired.\<close>

definition expire_events :: "'a server_config_scheme \<Rightarrow> key \<Rightarrow> event list" where
  "expire_events cfg k = [PropagateDel (lazyfree_lazy_expire cfg) k, Notify NOTIFY_EXPIRED ''expired'' k, SignalModified k]"

definition purged :: "'a server_config_scheme \<Rightarrow> key \<Rightarrow> server \<Rightarrow> server \<Rightarrow> bool" where
  "purged cfg k s s' \<longleftrightarrow> db_wf cfg s' \<and> dirty s' = dirty s \<and>
     (if masterhost cfg then ks_val s' = ks_val s \<and> ks_exp s' = ks_exp s \<and> events s' = events s
      else ks_val s' = (ks_val s)(k := live_val cfg s k) \<and> ks_exp s' = (ks_exp s)(k := live_exp cfg s k) \<and>
           events s' = events s @ (if expired cfg s k then expire_events cfg k else []))"

lemma ks_same_purged: "ks_same s1 s2 \<Longrightarrow> db_wf cfg s2 \<Longrightarrow> purged cfg k s s1 \<Longrightarrow> purged cfg k s s2"
  using rest_same_fields [of s1 s2] by (simp add: purged_def ks_same_def)

lemma expireIfNeeded_spec:
  assumes "db_wf cfg s"
  shows "\<exists>s'. expireIfNeeded cfg s k = Some (expired cfg s k, s') \<and> purged cfg k s s'"
proof -
  obtain s1 where s1: "keyIsExpired cfg s k = Some (expired cfg s k, s1)" "db_wf cfg s1" "ks_same s s1"
    using keyIsExpired_spec [OF assms] by blast
  have f1: "dirty s1 = dirty s" "events s1 = events s" "ks_val s1 = ks_val s" "ks_exp s1 = ks_exp s"
    using s1(3) rest_same_fields by (auto simp: ks_same_def)
  show ?thesis
  proof (cases "expired cfg s k \<and> \<not> masterhost cfg")
    case False
    then show ?thesis
      using s1 f1 by (auto simp: expireIfNeeded_def purged_def live_val_def live_exp_def)
  next
    case True
    define s2 where "s2 = emit (Notify NOTIFY_EXPIRED ''expired'' k)
      (propagateExpire (lazyfree_lazy_expire cfg) k (s1\<lparr>stat_expiredkeys := stat_expiredkeys s1 + 1\<rparr>))"
    have s2: "db_wf cfg s2" "ks_val s2 = ks_val s" "ks_exp s2 = ks_exp s" "dirty s2 = dirty s"
      "events s2 = events s @ [PropagateDel (lazyfree_lazy_expire cfg) k, Notify NOTIFY_EXPIRED ''expired'' k]"
      using s1(2) f1 by (simp_all add: s2_def propagateExpire_def)
    have d: "delete_spec cfg s2 k (if lazyfree_lazy_expire cfg then dbAsyncDelete s2 k else dbSyncDelete s2 k)"
      using dbSyncDelete_spec [OF s2(1)] dbAsyncDelete_spec [OF s2(1)] by simp
    have "k \<in> dom (ks_val s)" using True db_wf_exp [OF assms, of k] by (auto simp: expired_def)
    then obtain s3 where s3: "(if lazyfree_lazy_expire cfg then dbAsyncDelete s2 k else dbSyncDelete s2 k) = Some (True, s3)"
        "db_wf cfg s3" "rest_same s2 s3" "ks_val s3 = (ks_val s)(k := None)" "ks_exp s3 = (ks_exp s)(k := None)"
      using d s2 by (auto simp: delete_spec_def)
    have "expireIfNeeded cfg s k = Some (True, emit (SignalModified k) s3)"
      using True s1(1) s3(1) by (cases "lazyfree_lazy_expire cfg") (simp_all add: expireIfNeeded_def s2_def Let_def)
    then show ?thesis
      using True s2 s3 rest_same_fields [OF s3(3)]
      by (simp add: purged_def live_val_def live_exp_def expire_events_def)
  qed
qed

lemma lookupKeyWrite_spec:
  assumes "db_wf cfg s"
  shows "\<exists>s'. lookupKeyWrite cfg s k = Some (if masterhost cfg then ks_val s k else live_val cfg s k, s') \<and> purged cfg k s s'"
proof -
  obtain s1 where s1: "expireIfNeeded cfg s k = Some (expired cfg s k, s1)" "purged cfg k s s1"
    using expireIfNeeded_spec [OF assms] by blast
  then have "db_wf cfg s1" by (simp add: purged_def)
  from lookupKey_spec [OF this, of k] obtain s2 where s2: "lookupKey s1 k = Some (ks_val s1 k, s2)" "db_wf cfg s2" "ks_same s1 s2"
    by blast
  have "ks_val s1 k = (if masterhost cfg then ks_val s k else live_val cfg s k)" using s1(2) by (auto simp: purged_def)
  then show ?thesis
    using s1 s2 ks_same_purged [OF s2(3,2) s1(2)] by (simp add: lookupKeyWrite_def lookupKeyWriteWithFlags_def)
qed

text \<open>A lookup for reading also counts a hit or a miss, and reports a miss.\<close>

definition read_purged :: "'a server_config_scheme \<Rightarrow> key \<Rightarrow> server \<Rightarrow> server \<Rightarrow> bool" where
  "read_purged cfg k s s' \<longleftrightarrow> db_wf cfg s' \<and> dirty s' = dirty s \<and>
     (if masterhost cfg then ks_val s' = ks_val s \<and> ks_exp s' = ks_exp s
      else ks_val s' = (ks_val s)(k := live_val cfg s k) \<and> ks_exp s' = (ks_exp s)(k := live_exp cfg s k))"

lemma events_count_miss [simp]: "events (count_miss k s) = events s @ [Notify NOTIFY_KEY_MISS ''keymiss'' k]"
  by (simp add: count_miss_def emit_def)

lemma lookupKeyRead_spec:
  assumes "db_wf cfg s"
  shows "\<exists>s'. lookupKeyRead cfg s k =
      Some (if masterhost cfg \<and> \<not> readonly_client cfg then ks_val s k else live_val cfg s k, s') \<and> read_purged cfg k s s' \<and>
    events s' = events s @ (if \<not> masterhost cfg \<and> expired cfg s k then expire_events cfg k else []) @
      (if (if masterhost cfg \<and> \<not> readonly_client cfg then ks_val s k else live_val cfg s k) = None
       then [Notify NOTIFY_KEY_MISS ''keymiss'' k] else [])"
proof -
  obtain s1 where s1: "expireIfNeeded cfg s k = Some (expired cfg s k, s1)" "purged cfg k s s1"
    using expireIfNeeded_spec [OF assms] by blast
  then have w1: "db_wf cfg s1" by (simp add: purged_def)
  from lookupKey_spec [OF this, of k] obtain s2 where s2: "lookupKey s1 k = Some (ks_val s1 k, s2)" "db_wf cfg s2" "ks_same s1 s2"
    by blast
  have p2: "purged cfg k s s2" using ks_same_purged [OF s2(3,2) s1(2)] .
  show ?thesis
  proof (cases "expired cfg s k \<and> (\<not> masterhost cfg \<or> readonly_client cfg)")
    case True
    then show ?thesis
      using s1 by (auto simp: lookupKeyRead_def lookupKeyReadWithFlags_def read_purged_def purged_def live_val_def)
  next
    case False
    have v: "ks_val s1 k = (if masterhost cfg \<and> \<not> readonly_client cfg then ks_val s k else live_val cfg s k)"
      using s1(2) False by (auto simp: purged_def live_val_def split: if_splits)
    show ?thesis
    proof (cases "ks_val s1 k")
      case None
      then show ?thesis using False s1(1) s2(1) p2 v
        by (auto simp: lookupKeyRead_def lookupKeyReadWithFlags_def read_purged_def purged_def)
    next
      case (Some x)
      then show ?thesis using False s1(1) s2(1) p2 v
        by (auto simp: lookupKeyRead_def lookupKeyReadWithFlags_def read_purged_def purged_def)
    qed
  qed
qed

subsection \<open>Stores\<close>

definition becomes :: "'a set_config_scheme \<Rightarrow> server \<Rightarrow> (key \<rightharpoonup> robj) \<Rightarrow> (key \<rightharpoonup> int) \<Rightarrow> bool" where
  "becomes cfg s V E \<longleftrightarrow> db_wf cfg s \<and> ks_val s = V \<and> ks_exp s = E"

lemma becomes_upd [simp]:
  "becomes cfg (s\<lparr>dirty := n\<rparr>) V E = becomes cfg s V E" "becomes cfg (emit e s) V E = becomes cfg s V E"
  by (simp_all add: becomes_def)

lemma purged_master:
  "\<not> masterhost cfg \<Longrightarrow> purged cfg k s s' \<Longrightarrow>
   becomes cfg s' ((ks_val s)(k := live_val cfg s k)) ((ks_exp s)(k := live_exp cfg s k)) \<and> dirty s' = dirty s"
  by (simp add: purged_def becomes_def)

lemma finite_ks_val [simp]: "finite (dom (ks_val s))"
  by (simp add: ks_val_def)

lemma room_small: "db_room s \<Longrightarrow> card (dom (ks_val s)) < 2 ^ 62"
  by (simp add: db_room_def)

lemma db_size:
  assumes "db_wf cfg s" "card (dom (ks_val s)) < 2 ^ 62"
  shows "dictSize (db_dict s) < 2 ^ 62" "dictSize (db_expires s) < 2 ^ 62"
proof -
  note w = db_wf_dicts [OF assms(1)]
  show "dictSize (db_dict s) < 2 ^ 62" using assms(2) dict_size_card [OF w(1)] by (simp add: ks_val_def)
  have "card (dom (ks_exp s)) \<le> card (dom (ks_val s))" using assms(1) by (intro card_mono) (auto simp: db_wf_def)
  then show "dictSize (db_expires s) < 2 ^ 62" using assms(2) dict_size_card [OF w(3)] by (simp add: ks_exp_def)
qed

lemma dbAdd_spec:
  assumes "db_wf cfg s" "db_room s" "ks_val s k = None" "obj_wf cfg v"
  shows "\<exists>s'. dbAdd cfg s k v = Some s' \<and> becomes cfg s' ((ks_val s)(k \<mapsto> v)) (ks_exp s) \<and> dirty s' = dirty s"
proof -
  note w = db_wf_dicts [OF assms(1)]
  obtain rc d where d: "dictAdd (dict_can_resize cfg) v (db_dict s) k v = Some (rc, d)" "dict_wf d" "d_type d = d_type (db_dict s)"
      "rc = DICT_OK \<longleftrightarrow> dict_map (db_dict s) k = None"
      "dict_map d = (if dict_map (db_dict s) k = None then (dict_map (db_dict s))(k \<mapsto> v) else dict_map (db_dict s))"
    using dictAdd_spec [OF w(1,2) db_size(1) [OF assms(1) room_small [OF assms(2)]], where can = "dict_can_resize cfg" and uninit = v and key = k and val = v]
    by metis
  have n: "dict_map (db_dict s) k = None" using assms(3) by (simp add: ks_val_def)
  have "becomes cfg (s\<lparr>db_dict := d\<rparr>) ((ks_val s)(k \<mapsto> v)) (ks_exp s)"
    using assms(1,4) d(2,3,5) n by (auto simp: becomes_def db_wf_def ks_val_def ks_exp_def)
  then show ?thesis using d(1,4) n by (auto simp: dbAdd_def Let_def)
qed

lemma entry_becomes:
  assumes "db_wf cfg s" "ks_val s k \<noteq> None" "obj_wf cfg v"
  shows "becomes cfg (obj_update s k v) ((ks_val s)(k \<mapsto> v)) (ks_exp s)"
proof -
  note e = entry_store_spec [OF db_wf_dicts(1) [OF assms(1)], of k v]
  have "k \<in> dom (dict_map (db_dict s))" using assms(2) by (auto simp: ks_val_def)
  then show ?thesis
    using e assms(1,3) by (auto simp: obj_update_def becomes_def db_wf_def ks_val_def ks_exp_def)
qed

lemma dirty_obj_update [simp]: "dirty (obj_update s k v) = dirty s"
  by (simp add: obj_update_def)

lemma dbOverwrite_spec:
  assumes "db_wf cfg s" "ks_val s k \<noteq> None" "obj_wf cfg v"
  shows "\<exists>s'. dbOverwrite s k v = Some s' \<and> becomes cfg s' ((ks_val s)(k \<mapsto> v)) (ks_exp s) \<and> dirty s' = dirty s"
proof -
  from assms(1) obtain d where d: "dictFind (db_dict s) k = Some (map_option (Pair k) (ks_val s k), d)"
    "db_wf cfg (s\<lparr>db_dict := d\<rparr>)" "ks_same s (s\<lparr>db_dict := d\<rparr>)" by (rule find_dict [where k = k])
  have v: "ks_val (s\<lparr>db_dict := d\<rparr>) = ks_val s" "ks_exp (s\<lparr>db_dict := d\<rparr>) = ks_exp s" using d(3) by (simp_all add: ks_same_def)
  have "becomes cfg (obj_update (s\<lparr>db_dict := d\<rparr>) k v) ((ks_val s)(k \<mapsto> v)) (ks_exp s)"
    using entry_becomes [OF d(2) _ assms(3), of k] assms(2) unfolding v by blast
  then show ?thesis using d(1) assms(2) by (auto simp: dbOverwrite_def obj_update_def)
qed

lemma removeExpire_spec:
  assumes "db_wf cfg s" "ks_val s k \<noteq> None"
  shows "\<exists>s'. removeExpire s k = Some (ks_exp s k \<noteq> None, s') \<and> becomes cfg s' (ks_val s) ((ks_exp s)(k := None)) \<and>
    dirty s' = dirty s"
proof -
  from assms(1) obtain d where d: "dictFind (db_dict s) k = Some (map_option (Pair k) (ks_val s k), d)"
    "dict_map d = ks_val s" "dict_wf d" "d_type d = dbDictType cfg" by (rule find_dict [where k = k])
  note w = db_wf_dicts [OF assms(1)]
  from w(3,4) obtain e where e: "dictDelete (db_expires s) k = Some (if dict_map (db_expires s) k = None then DICT_ERR else DICT_OK, e)"
      "dict_wf e" "d_type e = d_type (db_expires s)" "dict_map e = (dict_map (db_expires s))(k := None)"
    by (rule dictDelete_spec [where key = k])
  have "becomes cfg (s\<lparr>db_dict := d, db_expires := e\<rparr>) (ks_val s) ((ks_exp s)(k := None))"
    using assms(1) d(2-4) e(2-4) w(6) by (auto simp: becomes_def db_wf_def ks_val_def ks_exp_def)
  then show ?thesis using d(1) e(1) assms(2) by (auto simp: removeExpire_def ks_exp_def)
qed

lemma dictAddOrFind_spec:
  assumes "dict_wf d" "dictType_ok (d_type d)" "dictSize d < 2 ^ 62"
  obtains r d' where "dictAddOrFind can u d k = Some (Some r, d')" "dict_wf (dictSetVal d' r v)"
    "d_type (dictSetVal d' r v) = d_type d" "dict_map (dictSetVal d' r v) = (dict_map d)(k \<mapsto> v)"
  using assms
proof (cases rule: dictAddRaw_spec [where can = can and uninit = u and key = k])
  case (added second idx d')
  then show ?thesis
    using dictSetVal_spec [OF added(3,7), of v]
    by (intro that [of "(second, idx, k)" d']) (simp_all add: dictAddOrFind_def)
next
  case (present second idx d')
  then show ?thesis
    using dictSetVal_spec [OF present(3,5), of v] rehash_keeps_map [OF present(4) assms(1)]
    by (intro that [of "(second, idx, k)" d']) (simp_all add: dictAddOrFind_def rehash_keeps_def)
qed

lemma setExpire_spec:
  assumes "db_wf cfg s" "card (dom (ks_val s)) < 2 ^ 62" "ks_val s k \<noteq> None"
  shows "\<exists>s'. setExpire cfg s k w = Some s' \<and> becomes cfg s' (ks_val s) ((ks_exp s)(k \<mapsto> w)) \<and> dirty s' = dirty s"
proof -
  from assms(1) obtain d where d: "dictFind (db_dict s) k = Some (map_option (Pair k) (ks_val s k), d)"
    "dict_map d = ks_val s" "dict_wf d" "d_type d = dbDictType cfg" by (rule find_dict [where k = k])
  note ws = db_wf_dicts [OF assms(1)]
  from ws(3,4) db_size(2) [OF assms(1,2)] obtain r e where e: "dictAddOrFind (dict_can_resize cfg) 0 (db_expires s) k = Some (Some r, e)"
      "dict_wf (dictSetVal e r w)" "d_type (dictSetVal e r w) = d_type (db_expires s)"
      "dict_map (dictSetVal e r w) = (dict_map (db_expires s))(k \<mapsto> w)"
    by (rule dictAddOrFind_spec [where can = "dict_can_resize cfg" and u = 0 and k = k and v = w])
  have "becomes cfg (s\<lparr>db_dict := d, db_expires := dictSetVal e r w\<rparr>) (ks_val s) ((ks_exp s)(k \<mapsto> w))"
    using assms(1,3) d(2-4) e(2-4) ws(6) by (auto simp: becomes_def db_wf_def ks_val_def ks_exp_def)
  then show ?thesis using d(1) e(1) assms(3) by (auto simp: setExpire_def Let_def)
qed

lemma room_upd: "db_room s \<Longrightarrow> ks_val s' = (ks_val s)(k := v) \<Longrightarrow> ks_val s' k = None \<or> ks_val s k \<noteq> None \<Longrightarrow> db_room s'"
proof -
  assume a: "db_room s" "ks_val s' = (ks_val s)(k := v)" "ks_val s' k = None \<or> ks_val s k \<noteq> None"
  have "dom (ks_val s') \<subseteq> dom (ks_val s)" using a(2,3) by (auto split: if_splits)
  then have "card (dom (ks_val s')) \<le> card (dom (ks_val s))" by (intro card_mono) auto
  then show "db_room s'" using a(1) by (simp add: db_room_def)
qed

lemma live_dom: "live_val cfg s k \<noteq> None \<Longrightarrow> ks_val s k \<noteq> None"
  by (auto simp: live_val_def split: if_splits)

lemma room_purged:
  assumes "db_room s" "becomes cfg s' ((ks_val s)(k := live_val cfg s k)) E"
  shows "db_room s'"
proof (rule room_upd [OF assms(1)])
  show "ks_val s' = (ks_val s)(k := live_val cfg s k)" using assms(2) by (simp add: becomes_def)
  then show "ks_val s' k = None \<or> ks_val s k \<noteq> None" using live_dom [of cfg s k] by (cases "live_val cfg s k") auto
qed

lemma genericSetKey_spec:
  assumes "db_wf cfg s" "\<not> masterhost cfg" "db_room s" "obj_wf cfg v"
  shows "\<exists>s'. genericSetKey cfg s k v keepttl signal = Some s' \<and>
    becomes cfg s' ((ks_val s)(k \<mapsto> v)) ((ks_exp s)(k := if keepttl then live_exp cfg s k else None)) \<and> dirty s' = dirty s"
proof -
  obtain s1 where s1: "lookupKeyWrite cfg s k = Some (live_val cfg s k, s1)" "purged cfg k s s1"
    using lookupKeyWrite_spec [OF assms(1), of k] assms(2) by auto
  have b1: "becomes cfg s1 ((ks_val s)(k := live_val cfg s k)) ((ks_exp s)(k := live_exp cfg s k))" "dirty s1 = dirty s"
    using purged_master [OF assms(2) s1(2)] by simp_all
  then have w1: "db_wf cfg s1" and v1: "ks_val s1 = (ks_val s)(k := live_val cfg s k)"
    and e1: "ks_exp s1 = (ks_exp s)(k := live_exp cfg s k)" by (simp_all add: becomes_def)
  have room1: "db_room s1" by (rule room_purged [OF assms(3) b1(1)])
  obtain s2 where s2: "(if live_val cfg s k = None then dbAdd cfg s1 k v else dbOverwrite s1 k v) = Some s2"
      "becomes cfg s2 ((ks_val s)(k \<mapsto> v)) ((ks_exp s)(k := live_exp cfg s k))" "dirty s2 = dirty s"
    using dbAdd_spec [OF w1 room1 _ assms(4), of k] dbOverwrite_spec [OF w1 _ assms(4), of k] b1(2) v1 e1
    by (cases "live_val cfg s k = None") auto
  then have w2: "db_wf cfg s2" and v2: "ks_val s2 = (ks_val s)(k \<mapsto> v)" "ks_exp s2 = (ks_exp s)(k := live_exp cfg s k)"
    by (simp_all add: becomes_def)
  have "\<exists>s3. (if \<not> keepttl then map_option snd (removeExpire s2 k) else Some s2) = Some s3 \<and>
      becomes cfg s3 ((ks_val s)(k \<mapsto> v)) ((ks_exp s)(k := if keepttl then live_exp cfg s k else None)) \<and> dirty s3 = dirty s"
    using removeExpire_spec [OF w2, of k] v2 s2(2,3) by auto
  then show ?thesis using s1(1) s2(1) by (auto simp: genericSetKey_def)
qed

end
