(* ===== verification/KeyCommands.thy ===== *)
theory KeyCommands
  imports Keyspace
begin

text \<open>
  The commands on keys of any type in \<open>src/redis-6.0.5/src/db.c\<close> and \<open>expire.c\<close>: DEL, UNLINK,
  EXISTS, TOUCH, TYPE, RENAME, RENAMENX, EXPIRE and its variants, TTL, PTTL and PERSIST.

  A command takes its arguments, returns its reply and the state it leaves; the loops over
  keys are those of the theory Interfaces.  The logical keyspace \<open>live\<close> is what clients of a
  master can see: the values and expire times of the keys that have not expired.  The
  commands are specified by functions on it.
\<close>

section \<open>Key commands: the program\<close>

datatype reply =
    RInt int
  | RBulk "byte list"
  | RNull
  | ROk
  | RStatus string
  | RWrongType
  | RNoKey
  | RError string
  | RArray "reply list"
  | RSet int "byte list list"

text \<open>
  \<open>RSet\<close> is the reply of the set commands: the number of elements announced in the header,
  then the elements.
\<close>

definition czero :: reply where "czero = RInt 0"
definition cone :: reply where "cone = RInt 1"

text \<open>The keys are the arguments of the command.\<close>

definition delOne :: "'a server_config_scheme \<Rightarrow> bool \<Rightarrow> server \<Rightarrow> key \<Rightarrow> (server \<times> bool) option" where
  "delOne cfg lazy s key = do {
     (_, s) \<leftarrow> expireIfNeeded cfg s key;
     (deleted, s) \<leftarrow> (if lazy then dbAsyncDelete s key else dbSyncDelete s key);
     if deleted then
       let s = emit (SignalModified key) s;
           s = emit (Notify NOTIFY_GENERIC ''del'' key) s
       in Some (s\<lparr>dirty := dirty s + 1\<rparr>, True)
     else Some (s, False)
   }"

definition delGenericCommand :: "'a server_config_scheme \<Rightarrow> bool \<Rightarrow> server \<Rightarrow> key list \<Rightarrow> (reply \<times> server) option" where
  "delGenericCommand cfg lazy s keys = do {
     (s, numdel) \<leftarrow> count_all (delOne cfg lazy) s keys;
     Some (RInt (int numdel), s)
   }"

definition delCommand :: "'a server_config_scheme \<Rightarrow> server \<Rightarrow> key list \<Rightarrow> (reply \<times> server) option" where
  "delCommand cfg s keys = delGenericCommand cfg (lazyfree_lazy_user_del cfg) s keys"

definition unlinkCommand :: "'a server_config_scheme \<Rightarrow> server \<Rightarrow> key list \<Rightarrow> (reply \<times> server) option" where
  "unlinkCommand cfg s keys = delGenericCommand cfg True s keys"

definition existsCommand :: "'a server_config_scheme \<Rightarrow> server \<Rightarrow> key list \<Rightarrow> (reply \<times> server) option" where
  "existsCommand cfg s keys = do {
     (s, count) \<leftarrow> count_all (\<lambda>s key. map_option (\<lambda>(v, s). (s, v \<noteq> None)) (lookupKeyRead cfg s key)) s keys;
     Some (RInt (int count), s)
   }"

definition touchCommand :: "'a server_config_scheme \<Rightarrow> server \<Rightarrow> key list \<Rightarrow> (reply \<times> server) option" where
  "touchCommand cfg s keys = do {
     (s, touched) \<leftarrow> count_all (\<lambda>s key. map_option (\<lambda>(v, s). (s, v \<noteq> None)) (lookupKeyRead cfg s key)) s keys;
     Some (RInt (int touched), s)
   }"

text \<open>The name of a module type comes from the module.\<close>

definition getObjectTypeName :: "string \<Rightarrow> robj option \<Rightarrow> string" where
  "getObjectTypeName module_name o' =
     (case o' of
        None \<Rightarrow> ''none''
      | Some ob \<Rightarrow>
          (case robj_type ob of
             OBJ_STRING \<Rightarrow> ''string'' | OBJ_LIST \<Rightarrow> ''list'' | OBJ_SET \<Rightarrow> ''set'' | OBJ_ZSET \<Rightarrow> ''zset''
           | OBJ_HASH \<Rightarrow> ''hash'' | OBJ_STREAM \<Rightarrow> ''stream'' | OBJ_MODULE \<Rightarrow> module_name))"

definition typeCommand :: "'a server_config_scheme \<Rightarrow> string \<Rightarrow> server \<Rightarrow> key \<Rightarrow> (reply \<times> server) option" where
  "typeCommand cfg module_name s key = do {
     (o', s) \<leftarrow> lookupKeyReadWithFlags cfg s key;
     Some (RStatus (getObjectTypeName module_name o'), s)
   }"

definition renameGenericCommand ::
  "'a server_config_scheme \<Rightarrow> server \<Rightarrow> key \<Rightarrow> key \<Rightarrow> bool \<Rightarrow> (reply \<times> server) option" where
  "renameGenericCommand cfg s src dst nx = do {
     let samekey = (src = dst);
     (o', s) \<leftarrow> lookupKeyWrite cfg s src;
     (case o' of
        None \<Rightarrow> Some (RNoKey, s)
      | Some ob \<Rightarrow>
          if samekey then Some (if nx then czero else ROk, s)
          else do {
            (expire, s) \<leftarrow> getExpire s src;
            (old, s) \<leftarrow> lookupKeyWrite cfg s dst;
            if old \<noteq> None \<and> nx then Some (czero, s)
            else do {
              s \<leftarrow> (if old \<noteq> None then map_option snd (dbDelete cfg s dst) else Some s);
              s \<leftarrow> dbAdd cfg s dst ob;
              s \<leftarrow> (if expire \<noteq> -1 then setExpire cfg s dst expire else Some s);
              (_, s) \<leftarrow> dbDelete cfg s src;
              let s = emit (SignalModified src) s;
              let s = emit (SignalModified dst) s;
              let s = emit (Notify NOTIFY_GENERIC ''rename_from'' src) s;
              let s = emit (Notify NOTIFY_GENERIC ''rename_to'' dst) s;
              Some (if nx then cone else ROk, s\<lparr>dirty := dirty s + 1\<rparr>)
            }
          })
   }"

definition renameCommand :: "'a server_config_scheme \<Rightarrow> server \<Rightarrow> key \<Rightarrow> key \<Rightarrow> (reply \<times> server) option" where
  "renameCommand cfg s src dst = renameGenericCommand cfg s src dst False"

definition renamenxCommand :: "'a server_config_scheme \<Rightarrow> server \<Rightarrow> key \<Rightarrow> key \<Rightarrow> (reply \<times> server) option" where
  "renamenxCommand cfg s src dst = renameGenericCommand cfg s src dst True"

subsection \<open>Expire commands\<close>

text \<open>64-bit arithmetic wraps around.\<close>

definition wrap64 :: "int \<Rightarrow> int" where
  "wrap64 v = sint (word_of_int v :: 64 word)"

datatype time_unit = UNIT_SECONDS | UNIT_MILLISECONDS

definition not_an_integer :: reply where
  "not_an_integer = RError ''value is not an integer or out of range''"

definition expireGenericCommand ::
  "'a server_config_scheme \<Rightarrow> server \<Rightarrow> key \<Rightarrow> byte list \<Rightarrow> int \<Rightarrow> time_unit \<Rightarrow> (reply \<times> server) option" where
  "expireGenericCommand cfg s key param basetime unit' =
     (case string2ll param of
        None \<Rightarrow> Some (not_an_integer, s)
      | Some when \<Rightarrow> do {
          let when = (if unit' = UNIT_SECONDS then wrap64 (when * 1000) else when);
          let when = wrap64 (when + basetime);
          (o', s) \<leftarrow> lookupKeyWrite cfg s key;
          if o' = None then Some (czero, s)
          else if when \<le> mstime cfg \<and> \<not> loading cfg \<and> \<not> masterhost cfg then do {
            (deleted, s) \<leftarrow> (if lazyfree_lazy_expire cfg then dbAsyncDelete s key else dbSyncDelete s key);
            if \<not> deleted then None
            else do {
              let s = s\<lparr>dirty := dirty s + 1\<rparr>;
              let s = emit (SignalModified key) s;
              Some (cone, emit (Notify NOTIFY_GENERIC ''del'' key) s)
            }
          }
          else do {
            s \<leftarrow> setExpire cfg s key when;
            let s = emit (SignalModified key) s;
            let s = emit (Notify NOTIFY_GENERIC ''expire'' key) s;
            Some (cone, s\<lparr>dirty := dirty s + 1\<rparr>)
          }
        })"

definition expireCommand :: "'a server_config_scheme \<Rightarrow> server \<Rightarrow> key \<Rightarrow> byte list \<Rightarrow> (reply \<times> server) option" where
  "expireCommand cfg s key param = expireGenericCommand cfg s key param (mstime cfg) UNIT_SECONDS"

definition expireatCommand :: "'a server_config_scheme \<Rightarrow> server \<Rightarrow> key \<Rightarrow> byte list \<Rightarrow> (reply \<times> server) option" where
  "expireatCommand cfg s key param = expireGenericCommand cfg s key param 0 UNIT_SECONDS"

definition pexpireCommand :: "'a server_config_scheme \<Rightarrow> server \<Rightarrow> key \<Rightarrow> byte list \<Rightarrow> (reply \<times> server) option" where
  "pexpireCommand cfg s key param = expireGenericCommand cfg s key param (mstime cfg) UNIT_MILLISECONDS"

definition pexpireatCommand :: "'a server_config_scheme \<Rightarrow> server \<Rightarrow> key \<Rightarrow> byte list \<Rightarrow> (reply \<times> server) option" where
  "pexpireatCommand cfg s key param = expireGenericCommand cfg s key param 0 UNIT_MILLISECONDS"

definition ttlGenericCommand :: "'a server_config_scheme \<Rightarrow> server \<Rightarrow> key \<Rightarrow> bool \<Rightarrow> (reply \<times> server) option" where
  "ttlGenericCommand cfg s key output_ms = do {
     (o', s) \<leftarrow> lookupKeyReadWithFlags cfg s key;
     if o' = None then Some (RInt (-2), s)
     else do {
       (expire, s) \<leftarrow> getExpire s key;
       let ttl = (if expire \<noteq> -1 then (if expire - mstime cfg < 0 then 0 else expire - mstime cfg) else -1);
       if ttl = -1 then Some (RInt (-1), s)
       else Some (RInt (if output_ms then ttl else (ttl + 500) div 1000), s)
     }
   }"

definition ttlCommand :: "'a server_config_scheme \<Rightarrow> server \<Rightarrow> key \<Rightarrow> (reply \<times> server) option" where
  "ttlCommand cfg s key = ttlGenericCommand cfg s key False"

definition pttlCommand :: "'a server_config_scheme \<Rightarrow> server \<Rightarrow> key \<Rightarrow> (reply \<times> server) option" where
  "pttlCommand cfg s key = ttlGenericCommand cfg s key True"

definition persistCommand :: "'a server_config_scheme \<Rightarrow> server \<Rightarrow> key \<Rightarrow> (reply \<times> server) option" where
  "persistCommand cfg s key = do {
     (o', s) \<leftarrow> lookupKeyWrite cfg s key;
     if o' \<noteq> None then do {
       (removed, s) \<leftarrow> removeExpire s key;
       if removed then
         let s = emit (Notify NOTIFY_GENERIC ''persist'' key) s
         in Some (cone, s\<lparr>dirty := dirty s + 1\<rparr>)
       else Some (czero, s)
     }
     else Some (czero, s)
   }"

section \<open>Key commands: lemmas\<close>

lemma expired_cong: "ks_exp s' k = ks_exp s k \<Longrightarrow> expired cfg s' k = expired cfg s k"
  by (simp add: expired_def)

lemma live_cong:
  "ks_val s' k = ks_val s k \<Longrightarrow> ks_exp s' k = ks_exp s k \<Longrightarrow>
   live_val cfg s' k = live_val cfg s k \<and> live_exp cfg s' k = live_exp cfg s k"
  using expired_cong [of s' k s cfg] by (simp add: live_val_def live_exp_def)

text \<open>After an access on a master the key is no longer expired, and the logical keyspace is the same.\<close>

lemma purged_live:
  assumes "becomes cfg s' ((ks_val s)(k := live_val cfg s k)) ((ks_exp s)(k := live_exp cfg s k))"
  shows "live_val cfg s' = live_val cfg s \<and> live_exp cfg s' = live_exp cfg s \<and> \<not> expired cfg s' k"
proof -
  have v: "ks_val s' = (ks_val s)(k := live_val cfg s k)" and e: "ks_exp s' = (ks_exp s)(k := live_exp cfg s k)"
    using assms by (simp_all add: becomes_def)
  have k: "\<not> expired cfg s' k" using e by (auto simp: expired_def live_exp_def)
  have "live_val cfg s' j = live_val cfg s j \<and> live_exp cfg s' j = live_exp cfg s j" for j
  proof (cases "j = k")
    case True
    then show ?thesis using k v e by (simp add: live_val_def live_exp_def)
  next
    case False
    then show ?thesis using v e by (intro live_cong) simp_all
  qed
  then show ?thesis using k by (simp add: fun_eq_iff)
qed

lemma read_purged_master:
  "\<not> masterhost cfg \<Longrightarrow> read_purged cfg k s s' \<Longrightarrow>
   becomes cfg s' ((ks_val s)(k := live_val cfg s k)) ((ks_exp s)(k := live_exp cfg s k)) \<and> dirty s' = dirty s"
  by (simp add: read_purged_def becomes_def)

lemma live_upd:
  assumes "becomes cfg s' ((ks_val s)(k := V)) ((ks_exp s)(k := E))" "j \<noteq> k"
  shows "live_val cfg s' j = live_val cfg s j \<and> live_exp cfg s' j = live_exp cfg s j"
  using assms by (intro live_cong) (simp_all add: becomes_def)

lemma live_removed:
  assumes "becomes cfg s' ((ks_val s)(k := None)) ((ks_exp s)(k := None))"
  shows "live_val cfg s' = (live_val cfg s)(k := None) \<and> live_exp cfg s' = (live_exp cfg s)(k := None)"
proof -
  have "live_val cfg s' k = None \<and> live_exp cfg s' k = None" using assms by (simp add: becomes_def live_val_def live_exp_def)
  moreover have "live_val cfg s' j = live_val cfg s j \<and> live_exp cfg s' j = live_exp cfg s j" if "j \<noteq> k" for j
    using live_upd [OF assms that] .
  ultimately show ?thesis by (auto simp: fun_eq_iff)
qed

lemma lookupKeyWrite_master:
  assumes "db_wf cfg s" "\<not> masterhost cfg"
  obtains s' where "lookupKeyWrite cfg s k = Some (live_val cfg s k, s')"
    "becomes cfg s' ((ks_val s)(k := live_val cfg s k)) ((ks_exp s)(k := live_exp cfg s k))" "dirty s' = dirty s"
    "db_wf cfg s'" "live_val cfg s' = live_val cfg s" "live_exp cfg s' = live_exp cfg s"
proof -
  obtain s' where s': "lookupKeyWrite cfg s k = Some (live_val cfg s k, s')" "purged cfg k s s'"
    using lookupKeyWrite_spec [OF assms(1), of k] assms(2) by auto
  note b = purged_master [OF assms(2) s'(2)]
  then have "db_wf cfg s'" by (simp add: becomes_def)
  with s' b purged_live [of cfg s' s k] show thesis by (intro that [of s']) auto
qed

lemma lookupKeyRead_master:
  assumes "db_wf cfg s" "\<not> masterhost cfg"
  obtains s' where "lookupKeyRead cfg s k = Some (live_val cfg s k, s')"
    "becomes cfg s' ((ks_val s)(k := live_val cfg s k)) ((ks_exp s)(k := live_exp cfg s k))" "dirty s' = dirty s"
    "db_wf cfg s'" "live_val cfg s' = live_val cfg s" "live_exp cfg s' = live_exp cfg s"
proof -
  obtain s' where s': "lookupKeyRead cfg s k = Some (live_val cfg s k, s')" "read_purged cfg k s s'"
    using lookupKeyRead_spec [OF assms(1), of k] assms(2) by auto
  note b = read_purged_master [OF assms(2) s'(2)]
  then have "db_wf cfg s'" by (simp add: becomes_def)
  with s' b purged_live [of cfg s' s k] show thesis by (intro that [of s']) auto
qed

lemma delOne_master:
  assumes "db_wf cfg s" "\<not> masterhost cfg"
  shows "\<exists>s'. delOne cfg lazy s k = Some (s', live_val cfg s k \<noteq> None) \<and>
    becomes cfg s' ((ks_val s)(k := None)) ((ks_exp s)(k := None))"
proof -
  obtain s1 where s1: "expireIfNeeded cfg s k = Some (expired cfg s k, s1)" "purged cfg k s s1"
    using expireIfNeeded_spec [OF assms(1), of k] by auto
  have b: "becomes cfg s1 ((ks_val s)(k := live_val cfg s k)) ((ks_exp s)(k := live_exp cfg s k))"
    using purged_master [OF assms(2) s1(2)] by simp
  then have w1: "db_wf cfg s1" and v1: "ks_val s1 = (ks_val s)(k := live_val cfg s k)" and
    e1: "ks_exp s1 = (ks_exp s)(k := live_exp cfg s k)" by (simp_all add: becomes_def)
  have "delete_spec cfg s1 k (if lazy then dbAsyncDelete s1 k else dbSyncDelete s1 k)"
    using dbSyncDelete_spec [OF w1] dbAsyncDelete_spec [OF w1] by simp
  then obtain s2 where s2: "(if lazy then dbAsyncDelete s1 k else dbSyncDelete s1 k) = Some (k \<in> dom (ks_val s1), s2)"
      "db_wf cfg s2" "ks_val s2 = (ks_val s1)(k := None)" "ks_exp s2 = (ks_exp s1)(k := None)"
    by (auto simp: delete_spec_def)
  have "k \<in> dom (ks_val s1) \<longleftrightarrow> live_val cfg s k \<noteq> None" using v1 by auto
  moreover have "becomes cfg s2 ((ks_val s)(k := None)) ((ks_exp s)(k := None))"
    using s2 v1 e1 by (simp add: becomes_def)
  ultimately show ?thesis using s1(1) s2(1) by (cases "live_val cfg s k") (simp_all add: delOne_def Let_def)
qed

text \<open>
  The logical keyspace of a master is a keyed store: lookups remove expired keys, which the
  logical map never shows.
\<close>

interpretation ks: keyed_store "db_wf cfg" "live_val cfg" "\<lambda>_. \<not> masterhost cfg"
  "delOne cfg lazy" "\<lambda>s k. map_option prod.swap (lookupKeyRead cfg s k)"
  for cfg :: "'a server_config_scheme" and lazy :: bool
proof (unfold_locales, goal_cases)
  case (1 s)
  have "dom (live_val cfg s) \<subseteq> dom (ks_val s)" using live_dom [of cfg s] by auto
  then show ?case by (rule finite_subset) simp
next
  case (2 s k)
  then show ?case by (rule lookupKeyRead_master [where k = k]) auto
next
  case (3 s k)
  then obtain s' where "delOne cfg lazy s k = Some (s', live_val cfg s k \<noteq> None)"
      "becomes cfg s' ((ks_val s)(k := None)) ((ks_exp s)(k := None))"
    using delOne_master by blast
  then show ?case using live_removed [of cfg s' s k] by (auto simp: becomes_def)
qed

lemma delGenericCommand_spec:
  assumes "db_wf cfg s" "\<not> masterhost cfg"
  shows "\<exists>s'. delGenericCommand cfg lazy s keys = Some (RInt (int (card (set keys \<inter> dom (live_val cfg s)))), s') \<and>
    db_wf cfg s' \<and> live_val cfg s' = live_val cfg s |` (- set keys)"
  using ks.del_all_spec [OF assms(1), of keys lazy] assms(2) by (auto simp: delGenericCommand_def)

lemma existsCommand_spec:
  assumes "db_wf cfg s" "\<not> masterhost cfg"
  shows "\<exists>s'. existsCommand cfg s keys = Some (RInt (int (length (filter (\<lambda>k. live_val cfg s k \<noteq> None) keys))), s') \<and>
    db_wf cfg s' \<and> live_val cfg s' = live_val cfg s"
  using ks.count_get_spec [OF assms(1), of keys] assms(2)
  by (auto simp: existsCommand_def option.map_comp comp_def case_prod_unfold)

subsection \<open>Renaming\<close>

text \<open>The logical keyspace, as a pair of maps, and what a command does to it.\<close>

definition live :: "'a server_config_scheme \<Rightarrow> server \<Rightarrow> (key \<rightharpoonup> robj) \<times> (key \<rightharpoonup> int)" where
  "live cfg s = (live_val cfg s, live_exp cfg s)"

definition rename_spec ::
  "key \<Rightarrow> key \<Rightarrow> bool \<Rightarrow> (key \<rightharpoonup> robj) \<times> (key \<rightharpoonup> int) \<Rightarrow> reply \<times> (key \<rightharpoonup> robj) \<times> (key \<rightharpoonup> int)" where
  "rename_spec src dst nx = (\<lambda>(V, E).
     (case V src of
        None \<Rightarrow> (RNoKey, V, E)
      | Some v \<Rightarrow>
          if src = dst then (if nx then czero else ROk, V, E)
          else if nx \<and> V dst \<noteq> None then (czero, V, E)
          else (if nx then cone else ROk, V(src := None, dst \<mapsto> v),
                E(src := None, dst := if E src = Some (-1) then None else E src))))"

text \<open>The destination is cleared before the object is stored under it.\<close>

lemma rename_clear:
  assumes w: "db_wf cfg s" "\<not> masterhost cfg"
  shows "\<exists>s3 s4. lookupKeyWrite cfg s dst = Some (live_val cfg s dst, s3) \<and> db_wf cfg s3 \<and> live cfg s3 = live cfg s \<and>
    (if live_val cfg s dst \<noteq> None then map_option snd (dbDelete cfg s3 dst) else Some s3) = Some s4 \<and>
    becomes cfg s4 ((ks_val s)(dst := None)) ((ks_exp s)(dst := None))"
proof -
  obtain s3 where s3: "lookupKeyWrite cfg s dst = Some (live_val cfg s dst, s3)"
    "becomes cfg s3 ((ks_val s)(dst := live_val cfg s dst)) ((ks_exp s)(dst := live_exp cfg s dst))"
    "db_wf cfg s3" "live_val cfg s3 = live_val cfg s" "live_exp cfg s3 = live_exp cfg s"
    using w by (rule lookupKeyWrite_master [where k = dst])
  show ?thesis
  proof (cases "live_val cfg s dst")
    case None
    then have "ks_val s3 dst = None" using s3(2) by (simp add: becomes_def)
    then have "ks_exp s3 dst = None" using db_wf_exp [OF s3(3), of dst] by (cases "ks_exp s3 dst") auto
    then have "live_exp cfg s dst = None" using s3(2) by (simp add: becomes_def)
    then show ?thesis using None s3 by (simp add: live_def)
  next
    case (Some v)
    obtain s4 where "dbDelete cfg s3 dst = Some (dst \<in> dom (ks_val s3), s4)" "db_wf cfg s4"
        "ks_val s4 = (ks_val s3)(dst := None)" "ks_exp s4 = (ks_exp s3)(dst := None)"
      using dbDelete_spec [OF s3(3), of dst] by (auto simp: delete_spec_def)
    then show ?thesis using Some s3 by (auto simp: becomes_def live_def)
  qed
qed

text \<open>Storing the object under the new key and deleting the old one.\<close>

lemma rename_store:
  assumes w: "db_wf cfg s" "db_room s" and k: "src \<noteq> dst" "ks_val s dst = None" "ks_exp s dst = None" and v: "obj_wf cfg v"
  shows "\<exists>s5 s6 b s7. dbAdd cfg s dst v = Some s5 \<and>
    (if e \<noteq> -1 then setExpire cfg s5 dst e else Some s5) = Some s6 \<and> dbDelete cfg s6 src = Some (b, s7) \<and>
    becomes cfg s7 ((ks_val s)(src := None, dst \<mapsto> v)) ((ks_exp s)(src := None, dst := if e = -1 then None else Some e))"
proof -
  obtain s5 where s5: "dbAdd cfg s dst v = Some s5" "becomes cfg s5 ((ks_val s)(dst \<mapsto> v)) (ks_exp s)"
    using dbAdd_spec [OF w k(2) v] by auto
  then have w5: "db_wf cfg s5" and v5: "ks_val s5 = (ks_val s)(dst \<mapsto> v)" "ks_exp s5 = ks_exp s" by (simp_all add: becomes_def)
  have "card (dom (ks_val s5)) \<le> Suc (card (dom (ks_val s)))" unfolding v5 by (simp add: card_insert_if)
  then have small: "card (dom (ks_val s5)) < 2 ^ 62" using w(2) by (simp add: db_room_def)
  obtain s6 where s6: "(if e \<noteq> -1 then setExpire cfg s5 dst e else Some s5) = Some s6"
      "becomes cfg s6 ((ks_val s)(dst \<mapsto> v)) ((ks_exp s)(dst := if e = -1 then None else Some e))"
    using setExpire_spec [OF w5 small, of dst e] s5(2) v5 k(3) by (cases "e = -1") (auto simp: fun_upd_idem)
  then have w6: "db_wf cfg s6" by (simp add: becomes_def)
  obtain s7 where "dbDelete cfg s6 src = Some (src \<in> dom (ks_val s6), s7)" "db_wf cfg s7"
      "ks_val s7 = (ks_val s6)(src := None)" "ks_exp s7 = (ks_exp s6)(src := None)"
    using dbDelete_spec [OF w6, of src] by (auto simp: delete_spec_def)
  then show ?thesis using s5(1) s6 k(1) by (auto simp: becomes_def fun_upd_twist)
qed

lemma live_rename:
  assumes "becomes cfg s' ((ks_val s)(src := None, dst := V)) ((ks_exp s)(src := None, dst := E))"
    and "E = live_exp cfg s src \<or> E = None" "src \<noteq> dst"
  shows "live cfg s' = ((live_val cfg s)(src := None, dst := V), (live_exp cfg s)(src := None, dst := E))"
proof -
  have m: "ks_val s' = (ks_val s)(src := None, dst := V)" "ks_exp s' = (ks_exp s)(src := None, dst := E)"
    using assms(1) by (simp_all add: becomes_def)
  have "\<not> expired cfg s' dst" using m(2) assms(2) by (auto simp: expired_def live_exp_def split: if_splits)
  then have d: "live_val cfg s' dst = V" "live_exp cfg s' dst = E" using m by (simp_all add: live_val_def live_exp_def)
  have s: "live_val cfg s' src = None" "live_exp cfg s' src = None" using m assms(3) by (simp_all add: live_val_def live_exp_def)
  have "live_val cfg s' j = live_val cfg s j \<and> live_exp cfg s' j = live_exp cfg s j" if "j \<noteq> src" "j \<noteq> dst" for j
    using m that by (intro live_cong) simp_all
  then show ?thesis using d s by (auto simp: live_def fun_eq_iff)
qed

lemma renameGenericCommand_spec:
  assumes w: "db_wf cfg s" "\<not> masterhost cfg" "db_room s"
  shows "\<exists>r s'. renameGenericCommand cfg s src dst nx = Some (r, s') \<and> db_wf cfg s' \<and>
    (r, live cfg s') = rename_spec src dst nx (live cfg s)"
proof -
  obtain s1 where s1: "lookupKeyWrite cfg s src = Some (live_val cfg s src, s1)"
    "becomes cfg s1 ((ks_val s)(src := live_val cfg s src)) ((ks_exp s)(src := live_exp cfg s src))"
    "db_wf cfg s1" "live_val cfg s1 = live_val cfg s" "live_exp cfg s1 = live_exp cfg s"
    using w(1,2) by (rule lookupKeyWrite_master [where k = src])
  show ?thesis
  proof (cases "live_val cfg s src = None \<or> src = dst")
    case True
    then show ?thesis using s1
      by (cases "live_val cfg s src") (auto simp: renameGenericCommand_def rename_spec_def live_def)
  next
    case False
    then obtain v where v: "live_val cfg s src = Some v" "src \<noteq> dst" by auto
    have x1: "ks_exp s1 src = live_exp cfg s src" using s1(2) by (simp add: becomes_def)
    define e where "e = (case live_exp cfg s src of None \<Rightarrow> -1 | Some w \<Rightarrow> w)"
    obtain s2 where s2: "getExpire s1 src = Some (e, s2)" "db_wf cfg s2" "ks_same s1 s2"
      using getExpire_spec [OF s1(3), of src] x1 by (auto simp: e_def)
    have m2: "ks_val s2 = ks_val s1" "ks_exp s2 = ks_exp s1" using s2(3) by (simp_all add: ks_same_def)
    then have l2: "live cfg s2 = live cfg s"
      using s1(4,5) live_cong [of s2 _ s1 cfg] by (auto simp: live_def fun_eq_iff)
    then have lv2: "live_val cfg s2 dst = live_val cfg s dst" by (simp add: live_def)
    obtain s3 s4 where s3: "lookupKeyWrite cfg s2 dst = Some (live_val cfg s dst, s3)" "db_wf cfg s3" "live cfg s3 = live cfg s"
        and s4: "(if live_val cfg s dst \<noteq> None then map_option snd (dbDelete cfg s3 dst) else Some s3) = Some s4"
        "becomes cfg s4 ((ks_val s2)(dst := None)) ((ks_exp s2)(dst := None))"
      using rename_clear [OF s2(2) w(2), of dst] l2 lv2 by auto
    show ?thesis
    proof (cases "nx \<and> live_val cfg s dst \<noteq> None")
      case True
      then show ?thesis using s1(1) s2(1) s3 v by (auto simp: renameGenericCommand_def rename_spec_def live_def)
    next
      case False
      have m4: "db_wf cfg s4" "ks_val s4 dst = None" "ks_exp s4 dst = None" using s4(2) by (simp_all add: becomes_def)
      have "dom (ks_val s4) \<subseteq> dom (ks_val s)"
        using s4(2) s1(2) m2 live_dom [of cfg s src] by (auto simp: becomes_def split: if_splits)
      then have room4: "db_room s4" using w(3) card_mono [of "dom (ks_val s)" "dom (ks_val s4)"] by (simp add: db_room_def)
      have ov: "obj_wf cfg v" using v(1) db_wf_obj [OF w(1), of src] by (auto simp: live_val_def split: if_splits)
      obtain s5 s6 b s7 where st: "dbAdd cfg s4 dst v = Some s5"
          "(if e \<noteq> -1 then setExpire cfg s5 dst e else Some s5) = Some s6" "dbDelete cfg s6 src = Some (b, s7)"
          "becomes cfg s7 ((ks_val s4)(src := None, dst \<mapsto> v)) ((ks_exp s4)(src := None, dst := if e = -1 then None else Some e))"
        using rename_store [OF m4(1) room4 v(2) m4(2,3) ov, of e] by blast
      have "becomes cfg s7 ((ks_val s)(src := None, dst \<mapsto> v)) ((ks_exp s)(src := None, dst := if e = -1 then None else Some e))"
        using st(4) s4(2) s1(2) m2 v(2) by (simp add: becomes_def fun_upd_twist)
      moreover have ee: "(if e = -1 then None else Some e) = (if live_exp cfg s src = Some (-1) then None else live_exp cfg s src)"
        by (simp add: e_def split: option.splits)
      ultimately have "live cfg s7 = ((live_val cfg s)(src := None, dst \<mapsto> v),
          (live_exp cfg s)(src := None, dst := if live_exp cfg s src = Some (-1) then None else live_exp cfg s src))"
        using v(2) by (intro live_rename) auto
      moreover have "live_val cfg (s\<lparr>dirty := n\<rparr>) = live_val cfg s" "live_exp cfg (s\<lparr>dirty := n\<rparr>) = live_exp cfg s"
          "live_val cfg (emit x s) = live_val cfg s" "live_exp cfg (emit x s) = live_exp cfg s" for n x and s :: server
        by (auto simp: live_val_def live_exp_def expired_def fun_eq_iff)
      moreover have "db_wf cfg s7" using st(4) by (simp add: becomes_def)
      ultimately show ?thesis
        using False s1(1) s2(1) s3(1) s4(1) st(1-3) v
        by (cases "live_val cfg s dst") (auto simp: renameGenericCommand_def rename_spec_def live_def Let_def)
    qed
  qed
qed

subsection \<open>Expire times\<close>

lemma live_simps [simp]:
  "live_val cfg (s\<lparr>dirty := n\<rparr>) = live_val cfg s" "live_exp cfg (s\<lparr>dirty := n\<rparr>) = live_exp cfg s"
  "live_val cfg (emit x s) = live_val cfg s" "live_exp cfg (emit x s) = live_exp cfg s"
  by (auto simp: live_val_def live_exp_def expired_def fun_eq_iff)

definition expire_spec ::
  "int \<Rightarrow> key \<Rightarrow> int \<Rightarrow> (key \<rightharpoonup> robj) \<times> (key \<rightharpoonup> int) \<Rightarrow> reply \<times> (key \<rightharpoonup> robj) \<times> (key \<rightharpoonup> int)" where
  "expire_spec now key when = (\<lambda>(V, E).
     if V key = None then (czero, V, E)
     else if when \<le> now then (cone, V(key := None), E(key := None))
     else (cone, V, E(key \<mapsto> when)))"

definition expire_when :: "int \<Rightarrow> int \<Rightarrow> time_unit \<Rightarrow> int" where
  "expire_when n basetime unit' = wrap64 ((if unit' = UNIT_SECONDS then wrap64 (n * 1000) else n) + basetime)"

lemma wrap64_id: "in_i64 v \<Longrightarrow> wrap64 v = v"
  unfolding wrap64_def by (subst signed_of_int) (simp add: signed_take_bit_int_eq_self in_signed_def)

lemma live_set_exp:
  assumes "becomes cfg s' ((ks_val s)(k := live_val cfg s k)) ((ks_exp s)(k \<mapsto> w))" "virtual_now cfg \<le> w"
  shows "live cfg s' = (live_val cfg s, (live_exp cfg s)(k \<mapsto> w))"
proof -
  have m: "ks_val s' = (ks_val s)(k := live_val cfg s k)" "ks_exp s' = (ks_exp s)(k \<mapsto> w)"
    using assms(1) by (simp_all add: becomes_def)
  have "\<not> expired cfg s' k" using m(2) assms(2) by (auto simp: expired_def)
  then have "live_val cfg s' k = live_val cfg s k" "live_exp cfg s' k = Some w" using m by (simp_all add: live_val_def live_exp_def)
  moreover have "live_val cfg s' j = live_val cfg s j \<and> live_exp cfg s' j = live_exp cfg s j" if "j \<noteq> k" for j
    using m that by (intro live_cong) simp_all
  ultimately have "live_val cfg s' j = live_val cfg s j \<and> live_exp cfg s' j = ((live_exp cfg s)(k \<mapsto> w)) j" for j
    by (cases "j = k") auto
  then show ?thesis by (simp add: live_def fun_eq_iff)
qed

lemma expireGenericCommand_spec:
  assumes w: "db_wf cfg s" "\<not> masterhost cfg" "db_room s" and l: "\<not> loading cfg" "virtual_now cfg \<le> mstime cfg"
    and n: "string2ll param = Some n"
  shows "\<exists>r s'. expireGenericCommand cfg s k param base u = Some (r, s') \<and> db_wf cfg s' \<and>
    (r, live cfg s') = expire_spec (mstime cfg) k (expire_when n base u) (live cfg s)"
proof -
  define x where "x = expire_when n base u"
  obtain s1 where s1: "lookupKeyWrite cfg s k = Some (live_val cfg s k, s1)"
    "becomes cfg s1 ((ks_val s)(k := live_val cfg s k)) ((ks_exp s)(k := live_exp cfg s k))"
    "db_wf cfg s1" "live_val cfg s1 = live_val cfg s" "live_exp cfg s1 = live_exp cfg s"
    using w(1,2) by (rule lookupKeyWrite_master [where k = k])
  have v1: "ks_val s1 = (ks_val s)(k := live_val cfg s k)" using s1(2) by (simp add: becomes_def)
  have room1: "card (dom (ks_val s1)) < 2 ^ 62" using room_small room_purged [OF w(3) s1(2)] by blast
  have c: "expireGenericCommand cfg s k param base u =
     (if live_val cfg s k = None then Some (czero, s1)
      else if x \<le> mstime cfg then do {
            (deleted, s) \<leftarrow> (if lazyfree_lazy_expire cfg then dbAsyncDelete s1 k else dbSyncDelete s1 k);
            if \<not> deleted then None
            else Some (cone, emit (Notify NOTIFY_GENERIC ''del'' k) (emit (SignalModified k) (s\<lparr>dirty := dirty s + 1\<rparr>)))
          }
      else do {
        s \<leftarrow> setExpire cfg s1 k x;
        let s = emit (Notify NOTIFY_GENERIC ''expire'' k) (emit (SignalModified k) s);
        Some (cone, s\<lparr>dirty := dirty s + 1\<rparr>)
      })"
    unfolding expireGenericCommand_def x_def expire_when_def Let_def using n w(2) l(1) s1(1) by simp
  consider "live_val cfg s k = None" | "live_val cfg s k \<noteq> None" "x \<le> mstime cfg"
    | "live_val cfg s k \<noteq> None" "x > mstime cfg" by linarith
  then show ?thesis
  proof cases
    case 1
    then show ?thesis unfolding c using s1 by (simp add: expire_spec_def live_def)
  next
    case 2
    have "delete_spec cfg s1 k (if lazyfree_lazy_expire cfg then dbAsyncDelete s1 k else dbSyncDelete s1 k)"
      using dbSyncDelete_spec [OF s1(3)] dbAsyncDelete_spec [OF s1(3)] by simp
    then obtain s2 where s2: "(if lazyfree_lazy_expire cfg then dbAsyncDelete s1 k else dbSyncDelete s1 k) = Some (True, s2)"
        "becomes cfg s2 ((ks_val s1)(k := None)) ((ks_exp s1)(k := None))"
      using 2(1) v1 by (auto simp: delete_spec_def becomes_def)
    have "db_wf cfg s2" using s2(2) by (simp add: becomes_def)
    then show ?thesis
      unfolding c s2(1) using 2 live_removed [OF s2(2)] s1(4,5)
      by (auto simp: expire_spec_def live_def x_def)
  next
    case 3
    then have "ks_val s1 k \<noteq> None" using v1 by simp
    from setExpire_spec [OF s1(3) room1 this, of x] obtain s2 where s2: "setExpire cfg s1 k x = Some s2"
        "becomes cfg s2 (ks_val s1) ((ks_exp s1)(k \<mapsto> x))" by auto
    have "becomes cfg s2 ((ks_val s)(k := live_val cfg s k)) ((ks_exp s)(k \<mapsto> x))"
      using s2(2) s1(2) by (simp add: becomes_def)
    from live_set_exp [OF this] show ?thesis
      unfolding c using 3 s2 l(2) by (auto simp: expire_spec_def live_def x_def becomes_def)
  qed
qed

lemma ttlGenericCommand_spec:
  assumes "db_wf cfg s" "\<not> masterhost cfg"
  shows "\<exists>s'. ttlGenericCommand cfg s k ms = Some (RInt
      (if live_val cfg s k = None then -2
       else case live_exp cfg s k of
         None \<Rightarrow> -1
       | Some w \<Rightarrow> if w = -1 then -1
           else let ttl = max 0 (w - mstime cfg) in if ms then ttl else (ttl + 500) div 1000), s') \<and>
    db_wf cfg s' \<and> live cfg s' = live cfg s"
proof -
  obtain s1 where s1: "lookupKeyRead cfg s k = Some (live_val cfg s k, s1)"
    "becomes cfg s1 ((ks_val s)(k := live_val cfg s k)) ((ks_exp s)(k := live_exp cfg s k))"
    "db_wf cfg s1" "live_val cfg s1 = live_val cfg s" "live_exp cfg s1 = live_exp cfg s"
    using assms by (rule lookupKeyRead_master [where k = k])
  have x1: "ks_exp s1 k = live_exp cfg s k" using s1(2) by (simp add: becomes_def)
  obtain s2 where s2: "getExpire s1 k = Some (case live_exp cfg s k of None \<Rightarrow> -1 | Some w \<Rightarrow> w, s2)" "db_wf cfg s2" "ks_same s1 s2"
    using getExpire_spec [OF s1(3), of k] x1 by auto
  then have "live cfg s2 = live cfg s"
    using s1(4,5) live_cong [of s2 _ s1 cfg] by (auto simp: live_def ks_same_def fun_eq_iff)
  then show ?thesis
    using s1 s2 by (auto simp: ttlGenericCommand_def lookupKeyRead_def live_def Let_def split: option.splits)
qed

section \<open>Properties\<close>

text \<open>
  A master at time 1000 with four keys: a number, a set, a string that expired at time 500
  and a string that expires at time 5000.
\<close>

definition example_cfg :: server_config where
  "example_cfg = \<lparr>set_max_intset_entries = 512, dict_can_resize = True,
     dictSdsHash = (\<lambda>k. case k of [] \<Rightarrow> 0 | c # _ \<Rightarrow> of_nat (unat c)),
     masterhost = False, repl_slave_ro = True, loading = False, lua_caller = False, lua_time_start = 0,
     fixed_time_expire = 1, cached_mstime = 1000, mstime = 1000, current_client = True, current_client_master = False,
     current_cmd_readonly = Some False, master_client = False,
     lazyfree_lazy_expire = False, lazyfree_lazy_server_del = False, lazyfree_lazy_user_del = False\<rparr>"

definition example_server :: server where
  "example_server = \<lparr>
     db_dict = \<lparr>d_type = dbDictType example_cfg,
       d_ht0 = \<lparr>ht_table = [[([100], ObjString (StrEmb example_sds))], [([97], ObjString (StrInt 41))],
                [([98], ObjSet (SetIntset intset_example))], [([99], ObjString (StrEmb example_sds))]],
              ht_size = 4, ht_sizemask = 3, ht_used = 4\<rparr>,
       d_ht1 = dictReset, d_rehashidx = -1, d_iterators = 0\<rparr>,
     db_expires = \<lparr>d_type = dbDictType example_cfg,
       d_ht0 = \<lparr>ht_table = [[([100], 5000)], [], [], [([99], 500)]], ht_size = 4, ht_sizemask = 3, ht_used = 2\<rparr>,
       d_ht1 = dictReset, d_rehashidx = -1, d_iterators = 0\<rparr>,
     dirty = 0, stat_expiredkeys = 0, stat_keyspace_hits = 0, stat_keyspace_misses = 0, events = []\<rparr>"

lemma example_tables:
  "ht_wf (dictSdsHash example_cfg) (d_ht0 (db_dict example_server))"
  "ht_wf (dictSdsHash example_cfg) (d_ht0 (db_expires example_server))"
  by (rule ht_wfI [where k = 2]; simp add: example_server_def example_cfg_def bucket_index_def upt_rec)+

lemma example_maps:
  "ks_val example_server = [[100] \<mapsto> ObjString (StrEmb example_sds), [97] \<mapsto> ObjString (StrInt 41),
     [98] \<mapsto> ObjSet (SetIntset intset_example), [99] \<mapsto> ObjString (StrEmb example_sds)]"
  "ks_exp example_server = [[100] \<mapsto> 5000, [99] \<mapsto> 500]"
  by (auto simp: ks_val_def ks_exp_def dict_map_def dict_entries_def example_server_def dictReset_def)

lemma example_wf: "db_wf example_cfg example_server"
proof -
  have "dict_wf (db_dict example_server)" "dict_wf (db_expires example_server)"
    using example_tables unfolding dict_wf_def
    by (simp_all add: example_server_def dict_entries_def dictIsRehashing_def dbDictType_def) (simp_all add: dictReset_def)
  then show ?thesis
    using example_sds_wf intset_example_facts(1) unfolding db_wf_def example_maps
    by (auto simp: example_server_def in_signed_def set_wf_def)
qed

lemma example_facts:
  "\<not> masterhost example_cfg" "\<not> loading example_cfg" "virtual_now example_cfg = 1000" "mstime example_cfg = 1000"
  "db_room example_server"
  by (simp_all add: example_cfg_def virtual_now_def db_room_def example_maps card_insert_if)

lemma example_live:
  "live_val example_cfg example_server = [[100] \<mapsto> ObjString (StrEmb example_sds), [97] \<mapsto> ObjString (StrInt 41),
     [98] \<mapsto> ObjSet (SetIntset intset_example)]"
  "live_exp example_cfg example_server = [[100] \<mapsto> 5000]"
  by (auto simp: live_val_def live_exp_def expired_def example_facts example_maps fun_eq_iff)

text \<open>
  C8: what a lookup makes of an expired key.  On a master neither a lookup for reading nor one for writing returns
  it; both remove the key and its expire time and send exactly one deletion to the replicas, and a key that has not
  expired is returned and nothing is sent.  On a replica no lookup changes a table or sends a deletion.  There a lookup
  for reading hides the expired key from a read-only command of a client other than the master; every other lookup still
  returns it.
\<close>

theorem expiry_correct:
  fixes cfg :: "'a server_config_scheme" and k :: key
  assumes "db_wf cfg s"
  defines "v \<equiv> (if masterhost cfg \<and> \<not> readonly_client cfg then ks_val s k else live_val cfg s k)"
    and "sent \<equiv> (if \<not> masterhost cfg \<and> expired cfg s k then expire_events cfg k else [])"
  shows "(\<exists>s'. lookupKeyWrite cfg s k = Some (if masterhost cfg then ks_val s k else live_val cfg s k, s') \<and> db_wf cfg s' \<and>
      (if masterhost cfg then ks_val s' = ks_val s \<and> ks_exp s' = ks_exp s
       else ks_val s' = (ks_val s)(k := live_val cfg s k) \<and> ks_exp s' = (ks_exp s)(k := live_exp cfg s k)) \<and>
      events s' = events s @ sent) \<and>
    (\<exists>s'. lookupKeyRead cfg s k = Some (v, s') \<and> db_wf cfg s' \<and>
      (if masterhost cfg then ks_val s' = ks_val s \<and> ks_exp s' = ks_exp s
       else ks_val s' = (ks_val s)(k := live_val cfg s k) \<and> ks_exp s' = (ks_exp s)(k := live_exp cfg s k)) \<and>
      events s' = events s @ sent @ (if v = None then [Notify NOTIFY_KEY_MISS ''keymiss'' k] else []))"
proof
  show "\<exists>s'. lookupKeyWrite cfg s k = Some (if masterhost cfg then ks_val s k else live_val cfg s k, s') \<and> db_wf cfg s' \<and>
      (if masterhost cfg then ks_val s' = ks_val s \<and> ks_exp s' = ks_exp s
       else ks_val s' = (ks_val s)(k := live_val cfg s k) \<and> ks_exp s' = (ks_exp s)(k := live_exp cfg s k)) \<and>
      events s' = events s @ sent"
    using lookupKeyWrite_spec [OF assms(1), of k] by (auto simp: purged_def sent_def)
  show "\<exists>s'. lookupKeyRead cfg s k = Some (v, s') \<and> db_wf cfg s' \<and>
      (if masterhost cfg then ks_val s' = ks_val s \<and> ks_exp s' = ks_exp s
       else ks_val s' = (ks_val s)(k := live_val cfg s k) \<and> ks_exp s' = (ks_exp s)(k := live_exp cfg s k)) \<and>
      events s' = events s @ sent @ (if v = None then [Notify NOTIFY_KEY_MISS ''keymiss'' k] else [])"
    using lookupKeyRead_spec [OF assms(1), of k] unfolding v_def sent_def read_purged_def by blast
qed

theorem expiry_correct_witness:
  "\<exists>s'. lookupKeyWrite example_cfg example_server [99] = Some (None, s') \<and>
     ks_val s' [99] = None \<and> ks_exp s' [99] = None \<and>
     events s' = [PropagateDel False [99], Notify NOTIFY_EXPIRED ''expired'' [99], SignalModified [99]]"
proof -
  have "expired example_cfg example_server [99]" by (simp add: expired_def example_facts example_maps)
  moreover have "expire_events example_cfg [99] =
      [PropagateDel False [99], Notify NOTIFY_EXPIRED ''expired'' [99], SignalModified [99]]"
    by (simp add: expire_events_def example_cfg_def)
  moreover have "events example_server = []" by (simp add: example_server_def)
  ultimately show ?thesis
    using expiry_correct [OF example_wf, of "[99]"] example_facts(1) example_live by fastforce
qed

text \<open>
  C6: on a master, RENAME and RENAMENX act on the logical keyspace as specified: a missing
  source is an error, an existing destination stops RENAMENX, and otherwise the value moves
  to the new key together with its expire time, replacing what was there.
\<close>

theorem renameGenericCommand_refines:
  assumes "db_wf cfg s" "\<not> masterhost cfg" "db_room s"
  shows "\<exists>r s'. renameGenericCommand cfg s src dst nx = Some (r, s') \<and> db_wf cfg s' \<and>
    (r, live cfg s') = rename_spec src dst nx (live cfg s)"
  using assms by (rule renameGenericCommand_spec)

theorem renameGenericCommand_refines_witness:
  "\<exists>s'. renameGenericCommand example_cfg example_server [100] [97] False = Some (ROk, s') \<and>
     live_val example_cfg s' [97] = Some (ObjString (StrEmb example_sds)) \<and>
     live_exp example_cfg s' [97] = Some 5000 \<and> live_val example_cfg s' [100] = None"
  using renameGenericCommand_refines [OF example_wf example_facts(1,5), of "[100]" "[97]" False]
  by (auto simp: rename_spec_def live_def example_live)

text \<open>
  C25: on a master, DEL and UNLINK remove exactly the named keys and reply with the number of
  distinct ones that were visible.
\<close>

theorem delGenericCommand_correct:
  assumes "db_wf cfg s" "\<not> masterhost cfg"
  shows "\<exists>s'. delGenericCommand cfg lazy s keys = Some (RInt (int (card (set keys \<inter> dom (live_val cfg s)))), s') \<and>
    db_wf cfg s' \<and> live_val cfg s' = live_val cfg s |` (- set keys)"
  using assms by (rule delGenericCommand_spec)

theorem delGenericCommand_correct_witness:
  "\<exists>s'. delGenericCommand example_cfg True example_server [[97], [99], [97]] = Some (RInt 1, s') \<and>
     live_val example_cfg s' [97] = None \<and> live_val example_cfg s' [98] \<noteq> None"
proof -
  have "set [[97 :: byte], [99], [97]] \<inter> dom (live_val example_cfg example_server) = {[97]}"
    by (auto simp: example_live)
  then show ?thesis
    using delGenericCommand_correct [OF example_wf example_facts(1), of True "[[97], [99], [97]]"]
    by (auto simp: example_live restrict_map_def)
qed

text \<open>
  C26: PEXPIRE followed by PTTL at the same time reads back the time to live that was set.
\<close>

theorem pexpire_pttl:
  assumes "db_wf cfg s" "\<not> masterhost cfg" "db_room s" "\<not> loading cfg" "virtual_now cfg \<le> mstime cfg"
    and "live_val cfg s k \<noteq> None" "0 < ms" "0 \<le> mstime cfg" "ms + mstime cfg < 2 ^ 63"
  shows "\<exists>s1 s2. pexpireCommand cfg s k (dec_bytes ms) = Some (cone, s1) \<and> pttlCommand cfg s1 k = Some (RInt ms, s2)"
proof -
  have i: "string2ll (dec_bytes ms) = Some ms" using assms(7-9) by (simp add: string2ll_iff in_signed_def)
  have x: "expire_when ms (mstime cfg) UNIT_MILLISECONDS = ms + mstime cfg"
    using assms(7-9) by (simp add: expire_when_def wrap64_id in_signed_def)
  obtain r s1 where s1: "pexpireCommand cfg s k (dec_bytes ms) = Some (r, s1)" "db_wf cfg s1"
      "(r, live cfg s1) = expire_spec (mstime cfg) k (ms + mstime cfg) (live cfg s)"
    using expireGenericCommand_spec [OF assms(1-5) i, of k "mstime cfg" UNIT_MILLISECONDS] x
    by (auto simp: pexpireCommand_def)
  then have l: "r = cone" "live_val cfg s1 k \<noteq> None" "live_exp cfg s1 k = Some (ms + mstime cfg)"
    using assms(6,7) by (auto simp: expire_spec_def live_def)
  obtain s2 where "pttlCommand cfg s1 k = Some (RInt ms, s2)"
    using ttlGenericCommand_spec [OF s1(2) assms(2), of k True] l assms(7,8) by (auto simp: pttlCommand_def)
  then show ?thesis using s1(1) l(1) by auto
qed

theorem pexpire_pttl_witness:
  "\<exists>s1 s2. pexpireCommand example_cfg example_server [97] (dec_bytes 250) = Some (cone, s1) \<and>
     pttlCommand example_cfg s1 [97] = Some (RInt 250, s2)"
  using pexpire_pttl [OF example_wf example_facts(1,5,2), of "[97]" 250] by (simp add: example_facts example_live)

text \<open>
  C27: EXPIRE multiplies its argument by 1000 without checking the result.  For any key that is
  visible, a time to live of 9223372036854776 seconds, some 292 million years, wraps around to
  a time in the past, and the command deletes the key at once and replies as if the expire
  time had been set.
\<close>

theorem expire_overflow_deletes:
  assumes "db_wf cfg s" "\<not> masterhost cfg" "db_room s" "\<not> loading cfg" "virtual_now cfg \<le> mstime cfg"
    and "live_val cfg s k \<noteq> None" "0 \<le> mstime cfg" "mstime cfg < 2 ^ 62"
  shows "\<exists>s'. expireCommand cfg s k (dec_bytes 9223372036854776) = Some (cone, s') \<and> live_val cfg s' k = None"
proof -
  have i: "string2ll (dec_bytes 9223372036854776) = Some 9223372036854776" by (simp add: string2ll_iff in_signed_def)
  have "wrap64 (9223372036854776 * 1000) = -9223372036854775616" by (simp add: wrap64_def signed_take_bit_int_greater_eq)
  moreover have "wrap64 (-9223372036854775616 + mstime cfg) = -9223372036854775616 + mstime cfg"
    using assms(7,8) by (intro wrap64_id) (simp add: in_signed_def)
  ultimately have "expire_when 9223372036854776 (mstime cfg) UNIT_SECONDS = -9223372036854775616 + mstime cfg"
    by (simp add: expire_when_def)
  then obtain r s' where "expireCommand cfg s k (dec_bytes 9223372036854776) = Some (r, s')"
      "(r, live cfg s') = expire_spec (mstime cfg) k (-9223372036854775616 + mstime cfg) (live cfg s)"
    using expireGenericCommand_spec [OF assms(1-5) i, of k "mstime cfg" UNIT_SECONDS] by (auto simp: expireCommand_def)
  then show ?thesis using assms(6) by (auto simp: expire_spec_def live_def)
qed

theorem expire_overflow_deletes_witness:
  "\<exists>s'. expireCommand example_cfg example_server [97] (dec_bytes 9223372036854776) = Some (cone, s') \<and>
     live_val example_cfg s' [97] = None"
  using expire_overflow_deletes [OF example_wf example_facts(1,5,2), of "[97]"] by (simp add: example_facts example_live)

end
