(* ===== verification/View.thy ===== *)
theory View
  imports KeyCommands
begin

text \<open>
  The keyspace as clients of a master see it, and the tools to follow it through a command.
  \<open>view\<close> abstracts from the encodings of the values, from expired keys that have not been
  deleted yet, and from the tables; \<open>refines\<close> says that a command acts on the view as its
  specification does.  \<open>kstate\<close> is the invariant the proofs carry from one call to the next,
  with one lemma per operation of the keyspace.
\<close>

section \<open>Tracking the visible keyspace through a command\<close>

text \<open>
  \<open>kstate cfg n K s V E\<close>: the state \<open>s\<close> is well-formed, its visible values and expire times
  are \<open>V\<close> and \<open>E\<close>, none of the keys in \<open>K\<close> is expired, and the table has at most \<open>n\<close> keys.
\<close>

definition kstate ::
  "'a server_config_scheme \<Rightarrow> nat \<Rightarrow> key set \<Rightarrow> server \<Rightarrow> (key \<rightharpoonup> robj) \<Rightarrow> (key \<rightharpoonup> int) \<Rightarrow> bool" where
  "kstate cfg n K s V E \<longleftrightarrow> db_wf cfg s \<and> live_val cfg s = V \<and> live_exp cfg s = E \<and>
     (\<forall>k \<in> K. \<not> expired cfg s k) \<and> card (dom (ks_val s)) \<le> n"

lemma kstate_upd [simp]:
  "kstate cfg n K (emit e s) V E = kstate cfg n K s V E"
  "kstate cfg n K (s\<lparr>dirty := d\<rparr>) V E = kstate cfg n K s V E"
  by (simp_all add: kstate_def expired_def)

lemma kstateI: "db_wf cfg s \<Longrightarrow> kstate cfg (card (dom (ks_val s))) {} s (live_val cfg s) (live_exp cfg s)"
  by (simp add: kstate_def)

lemma kstate_mono: "kstate cfg n K s V E \<Longrightarrow> n \<le> n' \<Longrightarrow> K' \<subseteq> K \<Longrightarrow> kstate cfg n' K' s V E"
  by (auto simp: kstate_def)

lemma kstate_raw:
  "kstate cfg n K s V E \<Longrightarrow> k \<in> K \<Longrightarrow> ks_val s k = V k \<and> ks_exp s k = E k"
  by (auto simp: kstate_def live_val_def live_exp_def)

lemma kstate_obj: "kstate cfg n K s V E \<Longrightarrow> V k = Some v \<Longrightarrow> obj_wf cfg v"
  using db_wf_obj [of cfg s k v] by (auto simp: kstate_def live_val_def split: if_splits)

lemma kstate_exp: "kstate cfg n K s V E \<Longrightarrow> V k = None \<Longrightarrow> E k = None"
  using db_wf_exp [of cfg s k] by (cases "ks_exp s k") (auto simp: kstate_def live_val_def live_exp_def split: if_splits)

text \<open>A change of the entries of one key, to an expire time that has not passed.\<close>

lemma kstate_change:
  assumes "kstate cfg n K s V E" and b: "becomes cfg s' ((ks_val s)(k := v)) ((ks_exp s)(k := e))"
    and e: "e = None \<or> e = E k \<or> (\<exists>t. e = Some t \<and> virtual_now cfg \<le> t)"
    and n: "card (dom (ks_val s')) \<le> n'"
  shows "kstate cfg n' (insert k K) s' (V(k := v)) (E(k := e))"
proof -
  have m: "ks_val s' = (ks_val s)(k := v)" "ks_exp s' = (ks_exp s)(k := e)" "db_wf cfg s'" using b by (simp_all add: becomes_def)
  have k: "\<not> expired cfg s' k"
    using e assms(1) m(2) by (auto simp: kstate_def expired_def live_exp_def split: if_splits)
  have o: "expired cfg s' j = expired cfg s j" if "j \<noteq> k" for j using m(2) that by (intro expired_cong) simp
  have "live_val cfg s' j = (V(k := v)) j \<and> live_exp cfg s' j = (E(k := e)) j" for j
    using assms(1) m(1,2) k o [of j] by (cases "j = k") (auto simp: kstate_def live_val_def live_exp_def)
  moreover have "\<not> expired cfg s' j" if "j \<in> insert k K" for j
    using that assms(1) k o [of j] by (cases "j = k") (auto simp: kstate_def)
  ultimately show ?thesis using m(3) n by (auto simp: kstate_def fun_eq_iff)
qed

lemma card_dom_upd: "finite (dom m) \<Longrightarrow> card (dom (m(k := v))) \<le> Suc (card (dom m))"
  by (cases v) (auto simp: card_insert_if intro: le_trans [OF card_Diff1_le])

lemma card_dom_same: "finite (dom m) \<Longrightarrow> v = None \<or> m k \<noteq> None \<Longrightarrow> card (dom (m(k := v))) \<le> card (dom m)"
  by (rule card_mono) (auto split: if_splits)

lemma kstate_lookup:
  assumes "kstate cfg n K s V E" "becomes cfg s' ((ks_val s)(k := live_val cfg s k)) ((ks_exp s)(k := live_exp cfg s k))"
  shows "kstate cfg n (insert k K) s' V E"
proof -
  have "card (dom (ks_val s')) \<le> card (dom (ks_val s))"
    using assms(2) card_dom_same [of "ks_val s" "live_val cfg s k" k] live_dom [of cfg s k]
    unfolding becomes_def by (metis finite_ks_val)
  then have "card (dom (ks_val s')) \<le> n" using assms(1) by (simp add: kstate_def)
  then have "kstate cfg n (insert k K) s' (V(k := live_val cfg s k)) (E(k := live_exp cfg s k))"
    using assms by (intro kstate_change) (auto simp: kstate_def)
  moreover have "V(k := live_val cfg s k) = V" "E(k := live_exp cfg s k) = E" using assms(1) by (auto simp: kstate_def)
  ultimately show ?thesis by simp
qed

lemma kstate_lookupKeyWrite:
  assumes "kstate cfg n K s V E" "\<not> masterhost cfg"
  shows "\<exists>s'. lookupKeyWrite cfg s k = Some (V k, s') \<and> kstate cfg n (insert k K) s' V E \<and> dirty s' = dirty s"
proof -
  have w: "db_wf cfg s" "live_val cfg s = V" using assms(1) by (simp_all add: kstate_def)
  from w(1) assms(2) show ?thesis
    by (rule lookupKeyWrite_master [where k = k]) (use kstate_lookup [OF assms(1)] w(2) in blast)
qed

lemma kstate_lookupKeyRead:
  assumes "kstate cfg n K s V E" "\<not> masterhost cfg"
  shows "\<exists>s'. lookupKeyRead cfg s k = Some (V k, s') \<and> kstate cfg n (insert k K) s' V E \<and> dirty s' = dirty s"
proof -
  have w: "db_wf cfg s" "live_val cfg s = V" using assms(1) by (simp_all add: kstate_def)
  from w(1) assms(2) show ?thesis
    by (rule lookupKeyRead_master [where k = k]) (use kstate_lookup [OF assms(1)] w(2) in blast)
qed

lemma kstate_dbAdd:
  assumes "kstate cfg n K s V E" "k \<in> K" "V k = None" "obj_wf cfg v" "n < 2 ^ 60"
  shows "\<exists>s'. dbAdd cfg s k v = Some s' \<and> kstate cfg (Suc n) K s' (V(k \<mapsto> v)) E \<and> dirty s' = dirty s"
proof -
  have s: "db_wf cfg s" "db_room s" "ks_val s k = None" "ks_exp s k = None" "E k = None"
    using assms(1,3,5) kstate_raw [OF assms(1,2)] kstate_exp [OF assms(1), of k] by (auto simp: kstate_def db_room_def)
  from dbAdd_spec [OF s(1-3) assms(4)] obtain s' where s': "dbAdd cfg s k v = Some s'" "dirty s' = dirty s"
      "becomes cfg s' ((ks_val s)(k \<mapsto> v)) (ks_exp s)" by blast
  have b: "becomes cfg s' ((ks_val s)(k := Some v)) ((ks_exp s)(k := None))" using s'(3) s(4) by (simp add: fun_upd_idem)
  have "card (dom (ks_val s')) \<le> Suc n"
    using assms(1) s'(3) card_dom_upd [of "ks_val s" k "Some v"] by (simp add: becomes_def kstate_def)
  from kstate_change [OF assms(1) b _ this] s(5) assms(2) have "kstate cfg (Suc n) K s' (V(k \<mapsto> v)) E"
    by (simp add: insert_absorb fun_upd_idem)
  then show ?thesis using s' by blast
qed

lemma kstate_update:
  assumes "kstate cfg n K s V E" "k \<in> K" "V k \<noteq> None" "obj_wf cfg v"
  shows "kstate cfg n K (obj_update s k v) (V(k \<mapsto> v)) E"
proof -
  have s: "db_wf cfg s" "ks_val s k \<noteq> None" "ks_exp s k = E k"
    using assms(1,3) kstate_raw [OF assms(1,2)] by (auto simp: kstate_def)
  from entry_becomes [OF s(1,2) assms(4)]
  have b: "becomes cfg (obj_update s k v) ((ks_val s)(k \<mapsto> v)) (ks_exp s)" .
  then have b': "becomes cfg (obj_update s k v) ((ks_val s)(k := Some v)) ((ks_exp s)(k := E k))" using s(3) by (simp add: fun_upd_idem)
  have "card (dom (ks_val (obj_update s k v))) \<le> n"
    using assms(1) b s(2) card_dom_same [of "ks_val s" "Some v" k] by (simp add: becomes_def kstate_def)
  from kstate_change [OF assms(1) b' _ this] assms(2) show ?thesis by (simp add: insert_absorb)
qed

lemma kstate_dbDelete:
  assumes "kstate cfg n K s V E"
  shows "\<exists>b s'. dbDelete cfg s k = Some (b, s') \<and> kstate cfg n (insert k K) s' (V(k := None)) (E(k := None)) \<and> dirty s' = dirty s \<and>
    (k \<in> K \<longrightarrow> b = (V k \<noteq> None))"
proof -
  have w: "db_wf cfg s" using assms by (simp add: kstate_def)
  obtain s' where s': "dbDelete cfg s k = Some (k \<in> dom (ks_val s), s')" "rest_same s s'"
      "becomes cfg s' ((ks_val s)(k := None)) ((ks_exp s)(k := None))"
    using dbDelete_spec [OF w, of k] by (auto simp: delete_spec_def becomes_def)
  have "card (dom (ks_val s')) \<le> n"
    using assms s'(3) card_dom_same [of "ks_val s" None k] by (simp add: becomes_def kstate_def)
  from kstate_change [OF assms s'(3) _ this] have "kstate cfg n (insert k K) s' (V(k := None)) (E(k := None))" by simp
  moreover have "(k \<in> dom (ks_val s)) = (V k \<noteq> None)" if "k \<in> K" using kstate_raw [OF assms that] by (simp add: dom_def)
  ultimately show ?thesis using s'(1) rest_same_fields [OF s'(2)] by blast
qed

lemma kstate_setKey:
  assumes "kstate cfg n K s V E" "\<not> masterhost cfg" "obj_wf cfg v" "n < 2 ^ 60"
  shows "\<exists>s'. genericSetKey cfg s k v keepttl signal = Some s' \<and>
    kstate cfg (Suc n) (insert k K) s' (V(k \<mapsto> v)) (E(k := if keepttl then E k else None)) \<and> dirty s' = dirty s"
proof -
  have s: "db_wf cfg s" "db_room s" "live_exp cfg s = E" using assms(1,4) by (auto simp: kstate_def db_room_def)
  from genericSetKey_spec [OF s(1) assms(2) s(2) assms(3), of k keepttl signal] s(3)
  obtain s' where s': "genericSetKey cfg s k v keepttl signal = Some s'" "dirty s' = dirty s"
    "becomes cfg s' ((ks_val s)(k \<mapsto> v)) ((ks_exp s)(k := if keepttl then E k else None))" by auto
  have "card (dom (ks_val s')) \<le> Suc n"
    using assms(1) s'(3) card_dom_upd [of "ks_val s" k "Some v"] by (simp add: becomes_def kstate_def)
  from kstate_change [OF assms(1) s'(3) _ this] show ?thesis using s'(1,2) by auto
qed

lemma kstate_setExpire:
  assumes "kstate cfg n K s V E" "k \<in> K" "V k \<noteq> None" "n < 2 ^ 62" "virtual_now cfg \<le> w"
  shows "\<exists>s'. setExpire cfg s k w = Some s' \<and> kstate cfg n K s' V (E(k \<mapsto> w)) \<and> dirty s' = dirty s"
proof -
  have s: "db_wf cfg s" "card (dom (ks_val s)) < 2 ^ 62" "ks_val s k = V k"
    using assms(1,4) kstate_raw [OF assms(1,2)] by (auto simp: kstate_def)
  from setExpire_spec [OF s(1,2), of k w] s(3) assms(3) obtain s' where s': "setExpire cfg s k w = Some s'" "dirty s' = dirty s"
      "becomes cfg s' (ks_val s) ((ks_exp s)(k \<mapsto> w))" by auto
  have b: "becomes cfg s' ((ks_val s)(k := V k)) ((ks_exp s)(k := Some w))" using s'(3) s(3) by (simp add: fun_upd_idem)
  have "card (dom (ks_val s')) \<le> n" using assms(1) s'(3) by (simp add: becomes_def kstate_def)
  from kstate_change [OF assms(1) b _ this] assms(2,5) have "kstate cfg n K s' V (E(k \<mapsto> w))"
    by (simp add: insert_absorb fun_upd_idem)
  then show ?thesis using s' by blast
qed

lemma kstate_dbOverwrite:
  assumes "kstate cfg n K s V E" "k \<in> K" "V k \<noteq> None" "obj_wf cfg v"
  shows "\<exists>s'. dbOverwrite s k v = Some s' \<and> kstate cfg n K s' (V(k \<mapsto> v)) E"
proof -
  have s: "db_wf cfg s" "ks_val s k \<noteq> None" "ks_exp s k = E k"
    using assms(1,3) kstate_raw [OF assms(1,2)] by (auto simp: kstate_def)
  from dbOverwrite_spec [OF s(1,2) assms(4)] obtain s' where s': "dbOverwrite s k v = Some s'"
    "becomes cfg s' ((ks_val s)(k \<mapsto> v)) (ks_exp s)" by blast
  have b: "becomes cfg s' ((ks_val s)(k := Some v)) ((ks_exp s)(k := E k))" using s'(2) s(3) by (simp add: fun_upd_idem)
  have "card (dom (ks_val s')) \<le> n"
    using assms(1) s'(2) s(2) card_dom_same [of "ks_val s" "Some v" k] by (simp add: becomes_def kstate_def)
  from kstate_change [OF assms(1) b _ this] assms(2) s'(1) show ?thesis by (simp add: insert_absorb)
qed

section \<open>The abstract keyspace\<close>

text \<open>A value as clients see it, whatever its encoding.\<close>

datatype avalue = AStr "byte list" | ASet "byte list set" | AOther obj_type

fun obj_abs :: "robj \<Rightarrow> avalue" where
  "obj_abs (ObjString o') = AStr (str_val o')"
| "obj_abs (ObjSet o') = ASet (set_elems o')"
| "obj_abs (ObjOther t) = AOther t"

type_synonym astate = "(key \<rightharpoonup> avalue) \<times> (key \<rightharpoonup> int)"

definition view :: "'a server_config_scheme \<Rightarrow> server \<Rightarrow> astate" where
  "view cfg s = (map_option obj_abs \<circ> live_val cfg s, live_exp cfg s)"

lemma view_kstate: "kstate cfg n K s V E \<Longrightarrow> view cfg s = (map_option obj_abs \<circ> V, E)"
  by (simp add: kstate_def view_def)

lemma kstate_wf: "kstate cfg n K s V E \<Longrightarrow> db_wf cfg s"
  by (simp add: kstate_def)

lemma abs_upd [simp]:
  "map_option obj_abs \<circ> V(k \<mapsto> v) = (map_option obj_abs \<circ> V)(k \<mapsto> obj_abs v)"
  "map_option obj_abs \<circ> V(k := None) = (map_option obj_abs \<circ> V)(k := None)"
  by (auto simp: fun_eq_iff)

lemma abs_upd_same: "map_option obj_abs (V k) = Some a \<Longrightarrow> (map_option obj_abs \<circ> V)(k \<mapsto> a) = map_option obj_abs \<circ> V"
  by (auto simp: fun_eq_iff)

text \<open>A command returns, keeps the invariant, and acts on the abstract keyspace as specified.\<close>

definition refines ::
  "'a server_config_scheme \<Rightarrow> server \<Rightarrow> (reply \<times> server) option \<Rightarrow> (astate \<Rightarrow> reply \<times> astate) \<Rightarrow> bool" where
  "refines cfg s out spec \<longleftrightarrow> (\<exists>r s'. out = Some (r, s') \<and> db_wf cfg s' \<and> (r, view cfg s') = spec (view cfg s))"

lemma refinesI:
  assumes "kstate cfg n K s V E" "\<exists>s'. out = Some (r, s') \<and> kstate cfg n' K' s' V' E'"
    and "spec (map_option obj_abs \<circ> V, E) = (r, map_option obj_abs \<circ> V', E')"
  shows "refines cfg s out spec"
  using assms view_kstate [OF assms(1)] view_kstate kstate_wf unfolding refines_def by metis

lemma refines_start:
  assumes "db_wf cfg s" "db_room s"
  obtains n V E where "kstate cfg n {} s V E" "n < 2 ^ 60" "view cfg s = (map_option obj_abs \<circ> V, E)"
  using kstateI [OF assms(1)] assms(2) by (intro that) (auto simp: db_room_def view_def)

lemma view_upd [simp]: "view cfg (emit e s) = view cfg s" "view cfg (s\<lparr>dirty := n\<rparr>) = view cfg s"
  by (simp_all add: view_def)

lemma refinesD: "refines cfg s out spec \<Longrightarrow> \<exists>s'. out = Some (fst (spec (view cfg s)), s') \<and> view cfg s' = snd (spec (view cfg s))"
  unfolding refines_def by (metis fst_conv snd_conv)

lemma example_view:
  "view example_cfg example_server =
     ([[100] \<mapsto> AStr (sds_val example_sds), [97] \<mapsto> AStr (dec_bytes 41), [98] \<mapsto> ASet {dec_bytes (- 5), dec_bytes 9}],
      [[100] \<mapsto> 5000])"
  by (auto simp: view_def example_live set_elems_def intset_example_facts fun_eq_iff)

end
