(* ===== verification/SetCommands.thy ===== *)
theory SetCommands
  imports View
begin

text \<open>
  The commands on one or two sets in \<open>src/redis-6.0.5/src/t_set.c\<close>: SADD, SREM, SMOVE, SISMEMBER
  and SCARD, with their specifications on the view of the keyspace.  The loops over the
  members are those of the finite-set interface, which the set objects provide.
\<close>

section \<open>The program\<close>

definition saddCommand :: "'a server_config_scheme \<Rightarrow> server \<Rightarrow> key \<Rightarrow> byte list list \<Rightarrow> (reply \<times> server) option" where
  "saddCommand cfg s key members = do {
     (o', s) \<leftarrow> lookupKeyWrite cfg s key;
     (case (case o' of None \<Rightarrow> Some (setTypeCreate cfg (hd members)) | Some (ObjSet st) \<Rightarrow> Some st | Some _ \<Rightarrow> None) of
        None \<Rightarrow> Some (RWrongType, s)
      | Some st \<Rightarrow> do {
          s \<leftarrow> (if o' = None then dbAdd cfg s key (ObjSet st) else Some s);
          (st, added) \<leftarrow> count_all (setTypeAdd cfg) st members;
          let s = obj_update s key (ObjSet st);
          let s = (if added > 0 then emit (Notify NOTIFY_SET ''sadd'' key) (emit (SignalModified key) s) else s);
          Some (RInt (int added), s\<lparr>dirty := dirty s + added\<rparr>)
        })
   }"

text \<open>The loop of \<open>sremCommand\<close> stops when the set becomes empty.\<close>

fun sremLoop :: "'a set_config_scheme \<Rightarrow> set_obj \<Rightarrow> byte list list \<Rightarrow> (set_obj \<times> nat \<times> bool) option" where
  "sremLoop cfg st [] = Some (st, 0, False)"
| "sremLoop cfg st (m # members) = do {
     (st, removed) \<leftarrow> setTypeRemove cfg st m;
     if removed then
       if setTypeSize st = 0 then Some (st, 1, True)
       else do {
         (st, deleted, keyremoved) \<leftarrow> sremLoop cfg st members;
         Some (st, 1 + deleted, keyremoved)
       }
     else sremLoop cfg st members
   }"

definition sremCommand :: "'a server_config_scheme \<Rightarrow> server \<Rightarrow> key \<Rightarrow> byte list list \<Rightarrow> (reply \<times> server) option" where
  "sremCommand cfg s key members = do {
     (o', s) \<leftarrow> lookupKeyWrite cfg s key;
     (case o' of
        None \<Rightarrow> Some (czero, s)
      | Some (ObjSet st) \<Rightarrow> do {
          (st, deleted, keyremoved) \<leftarrow> sremLoop cfg st members;
          let s = obj_update s key (ObjSet st);
          s \<leftarrow> (if keyremoved then map_option snd (dbDelete cfg s key) else Some s);
          if deleted > 0 then do {
            let s = emit (SignalModified key) s;
            let s = emit (Notify NOTIFY_SET ''srem'' key) s;
            let s = (if keyremoved then emit (Notify NOTIFY_GENERIC ''del'' key) s else s);
            Some (RInt (int deleted), s\<lparr>dirty := dirty s + deleted\<rparr>)
          }
          else Some (RInt (int deleted), s)
        }
      | Some _ \<Rightarrow> Some (RWrongType, s))
   }"

text \<open>
  Two keys never share a set object, so the two pointers of \<open>smoveCommand\<close> are equal exactly
  when the keys are.
\<close>

definition smoveCommand ::
  "'a server_config_scheme \<Rightarrow> server \<Rightarrow> key \<Rightarrow> key \<Rightarrow> byte list \<Rightarrow> (reply \<times> server) option" where
  "smoveCommand cfg s src dst ele = do {
     (srcobj, s) \<leftarrow> lookupKeyWrite cfg s src;
     (dstobj, s) \<leftarrow> lookupKeyWrite cfg s dst;
     (case srcobj of
        None \<Rightarrow> Some (czero, s)
      | Some (ObjSet srcset) \<Rightarrow>
          (case (case dstobj of None \<Rightarrow> Some (setTypeCreate cfg ele) | Some (ObjSet st) \<Rightarrow> Some st | Some _ \<Rightarrow> None) of
             None \<Rightarrow> Some (RWrongType, s)
           | Some dstset \<Rightarrow>
               if src = dst then do {
                 (st, ismem) \<leftarrow> setTypeIsMember srcset ele;
                 Some (if ismem then cone else czero, obj_update s src (ObjSet st))
               }
               else do {
                 (srcset, removed) \<leftarrow> setTypeRemove cfg srcset ele;
                 let s = obj_update s src (ObjSet srcset);
                 if \<not> removed then Some (czero, s)
                 else do {
                   let s = emit (Notify NOTIFY_SET ''srem'' src) s;
                   s \<leftarrow> (if setTypeSize srcset = 0
                         then map_option (\<lambda>(_, s). emit (Notify NOTIFY_GENERIC ''del'' src) s) (dbDelete cfg s src)
                         else Some s);
                   s \<leftarrow> (if dstobj = None then dbAdd cfg s dst (ObjSet dstset) else Some s);
                   let s = emit (SignalModified dst) (emit (SignalModified src) s);
                   let s = s\<lparr>dirty := dirty s + 1\<rparr>;
                   (dstset, added) \<leftarrow> setTypeAdd cfg dstset ele;
                   let s = obj_update s dst (ObjSet dstset);
                   Some (cone, if added then emit (Notify NOTIFY_SET ''sadd'' dst) (s\<lparr>dirty := dirty s + 1\<rparr>) else s)
                 }
               })
      | Some _ \<Rightarrow> Some (RWrongType, s))
   }"

definition sismemberCommand :: "'a server_config_scheme \<Rightarrow> server \<Rightarrow> key \<Rightarrow> byte list \<Rightarrow> (reply \<times> server) option" where
  "sismemberCommand cfg s key ele = do {
     (o', s) \<leftarrow> lookupKeyRead cfg s key;
     (case o' of
        None \<Rightarrow> Some (czero, s)
      | Some (ObjSet st) \<Rightarrow> do {
          (st, ismem) \<leftarrow> setTypeIsMember st ele;
          Some (if ismem then cone else czero, obj_update s key (ObjSet st))
        }
      | Some _ \<Rightarrow> Some (RWrongType, s))
   }"

definition scardCommand :: "'a server_config_scheme \<Rightarrow> server \<Rightarrow> key \<Rightarrow> (reply \<times> server) option" where
  "scardCommand cfg s key = do {
     (o', s) \<leftarrow> lookupKeyRead cfg s key;
     (case o' of
        None \<Rightarrow> Some (czero, s)
      | Some (ObjSet st) \<Rightarrow> Some (RInt (int (setTypeSize st)), s)
      | Some _ \<Rightarrow> Some (RWrongType, s))
   }"

section \<open>Lemmas\<close>

definition sadd_spec :: "key \<Rightarrow> byte list list \<Rightarrow> astate \<Rightarrow> reply \<times> astate" where
  "sadd_spec key members = (\<lambda>(V, E).
     (case V key of
        None \<Rightarrow> (RInt (int (card (set members))), V(key \<mapsto> ASet (set members)), E)
      | Some (ASet A) \<Rightarrow> (RInt (int (card (set members - A))), V(key \<mapsto> ASet (A \<union> set members)), E)
      | Some _ \<Rightarrow> (RWrongType, V, E)))"

definition srem_spec :: "key \<Rightarrow> byte list list \<Rightarrow> astate \<Rightarrow> reply \<times> astate" where
  "srem_spec key members = (\<lambda>(V, E).
     (case V key of
        None \<Rightarrow> (RInt 0, V, E)
      | Some (ASet A) \<Rightarrow>
          (RInt (int (card (set members \<inter> A))),
           if A - set members = {} \<and> A \<noteq> {} then (V(key := None), E(key := None)) else (V(key \<mapsto> ASet (A - set members)), E))
      | Some _ \<Rightarrow> (RWrongType, V, E)))"

definition smove_spec :: "key \<Rightarrow> key \<Rightarrow> byte list \<Rightarrow> astate \<Rightarrow> reply \<times> astate" where
  "smove_spec src dst ele = (\<lambda>(V, E).
     (case V src of
        None \<Rightarrow> (RInt 0, V, E)
      | Some (ASet A) \<Rightarrow>
          (case (case V dst of None \<Rightarrow> Some {} | Some (ASet B) \<Rightarrow> Some B | Some _ \<Rightarrow> None) of
             None \<Rightarrow> (RWrongType, V, E)
           | Some B \<Rightarrow>
               if ele \<notin> A then (RInt 0, V, E)
               else if src = dst then (RInt 1, V, E)
               else (RInt 1,
                     V(src := if A = {ele} then None else Some (ASet (A - {ele})), dst \<mapsto> ASet (insert ele B)),
                     if A = {ele} then E(src := None) else E))
      | Some _ \<Rightarrow> (RWrongType, V, E)))"

text \<open>The sets a command handles are within the capacity of the intset and the table.\<close>

definition set_room :: "key \<Rightarrow> nat \<Rightarrow> astate \<Rightarrow> bool" where
  "set_room key n v \<longleftrightarrow> (case fst v key of Some (ASet A) \<Rightarrow> card A + n < 2 ^ 28 | _ \<Rightarrow> n < 2 ^ 28)"

lemma sadd_members:
  assumes "set_wf cfg st" "card (set_elems st) + length members < 2 ^ 28"
  shows "\<exists>st'. count_all (setTypeAdd cfg) st members = Some (st', card (set members - set_elems st)) \<and> set_wf cfg st' \<and>
    set_elems st' = set_elems st \<union> set members"
proof (rule so.add_all_spec [OF assms(1)])
  show "card (set_elems st \<union> set members) < 2 ^ 28"
    using assms(2) card_length [of members] card_Un_le [of "set_elems st" "set members"] by linarith
qed simp

lemma saddCommand_spec:
  assumes "db_wf cfg s" "\<not> masterhost cfg" "db_room s" "set_room key (length members) (view cfg s)"
  shows "refines cfg s (saddCommand cfg s key members) (sadd_spec key members)"
proof -
  from assms(1,3) obtain n V E where k0: "kstate cfg n {} s V E" "n < 2 ^ 60" "view cfg s = (map_option obj_abs \<circ> V, E)"
    by (rule refines_start)
  obtain s1 where s1: "lookupKeyWrite cfg s key = Some (V key, s1)" "kstate cfg n {key} s1 V E"
    using kstate_lookupKeyWrite [OF k0(1) assms(2), of key] by auto
  show ?thesis
  proof (cases "V key")
    case None
    define st where "st = setTypeCreate cfg (hd members)"
    have st: "set_wf cfg st" "set_elems st = {}" by (simp_all add: st_def)
    obtain s2 where s2: "dbAdd cfg s1 key (ObjSet st) = Some s2" "kstate cfg (Suc n) {key} s2 (V(key \<mapsto> ObjSet st)) E"
      using kstate_dbAdd [OF s1(2) _ None, of "ObjSet st"] k0(2) st by auto
    have "length members < 2 ^ 28" using assms(4) None by (simp add: set_room_def k0(3))
    then obtain st' where st': "count_all (setTypeAdd cfg) st members = Some (st', card (set members))" "set_wf cfg st'"
        "set_elems st' = set members" using sadd_members [OF st(1), of members] st(2) by auto
    have "kstate cfg (Suc n) {key} (obj_update s2 key (ObjSet st')) (V(key \<mapsto> ObjSet st')) E"
      using kstate_update [OF s2(2), of key "ObjSet st'"] st'(2) by simp
    then show ?thesis
      using None s1(1) s2(1) st'(1,3)
      by (intro refinesI [OF k0(1), where V' = "V(key \<mapsto> ObjSet st')" and E' = E and K' = "{key}"])
        (auto simp: saddCommand_def st_def sadd_spec_def Let_def)
  next
    case (Some v)
    show ?thesis
    proof (cases v)
      case (ObjSet st)
      have st: "set_wf cfg st" using kstate_obj [OF s1(2) Some] ObjSet by simp
      have "card (set_elems st) + length members < 2 ^ 28" using assms(4) Some ObjSet by (simp add: set_room_def k0(3))
      then obtain st' where st': "count_all (setTypeAdd cfg) st members = Some (st', card (set members - set_elems st))" "set_wf cfg st'"
          "set_elems st' = set_elems st \<union> set members" using sadd_members [OF st(1), of members] by auto
      have "kstate cfg n {key} (obj_update s1 key (ObjSet st')) (V(key \<mapsto> ObjSet st')) E"
        using kstate_update [OF s1(2), of key "ObjSet st'"] st'(2) Some by simp
      then show ?thesis
        using Some ObjSet s1(1) st'(1,3)
        by (intro refinesI [OF k0(1), where V' = "V(key \<mapsto> ObjSet st')" and E' = E and K' = "{key}"])
          (auto simp: saddCommand_def sadd_spec_def Let_def)
    qed (use Some s1 in \<open>auto intro!: refinesI [OF k0(1), where V' = V and E' = E] simp: saddCommand_def sadd_spec_def\<close>)
  qed
qed

lemma sremLoop_spec:
  assumes "set_wf cfg st" "card (set_elems st) < 2 ^ 28"
  shows "\<exists>st'. sremLoop cfg st members = Some (st', card (set members \<inter> set_elems st), set_elems st \<noteq> {} \<and> set_elems st \<subseteq> set members) \<and>
    set_wf cfg st' \<and> set_elems st' = set_elems st - set members"
  using assms
proof (induction members arbitrary: st)
  case (Cons m members)
  obtain st1 where st1: "setTypeRemove cfg st m = Some (st1, m \<in> set_elems st)" "set_wf cfg st1" "set_elems st1 = set_elems st - {m}"
    using setTypeRemove_spec [OF Cons.prems, of m] by auto
  have fin: "finite (set_elems st)" by (rule set_elems_finite)
  have size: "setTypeSize st1 = 0 \<longleftrightarrow> set_elems st - {m} = {}"
    using setTypeSize_card [OF st1(2)] st1(3) fin by simp
  have "card (set_elems st1) < 2 ^ 28" using Cons.prems(2) st1(3) card_mono [OF fin, of "set_elems st - {m}"] by auto
  from Cons.IH [OF st1(2) this] obtain st2 where
    st2: "sremLoop cfg st1 members = Some (st2, card (set members \<inter> set_elems st1), set_elems st1 \<noteq> {} \<and> set_elems st1 \<subseteq> set members)"
      "set_wf cfg st2" "set_elems st2 = set_elems st1 - set members" by blast
  consider "m \<notin> set_elems st" | "set_elems st = {m}" | "m \<in> set_elems st" "set_elems st - {m} \<noteq> {}" by blast
  then show ?case
  proof cases
    case 1
    then have e: "set_elems st1 = set_elems st" "set (m # members) \<inter> set_elems st = set members \<inter> set_elems st" using st1(3) by auto
    then show ?thesis using 1 st1(1) st2 by auto
  next
    case 2
    then have "set (m # members) \<inter> set_elems st = {m}" by auto
    then show ?thesis using 2 st1 size by auto
  next
    case 3
    then have "set (m # members) \<inter> set_elems st = insert m (set members \<inter> set_elems st1)" "m \<notin> set members \<inter> set_elems st1"
      using st1(3) by auto
    then have c: "card (set (m # members) \<inter> set_elems st) = 1 + card (set members \<inter> set_elems st1)" by simp
    have k: "(set_elems st1 \<noteq> {} \<and> set_elems st1 \<subseteq> set members) = (set_elems st \<noteq> {} \<and> set_elems st \<subseteq> set (m # members))"
      using 3 st1(3) by auto
    have e: "set_elems st2 = set_elems st - set (m # members)" using st1(3) st2(3) by auto
    have l: "sremLoop cfg st (m # members) =
        Some (st2, 1 + card (set members \<inter> set_elems st1), set_elems st1 \<noteq> {} \<and> set_elems st1 \<subseteq> set members)"
      using 3 st1(1) size st2(1) by simp
    show ?thesis using st2(2) e unfolding l c k by blast
  qed
qed auto

lemma sremCommand_spec:
  assumes "db_wf cfg s" "\<not> masterhost cfg" "db_room s" "set_room key 0 (view cfg s)"
  shows "refines cfg s (sremCommand cfg s key members) (srem_spec key members)"
proof -
  from assms(1,3) obtain n V E where k0: "kstate cfg n {} s V E" "n < 2 ^ 60" "view cfg s = (map_option obj_abs \<circ> V, E)"
    by (rule refines_start)
  obtain s1 where s1: "lookupKeyWrite cfg s key = Some (V key, s1)" "kstate cfg n {key} s1 V E"
    using kstate_lookupKeyWrite [OF k0(1) assms(2), of key] by auto
  show ?thesis
  proof (cases "V key")
    case None
    then show ?thesis using s1
      by (intro refinesI [OF k0(1), where V' = V and E' = E and r = "RInt 0"]) (auto simp: sremCommand_def srem_spec_def czero_def)
  next
    case (Some v)
    show ?thesis
    proof (cases v)
      case (ObjSet st)
      define A where "A = set_elems st"
      have st: "set_wf cfg st" using kstate_obj [OF s1(2) Some] ObjSet by simp
      have "card (set_elems st) < 2 ^ 28" using assms(4) Some ObjSet by (simp add: set_room_def k0(3))
      from sremLoop_spec [OF st this, of members] obtain st' where
        st': "sremLoop cfg st members = Some (st', card (set members \<inter> A), A \<noteq> {} \<and> A \<subseteq> set members)" "set_wf cfg st'"
          "set_elems st' = A - set members" unfolding A_def by blast
      have k2: "kstate cfg n {key} (obj_update s1 key (ObjSet st')) (V(key \<mapsto> ObjSet st')) E"
        using kstate_update [OF s1(2), of key "ObjSet st'"] st'(2) Some by simp
      show ?thesis
      proof (cases "A \<noteq> {} \<and> A \<subseteq> set members")
        case True
        then have "card (set members \<inter> A) > 0" "A - set members = {}" by (auto simp: card_gt_0_iff A_def set_elems_finite)
        moreover obtain s3 b where "dbDelete cfg (obj_update s1 key (ObjSet st')) key = Some (b, s3)"
            "kstate cfg n {key} s3 (V(key := None)) (E(key := None))"
          using kstate_dbDelete [OF k2, of key] by auto
        ultimately show ?thesis
          using True Some ObjSet s1(1) st'(1)
          by (intro refinesI [OF k0(1), where V' = "V(key := None)" and E' = "E(key := None)" and K' = "{key}"])
            (auto simp: sremCommand_def srem_spec_def Let_def A_def)
      next
        case False
        then have "\<not> (A - set members = {} \<and> A \<noteq> {})" by blast
        then show ?thesis
          using False Some ObjSet s1(1) st'(1,3) k2
          by (intro refinesI [OF k0(1), where V' = "V(key \<mapsto> ObjSet st')" and E' = E and K' = "{key}"])
            (auto simp: sremCommand_def srem_spec_def Let_def A_def)
      qed
    qed (use Some s1 in \<open>auto intro!: refinesI [OF k0(1), where V' = V and E' = E] simp: sremCommand_def srem_spec_def\<close>)
  qed
qed

definition sismember_spec :: "key \<Rightarrow> byte list \<Rightarrow> astate \<Rightarrow> reply \<times> astate" where
  "sismember_spec key ele = (\<lambda>(V, E).
     (case V key of
        None \<Rightarrow> RInt 0
      | Some (ASet A) \<Rightarrow> RInt (if ele \<in> A then 1 else 0)
      | Some _ \<Rightarrow> RWrongType, V, E))"

definition scard_spec :: "key \<Rightarrow> astate \<Rightarrow> reply \<times> astate" where
  "scard_spec key = (\<lambda>(V, E).
     (case V key of None \<Rightarrow> RInt 0 | Some (ASet A) \<Rightarrow> RInt (int (card A)) | Some _ \<Rightarrow> RWrongType, V, E))"

lemma sismemberCommand_spec:
  assumes "db_wf cfg s" "\<not> masterhost cfg" "db_room s"
  shows "refines cfg s (sismemberCommand cfg s key ele) (sismember_spec key ele)"
proof -
  from assms(1,3) obtain n V E where k0: "kstate cfg n {} s V E" "n < 2 ^ 60" "view cfg s = (map_option obj_abs \<circ> V, E)"
    by (rule refines_start)
  obtain s1 where s1: "lookupKeyRead cfg s key = Some (V key, s1)" "kstate cfg n {key} s1 V E"
    using kstate_lookupKeyRead [OF k0(1) assms(2), of key] by auto
  show ?thesis
  proof (cases "V key")
    case (Some v)
    show ?thesis
    proof (cases v)
      case (ObjSet st)
      have st: "set_wf cfg st" using kstate_obj [OF s1(2) Some] ObjSet by simp
      from setTypeIsMember_spec [OF st, of ele] obtain st' where
        st': "setTypeIsMember st ele = Some (st', ele \<in> set_elems st)" "set_wf cfg st'" "set_elems st' = set_elems st" by blast
      have k2: "kstate cfg n {key} (obj_update s1 key (ObjSet st')) (V(key \<mapsto> ObjSet st')) E"
        using kstate_update [OF s1(2), of key "ObjSet st'"] st'(2) Some by simp
      have "(map_option obj_abs \<circ> V)(key \<mapsto> ASet (set_elems st)) = map_option obj_abs \<circ> V"
        using Some ObjSet by (intro abs_upd_same) simp
      then show ?thesis
        using Some ObjSet s1(1) st'(1,3) k2
        by (intro refinesI [OF k0(1), where V' = "V(key \<mapsto> ObjSet st')" and E' = E and K' = "{key}"])
          (auto simp: sismemberCommand_def sismember_spec_def cone_def czero_def)
    qed (use Some s1 in \<open>auto intro!: refinesI [OF k0(1), where V' = V and E' = E] simp: sismemberCommand_def sismember_spec_def\<close>)
  qed (use s1 in \<open>auto intro!: refinesI [OF k0(1), where V' = V and E' = E] simp: sismemberCommand_def sismember_spec_def czero_def\<close>)
qed

lemma scardCommand_spec:
  assumes "db_wf cfg s" "\<not> masterhost cfg" "db_room s"
  shows "refines cfg s (scardCommand cfg s key) (scard_spec key)"
proof -
  from assms(1,3) obtain n V E where k0: "kstate cfg n {} s V E" "n < 2 ^ 60" "view cfg s = (map_option obj_abs \<circ> V, E)"
    by (rule refines_start)
  obtain s1 where s1: "lookupKeyRead cfg s key = Some (V key, s1)" "kstate cfg n {key} s1 V E"
    using kstate_lookupKeyRead [OF k0(1) assms(2), of key] by auto
  have "setTypeSize st = card (set_elems st)" if "V key = Some (ObjSet st)" for st
    using kstate_obj [OF s1(2) that] setTypeSize_card [of cfg st] by simp
  then show ?thesis
    using s1 by (cases "V key") (auto intro!: refinesI [OF k0(1), where V' = V and E' = E]
      simp: scardCommand_def scard_spec_def czero_def split: robj.splits)
qed

lemma obj_update_emit [simp]:
  "obj_update (emit e s) k v = emit e (obj_update s k v)"
  "obj_update (s\<lparr>dirty := d\<rparr>) k v = (obj_update s k v)\<lparr>dirty := d\<rparr>"
  by (simp_all add: obj_update_def emit_def)

text \<open>The two halves of a move: out of the source, and into the destination.\<close>

lemma smove_src:
  assumes "kstate cfg n K s V E" "src \<in> K" "V src \<noteq> None" "set_wf cfg st"
  shows "\<exists>s'. (if setTypeSize st = 0
      then map_option (\<lambda>(_, s). emit (Notify NOTIFY_GENERIC ''del'' src) s) (dbDelete cfg (emit e (obj_update s src (ObjSet st))) src)
      else Some (emit e (obj_update s src (ObjSet st)))) = Some s' \<and>
    kstate cfg n K s' (V(src := if set_elems st = {} then None else Some (ObjSet st))) (if set_elems st = {} then E(src := None) else E)"
proof -
  have size: "setTypeSize st = 0 \<longleftrightarrow> set_elems st = {}" using setTypeSize_card [OF assms(4)] set_elems_finite [of st] by simp
  have k: "kstate cfg n K (emit e (obj_update s src (ObjSet st))) (V(src \<mapsto> ObjSet st)) E"
    using kstate_update [OF assms(1-3), of "ObjSet st"] assms(4) by simp
  show ?thesis
  proof (cases "set_elems st = {}")
    case True
    from kstate_dbDelete [OF k, of src] assms(2) obtain b s' where
      "dbDelete cfg (emit e (obj_update s src (ObjSet st))) src = Some (b, s')" "kstate cfg n K s' (V(src := None)) (E(src := None))"
      by (auto simp: insert_absorb)
    then show ?thesis using True size by simp
  next
    case False
    then show ?thesis using size k by simp
  qed
qed

lemma smove_dst:
  assumes "kstate cfg n K s V E" "dst \<in> K" "n < 2 ^ 60" and B: "set_wf cfg B" "card (set_elems B) < 2 ^ 28"
    and V: "V dst = None \<or> V dst = Some (ObjSet B)"
  shows "\<exists>s' B'. (if V dst = None then dbAdd cfg s dst (ObjSet B) else Some s) = Some s' \<and>
    setTypeAdd cfg B ele = Some (B', ele \<notin> set_elems B) \<and> set_elems B' = insert ele (set_elems B) \<and>
    kstate cfg (Suc n) K (obj_update s' dst (ObjSet B')) (V(dst \<mapsto> ObjSet B')) E"
proof -
  obtain s' where s': "(if V dst = None then dbAdd cfg s dst (ObjSet B) else Some s) = Some s'"
      "kstate cfg (Suc n) K s' (V(dst \<mapsto> ObjSet B)) E"
    using kstate_dbAdd [OF assms(1,2) _ _ assms(3), of "ObjSet B"] kstate_mono [OF assms(1), of "Suc n" K] V B(1)
    by (cases "V dst = None") (auto simp: fun_upd_idem)
  obtain B' where B': "setTypeAdd cfg B ele = Some (B', ele \<notin> set_elems B)" "set_wf cfg B'" "set_elems B' = insert ele (set_elems B)"
    using setTypeAdd_spec [OF B] by blast
  have "kstate cfg (Suc n) K (obj_update s' dst (ObjSet B')) (V(dst \<mapsto> ObjSet B')) E"
    using kstate_update [OF s'(2) assms(2), of "ObjSet B'"] B'(2) by simp
  then show ?thesis using s'(1) B' by blast
qed

lemma smoveCommand_spec:
  assumes "db_wf cfg s" "\<not> masterhost cfg" "db_room s" "set_room src 0 (view cfg s)" "set_room dst 1 (view cfg s)"
  shows "refines cfg s (smoveCommand cfg s src dst ele) (smove_spec src dst ele)"
proof -
  from assms(1,3) obtain n V E where k0: "kstate cfg n {} s V E" "n < 2 ^ 60" "view cfg s = (map_option obj_abs \<circ> V, E)"
    by (rule refines_start)
  obtain s1 where s1: "lookupKeyWrite cfg s src = Some (V src, s1)" "kstate cfg n {src} s1 V E"
    using kstate_lookupKeyWrite [OF k0(1) assms(2), of src] by auto
  obtain s2 where s2: "lookupKeyWrite cfg s1 dst = Some (V dst, s2)" "kstate cfg n {src, dst} s2 V E"
    using kstate_lookupKeyWrite [OF s1(2) assms(2), of dst] by (auto simp: insert_commute)
  define dset where "dset = (case V dst of None \<Rightarrow> Some (setTypeCreate cfg ele) | Some (ObjSet st) \<Rightarrow> Some st | Some _ \<Rightarrow> None)"
  show ?thesis
  proof (cases "\<exists>st dst'. V src = Some (ObjSet st) \<and> dset = Some dst'")
    case False
    then show ?thesis using s1(1) s2
      by (cases "V src"; cases "V dst") (auto intro!: refinesI [OF k0(1), where V' = V and E' = E]
        simp: smoveCommand_def smove_spec_def czero_def dset_def split: robj.splits)
  next
    case True
    then obtain st B where v: "V src = Some (ObjSet st)" "dset = Some B" by blast
    have dd: "(case V dst of None \<Rightarrow> Some (setTypeCreate cfg ele) | Some (ObjSet st) \<Rightarrow> Some st | Some _ \<Rightarrow> None) = Some B"
      using v(2) by (simp add: dset_def)
    have st: "set_wf cfg st" "card (set_elems st) < 2 ^ 28"
      using kstate_obj [OF s1(2) v(1)] assms(4) v(1) by (simp_all add: set_room_def k0(3))
    have B: "set_wf cfg B" "card (set_elems B) < 2 ^ 28" "V dst = None \<and> set_elems B = {} \<or> V dst = Some (ObjSet B)"
      using v(2) kstate_obj [OF s1(2), of dst] assms(5)
      by (auto simp: dset_def set_room_def k0(3) split: option.splits robj.splits)
    have a: "(case (map_option obj_abs \<circ> V) dst of None \<Rightarrow> Some {} | Some (ASet B) \<Rightarrow> Some B | Some _ \<Rightarrow> None) = Some (set_elems B)"
      using B(3) by auto
    obtain st1 where st1: "setTypeRemove cfg st ele = Some (st1, ele \<in> set_elems st)" "set_wf cfg st1" "set_elems st1 = set_elems st - {ele}"
      using setTypeRemove_spec [OF st, of ele] by blast
    consider (same) "src = dst" | (absent) "src \<noteq> dst" "ele \<notin> set_elems st" | (move) "src \<noteq> dst" "ele \<in> set_elems st" by blast
    then show ?thesis
    proof cases
      case same
      obtain st' where st': "setTypeIsMember st ele = Some (st', ele \<in> set_elems st)" "set_wf cfg st'" "set_elems st' = set_elems st"
        using setTypeIsMember_spec [OF st(1), of ele] by blast
      then have "kstate cfg n {src, dst} (obj_update s2 src (ObjSet st')) (V(src \<mapsto> ObjSet st')) E"
        using kstate_update [OF s2(2), of src "ObjSet st'"] v(1) by simp
      then have out: "\<exists>s'. smoveCommand cfg s src dst ele = Some (RInt (if ele \<in> set_elems st then 1 else 0), s') \<and>
          kstate cfg n {src, dst} s' (V(src \<mapsto> ObjSet st')) E"
        using same v(1) dd st'(1) s1(1) s2(1) by (simp add: smoveCommand_def cone_def czero_def)
      show ?thesis
        using v(1) a same st'(3) by (intro refinesI [OF k0(1) out]) (auto simp: smove_spec_def fun_eq_iff)
    next
      case absent
      then have "kstate cfg n {src, dst} (obj_update s2 src (ObjSet st1)) (V(src \<mapsto> ObjSet st1)) E"
        using kstate_update [OF s2(2), of src "ObjSet st1"] v(1) st1(2) by simp
      then have out: "\<exists>s'. smoveCommand cfg s src dst ele = Some (RInt 0, s') \<and> kstate cfg n {src, dst} s' (V(src \<mapsto> ObjSet st1)) E"
        using absent v(1) dd st1(1) s1(1) s2(1) by (simp add: smoveCommand_def Let_def czero_def)
      show ?thesis
        using v(1) a absent st1(3) by (intro refinesI [OF k0(1) out]) (auto simp: smove_spec_def fun_eq_iff)
    next
      case move
      have nz: "V src \<noteq> None" using v(1) by simp
      define V3 where "V3 = V(src := if set_elems st1 = {} then None else Some (ObjSet st1))"
      define E3 where "E3 = (if set_elems st1 = {} then E(src := None) else E)"
      obtain s3 where s3: "(if setTypeSize st1 = 0
          then map_option (\<lambda>(_, s). emit (Notify NOTIFY_GENERIC ''del'' src) s) (dbDelete cfg (emit (Notify NOTIFY_SET ''srem'' src) (obj_update s2 src (ObjSet st1))) src)
          else Some (emit (Notify NOTIFY_SET ''srem'' src) (obj_update s2 src (ObjSet st1)))) = Some s3"
          "kstate cfg n {src, dst} s3 V3 E3"
        using smove_src [OF s2(2) _ nz st1(2)] unfolding V3_def E3_def by blast
      have V3: "V3 dst = V dst" using move(1) by (simp add: V3_def)
      obtain s4 B' where s4: "(if V dst = None then dbAdd cfg s3 dst (ObjSet B) else Some s3) = Some s4"
          "setTypeAdd cfg B ele = Some (B', ele \<notin> set_elems B)" "set_elems B' = insert ele (set_elems B)"
          "kstate cfg (Suc n) {src, dst} (obj_update s4 dst (ObjSet B')) (V3(dst \<mapsto> ObjSet B')) E3"
        using smove_dst [OF s3(2) _ k0(2) B(1,2), of dst ele] V3 B(3) by auto
      have out: "\<exists>s'. smoveCommand cfg s src dst ele = Some (RInt 1, s') \<and> kstate cfg (Suc n) {src, dst} s' (V3(dst \<mapsto> ObjSet B')) E3"
        using move v(1) dd st1(1) s1(1) s2(1) s3(1) s4 by (simp add: smoveCommand_def Let_def cone_def)
      have "set_elems st1 = {} \<longleftrightarrow> set_elems st = {ele}" using st1(3) move(2) by auto
      then show ?thesis
        using v(1) a move s4(3) st1(3)
        by (intro refinesI [OF k0(1) out]) (auto simp: smove_spec_def V3_def E3_def)
    qed
  qed
qed

section \<open>Properties\<close>

text \<open>
  C28: on a master, SADD acts on the visible keyspace as specified: it creates the set when the
  key is missing or expired, adds the given members through any change of encoding, replies
  with the number of distinct new ones, keeps the expire time, and refuses other types.
\<close>

theorem saddCommand_refines:
  assumes "db_wf cfg s" "\<not> masterhost cfg" "db_room s" "set_room key (length members) (view cfg s)"
  shows "refines cfg s (saddCommand cfg s key members) (sadd_spec key members)"
  using assms by (rule saddCommand_spec)

theorem saddCommand_refines_witness:
  "\<exists>s'. saddCommand example_cfg example_server [99] [[49], [120], [49]] = Some (RInt 2, s') \<and>
     fst (view example_cfg s') [99] = Some (ASet {[49], [120]})"
proof -
  have "set_room [99] (length [[49 :: byte], [120], [49]]) (view example_cfg example_server)"
    by (simp add: set_room_def example_view)
  from refinesD [OF saddCommand_refines [OF example_wf example_facts(1,5) this]] show ?thesis
    by (auto simp: sadd_spec_def example_view insert_commute)
qed

text \<open>
  C10: on a master, SREM removes the given members from the set, replies with the number that
  were there, removes the key together with its expire time when no member is left, though
  its loop stops early in that case, and otherwise keeps the expire time.
\<close>

theorem sremCommand_refines:
  assumes "db_wf cfg s" "\<not> masterhost cfg" "db_room s" "set_room key 0 (view cfg s)"
  shows "refines cfg s (sremCommand cfg s key members) (srem_spec key members)"
  using assms by (rule sremCommand_spec)

theorem sremCommand_refines_witness:
  "\<exists>s'. sremCommand example_cfg example_server [98] [dec_bytes 9, dec_bytes 7, dec_bytes (-5)] = Some (RInt 2, s') \<and>
     fst (view example_cfg s') [98] = None"
proof -
  have r: "set_room [98] 0 (view example_cfg example_server)"
    by (simp add: set_room_def example_view card_insert_if)
  have d: "dec_bytes (-5) \<noteq> dec_bytes 9" by code_simp
  have "{dec_bytes 9, dec_bytes 7, dec_bytes (- 5)} \<inter> {dec_bytes (- 5), dec_bytes 9} = {dec_bytes (- 5), dec_bytes 9}" by auto
  with d show ?thesis
    using refinesD [OF sremCommand_refines [OF example_wf example_facts(1,5) r], of "[dec_bytes 9, dec_bytes 7, dec_bytes (-5)]"]
    by (auto simp: srem_spec_def example_view card_insert_if)
qed

text \<open>
  C29: on a master, SMOVE moves the element from one set to the other in one step: it replies 1
  exactly when the source has the element, creates the destination when it is missing,
  removes the source when it becomes empty, changes nothing when the two keys are equal, and
  refuses other types at either key without changing anything.
\<close>

theorem smoveCommand_refines:
  assumes "db_wf cfg s" "\<not> masterhost cfg" "db_room s" "set_room src 0 (view cfg s)" "set_room dst 1 (view cfg s)"
  shows "refines cfg s (smoveCommand cfg s src dst ele) (smove_spec src dst ele)"
  using assms by (rule smoveCommand_spec)

theorem smoveCommand_refines_witness:
  "\<exists>s'. smoveCommand example_cfg example_server [98] [99] (dec_bytes 9) = Some (RInt 1, s') \<and>
     fst (view example_cfg s') [98] = Some (ASet {dec_bytes (-5)}) \<and> fst (view example_cfg s') [99] = Some (ASet {dec_bytes 9})"
proof -
  have r: "set_room [98] 0 (view example_cfg example_server)" "set_room [99] 1 (view example_cfg example_server)"
    by (simp_all add: set_room_def example_view card_insert_if)
  have d: "dec_bytes (-5) \<noteq> dec_bytes 9" by code_simp
  then have "{dec_bytes (- 5), dec_bytes 9} - {dec_bytes 9} = {dec_bytes (- 5)}" "{dec_bytes (- 5), dec_bytes 9} \<noteq> {dec_bytes 9}" by auto
  then show ?thesis
    using refinesD [OF smoveCommand_refines [OF example_wf example_facts(1,5) r], of "dec_bytes 9"]
    by (auto simp: smove_spec_def example_view)
qed

end
