(* ===== verification/SetAlgebra.thy ===== *)
theory SetAlgebra
  imports SetCommands
begin

text \<open>
  The set algebra commands of \<open>src/redis-6.0.5/src/t_set.c\<close>: SINTER, SUNION, SDIFF and their
  storing variants.  The model keeps the two difference algorithms, the sorting of the sets
  by size, and the pointer comparisons that handle a key given twice; the iterators are those
  of the set objects, with the fingerprint check when they are released.
\<close>

section \<open>Intersection, union and difference: the program\<close>

datatype set_op = SET_OP_UNION | SET_OP_DIFF | SET_OP_INTER

text \<open>
  The array \<open>sets\<close> holds pointers to objects of the keyspace; such a pointer is the key of the
  object, and following it is \<open>deref\<close>.  Equal pointers are equal keys.  \<open>None\<close> is the null
  pointer.
\<close>

definition deref :: "server \<Rightarrow> key \<Rightarrow> set_obj option" where
  "deref s key = (case map_of (dict_entries (db_dict s)) key of Some (ObjSet st) \<Rightarrow> Some st | _ \<Rightarrow> None)"

text \<open>
  The loops over the elements of a set.  \<open>addr\<close> gives the addresses of the tables of an
  object.  An object is not changed while it is iterated, and the number of its elements
  plus one is enough fuel.
\<close>

fun set_foreach ::
  "nat \<Rightarrow> u64 \<times> u64 \<Rightarrow> (set_element \<Rightarrow> 'b \<Rightarrow> 'b option) \<Rightarrow> set_obj \<Rightarrow> setTypeIterator \<Rightarrow> 'b \<Rightarrow> 'b option" where
  "set_foreach 0 p f st si acc = None"
| "set_foreach (Suc fuel) p f st si acc = do {
     (e, st, si) \<leftarrow> setTypeNext (fst p) (snd p) st si;
     (case e of
        None \<Rightarrow> map_option (\<lambda>_. acc) (setTypeReleaseIterator (fst p) (snd p) st si)
      | Some ele \<Rightarrow> do {
          acc \<leftarrow> f ele acc;
          set_foreach fuel p f st si acc
        })
   }"

definition set_each :: "(set_obj \<Rightarrow> u64 \<times> u64) \<Rightarrow> (set_element \<Rightarrow> 'b \<Rightarrow> 'b option) \<Rightarrow> set_obj \<Rightarrow> 'b \<Rightarrow> 'b option" where
  "set_each addr f st acc = set_foreach (setTypeSize st + 1) (addr st) f st (setTypeInitIterator st) acc"

fun ele_sds :: "set_element \<Rightarrow> byte list" where
  "ele_sds (EleInt intele) = sds_val (sdsfromlonglong intele)"
| "ele_sds (EleSds sdsele) = sdsele"

definition lookup_set :: "'a server_config_scheme \<Rightarrow> bool \<Rightarrow> server \<Rightarrow> key \<Rightarrow> (robj option \<times> server) option" where
  "lookup_set cfg write s key = (if write then lookupKeyWrite cfg s key else lookupKeyRead cfg s key)"

text \<open>Storing the result: the destination is replaced, or removed when the result is empty.\<close>

definition store_result ::
  "'a server_config_scheme \<Rightarrow> server \<Rightarrow> string \<Rightarrow> key \<Rightarrow> set_obj \<Rightarrow> (reply \<times> server) option" where
  "store_result cfg s event dstkey dstset = do {
     (deleted, s) \<leftarrow> dbDelete cfg s dstkey;
     (r, s) \<leftarrow> (if setTypeSize dstset > 0 then do {
          s \<leftarrow> dbAdd cfg s dstkey (ObjSet dstset);
          Some (RInt (int (setTypeSize dstset)), emit (Notify NOTIFY_SET event dstkey) s)
        }
        else Some (czero, if deleted then emit (Notify NOTIFY_GENERIC ''del'' dstkey) s else s));
     let s = emit (SignalModified dstkey) s;
     Some (r, s\<lparr>dirty := dirty s + 1\<rparr>)
   }"

subsection \<open>Intersection\<close>

datatype 'a looked_up = Found 'a | Missing | WrongType

fun sinter_lookup :: "'a server_config_scheme \<Rightarrow> bool \<Rightarrow> server \<Rightarrow> key list \<Rightarrow> (key list looked_up \<times> server) option" where
  "sinter_lookup cfg write s [] = Some (Found [], s)"
| "sinter_lookup cfg write s (key # setkeys) = do {
     (setobj, s) \<leftarrow> lookup_set cfg write s key;
     (case setobj of
        None \<Rightarrow> Some (Missing, s)
      | Some (ObjSet _) \<Rightarrow> do {
          (r, s) \<leftarrow> sinter_lookup cfg write s setkeys;
          Some (case r of Found sets \<Rightarrow> Found (key # sets) | _ \<Rightarrow> r, s)
        }
      | Some _ \<Rightarrow> Some (WrongType, s))
   }"

definition ptr_size :: "server \<Rightarrow> key \<Rightarrow> nat" where
  "ptr_size s key = (case deref s key of Some st \<Rightarrow> setTypeSize st | None \<Rightarrow> 0)"

text \<open>Is an element of the first set in all the others?\<close>

definition sinterIsMember :: "set_obj \<Rightarrow> set_element \<Rightarrow> (set_obj \<times> bool) option" where
  "sinterIsMember st e =
     (case e of
        EleInt intobj \<Rightarrow>
          (case st of
             SetIntset is \<Rightarrow> Some (st, intsetFind is intobj)
           | SetHT _ \<Rightarrow> setTypeIsMember st (sds_val (sdsfromlonglong intobj)))
      | EleSds elesds \<Rightarrow> setTypeIsMember st elesds)"

fun sinterAll :: "server \<Rightarrow> key \<Rightarrow> key list \<Rightarrow> set_element \<Rightarrow> (bool \<times> server) option" where
  "sinterAll s k0 [] e = Some (True, s)"
| "sinterAll s k0 (k # sets) e =
     (if k = k0 then sinterAll s k0 sets e
      else do {
        st \<leftarrow> deref s k;
        (st, ismem) \<leftarrow> sinterIsMember st e;
        let s = obj_update s k (ObjSet st);
        if ismem then sinterAll s k0 sets e else Some (False, s)
      })"

text \<open>The body of the loop over the smallest set: send the element or add it to the destination.\<close>

definition sinter_body ::
  "'a server_config_scheme \<Rightarrow> bool \<Rightarrow> key \<Rightarrow> key list \<Rightarrow> set_element \<Rightarrow> server \<times> byte list list \<times> set_obj \<Rightarrow>
   (server \<times> byte list list \<times> set_obj) option" where
  "sinter_body cfg send k0 others e = (\<lambda>(s, out, dstset). do {
     (all, s) \<leftarrow> sinterAll s k0 others e;
     if \<not> all then Some (s, out, dstset)
     else if send then Some (s, out @ [ele_sds e], dstset)
     else map_option (\<lambda>(dstset, _). (s, out, dstset)) (setTypeAdd cfg dstset (ele_sds e))
   })"

definition sinterGenericCommand ::
  "'a server_config_scheme \<Rightarrow> (set_obj \<Rightarrow> u64 \<times> u64) \<Rightarrow> server \<Rightarrow> key list \<Rightarrow> key option \<Rightarrow> (reply \<times> server) option" where
  "sinterGenericCommand cfg addr s setkeys dstkey = do {
     (r, s) \<leftarrow> sinter_lookup cfg (dstkey \<noteq> None) s setkeys;
     (case r of
        Missing \<Rightarrow>
          (case dstkey of
             Some dst \<Rightarrow> do {
               (deleted, s) \<leftarrow> dbDelete cfg s dst;
               let s = (if deleted then emit (SignalModified dst) s else s);
               Some (czero, if deleted then s\<lparr>dirty := dirty s + 1\<rparr> else s)
             }
           | None \<Rightarrow> Some (RSet 0 [], s))
      | WrongType \<Rightarrow> Some (RWrongType, s)
      | Found sets \<Rightarrow>
          (case sort_key (ptr_size s) sets of
             [] \<Rightarrow> None
           | k0 # others \<Rightarrow> do {
               st0 \<leftarrow> deref s k0;
               (s, out, dstset) \<leftarrow> set_each addr (sinter_body cfg (dstkey = None) k0 others) st0 (s, [], createIntsetObject);
               (case dstkey of
                  Some dst \<Rightarrow> store_result cfg s ''sinterstore'' dst dstset
                | None \<Rightarrow> Some (RSet (int (length out)) out, s))
             }))
   }"

subsection \<open>Union and difference\<close>

fun sunion_lookup :: "'a server_config_scheme \<Rightarrow> bool \<Rightarrow> server \<Rightarrow> key list \<Rightarrow> (key option list looked_up \<times> server) option" where
  "sunion_lookup cfg write s [] = Some (Found [], s)"
| "sunion_lookup cfg write s (key # setkeys) = do {
     (setobj, s) \<leftarrow> lookup_set cfg write s key;
     (case setobj of
        None \<Rightarrow> do {
          (r, s) \<leftarrow> sunion_lookup cfg write s setkeys;
          Some (case r of Found sets \<Rightarrow> Found (None # sets) | _ \<Rightarrow> r, s)
        }
      | Some (ObjSet _) \<Rightarrow> do {
          (r, s) \<leftarrow> sunion_lookup cfg write s setkeys;
          Some (case r of Found sets \<Rightarrow> Found (Some key # sets) | _ \<Rightarrow> r, s)
        }
      | Some _ \<Rightarrow> Some (WrongType, s))
   }"

definition null_size :: "server \<Rightarrow> key option \<Rightarrow> nat" where
  "null_size s p = (case p of None \<Rightarrow> 0 | Some k \<Rightarrow> ptr_size s k)"

text \<open>The choice between the two algorithms for the difference.\<close>

definition diff_algo :: "server \<Rightarrow> key option list \<Rightarrow> nat" where
  "diff_algo s sets =
     (case sets of
        Some k0 # _ \<Rightarrow>
          let algo_one_work = sum_list (map (\<lambda>p. if p = None then 0 else ptr_size s k0) sets);
              algo_two_work = sum_list (map (null_size s) sets)
          in if algo_one_work div 2 \<le> algo_two_work then 1 else 2
      | _ \<Rightarrow> 1)"

definition addEach ::
  "'a set_config_scheme \<Rightarrow> (set_obj \<Rightarrow> u64 \<times> u64) \<Rightarrow> set_obj \<Rightarrow> set_obj \<times> int \<Rightarrow> (set_obj \<times> int) option" where
  "addEach cfg addr = set_each addr (\<lambda>e (dstset, cardinality).
     map_option (\<lambda>(dstset, added). (dstset, if added then cardinality + 1 else cardinality))
       (setTypeAdd cfg dstset (ele_sds e)))"

definition removeEach ::
  "'a set_config_scheme \<Rightarrow> (set_obj \<Rightarrow> u64 \<times> u64) \<Rightarrow> set_obj \<Rightarrow> set_obj \<times> int \<Rightarrow> (set_obj \<times> int) option" where
  "removeEach cfg addr = set_each addr (\<lambda>e (dstset, cardinality).
     map_option (\<lambda>(dstset, removed). (dstset, if removed then cardinality - 1 else cardinality))
       (setTypeRemove cfg dstset (ele_sds e)))"

fun unionLoop ::
  "'a set_config_scheme \<Rightarrow> (set_obj \<Rightarrow> u64 \<times> u64) \<Rightarrow> server \<Rightarrow> key option list \<Rightarrow> set_obj \<times> int \<Rightarrow> (set_obj \<times> int) option" where
  "unionLoop cfg addr s [] acc = Some acc"
| "unionLoop cfg addr s (None # sets) acc = unionLoop cfg addr s sets acc"
| "unionLoop cfg addr s (Some k # sets) acc = do {
     st \<leftarrow> deref s k;
     acc \<leftarrow> addEach cfg addr st acc;
     unionLoop cfg addr s sets acc
   }"

text \<open>Algorithm 1: does any of the other sets have the element?\<close>

fun diffFound :: "server \<Rightarrow> key \<Rightarrow> key option list \<Rightarrow> byte list \<Rightarrow> (bool \<times> server) option" where
  "diffFound s k0 [] ele = Some (False, s)"
| "diffFound s k0 (None # sets) ele = diffFound s k0 sets ele"
| "diffFound s k0 (Some k # sets) ele =
     (if k = k0 then Some (True, s)
      else do {
        st \<leftarrow> deref s k;
        (st, ismem) \<leftarrow> setTypeIsMember st ele;
        let s = obj_update s k (ObjSet st);
        if ismem then Some (True, s) else diffFound s k0 sets ele
      })"

definition diffLoop1 ::
  "'a set_config_scheme \<Rightarrow> (set_obj \<Rightarrow> u64 \<times> u64) \<Rightarrow> server \<Rightarrow> key \<Rightarrow> key option list \<Rightarrow> (server \<times> set_obj \<times> int) option" where
  "diffLoop1 cfg addr s k0 others = do {
     st0 \<leftarrow> deref s k0;
     set_each addr (\<lambda>e (s, dstset, cardinality). do {
         (found, s) \<leftarrow> diffFound s k0 others (ele_sds e);
         if found then Some (s, dstset, cardinality)
         else map_option (\<lambda>(dstset, _). (s, dstset, cardinality + 1)) (setTypeAdd cfg dstset (ele_sds e))
       }) st0 (s, createIntsetObject, 0)
   }"

text \<open>Algorithm 2: add the first set, remove the others, stop when nothing is left.\<close>

fun diffLoop2 ::
  "'a set_config_scheme \<Rightarrow> (set_obj \<Rightarrow> u64 \<times> u64) \<Rightarrow> server \<Rightarrow> bool \<Rightarrow> key option list \<Rightarrow> set_obj \<times> int \<Rightarrow> (set_obj \<times> int) option" where
  "diffLoop2 cfg addr s first [] acc = Some acc"
| "diffLoop2 cfg addr s first (None # sets) acc = diffLoop2 cfg addr s False sets acc"
| "diffLoop2 cfg addr s first (Some k # sets) acc = do {
     st \<leftarrow> deref s k;
     acc \<leftarrow> (if first then addEach cfg addr st acc else removeEach cfg addr st acc);
     if snd acc = 0 then Some acc else diffLoop2 cfg addr s False sets acc
   }"

text \<open>The result set and its cardinality; the library sort is a stable one.\<close>

definition sets_compute ::
  "'a set_config_scheme \<Rightarrow> (set_obj \<Rightarrow> u64 \<times> u64) \<Rightarrow> server \<Rightarrow> set_op \<Rightarrow> key option list \<Rightarrow> (server \<times> set_obj \<times> int) option" where
  "sets_compute cfg addr s op sets =
     (if op = SET_OP_UNION then map_option (Pair s) (unionLoop cfg addr s sets (createIntsetObject, 0))
      else if op = SET_OP_DIFF then
        (case sets of
           Some k0 # others \<Rightarrow>
             if diff_algo s sets = 1
             then diffLoop1 cfg addr s k0 (sort_key (\<lambda>p. - int (null_size s p)) others)
             else map_option (Pair s) (diffLoop2 cfg addr s True sets (createIntsetObject, 0))
         | _ \<Rightarrow> Some (s, createIntsetObject, 0))
      else Some (s, createIntsetObject, 0))"

definition sunionDiffGenericCommand ::
  "'a server_config_scheme \<Rightarrow> (set_obj \<Rightarrow> u64 \<times> u64) \<Rightarrow> server \<Rightarrow> key list \<Rightarrow> key option \<Rightarrow> set_op \<Rightarrow> (reply \<times> server) option" where
  "sunionDiffGenericCommand cfg addr s setkeys dstkey op = do {
     (r, s) \<leftarrow> sunion_lookup cfg (dstkey \<noteq> None) s setkeys;
     (case r of
        Found sets \<Rightarrow> do {
          (s, dstset, cardinality) \<leftarrow> sets_compute cfg addr s op sets;
          (case dstkey of
             None \<Rightarrow> do {
               out \<leftarrow> set_each addr (\<lambda>e out. Some (out @ [ele_sds e])) dstset [];
               Some (RSet cardinality out, s)
             }
           | Some dst \<Rightarrow> store_result cfg s (if op = SET_OP_UNION then ''sunionstore'' else ''sdiffstore'') dst dstset)
        }
      | _ \<Rightarrow> Some (RWrongType, s))
   }"

definition sinterCommand where "sinterCommand cfg addr s keys = sinterGenericCommand cfg addr s keys None"
definition sinterstoreCommand where "sinterstoreCommand cfg addr s dst keys = sinterGenericCommand cfg addr s keys (Some dst)"
definition sunionCommand where "sunionCommand cfg addr s keys = sunionDiffGenericCommand cfg addr s keys None SET_OP_UNION"
definition sunionstoreCommand where "sunionstoreCommand cfg addr s dst keys = sunionDiffGenericCommand cfg addr s keys (Some dst) SET_OP_UNION"
definition sdiffCommand where "sdiffCommand cfg addr s keys = sunionDiffGenericCommand cfg addr s keys None SET_OP_DIFF"
definition sdiffstoreCommand where "sdiffstoreCommand cfg addr s dst keys = sunionDiffGenericCommand cfg addr s keys (Some dst) SET_OP_DIFF"

section \<open>Intersection, union and difference: lemmas\<close>

subsection \<open>Iteration over a set\<close>

fun fold_opt :: "('e \<Rightarrow> 'b \<Rightarrow> 'b option) \<Rightarrow> 'e list \<Rightarrow> 'b \<Rightarrow> 'b option" where
  "fold_opt f [] acc = Some acc"
| "fold_opt f (x # xs) acc = Option.bind (f x acc) (fold_opt f xs)"

definition set_list :: "set_obj \<Rightarrow> set_element list" where
  "set_list st = (case st of SetIntset is \<Rightarrow> map EleInt (intset_elems is) | SetHT d \<Rightarrow> map (EleSds \<circ> fst) (dict_entries d))"

lemma foreach_intset:
  assumes "length (intset_elems is) - ii < fuel"
  shows "set_foreach fuel p f (SetIntset is) (IterIntset ii) acc = fold_opt f (map EleInt (drop ii (intset_elems is))) acc"
  using assms
proof (induction fuel arbitrary: ii acc)
  case (Suc fuel)
  show ?case
  proof (cases "ii < length (intset_elems is)")
    case True
    then have "drop ii (intset_elems is) = intset_elems is ! ii # drop (Suc ii) (intset_elems is)" by (rule Cons_nth_drop_Suc [symmetric])
    moreover have "length (intset_elems is) - Suc ii < fuel" using True Suc.prems by arith
    ultimately show ?thesis using True Suc.IH [of "Suc ii"]
      by (cases "f (EleInt (intset_elems is ! ii)) acc") (simp_all add: setTypeNext_def intsetGet_nth)
  next
    case False
    then show ?thesis by (simp add: setTypeNext_def intsetGet_nth setTypeReleaseIterator_def)
  qed
qed simp

lemma foreach_dict:
  assumes "iter_ok d it" "\<not> it_safe it" "length (iter_rest d it) < fuel"
    and "it_fingerprint it = dictFingerprint (fst p) (snd p) d \<or> it_index it = -1 \<and> \<not> it_second it"
  shows "set_foreach fuel p f (SetHT d) (IterHT it) acc = fold_opt f (map (EleSds \<circ> fst) (iter_rest d it)) acc"
  using assms
proof (induction fuel arbitrary: it acc)
  case (Suc fuel)
  obtain r d1 it1 where n: "dictNext (fst p) (snd p) d it = (r, d1, it1)" by (metis prod_cases3)
  have s: "d1 = iter_mark it d" "iter_ok d1 it1" "it_safe it1 = it_safe it" "0 \<le> it_index it1"
    "it_fingerprint it1 = iter_print (fst p) (snd p) d it"
    "iter_rest d it = (case r of None \<Rightarrow> [] | Some e \<Rightarrow> e # iter_rest d1 it1)"
    using dictNext_spec [OF Suc.prems(1), where ?p0.0 = "fst p" and ?p1.0 = "snd p", unfolded n prod.case] by blast+
  have d1: "d1 = d" "it_fingerprint it1 = dictFingerprint (fst p) (snd p) d"
    using s(1,5) Suc.prems(2,4) by (auto simp: iter_mark_def iter_print_def)
  show ?case
  proof (cases r)
    case None
    then show ?thesis using n s(3,4,6) d1 Suc.prems(2)
      by (auto simp: setTypeNext_def setTypeReleaseIterator_def dictReleaseIterator_def)
  next
    case (Some e)
    have "set_foreach fuel p f (SetHT d) (IterHT it1) acc = fold_opt f (map (EleSds \<circ> fst) (iter_rest d it1)) acc" for acc
      using s Some d1 Suc.prems(2,3) by (intro Suc.IH) auto
    then show ?thesis using n s(6) d1 Some 
      by (cases "f (EleSds (fst e)) acc") (simp_all add: setTypeNext_def comp_def)
  qed
qed simp

lemma set_each_spec:
  assumes "set_wf cfg st"
  shows "set_each addr f st acc = fold_opt f (set_list st) acc"
proof (cases st)
  case (SetIntset "is")
  then have "setTypeSize st = length (intset_elems is)" by (simp add: setTypeSize_def intsetLen_def intset_length)
  then show ?thesis using SetIntset by (simp add: set_each_def setTypeInitIterator_def foreach_intset set_list_def del: set_foreach.simps)
next
  case (SetHT d)
  have w: "dict_wf d" using assms SetHT by (simp add: set_wf_def)
  have r: "iter_ok d dictGetIterator" "iter_rest d dictGetIterator = dict_entries d" "\<not> it_safe (dictGetIterator :: (byte list, unit) dictIterator)"
    using w by (simp_all add: iter_ok_def iter_rest_def dict_entries_def dictGetIterator_def)
  have "set_foreach (dictSize d + 1) (addr st) f (SetHT d) (IterHT dictGetIterator) acc = fold_opt f (map (EleSds \<circ> fst) (dict_entries d)) acc"
    using foreach_dict [OF r(1,3), of "dictSize d + 1" "addr st" f acc] dict_wf_size [OF w] r(2) by (simp add: dictGetIterator_def)
  then show ?thesis using SetHT by (simp add: set_each_def setTypeInitIterator_def setTypeSize_def set_list_def)
qed

lemma ele_sds_int: "in_i64 v \<Longrightarrow> ele_sds (EleInt v) = dec_bytes v"
  using sdsfromlonglong_spec [of v] by simp

lemma set_list_elems:
  assumes "set_wf cfg st"
  shows "set (map ele_sds (set_list st)) = set_elems st \<and> distinct (map ele_sds (set_list st))"
proof (cases st)
  case (SetIntset "is")
  then have w: "intset_wf is" using assms by (simp add: set_wf_def)
  have m: "map ele_sds (set_list st) = map dec_bytes (intset_elems is)"
    using intset_elems_i64 [OF w] SetIntset ele_sds_int by (simp add: set_list_def)
  have "distinct (intset_elems is)" using w by (simp add: intset_wf_def strict_sorted_iff)
  moreover have "inj_on dec_bytes (set (intset_elems is))"
    using inj_dec_bytes intset_elems_i64 [OF w] by (auto simp: inj_on_def)
  ultimately show ?thesis unfolding m using SetIntset by (simp add: distinct_map set_elems_def)
next
  case (SetHT d)
  then have m: "map ele_sds (set_list st) = map fst (dict_entries d)" by (simp add: set_list_def)
  show ?thesis unfolding m using SetHT assms
    by (simp add: set_wf_def dict_wf_def set_elems_def dict_map_def dom_map_of_conv_image_fst)
qed

lemma fold_opt_rule:
  assumes "I [] acc" and step: "\<And>xs x acc. x \<in> set all \<Longrightarrow> I xs acc \<Longrightarrow> \<exists>acc'. f x acc = Some acc' \<and> I (xs @ [x]) acc'"
  shows "\<exists>acc'. fold_opt f all acc = Some acc' \<and> I all acc'"
proof -
  have "\<exists>acc'. fold_opt f ys acc = Some acc' \<and> I (xs @ ys) acc'" if "I xs acc" "set ys \<subseteq> set all" for xs ys acc
    using that
  proof (induction ys arbitrary: xs acc)
    case (Cons y ys)
    from step [of y xs acc] Cons.prems obtain acc' where "f y acc = Some acc'" "I (xs @ [y]) acc'" by auto
    with Cons.IH [of "xs @ [y]" acc'] Cons.prems(2) show ?case by simp
  qed simp
  from this [of "[]" acc all] assms(1) show ?thesis by simp
qed

text \<open>The addition and removal of all the elements of a set, with the running count.\<close>

abbreviation eles :: "set_element list \<Rightarrow> byte list set" where
  "eles xs \<equiv> set (map ele_sds xs)"

definition counted :: "'a set_config_scheme \<Rightarrow> byte list set \<Rightarrow> set_obj \<times> int \<Rightarrow> bool" where
  "counted cfg X acc \<longleftrightarrow> set_wf cfg (fst acc) \<and> set_elems (fst acc) = X \<and> snd acc = int (card X)"

lemma set_each_rule:
  assumes "set_wf cfg st" "I [] acc"
    and "\<And>xs x acc. x \<in> set (set_list st) \<Longrightarrow> I xs acc \<Longrightarrow> \<exists>acc'. f x acc = Some acc' \<and> I (xs @ [x]) acc'"
  shows "\<exists>acc'. set_each addr f st acc = Some acc' \<and> I (set_list st) acc'"
  unfolding set_each_spec [OF assms(1)] using assms(2,3) by (rule fold_opt_rule)

lemma addEach_spec:
  assumes "set_wf cfg st" "counted cfg X acc" "card (X \<union> set_elems st) < 2 ^ 28"
  shows "\<exists>acc'. addEach cfg addr st acc = Some acc' \<and> counted cfg (X \<union> set_elems st) acc'"
proof -
  note el = conjunct1 [OF set_list_elems [OF assms(1)]]
  have fX: "finite X" using assms(2) set_elems_finite [of "fst acc"] by (simp add: counted_def)
  have "\<exists>acc'. addEach cfg addr st acc = Some acc' \<and> eles (set_list st) \<subseteq> set_elems st \<and> counted cfg (X \<union> eles (set_list st)) acc'"
    unfolding addEach_def
  proof (rule set_each_rule [OF assms(1), where I = "\<lambda>xs acc. eles xs \<subseteq> set_elems st \<and> counted cfg (X \<union> eles xs) acc"])
    show "eles [] \<subseteq> set_elems st \<and> counted cfg (X \<union> eles []) acc" using assms(2) by simp
    fix xs x acc
    assume x: "x \<in> set (set_list st)" and I: "eles xs \<subseteq> set_elems st \<and> counted cfg (X \<union> eles xs) acc"
    obtain d c where acc: "acc = (d, c)" by fastforce
    have d: "set_wf cfg d" "set_elems d = X \<union> eles xs" "c = int (card (X \<union> eles xs))" using I acc by (simp_all add: counted_def)
    have "card (set_elems d) \<le> card (X \<union> set_elems st)" unfolding d(2) using I fX set_elems_finite [of st] by (intro card_mono) auto
    then obtain d' where d': "setTypeAdd cfg d (ele_sds x) = Some (d', ele_sds x \<notin> set_elems d)" "set_wf cfg d'"
        "set_elems d' = insert (ele_sds x) (set_elems d)"
      using setTypeAdd_spec [OF d(1), of "ele_sds x"] assms(3) by fastforce
    have "ele_sds x \<in> set_elems st" using x el by auto
    moreover have "counted cfg (X \<union> eles (xs @ [x])) (d', if ele_sds x \<notin> set_elems d then c + 1 else c)"
      using d d' fX by (simp add: counted_def card_insert_if insert_absorb)
    ultimately show "\<exists>acc'. (\<lambda>(dstset, cardinality).
         map_option (\<lambda>(dstset, added). (dstset, if added then cardinality + 1 else cardinality))
          (setTypeAdd cfg dstset (ele_sds x))) acc = Some acc' \<and>
        eles (xs @ [x]) \<subseteq> set_elems st \<and> counted cfg (X \<union> eles (xs @ [x])) acc'"
      using d'(1) I acc by simp
  qed
  then show ?thesis unfolding el by blast
qed

lemma removeEach_spec:
  assumes "set_wf cfg st" "counted cfg X acc" "card X < 2 ^ 28"
  shows "\<exists>acc'. removeEach cfg addr st acc = Some acc' \<and> counted cfg (X - set_elems st) acc'"
proof -
  note el = conjunct1 [OF set_list_elems [OF assms(1)]]
  have fX: "finite X" using assms(2) set_elems_finite [of "fst acc"] by (simp add: counted_def)
  have "\<exists>acc'. removeEach cfg addr st acc = Some acc' \<and> counted cfg (X - eles (set_list st)) acc'"
    unfolding removeEach_def
  proof (rule set_each_rule [OF assms(1), where I = "\<lambda>xs acc. counted cfg (X - eles xs) acc"])
    show "counted cfg (X - eles []) acc" using assms(2) by simp
    fix xs x acc
    assume I: "counted cfg (X - eles xs) acc"
    obtain d c where acc: "acc = (d, c)" by fastforce
    have d: "set_wf cfg d" "set_elems d = X - eles xs" "c = int (card (X - eles xs))" using I acc by (simp_all add: counted_def)
    have "card (set_elems d) \<le> card X" unfolding d(2) using fX by (intro card_mono) auto
    then obtain d' where d': "setTypeRemove cfg d (ele_sds x) = Some (d', ele_sds x \<in> set_elems d)" "set_wf cfg d'"
        "set_elems d' = set_elems d - {ele_sds x}"
      using setTypeRemove_spec [OF d(1), of "ele_sds x"] assms(3) by fastforce
    have "card (X - eles (xs @ [x])) = (if ele_sds x \<in> set_elems d then card (set_elems d) - 1 else card (set_elems d))"
    proof -
      have "X - eles (xs @ [x]) = set_elems d - {ele_sds x}" unfolding d(2) by auto
      then show ?thesis by (simp add: card_Diff_singleton_if)
    qed
    moreover have "card (set_elems d) > 0" if "ele_sds x \<in> set_elems d" using that set_elems_finite [of d] card_gt_0_iff by blast
    moreover have "set_elems d' = X - eles (xs @ [x])" unfolding d'(3) d(2) by auto
    ultimately have "counted cfg (X - eles (xs @ [x])) (d', if ele_sds x \<in> set_elems d then c - 1 else c)"
      using d d' by (auto simp: counted_def)
    then show "\<exists>acc'. (\<lambda>(dstset, cardinality).
         map_option (\<lambda>(dstset, removed). (dstset, if removed then cardinality - 1 else cardinality))
          (setTypeRemove cfg dstset (ele_sds x))) acc = Some acc' \<and> counted cfg (X - eles (xs @ [x])) acc'"
      using d'(1) acc by simp
  qed
  then show ?thesis unfolding el .
qed

subsection \<open>Sets in the keyspace\<close>

text \<open>A lookup changes objects but not what they stand for.\<close>

definition kview :: "'a server_config_scheme \<Rightarrow> nat \<Rightarrow> key set \<Rightarrow> server \<Rightarrow> astate \<Rightarrow> bool" where
  "kview cfg n K s v \<longleftrightarrow> (\<exists>V E. kstate cfg n K s V E \<and> v = (map_option obj_abs \<circ> V, E))"

definition aset :: "astate \<Rightarrow> key \<Rightarrow> byte list set" where
  "aset v k = (case fst v k of Some (ASet X) \<Rightarrow> X | _ \<Rightarrow> {})"

definition is_aset :: "astate \<Rightarrow> key \<Rightarrow> bool" where
  "is_aset v k \<longleftrightarrow> (case fst v k of Some (ASet X) \<Rightarrow> True | _ \<Rightarrow> False)"

lemma kview_view: "kview cfg n K s v \<Longrightarrow> db_wf cfg s \<and> view cfg s = v"
  using view_kstate kstate_wf by (fastforce simp: kview_def)

lemma kview_start: "db_wf cfg s \<Longrightarrow> db_room s \<Longrightarrow> \<exists>n < 2 ^ 60. kview cfg n {} s (view cfg s)"
  by (erule (1) refines_start) (auto simp: kview_def)

lemma is_asetE:
  assumes "kstate cfg n K s V E" "is_aset (map_option obj_abs \<circ> V, E) k"
  obtains st where "V k = Some (ObjSet st)" "set_wf cfg st" "set_elems st = aset (map_option obj_abs \<circ> V, E) k"
proof -
  from assms(2) obtain st where "V k = Some (ObjSet st)"
    by (auto simp: is_aset_def split: option.splits avalue.splits) (metis avalue.simps obj_abs.elims)
  with kstate_obj [OF assms(1) this] that show thesis by (simp add: aset_def)
qed

lemma kview_deref:
  assumes "kview cfg n K s v" "k \<in> K" "is_aset v k"
  shows "\<exists>st. deref s k = Some st \<and> set_wf cfg st \<and> set_elems st = aset v k"
proof -
  from assms(1) obtain V E where V: "kstate cfg n K s V E" "v = (map_option obj_abs \<circ> V, E)" by (auto simp: kview_def)
  from V(1) assms(3) [unfolded V(2)] obtain st where st: "V k = Some (ObjSet st)" "set_wf cfg st"
      "set_elems st = aset (map_option obj_abs \<circ> V, E) k" by (rule is_asetE)
  have "ks_val s k = Some (ObjSet st)" using kstate_raw [OF V(1) assms(2)] st(1) by simp
  then show ?thesis using st V(2) by (simp add: deref_def ks_val_def dict_map_def)
qed

lemma kview_touch:
  assumes "kview cfg n K s v" "k \<in> K" "is_aset v k" "set_wf cfg st" "set_elems st = aset v k"
  shows "kview cfg n K (obj_update s k (ObjSet st)) v"
proof -
  from assms(1) obtain V E where V: "kstate cfg n K s V E" "v = (map_option obj_abs \<circ> V, E)" by (auto simp: kview_def)
  from V(1) assms(3) [unfolded V(2)] obtain st' where st': "V k = Some (ObjSet st')" "set_elems st' = aset v k"
    unfolding V(2) by (rule is_asetE)
  have "kstate cfg n K (obj_update s k (ObjSet st)) (V(k \<mapsto> ObjSet st)) E"
    using kstate_update [OF V(1) assms(2), of "ObjSet st"] st'(1) assms(4) by simp
  moreover have "map_option obj_abs \<circ> V(k \<mapsto> ObjSet st) = map_option obj_abs \<circ> V"
    using st' assms(5) by (auto simp: fun_eq_iff)
  ultimately show ?thesis using V(2) unfolding kview_def by metis
qed

lemma lookup_set_spec:
  assumes "kview cfg n K s v" "\<not> masterhost cfg"
  shows "\<exists>x s'. lookup_set cfg w s k = Some (x, s') \<and> kview cfg n (insert k K) s' v \<and> map_option obj_abs x = fst v k"
proof -
  from assms(1) obtain V E where V: "kstate cfg n K s V E" "v = (map_option obj_abs \<circ> V, E)" by (auto simp: kview_def)
  show ?thesis
    using kstate_lookupKeyWrite [OF V(1) assms(2), of k] kstate_lookupKeyRead [OF V(1) assms(2), of k] V(2)
    unfolding lookup_set_def kview_def by (cases w) fastforce+
qed

subsection \<open>The sets of a command\<close>

definition all_sets :: "astate \<Rightarrow> key list \<Rightarrow> bool" where
  "all_sets v keys \<longleftrightarrow> (\<forall>k \<in> set keys. fst v k = None \<or> is_aset v k)"

definition pointers :: "astate \<Rightarrow> key list \<Rightarrow> key option list" where
  "pointers v keys = map (\<lambda>k. if is_aset v k then Some k else None) keys"

lemma obj_abs_cases:
  "map_option obj_abs x = fst v k \<Longrightarrow>
   (x = None \<longleftrightarrow> fst v k = None) \<and> ((\<exists>st. x = Some (ObjSet st)) \<longleftrightarrow> is_aset v k)"
  by (cases x; cases "the x"; cases "fst v k") (auto simp: is_aset_def)

lemma sunion_lookup_spec:
  assumes "kview cfg n K s v" "\<not> masterhost cfg"
  shows "\<exists>s' K'. sunion_lookup cfg w s keys = Some (if all_sets v keys then Found (pointers v keys) else WrongType, s') \<and>
    kview cfg n K' s' v \<and> K \<subseteq> K' \<and> (all_sets v keys \<longrightarrow> set keys \<subseteq> K')"
  using assms(1)
proof (induction keys arbitrary: s K)
  case (Cons k keys)
  from lookup_set_spec [OF Cons.prems assms(2), of w k] obtain x s1 where
    s1: "lookup_set cfg w s k = Some (x, s1)" "kview cfg n (insert k K) s1 v" "map_option obj_abs x = fst v k" by blast
  from Cons.IH [OF s1(2)] obtain s2 K2 where
    s2: "sunion_lookup cfg w s1 keys = Some (if all_sets v keys then Found (pointers v keys) else WrongType, s2)"
      "kview cfg n K2 s2 v" "insert k K \<subseteq> K2" "all_sets v keys \<longrightarrow> set keys \<subseteq> K2" by blast
  note x = obj_abs_cases [OF s1(3)]
  consider "x = None" | st where "x = Some (ObjSet st)" | y where "x = Some y" "\<forall>st. y \<noteq> ObjSet st" by (cases x) auto
  then show ?case
  proof cases
    case 1
    then have "fst v k = None" "\<not> is_aset v k" using x by (auto simp: is_aset_def)
    then show ?thesis using 1 s1(1) s2 by (intro exI [of _ s2] exI [of _ K2]) (auto simp: all_sets_def pointers_def)
  next
    case 2
    then have "is_aset v k" using x by blast
    then show ?thesis using 2 s1(1) s2 by (intro exI [of _ s2] exI [of _ K2]) (auto simp: all_sets_def pointers_def)
  next
    case 3
    then have "fst v k \<noteq> None" "\<not> is_aset v k" using x by auto
    then have "\<not> all_sets v (k # keys)" by (simp add: all_sets_def)
    moreover have "sunion_lookup cfg w s (k # keys) = Some (WrongType, s1)" using 3 s1(1) by (cases y) auto
    ultimately show ?thesis using s1(2) by (intro exI [of _ s1] exI [of _ "insert k K"]) auto
  qed
qed (auto simp: all_sets_def pointers_def)

definition sinter_result :: "astate \<Rightarrow> key list \<Rightarrow> key list looked_up" where
  "sinter_result v keys =
     (case List.find (\<lambda>k. \<not> is_aset v k) keys of
        None \<Rightarrow> Found keys
      | Some k \<Rightarrow> if fst v k = None then Missing else WrongType)"

lemma sinter_lookup_spec:
  assumes "kview cfg n K s v" "\<not> masterhost cfg"
  shows "\<exists>s' K'. sinter_lookup cfg w s keys = Some (sinter_result v keys, s') \<and>
    kview cfg n K' s' v \<and> K \<subseteq> K' \<and> (sinter_result v keys = Found keys \<longrightarrow> set keys \<subseteq> K')"
  using assms(1)
proof (induction keys arbitrary: s K)
  case (Cons k keys)
  from lookup_set_spec [OF Cons.prems assms(2), of w k] obtain x s1 where
    s1: "lookup_set cfg w s k = Some (x, s1)" "kview cfg n (insert k K) s1 v" "map_option obj_abs x = fst v k" by blast
  from Cons.IH [OF s1(2)] obtain s2 K2 where
    s2: "sinter_lookup cfg w s1 keys = Some (sinter_result v keys, s2)"
      "kview cfg n K2 s2 v" "insert k K \<subseteq> K2" "sinter_result v keys = Found keys \<longrightarrow> set keys \<subseteq> K2" by blast
  note x = obj_abs_cases [OF s1(3)]
  show ?case
  proof (cases "is_aset v k")
    case True
    then obtain st where "x = Some (ObjSet st)" using x by blast
    then have "sinter_lookup cfg w s (k # keys) = Some (case sinter_result v keys of Found sets \<Rightarrow> Found (k # sets) | r \<Rightarrow> r, s2)"
      using s1(1) s2(1) by (simp split: looked_up.splits)
    moreover have "(case sinter_result v keys of Found sets \<Rightarrow> Found (k # sets) | r \<Rightarrow> r) = sinter_result v (k # keys)"
      "sinter_result v (k # keys) = Found (k # keys) \<longrightarrow> sinter_result v keys = Found keys"
      using True by (auto simp: sinter_result_def split: option.splits)
    ultimately show ?thesis using s2 by (intro exI [of _ s2] exI [of _ K2]) auto
  next
    case False
    then have "sinter_lookup cfg w s (k # keys) = Some (if fst v k = None then Missing else WrongType, s1)"
      using x s1(1) by (cases x; cases "the x") auto
    moreover have "sinter_result v (k # keys) = (if fst v k = None then Missing else WrongType)"
      using False by (simp add: sinter_result_def)
    ultimately show ?thesis using s1(2) by (intro exI [of _ s1] exI [of _ "insert k K"]) auto
  qed
qed (auto simp: sinter_result_def)

subsection \<open>The loops over the sets\<close>

definition usable :: "astate \<Rightarrow> key set \<Rightarrow> key option list \<Rightarrow> bool" where
  "usable v K sets \<longleftrightarrow> (\<forall>k. Some k \<in> set sets \<longrightarrow> k \<in> K \<and> is_aset v k)"

definition united :: "astate \<Rightarrow> key option list \<Rightarrow> byte list set" where
  "united v sets = (\<Union>k \<in> {k. Some k \<in> set sets}. aset v k)"

lemma united_simps [simp]:
  "united v [] = {}" "united v (None # sets) = united v sets" "united v (Some k # sets) = aset v k \<union> united v sets"
  by (auto simp: united_def)

lemma usable_simps [simp]:
  "usable v K []" "usable v K (None # sets) = usable v K sets"
  "usable v K (Some k # sets) \<longleftrightarrow> k \<in> K \<and> is_aset v k \<and> usable v K sets"
  by (auto simp: usable_def)

lemma counted_finite: "counted cfg X acc \<Longrightarrow> finite X"
  using set_elems_finite [of "fst acc"] by (simp add: counted_def)

lemma obj_abs_finite: "obj_abs z = ASet X \<Longrightarrow> finite X"
  using set_elems_finite by (cases z) auto

lemma kview_aset_finite: "kview cfg n K s v \<Longrightarrow> finite (aset v k)"
  using obj_abs_finite by (auto simp: kview_def aset_def split: option.splits avalue.splits)

lemma united_finite: "kview cfg n K s v \<Longrightarrow> finite (united v sets)"
  unfolding united_def using kview_aset_finite
  by (intro finite_UN_I finite_subset [of "{k. Some k \<in> set sets}" "the ` set sets"]) force+

lemma unionLoop_spec:
  assumes "kview cfg n K s v" "usable v K sets" "counted cfg X acc" "card (X \<union> united v sets) < 2 ^ 28"
  shows "\<exists>acc'. unionLoop cfg addr s sets acc = Some acc' \<and> counted cfg (X \<union> united v sets) acc'"
  using assms(2-4)
proof (induction sets arbitrary: X acc rule: list.induct)
  case (Cons p sets)
  show ?case
  proof (cases p)
    case None
    then show ?thesis using Cons by simp
  next
    case (Some k)
    obtain st where st: "deref s k = Some st" "set_wf cfg st" "set_elems st = aset v k"
      using kview_deref [OF assms(1), of k] Cons.prems(1) Some by auto
    have "card (X \<union> aset v k) \<le> card (X \<union> united v (p # sets))"
      using counted_finite [OF Cons.prems(2)] united_finite [OF assms(1), of "p # sets"] Some by (intro card_mono) auto
    with addEach_spec [OF st(2) Cons.prems(2), where addr = addr] Cons.prems(3) st(3) obtain acc1
      where acc1: "addEach cfg addr st acc = Some acc1" "counted cfg (X \<union> aset v k) acc1" by auto
    have "card (X \<union> aset v k \<union> united v sets) < 2 ^ 28" using Cons.prems(3) Some by (simp add: Un_assoc)
    with Cons.IH [OF _ acc1(2)] Cons.prems(1) Some show ?thesis using st(1) acc1(1) by (simp add: Un_assoc)
  qed
qed simp

lemma diffLoop2_rest:
  assumes "kview cfg n K s v" "usable v K sets" "counted cfg X acc" "card X < 2 ^ 28"
  shows "\<exists>acc'. diffLoop2 cfg addr s False sets acc = Some acc' \<and> counted cfg (X - united v sets) acc'"
  using assms(2-4)
proof (induction sets arbitrary: X acc rule: list.induct)
  case (Cons p sets)
  show ?case
  proof (cases p)
    case None
    then show ?thesis using Cons by simp
  next
    case (Some k)
    obtain st where st: "deref s k = Some st" "set_wf cfg st" "set_elems st = aset v k"
      using kview_deref [OF assms(1), of k] Cons.prems(1) Some by auto
    obtain acc1 where acc1: "removeEach cfg addr st acc = Some acc1" "counted cfg (X - aset v k) acc1"
      using removeEach_spec [OF st(2) Cons.prems(2,3), where addr = addr] st(3) by auto
    have fin: "finite X" by (rule counted_finite [OF Cons.prems(2)])
    show ?thesis
    proof (cases "snd acc1 = 0")
      case True
      then have "X - aset v k = {}" using acc1(2) fin by (simp add: counted_def)
      then have "X - united v (p # sets) = X - aset v k" using Some by auto
      then show ?thesis using True st(1) acc1 Some by simp
    next
      case False
      have "card (X - aset v k) < 2 ^ 28" using Cons.prems(3) card_mono [OF fin, of "X - aset v k"] by auto
      with Cons.IH [OF _ acc1(2)] Cons.prems(1) Some False show ?thesis
        using st(1) acc1(1) by (simp add: Diff_Un set_diff_eq Int_def conj_assoc)
    qed
  qed
qed simp

lemma diffLoop2_spec:
  assumes "kview cfg n K s v" "usable v K (Some k0 # others)" "counted cfg {} acc" "card (aset v k0) < 2 ^ 28"
  shows "\<exists>acc'. diffLoop2 cfg addr s True (Some k0 # others) acc = Some acc' \<and> counted cfg (aset v k0 - united v others) acc'"
proof -
  obtain st where st: "deref s k0 = Some st" "set_wf cfg st" "set_elems st = aset v k0"
    using kview_deref [OF assms(1), of k0] assms(2) by auto
  obtain acc1 where acc1: "addEach cfg addr st acc = Some acc1" "counted cfg (aset v k0) acc1"
    using addEach_spec [OF st(2) assms(3), where addr = addr] st(3) assms(4) by auto
  show ?thesis
  proof (cases "snd acc1 = 0")
    case True
    then have "aset v k0 = {}" using acc1(2) counted_finite [OF acc1(2)] by (simp add: counted_def)
    then show ?thesis using True st(1) acc1 by simp
  next
    case False
    with diffLoop2_rest [OF assms(1) _ acc1(2) assms(4), of others addr] assms(2) show ?thesis using st(1) acc1(1) by simp
  qed
qed

lemma diffFound_spec:
  assumes "kview cfg n K s v" "usable v K sets"
  shows "\<exists>s'. diffFound s k0 sets ele = Some (Some k0 \<in> set sets \<or> ele \<in> united v sets, s') \<and> kview cfg n K s' v"
  using assms
proof (induction sets arbitrary: s rule: list.induct)
  case (Cons p sets)
  show ?case
  proof (cases p)
    case None
    then show ?thesis using Cons by simp
  next
    case (Some k)
    show ?thesis
    proof (cases "k = k0")
      case True
      then show ?thesis using Some Cons.prems(1) by auto
    next
      case False
      obtain st where st: "deref s k = Some st" "set_wf cfg st" "set_elems st = aset v k"
        using kview_deref [OF Cons.prems(1), of k] Cons.prems(2) Some by auto
      obtain st' where st': "setTypeIsMember st ele = Some (st', ele \<in> aset v k)" "set_wf cfg st'" "set_elems st' = aset v k"
        using setTypeIsMember_spec [OF st(2), of ele] st(3) by auto
      have k1: "kview cfg n K (obj_update s k (ObjSet st')) v"
        using Cons.prems(2) Some st'(2,3) by (intro kview_touch [OF Cons.prems(1)]) auto
      show ?thesis
        using Cons.IH [OF k1] Cons.prems(2) k1 Some False st(1) st'(1) by (cases "ele \<in> aset v k") auto
    qed
  qed
qed auto

lemma diffLoop1_spec:
  assumes k: "kview cfg n K s v" "usable v K (Some k0 # others)" and c: "card (aset v k0) < 2 ^ 28"
  shows "\<exists>s' d c. diffLoop1 cfg addr s k0 others = Some (s', d, c) \<and> kview cfg n K s' v \<and>
    counted cfg (aset v k0 - united v others) (d, c)"
proof -
  obtain st where st: "deref s k0 = Some st" "set_wf cfg st" "set_elems st = aset v k0"
    using kview_deref [OF k(1), of k0] k(2) by auto
  note el = conjunct1 [OF set_list_elems [OF st(2)]] and dist = conjunct2 [OF set_list_elems [OF st(2)]]
  define P where "P e \<longleftrightarrow> \<not> (Some k0 \<in> set others \<or> e \<in> united v others)" for e
  define I where "I xs acc \<longleftrightarrow> (\<forall>s' d c. acc = (s', d, c) \<longrightarrow> kview cfg n K s' v \<and> eles xs \<subseteq> aset v k0 \<and> set_wf cfg d \<and>
     set_elems d = {e \<in> eles xs. P e} \<and> c = int (length (filter (P \<circ> ele_sds) xs)))" for xs acc
  have "\<exists>acc'. set_each addr (\<lambda>e (s, dstset, cardinality). do {
         (found, s) \<leftarrow> diffFound s k0 others (ele_sds e);
         if found then Some (s, dstset, cardinality)
         else map_option (\<lambda>(dstset, _). (s, dstset, cardinality + 1)) (setTypeAdd cfg dstset (ele_sds e))
       }) st (s, createIntsetObject, 0) = Some acc' \<and> I (set_list st) acc'"
  proof (rule set_each_rule [OF st(2)])
    show "I [] (s, createIntsetObject, 0)" using k(1) by (simp add: I_def createIntsetObject_def set_wf_def set_elems_def)
    fix xs x acc
    assume x: "x \<in> set (set_list st)" and I: "I xs acc"
    obtain s1 d c where acc: "acc = (s1, d, c)" by (metis prod_cases3)
    have a: "kview cfg n K s1 v" "set_wf cfg d" "set_elems d = {e \<in> eles xs. P e}" "eles xs \<subseteq> aset v k0" using I acc by (simp_all add: I_def)
    obtain s2 where s2: "diffFound s1 k0 others (ele_sds x) = Some (\<not> P (ele_sds x), s2)" "kview cfg n K s2 v"
      using diffFound_spec [OF a(1), of others k0 "ele_sds x"] k(2) by (auto simp: P_def)
    have xe: "ele_sds x \<in> aset v k0" using x el st(3) by auto
    have "card (set_elems d) \<le> card (aset v k0)" unfolding a(3) using a(4) kview_aset_finite [OF k(1)] by (intro card_mono) auto
    then obtain d' where d': "setTypeAdd cfg d (ele_sds x) = Some (d', ele_sds x \<notin> set_elems d)" "set_wf cfg d'"
        "set_elems d' = insert (ele_sds x) (set_elems d)"
      using setTypeAdd_spec [OF a(2), of "ele_sds x"] c by fastforce
    show "\<exists>acc'. (case acc of (s, dstset, cardinality) \<Rightarrow> do {
         (found, s) \<leftarrow> diffFound s k0 others (ele_sds x);
         if found then Some (s, dstset, cardinality)
         else map_option (\<lambda>(dstset, _). (s, dstset, cardinality + 1)) (setTypeAdd cfg dstset (ele_sds x))
       }) = Some acc' \<and> I (xs @ [x]) acc'"
    proof (cases "P (ele_sds x)")
      case True
      then have "set_elems d' = {e \<in> eles (xs @ [x]). P e}" using d'(3) a(3) by auto
      then show ?thesis using True s2 d'(1,2) I acc xe by (simp add: I_def)
    next
      case False
      then have "set_elems d = {e \<in> eles (xs @ [x]). P e}" using a(3) by auto
      then show ?thesis using False s2 I acc xe by (simp add: I_def)
    qed
  qed
  then obtain s' d c where r: "diffLoop1 cfg addr s k0 others = Some (s', d, c)" "I (set_list st) (s', d, c)"
    using st(1) by (auto simp: diffLoop1_def)
  have len: "length (filter (P \<circ> ele_sds) xs) = card {e \<in> eles xs. P e}" if "distinct (map ele_sds xs)" for xs
  proof -
    have "length (filter (P \<circ> ele_sds) xs) = length (filter P (map ele_sds xs))" by (simp add: filter_map)
    also have "\<dots> = card (set (filter P (map ele_sds xs)))" using that by (intro distinct_card [symmetric] distinct_filter)
    also have "set (filter P (map ele_sds xs)) = {e \<in> eles xs. P e}" by auto
    finally show ?thesis .
  qed
  have "{e \<in> aset v k0. P e} = aset v k0 - united v others"
    by (auto simp: P_def united_def)
  then show ?thesis using r len [OF dist] el st(3) by (simp add: I_def counted_def)
qed

subsection \<open>Storing and sending the result\<close>

definition store_spec :: "key \<Rightarrow> byte list set \<Rightarrow> astate \<Rightarrow> reply \<times> astate" where
  "store_spec dst R = (\<lambda>(V, E). (RInt (int (card R)), V(dst := if R = {} then None else Some (ASet R)), E(dst := None)))"

lemma store_result_spec:
  assumes "kview cfg n K s v" "n < 2 ^ 60" "set_wf cfg st"
  shows "\<exists>s'. store_result cfg s ev dst st = Some (fst (store_spec dst (set_elems st) v), s') \<and>
    kview cfg (Suc n) (insert dst K) s' (snd (store_spec dst (set_elems st) v))"
proof -
  from assms(1) obtain V E where V: "kstate cfg n K s V E" "v = (map_option obj_abs \<circ> V, E)" by (auto simp: kview_def)
  have size: "setTypeSize st = card (set_elems st)" "setTypeSize st > 0 \<longleftrightarrow> set_elems st \<noteq> {}"
    using setTypeSize_card [OF assms(3)] set_elems_finite [of st] by (simp_all add: card_gt_0_iff)
  obtain b s1 where s1: "dbDelete cfg s dst = Some (b, s1)" "kstate cfg n (insert dst K) s1 (V(dst := None)) (E(dst := None))"
    using kstate_dbDelete [OF V(1), of dst] by blast
  show ?thesis
  proof (cases "set_elems st = {}")
    case True
    have "kstate cfg (Suc n) (insert dst K) s1 (V(dst := None)) (E(dst := None))" by (rule kstate_mono [OF s1(2)]) auto
    then have "kview cfg (Suc n) (insert dst K) s1 ((map_option obj_abs \<circ> V)(dst := None), E(dst := None))"
      unfolding kview_def by fastforce
    then show ?thesis using True size s1(1) V(2) by (auto simp: store_result_def store_spec_def czero_def kview_def Let_def)
  next
    case False
    obtain s2 where s2: "dbAdd cfg s1 dst (ObjSet st) = Some s2" "kstate cfg (Suc n) (insert dst K) s2 (V(dst \<mapsto> ObjSet st)) (E(dst := None))"
      using kstate_dbAdd [OF s1(2), of dst "ObjSet st"] assms(2,3) by auto
    then have "kview cfg (Suc n) (insert dst K) s2 ((map_option obj_abs \<circ> V)(dst \<mapsto> ASet (set_elems st)), E(dst := None))"
      unfolding kview_def by fastforce
    then show ?thesis using False size s1(1) s2(1) V(2) by (auto simp: store_result_def store_spec_def kview_def Let_def)
  qed
qed

lemma send_result:
  assumes "counted cfg X (st, c)"
  shows "\<exists>out. set_each addr (\<lambda>e out. Some (out @ [ele_sds e])) st [] = Some out \<and> c = int (length out) \<and> distinct out \<and> set out = X"
proof -
  have st: "set_wf cfg st" "set_elems st = X" "c = int (card X)" using assms by (simp_all add: counted_def)
  have "\<exists>out. set_each addr (\<lambda>e out. Some (out @ [ele_sds e])) st [] = Some out \<and> out = map ele_sds (set_list st)"
    by (rule set_each_rule [OF st(1), where I = "\<lambda>xs out. out = map ele_sds xs"]) simp_all
  moreover note set_list_elems [OF st(1)]
  ultimately show ?thesis using st(2,3) distinct_card [of "map ele_sds (set_list st)"] by auto
qed

lemma kview_upd [simp]: "kview cfg n K (emit e s) v = kview cfg n K s v" "kview cfg n K (s\<lparr>dirty := d\<rparr>) v = kview cfg n K s v"
  by (simp_all add: kview_def)

subsection \<open>Union and difference\<close>

definition setop :: "set_op \<Rightarrow> astate \<Rightarrow> key list \<Rightarrow> byte list set" where
  "setop op v keys =
     (case op of
        SET_OP_UNION \<Rightarrow> \<Union>k \<in> set keys. aset v k
      | SET_OP_DIFF \<Rightarrow> aset v (hd keys) - (\<Union>k \<in> set (tl keys). aset v k)
      | SET_OP_INTER \<Rightarrow> \<Inter>k \<in> set keys. aset v k)"

lemma aset_missing: "\<not> is_aset v k \<Longrightarrow> aset v k = {}"
  by (auto simp: aset_def is_aset_def split: option.splits avalue.splits)

lemma united_pointers: "united v (pointers v keys) = (\<Union>k \<in> set keys. aset v k)"
  by (induction keys) (auto simp: pointers_def aset_missing)

lemma usable_pointers: "set keys \<subseteq> K \<Longrightarrow> usable v K (pointers v keys)"
  by (auto simp: usable_def pointers_def split: if_splits)

lemma counted_empty: "counted cfg {} (createIntsetObject, 0)"
  by (simp add: counted_def createIntsetObject_def set_wf_def set_elems_def)

lemma sets_compute_spec:
  assumes k: "kview cfg n K s v" "set keys \<subseteq> K" and ne: "keys \<noteq> []" and c: "card (\<Union>k \<in> set keys. aset v k) < 2 ^ 28"
    and op: "op \<in> {SET_OP_UNION, SET_OP_DIFF}"
  shows "\<exists>s' d c. sets_compute cfg addr s op (pointers v keys) = Some (s', d, c) \<and> kview cfg n K s' v \<and>
    counted cfg (setop op v keys) (d, c)"
proof (cases "op = SET_OP_UNION")
  case True
  obtain acc where "unionLoop cfg addr s (pointers v keys) (createIntsetObject, 0) = Some acc" "counted cfg (\<Union>k \<in> set keys. aset v k) acc"
    using unionLoop_spec [OF k(1) usable_pointers [OF k(2)] counted_empty, of addr] c unfolding united_pointers by auto
  then show ?thesis using True k(1) by (cases acc) (simp add: sets_compute_def setop_def)
next
  case False
  then have op: "op = SET_OP_DIFF" using op by simp
  obtain k0 ks where keys: "keys = k0 # ks" using ne by (cases keys) auto
  show ?thesis
  proof (cases "is_aset v k0")
    case False
    then show ?thesis using op k(1) counted_empty [of cfg] aset_missing [OF False] by (simp add: keys pointers_def sets_compute_def setop_def)
  next
    case True
    define others where "others = pointers v ks"
    have p: "pointers v keys = Some k0 # others" using True by (simp add: keys pointers_def others_def)
    have u: "usable v K (Some k0 # others)" using usable_pointers [OF k(2), of v] p by simp
    define sorted where "sorted = sort_key (\<lambda>p. - int (null_size s p)) others"
    have us: "usable v K (Some k0 # sorted)" "united v sorted = united v others"
      using u by (simp_all add: sorted_def usable_def united_def)
    have fin: "finite (\<Union>k \<in> set keys. aset v k)" using kview_aset_finite [OF k(1)] by simp
    have c0: "card (aset v k0) < 2 ^ 28" using c card_mono [OF fin, of "aset v k0"] by (auto simp: keys)
    have r: "setop op v keys = aset v k0 - united v others"
      by (simp add: op setop_def keys others_def united_pointers)
    obtain s' d c where "diffLoop1 cfg addr s k0 sorted = Some (s', d, c)" "kview cfg n K s' v" "counted cfg (setop op v keys) (d, c)"
      using diffLoop1_spec [OF k(1) us(1) c0, of addr] us(2) r by auto
    moreover obtain acc where "diffLoop2 cfg addr s True (Some k0 # others) (createIntsetObject, 0) = Some acc" "counted cfg (setop op v keys) acc"
      using diffLoop2_spec [OF k(1) u counted_empty c0, of addr] r by auto
    ultimately show ?thesis
      using op k(1) unfolding sets_compute_def p
      by (cases "diff_algo s (Some k0 # others) = 1"; cases acc) (simp_all add: sorted_def)
  qed
qed

lemma sunionDiff_query:
  assumes w: "db_wf cfg s" "\<not> masterhost cfg" "db_room s" and keys: "keys \<noteq> []" "card (\<Union>k \<in> set keys. aset (view cfg s) k) < 2 ^ 28"
    and op: "op \<in> {SET_OP_UNION, SET_OP_DIFF}" and a: "all_sets (view cfg s) keys"
  shows "\<exists>out s'. sunionDiffGenericCommand cfg addr s keys None op = Some (RSet (int (length out)) out, s') \<and>
    db_wf cfg s' \<and> view cfg s' = view cfg s \<and> distinct out \<and> set out = setop op (view cfg s) keys"
proof -
  obtain n where k0: "n < 2 ^ 60" "kview cfg n {} s (view cfg s)" using kview_start [OF w(1,3)] by blast
  obtain s1 K where s1: "sunion_lookup cfg False s keys = Some (Found (pointers (view cfg s) keys), s1)"
      "kview cfg n K s1 (view cfg s)" "set keys \<subseteq> K"
    using sunion_lookup_spec [OF k0(2) w(2), of False keys] a by auto
  obtain s2 d c where s2: "sets_compute cfg addr s1 op (pointers (view cfg s) keys) = Some (s2, d, c)" "kview cfg n K s2 (view cfg s)"
      "counted cfg (setop op (view cfg s) keys) (d, c)"
    using sets_compute_spec [OF s1(2,3) keys op] by blast
  obtain out where "set_each addr (\<lambda>e out. Some (out @ [ele_sds e])) d [] = Some out" "c = int (length out)" "distinct out"
      "set out = setop op (view cfg s) keys"
    using send_result [OF s2(3)] by blast
  then show ?thesis
    using s1(1) s2(1) kview_view [OF s2(2)] by (simp add: sunionDiffGenericCommand_def)
qed

definition sunionDiff_spec :: "set_op \<Rightarrow> key \<Rightarrow> key list \<Rightarrow> astate \<Rightarrow> reply \<times> astate" where
  "sunionDiff_spec op dst keys v = (if all_sets v keys then store_spec dst (setop op v keys) v else (RWrongType, v))"

lemma sunionDiff_store:
  assumes w: "db_wf cfg s" "\<not> masterhost cfg" "db_room s" and keys: "keys \<noteq> []" "card (\<Union>k \<in> set keys. aset (view cfg s) k) < 2 ^ 28"
    and op: "op \<in> {SET_OP_UNION, SET_OP_DIFF}"
  shows "refines cfg s (sunionDiffGenericCommand cfg addr s keys (Some dst) op) (sunionDiff_spec op dst keys)"
proof -
  obtain n where k0: "n < 2 ^ 60" "kview cfg n {} s (view cfg s)" using kview_start [OF w(1,3)] by blast
  obtain s1 K where s1: "sunion_lookup cfg True s keys =
        Some (if all_sets (view cfg s) keys then Found (pointers (view cfg s) keys) else WrongType, s1)"
      "kview cfg n K s1 (view cfg s)" "all_sets (view cfg s) keys \<longrightarrow> set keys \<subseteq> K"
    using sunion_lookup_spec [OF k0(2) w(2), of True keys] by auto
  show ?thesis
  proof (cases "all_sets (view cfg s) keys")
    case False
    then show ?thesis using s1(1) kview_view [OF s1(2)] by (simp add: refines_def sunionDiff_spec_def sunionDiffGenericCommand_def)
  next
    case True
    then have sub: "set keys \<subseteq> K" using s1(3) by simp
    obtain s2 d c where s2: "sets_compute cfg addr s1 op (pointers (view cfg s) keys) = Some (s2, d, c)" "kview cfg n K s2 (view cfg s)"
        "counted cfg (setop op (view cfg s) keys) (d, c)"
      using sets_compute_spec [OF s1(2) sub keys op] by blast
    then have d: "set_wf cfg d" "set_elems d = setop op (view cfg s) keys" by (simp_all add: counted_def)
    obtain s3 where s3: "store_result cfg s2 (if op = SET_OP_UNION then ''sunionstore'' else ''sdiffstore'') dst d =
          Some (fst (store_spec dst (setop op (view cfg s) keys) (view cfg s)), s3)"
        "kview cfg (Suc n) (insert dst K) s3 (snd (store_spec dst (setop op (view cfg s) keys) (view cfg s)))"
      using store_result_spec [OF s2(2) k0(1) d(1)] d(2) by metis
    have "sunionDiffGenericCommand cfg addr s keys (Some dst) op =
        Some (fst (store_spec dst (setop op (view cfg s) keys) (view cfg s)), s3)"
      using True s1(1) s2(1) s3(1) by (simp add: sunionDiffGenericCommand_def)
    then show ?thesis using True kview_view [OF s3(2)] by (simp add: refines_def sunionDiff_spec_def)
  qed
qed

subsection \<open>Intersection\<close>

lemma sinterIsMember_spec:
  assumes "set_wf cfg st" "\<forall>i. e = EleInt i \<longrightarrow> in_i64 i"
  shows "\<exists>st'. sinterIsMember st e = Some (st', ele_sds e \<in> set_elems st) \<and> set_wf cfg st' \<and> set_elems st' = set_elems st"
proof (cases "\<exists>i is. e = EleInt i \<and> st = SetIntset is")
  case True
  then obtain i "is" where e: "e = EleInt i" "st = SetIntset is" "in_i64 i" using assms(2) by blast
  have w: "intset_wf is" using assms(1) e(2) by (simp add: set_wf_def)
  have "ele_sds e = dec_bytes i" using ele_sds_int [OF e(3)] e(1) by simp
  moreover have "dec_bytes i \<in> set_elems st \<longleftrightarrow> i \<in> set (intset_elems is)"
    using e inj_dec_bytes intset_elems_i64 [OF w] by (auto simp: set_elems_def inj_on_def)
  moreover have "intsetFind is i \<longleftrightarrow> i \<in> set (intset_elems is)" using intsetFind_iff [OF w e(3)] .
  ultimately show ?thesis using assms(1) e by (simp add: sinterIsMember_def)
next
  case False
  then have "sinterIsMember st e = setTypeIsMember st (ele_sds e)"
    by (auto simp: sinterIsMember_def split: set_element.splits set_obj.splits)
  then show ?thesis using setTypeIsMember_spec [OF assms(1), of "ele_sds e"] by simp
qed

lemma set_list_valid: "set_wf cfg st \<Longrightarrow> EleInt i \<in> set (set_list st) \<Longrightarrow> in_i64 i"
  using intset_elems_i64 by (cases st) (auto simp: set_list_def set_wf_def)

lemma sinterAll_spec:
  assumes "kview cfg n K s v" "\<forall>k \<in> set ks. k \<in> K \<and> is_aset v k" "\<forall>i. e = EleInt i \<longrightarrow> in_i64 i"
  shows "\<exists>s'. sinterAll s k0 ks e = Some (\<forall>k \<in> set ks. k = k0 \<or> ele_sds e \<in> aset v k, s') \<and> kview cfg n K s' v"
  using assms(1,2)
proof (induction ks arbitrary: s)
  case (Cons k ks)
  show ?case
  proof (cases "k = k0")
    case True
    then show ?thesis using Cons by simp
  next
    case False
    obtain st where st: "deref s k = Some st" "set_wf cfg st" "set_elems st = aset v k"
      using kview_deref [OF Cons.prems(1), of k] Cons.prems(2) by auto
    obtain st' where st': "sinterIsMember st e = Some (st', ele_sds e \<in> aset v k)" "set_wf cfg st'" "set_elems st' = aset v k"
      using sinterIsMember_spec [OF st(2) assms(3)] st(3) by auto
    have k1: "kview cfg n K (obj_update s k (ObjSet st')) v"
      using Cons.prems(2) st'(2,3) by (intro kview_touch [OF Cons.prems(1)]) auto
    show ?thesis
      using Cons.IH [OF k1] Cons.prems(2) k1 False st(1) st'(1) by (cases "ele_sds e \<in> aset v k") auto
  qed
qed simp

lemma sinter_body_spec:
  assumes k: "kview cfg n K s v" "\<forall>k \<in> set (k0 # others). k \<in> K \<and> is_aset v k" and c: "card (aset v k0) < 2 ^ 28"
    and st: "set_wf cfg st" "set_elems st = aset v k0"
  shows "\<exists>s' out d. set_each addr (sinter_body cfg send k0 others) st (s, [], createIntsetObject) = Some (s', out, d) \<and>
    kview cfg n K s' v \<and> set_wf cfg d \<and>
    (if send then distinct out \<and> set out = (\<Inter>k \<in> set (k0 # others). aset v k) else set_elems d = (\<Inter>k \<in> set (k0 # others). aset v k))"
proof -
  note el = conjunct1 [OF set_list_elems [OF st(1)]] and dist = conjunct2 [OF set_list_elems [OF st(1)]]
  define P where "P e \<longleftrightarrow> (\<forall>k \<in> set others. k = k0 \<or> e \<in> aset v k)" for e
  define I where "I xs acc \<longleftrightarrow> (\<forall>s' out d. acc = (s', out, d) \<longrightarrow> kview cfg n K s' v \<and> eles xs \<subseteq> aset v k0 \<and> set_wf cfg d \<and>
     (if send then out = filter P (map ele_sds xs) else set_elems d = {e \<in> eles xs. P e}) \<and> (send \<longrightarrow> set_elems d = {}))" for xs acc
  have "\<exists>acc'. set_each addr (sinter_body cfg send k0 others) st (s, [], createIntsetObject) = Some acc' \<and> I (set_list st) acc'"
  proof (rule set_each_rule [OF st(1)])
    show "I [] (s, [], createIntsetObject)" using k(1) by (simp add: I_def createIntsetObject_def set_wf_def set_elems_def)
    fix xs x acc
    assume x: "x \<in> set (set_list st)" and I: "I xs acc"
    obtain s1 out d where acc: "acc = (s1, out, d)" by (metis prod_cases3)
    have a: "kview cfg n K s1 v" "set_wf cfg d" "eles xs \<subseteq> aset v k0"
      "if send then out = filter P (map ele_sds xs) else set_elems d = {e \<in> eles xs. P e}" "send \<longrightarrow> set_elems d = {}" using I acc by (simp_all add: I_def)
    have vx: "\<forall>i. x = EleInt i \<longrightarrow> in_i64 i" using set_list_valid [OF st(1)] x by blast
    obtain s2 where s2: "sinterAll s1 k0 others x = Some (P (ele_sds x), s2)" "kview cfg n K s2 v"
      using sinterAll_spec [OF a(1) _ vx, of others k0] k(2) by (auto simp: P_def)
    have xe: "ele_sds x \<in> aset v k0" using x el st(2) by auto
    have "set_elems d \<subseteq> aset v k0" using a(3-5) by (auto split: if_splits)
    then have "card (set_elems d) \<le> card (aset v k0)" using kview_aset_finite [OF k(1)] by (intro card_mono) auto
    then obtain d' where d': "setTypeAdd cfg d (ele_sds x) = Some (d', ele_sds x \<notin> set_elems d)" "set_wf cfg d'"
        "set_elems d' = insert (ele_sds x) (set_elems d)"
      using setTypeAdd_spec [OF a(2), of "ele_sds x"] c by fastforce
    show "\<exists>acc'. sinter_body cfg send k0 others x acc = Some acc' \<and> I (xs @ [x]) acc'"
    proof (cases "P (ele_sds x) \<and> \<not> send")
      case True
      then have "set_elems d' = {e \<in> eles (xs @ [x]). P e}" using d'(3) a(4) by auto
      then show ?thesis using True s2 d'(1,2) a(3) acc xe by (simp add: I_def sinter_body_def)
    next
      case False
      then have "send \<or> set_elems d = {e \<in> eles (xs @ [x]). P e}" using a(4) by auto
      then show ?thesis using False s2 a acc xe by (auto simp: I_def sinter_body_def)
    qed
  qed
  then obtain s' out d where r: "set_each addr (sinter_body cfg send k0 others) st (s, [], createIntsetObject) = Some (s', out, d)"
      "I (set_list st) (s', out, d)" by (metis prod_cases3)
  have i: "(\<Inter>k \<in> set (k0 # others). aset v k) = {e \<in> aset v k0. P e}" by (auto simp: P_def)
  show ?thesis unfolding i using r dist el st(2) by (auto simp: I_def)
qed

lemma sinter_found: "sinter_result v keys = Found sets \<longleftrightarrow> sets = keys \<and> (\<forall>k \<in> set keys. is_aset v k)"
  by (auto simp: sinter_result_def find_None_iff find_Some_iff split: option.splits)

text \<open>The sets are sorted by size before the loop; any order gives the same result.\<close>

lemma sinter_sets:
  assumes k: "kview cfg n K s v" "set keys \<subseteq> K" "\<forall>k \<in> set keys. is_aset v k" and ne: "keys \<noteq> []"
    and c: "\<forall>k \<in> set keys. card (aset v k) < 2 ^ 28"
  shows "\<exists>k0 others st s' out d. sort_key (ptr_size s) keys = k0 # others \<and> deref s k0 = Some st \<and>
    set_each addr (sinter_body cfg send k0 others) st (s, [], createIntsetObject) = Some (s', out, d) \<and>
    kview cfg n K s' v \<and> set_wf cfg d \<and>
    (if send then distinct out \<and> set out = setop SET_OP_INTER v keys else set_elems d = setop SET_OP_INTER v keys)"
proof -
  have se: "set (sort_key (ptr_size s) keys) = set keys" by simp
  obtain k0 others where sk: "sort_key (ptr_size s) keys = k0 # others"
    using ne se by (cases "sort_key (ptr_size s) keys") auto
  then have sets: "set (k0 # others) = set keys" using se by simp
  obtain st where st: "deref s k0 = Some st" "set_wf cfg st" "set_elems st = aset v k0"
    using kview_deref [OF k(1), of k0] k(2,3) sets by auto
  have "\<forall>k \<in> set (k0 # others). k \<in> K \<and> is_aset v k" "card (aset v k0) < 2 ^ 28" using k(2,3) c sets by auto
  from sinter_body_spec [OF k(1) this st(2,3), of addr send] obtain s' out d where
    "set_each addr (sinter_body cfg send k0 others) st (s, [], createIntsetObject) = Some (s', out, d)" "kview cfg n K s' v" "set_wf cfg d"
    "if send then distinct out \<and> set out = (\<Inter>k \<in> set keys. aset v k) else set_elems d = (\<Inter>k \<in> set keys. aset v k)"
    unfolding sets by blast
  then show ?thesis using sk st(1) by (auto simp: setop_def)
qed

lemma sinter_query:
  assumes w: "db_wf cfg s" "\<not> masterhost cfg" "db_room s" and ne: "keys \<noteq> []"
    and c: "\<forall>k \<in> set keys. card (aset (view cfg s) k) < 2 ^ 28" and a: "all_sets (view cfg s) keys"
  shows "\<exists>out s'. sinterGenericCommand cfg addr s keys None = Some (RSet (int (length out)) out, s') \<and>
    db_wf cfg s' \<and> view cfg s' = view cfg s \<and> distinct out \<and> set out = setop SET_OP_INTER (view cfg s) keys"
proof -
  obtain n where k0: "n < 2 ^ 60" "kview cfg n {} s (view cfg s)" using kview_start [OF w(1,3)] by blast
  obtain s1 K where s1: "sinter_lookup cfg False s keys = Some (sinter_result (view cfg s) keys, s1)"
      "kview cfg n K s1 (view cfg s)" "sinter_result (view cfg s) keys = Found keys \<longrightarrow> set keys \<subseteq> K"
    using sinter_lookup_spec [OF k0(2) w(2), of False keys] by auto
  show ?thesis
  proof (cases "\<forall>k \<in> set keys. is_aset (view cfg s) k")
    case True
    then have f: "sinter_result (view cfg s) keys = Found keys" by (simp add: sinter_found)
    with s1(3) have "set keys \<subseteq> K" by simp
    from sinter_sets [OF s1(2) this True ne c, of addr True] obtain k0 others st s' out d where
      "sort_key (ptr_size s1) keys = k0 # others" "deref s1 k0 = Some st"
      "set_each addr (sinter_body cfg True k0 others) st (s1, [], createIntsetObject) = Some (s', out, d)" "kview cfg n K s' (view cfg s)"
      "distinct out" "set out = setop SET_OP_INTER (view cfg s) keys" by auto
    then show ?thesis using f s1(1) kview_view [of cfg n K s' "view cfg s"] by (simp add: sinterGenericCommand_def)
  next
    case False
    then have m: "sinter_result (view cfg s) keys = Missing"
      using a by (auto simp: sinter_result_def all_sets_def find_None_iff find_Some_iff split: option.splits) (metis nth_mem option.distinct(1))
    have "setop SET_OP_INTER (view cfg s) keys = {}" using False aset_missing [of "view cfg s"] by (auto simp: setop_def)
    then show ?thesis using m s1(1) kview_view [OF s1(2)] by (simp add: sinterGenericCommand_def)
  qed
qed

text \<open>A missing key before the first key of another type makes the intersection empty.\<close>

definition sinterstore_spec :: "key \<Rightarrow> key list \<Rightarrow> astate \<Rightarrow> reply \<times> astate" where
  "sinterstore_spec dst keys v =
     (case sinter_result v keys of
        Found _ \<Rightarrow> store_spec dst (setop SET_OP_INTER v keys) v
      | Missing \<Rightarrow> store_spec dst {} v
      | WrongType \<Rightarrow> (RWrongType, v))"

lemma kview_dbDelete:
  assumes "kview cfg n K s v"
  shows "\<exists>b s'. dbDelete cfg s dst = Some (b, s') \<and> kview cfg n (insert dst K) s' (snd (store_spec dst {} v))"
proof -
  from assms obtain V E where V: "kstate cfg n K s V E" "v = (map_option obj_abs \<circ> V, E)" by (auto simp: kview_def)
  obtain b s1 where s1: "dbDelete cfg s dst = Some (b, s1)" "kstate cfg n (insert dst K) s1 (V(dst := None)) (E(dst := None))"
    using kstate_dbDelete [OF V(1), of dst] by blast
  have "kview cfg n (insert dst K) s1 ((map_option obj_abs \<circ> V)(dst := None), E(dst := None))"
    using s1(2) unfolding kview_def by fastforce
  then show ?thesis using s1(1) V(2) by (simp add: store_spec_def)
qed

lemma sinter_store:
  assumes w: "db_wf cfg s" "\<not> masterhost cfg" "db_room s" and ne: "keys \<noteq> []"
    and c: "\<forall>k \<in> set keys. card (aset (view cfg s) k) < 2 ^ 28"
  shows "refines cfg s (sinterGenericCommand cfg addr s keys (Some dst)) (sinterstore_spec dst keys)"
proof -
  obtain n where k0: "n < 2 ^ 60" "kview cfg n {} s (view cfg s)" using kview_start [OF w(1,3)] by blast
  obtain s1 K where s1: "sinter_lookup cfg True s keys = Some (sinter_result (view cfg s) keys, s1)"
      "kview cfg n K s1 (view cfg s)" "sinter_result (view cfg s) keys = Found keys \<longrightarrow> set keys \<subseteq> K"
    using sinter_lookup_spec [OF k0(2) w(2), of True keys] by auto
  show ?thesis
  proof (cases "sinter_result (view cfg s) keys")
    case (Found sets)
    then have f: "sets = keys" "\<forall>k \<in> set keys. is_aset (view cfg s) k" by (simp_all add: sinter_found)
    have "set keys \<subseteq> K" using s1(3) Found f(1) by simp
    from sinter_sets [OF s1(2) this f(2) ne c, of addr False] obtain k0 others st s2 out d where
      s2: "sort_key (ptr_size s1) keys = k0 # others" "deref s1 k0 = Some st"
        "set_each addr (sinter_body cfg False k0 others) st (s1, [], createIntsetObject) = Some (s2, out, d)" "kview cfg n K s2 (view cfg s)"
        "set_wf cfg d" "set_elems d = setop SET_OP_INTER (view cfg s) keys" by auto
    obtain s3 where s3: "store_result cfg s2 ''sinterstore'' dst d =
          Some (fst (store_spec dst (setop SET_OP_INTER (view cfg s) keys) (view cfg s)), s3)"
        "kview cfg (Suc n) (insert dst K) s3 (snd (store_spec dst (setop SET_OP_INTER (view cfg s) keys) (view cfg s)))"
      using store_result_spec [OF s2(4) k0(1) s2(5)] s2(6) by metis
    have "sinterGenericCommand cfg addr s keys (Some dst) =
        Some (fst (store_spec dst (setop SET_OP_INTER (view cfg s) keys) (view cfg s)), s3)"
      using Found f(1) s1(1) s2(1-3) s3(1) by (simp add: sinterGenericCommand_def)
    then show ?thesis using Found kview_view [OF s3(2)] by (simp add: refines_def sinterstore_spec_def)
  next
    case Missing
    obtain b s2 where "dbDelete cfg s1 dst = Some (b, s2)" "kview cfg n (insert dst K) s2 (snd (store_spec dst {} (view cfg s)))"
      using kview_dbDelete [OF s1(2)] by blast
    moreover have "store_spec dst {} (view cfg s) = (RInt 0, snd (store_spec dst {} (view cfg s)))"
      by (simp add: store_spec_def case_prod_beta)
    ultimately show ?thesis using Missing s1(1) kview_view [of cfg n "insert dst K" s2]
      by (cases b) (simp_all add: refines_def sinterstore_spec_def sinterGenericCommand_def czero_def Let_def)
  next
    case WrongType
    then show ?thesis using s1(1) kview_view [OF s1(2)] by (simp add: refines_def sinterstore_spec_def sinterGenericCommand_def)
  qed
qed

section \<open>Properties\<close>

text \<open>
  C9: on a master, SUNION and SDIFF send every element of the union or difference exactly once
  under a header with their number, and SUNIONSTORE and SDIFFSTORE replace the destination by
  the result, whichever of the two difference algorithms the sizes of the sets select.
  Missing and expired keys are empty sets; a key of another type is refused before anything
  changes.
\<close>

theorem sunionDiffGenericCommand_correct:
  assumes "db_wf cfg s" "\<not> masterhost cfg" "db_room s" "keys \<noteq> []" "card (\<Union>k \<in> set keys. aset (view cfg s) k) < 2 ^ 28"
    and "op = SET_OP_UNION \<or> op = SET_OP_DIFF"
  shows "(all_sets (view cfg s) keys \<longrightarrow>
      (\<exists>out s'. sunionDiffGenericCommand cfg addr s keys None op = Some (RSet (int (length out)) out, s') \<and>
        db_wf cfg s' \<and> view cfg s' = view cfg s \<and> distinct out \<and> set out = setop op (view cfg s) keys)) \<and>
    refines cfg s (sunionDiffGenericCommand cfg addr s keys (Some dst) op) (sunionDiff_spec op dst keys)"
  using sunionDiff_query [OF assms(1-5), of op addr] sunionDiff_store [OF assms(1-5), of op addr dst] assms(6) by blast

text \<open>The set without the elements of an expired key, stored under a new key.\<close>

theorem sunionDiffGenericCommand_correct_witness:
  "\<exists>s'. sunionDiffGenericCommand example_cfg (\<lambda>_. (4096, 8192)) example_server [[98], [99]] (Some [101]) SET_OP_DIFF =
      Some (RInt 2, s') \<and>
     fst (view example_cfg s') [101] = Some (ASet {dec_bytes (-5), dec_bytes 9})"
proof -
  have a: "aset (view example_cfg example_server) [98] = {dec_bytes (-5), dec_bytes 9}" "aset (view example_cfg example_server) [99] = {}"
    "is_aset (view example_cfg example_server) [98]" "fst (view example_cfg example_server) [99] = None"
    by (simp_all add: aset_def is_aset_def example_view)
  have d: "dec_bytes (-5) \<noteq> dec_bytes 9" by code_simp
  have c: "card (\<Union>k \<in> set [[98], [99]]. aset (view example_cfg example_server) k) < 2 ^ 28" using d by (simp add: a)
  have k: "[[98], [99]] \<noteq> ([] :: key list)" "SET_OP_DIFF = SET_OP_UNION \<or> SET_OP_DIFF = SET_OP_DIFF" by simp_all
  have spec: "sunionDiff_spec SET_OP_DIFF [101] [[98], [99]] (view example_cfg example_server) =
      store_spec [101] {dec_bytes (-5), dec_bytes 9} (view example_cfg example_server)"
    by (simp add: sunionDiff_spec_def all_sets_def a setop_def)
  from refinesD [OF conjunct2 [OF sunionDiffGenericCommand_correct [OF example_wf example_facts(1,5) k(1) c k(2), where dst = "[101]" and addr = "\<lambda>_. (4096, 8192)"]]]
  show ?thesis using d unfolding spec by (auto simp: store_spec_def case_prod_beta)
qed

text \<open>
  C30: on a master, SINTER sends every element of the intersection exactly once under a header
  with their number, and SINTERSTORE replaces the destination by it, though the sets are
  sorted and the smallest is iterated; one missing or expired key makes the result empty.
\<close>

theorem sinterGenericCommand_correct:
  assumes "db_wf cfg s" "\<not> masterhost cfg" "db_room s" "keys \<noteq> []" "\<forall>k \<in> set keys. card (aset (view cfg s) k) < 2 ^ 28"
  shows "(all_sets (view cfg s) keys \<longrightarrow>
      (\<exists>out s'. sinterGenericCommand cfg addr s keys None = Some (RSet (int (length out)) out, s') \<and>
        db_wf cfg s' \<and> view cfg s' = view cfg s \<and> distinct out \<and> set out = setop SET_OP_INTER (view cfg s) keys)) \<and>
    refines cfg s (sinterGenericCommand cfg addr s keys (Some dst)) (sinterstore_spec dst keys)"
  using sinter_query [OF assms, of addr] sinter_store [OF assms, of addr dst] by blast

theorem sinterGenericCommand_correct_witness:
  "\<exists>s'. sinterGenericCommand example_cfg (\<lambda>_. (4096, 8192)) example_server [[98], [98]] (Some [100]) = Some (RInt 2, s') \<and>
     fst (view example_cfg s') [100] = Some (ASet {dec_bytes (-5), dec_bytes 9}) \<and> snd (view example_cfg s') [100] = None"
proof -
  have a: "aset (view example_cfg example_server) [98] = {dec_bytes (-5), dec_bytes 9}"
    "is_aset (view example_cfg example_server) [98]"
    by (simp_all add: aset_def is_aset_def example_view)
  have d: "dec_bytes (-5) \<noteq> dec_bytes 9" by code_simp
  have c: "\<forall>k \<in> set [[98], [98]]. card (aset (view example_cfg example_server) k) < 2 ^ 28" using d by (simp add: a)
  have k: "[[98], [98]] \<noteq> ([] :: key list)" by simp
  have spec: "sinterstore_spec [100] [[98], [98]] (view example_cfg example_server) =
      store_spec [100] {dec_bytes (-5), dec_bytes 9} (view example_cfg example_server)"
    by (simp add: sinterstore_spec_def sinter_result_def a setop_def)
  from refinesD [OF conjunct2 [OF sinterGenericCommand_correct [OF example_wf example_facts(1,5) k c, where dst = "[100]" and addr = "\<lambda>_. (4096, 8192)"]]]
  show ?thesis using d unfolding spec by (auto simp: store_spec_def case_prod_beta)
qed

end
