(* ===== verification/StringCommands.thy ===== *)
theory StringCommands
  imports View SdsText
begin

text \<open>
  The string commands of \<open>src/redis-6.0.5/src/t_string.c\<close>: SET with its options, SETNX, SETEX,
  PSETEX, GET, GETSET, SETRANGE, GETRANGE, MGET, MSET, MSETNX, INCR, DECR, INCRBY, DECRBY,
  APPEND and STRLEN, with their specifications on the view of the keyspace.  Arithmetic on
  64-bit integers wraps around.  INCRBYFLOAT needs extended-precision floating point and is
  left out.
\<close>

section \<open>The program\<close>

text \<open>
  Arguments are the bytes the client sent; an argument becomes an object by \<open>arg_obj\<close>.
  \<open>refcount\<close> is the reference count a command reads from an object: it selects between
  changing an object and replacing it.
\<close>

definition arg_obj :: "byte list \<Rightarrow> string_obj" where
  "arg_obj a = createStringObject a (length a)"

definition addReplyBulk :: "string_obj \<Rightarrow> reply" where
  "addReplyBulk o' =
     (case o' of
        StrInt v \<Rightarrow> (case ll2string (replicate 32 0) 32 v of (len, buf) \<Rightarrow> RBulk (take len buf))
      | _ \<Rightarrow> RBulk (take (sdslen (obj_sds o')) (sds_buf (obj_sds o'))))"

text \<open>The size is passed as a signed 64-bit integer.  \<open>Some\<close> is the error reply.\<close>

definition checkStringLength :: "int \<Rightarrow> reply option" where
  "checkStringLength sz =
     (if wrap64 sz > 512 * 1024 * 1024 then Some (RError ''string exceeds maximum allowed size (512MB)'') else None)"

definition dbUnshareStringValue :: "nat \<Rightarrow> server \<Rightarrow> key \<Rightarrow> string_obj \<Rightarrow> (string_obj \<times> server) option" where
  "dbUnshareStringValue refcount s key o' =
     (if refcount \<noteq> 1 \<or> (case o' of StrRaw _ \<Rightarrow> False | _ \<Rightarrow> True) then do {
        let decoded = getDecodedObject o';
        let o' = createRawStringObject (sds_buf (obj_sds decoded)) (sdslen (obj_sds decoded));
        s \<leftarrow> dbOverwrite s key (ObjString o');
        Some (o', s)
      }
      else Some (o', s))"

subsection \<open>SET and its variants\<close>

record set_flags =
  OBJ_SET_NX :: bool
  OBJ_SET_XX :: bool
  OBJ_SET_EX :: bool
  OBJ_SET_PX :: bool
  OBJ_SET_KEEPTTL :: bool

definition OBJ_SET_NO_FLAGS :: set_flags where
  "OBJ_SET_NO_FLAGS = \<lparr>OBJ_SET_NX = False, OBJ_SET_XX = False, OBJ_SET_EX = False, OBJ_SET_PX = False, OBJ_SET_KEEPTTL = False\<rparr>"

text \<open>The two guards look the key up; the second is evaluated only if the first does not abort.\<close>

definition set_guards :: "'a server_config_scheme \<Rightarrow> server \<Rightarrow> set_flags \<Rightarrow> key \<Rightarrow> (bool \<times> server) option" where
  "set_guards cfg s flags key = do {
     (a, s) \<leftarrow> (if OBJ_SET_NX flags then map_option (\<lambda>(o', s). (o' \<noteq> None, s)) (lookupKeyWrite cfg s key) else Some (False, s));
     if a then Some (True, s)
     else if OBJ_SET_XX flags then map_option (\<lambda>(o', s). (o' = None, s)) (lookupKeyWrite cfg s key)
     else Some (False, s)
   }"

definition set_milliseconds :: "string \<Rightarrow> byte list option \<Rightarrow> time_unit \<Rightarrow> reply + int option" where
  "set_milliseconds cmdname expire unit' =
     (case expire of
        None \<Rightarrow> Inr None
      | Some e \<Rightarrow>
          (case string2ll e of
             None \<Rightarrow> Inl not_an_integer
           | Some milliseconds \<Rightarrow>
               if milliseconds \<le> 0 then Inl (RError (''invalid expire time in '' @ cmdname))
               else Inr (Some (if unit' = UNIT_SECONDS then wrap64 (milliseconds * 1000) else milliseconds))))"

definition set_store ::
  "'a server_config_scheme \<Rightarrow> server \<Rightarrow> set_flags \<Rightarrow> key \<Rightarrow> string_obj \<Rightarrow> int option \<Rightarrow> server option" where
  "set_store cfg s flags key val expire = do {
     s \<leftarrow> genericSetKey cfg s key (ObjString val) (OBJ_SET_KEEPTTL flags) True;
     let s = s\<lparr>dirty := dirty s + 1\<rparr>;
     s \<leftarrow> (case expire of Some milliseconds \<Rightarrow> setExpire cfg s key (wrap64 (mstime cfg + milliseconds)) | None \<Rightarrow> Some s);
     let s = emit (Notify NOTIFY_STRING ''set'' key) s;
     Some (if expire \<noteq> None then emit (Notify NOTIFY_GENERIC ''expire'' key) s else s)
   }"

definition setGenericCommand ::
  "'a server_config_scheme \<Rightarrow> server \<Rightarrow> string \<Rightarrow> set_flags \<Rightarrow> key \<Rightarrow> string_obj \<Rightarrow> byte list option \<Rightarrow> time_unit \<Rightarrow>
   reply option \<Rightarrow> reply option \<Rightarrow> (reply \<times> server) option" where
  "setGenericCommand cfg s cmdname flags key val expire unit' ok_reply abort_reply =
     (case set_milliseconds cmdname expire unit' of
        Inl err \<Rightarrow> Some (err, s)
      | Inr milliseconds \<Rightarrow> do {
          (abort, s) \<leftarrow> set_guards cfg s flags key;
          if abort then Some (case abort_reply of Some r \<Rightarrow> r | None \<Rightarrow> RNull, s)
          else map_option (Pair (case ok_reply of Some r \<Rightarrow> r | None \<Rightarrow> ROk)) (set_store cfg s flags key val milliseconds)
        })"

text \<open>
  Option names are compared as C strings: two letters of either case followed by a zero byte,
  which may be the terminator or a byte of the argument.
\<close>

definition is_option :: "byte \<Rightarrow> byte \<Rightarrow> byte \<Rightarrow> byte \<Rightarrow> byte list \<Rightarrow> bool" where
  "is_option c0 C0 c1 C1 arg =
     (case arg @ [0] of
        a0 # a1 # a2 # _ \<Rightarrow> (a0 = c0 \<or> a0 = C0) \<and> (a1 = c1 \<or> a1 = C1) \<and> a2 = 0
      | _ \<Rightarrow> False)"

definition strcasecmp_eq :: "byte list \<Rightarrow> byte list \<Rightarrow> bool" where
  "strcasecmp_eq a b = (map tolower (takeWhile (\<lambda>c. c \<noteq> 0) a) = map tolower (takeWhile (\<lambda>c. c \<noteq> 0) b))"

fun setOptions :: "byte list list \<Rightarrow> set_flags \<Rightarrow> byte list option \<Rightarrow> time_unit \<Rightarrow> (set_flags \<times> byte list option \<times> time_unit) option" where
  "setOptions [] flags expire unit' = Some (flags, expire, unit')"
| "setOptions (a # rest) flags expire unit' =
     (if is_option 110 78 120 88 a \<and> \<not> OBJ_SET_XX flags then setOptions rest (flags\<lparr>OBJ_SET_NX := True\<rparr>) expire unit'
      else if is_option 120 88 120 88 a \<and> \<not> OBJ_SET_NX flags then setOptions rest (flags\<lparr>OBJ_SET_XX := True\<rparr>) expire unit'
      else if strcasecmp_eq a [75, 69, 69, 80, 84, 84, 76] \<and> \<not> OBJ_SET_EX flags \<and> \<not> OBJ_SET_PX flags
        then setOptions rest (flags\<lparr>OBJ_SET_KEEPTTL := True\<rparr>) expire unit'
      else
        (case rest of
           [] \<Rightarrow> None
         | next # rest' \<Rightarrow>
             if is_option 101 69 120 88 a \<and> \<not> OBJ_SET_KEEPTTL flags \<and> \<not> OBJ_SET_PX flags
               then setOptions rest' (flags\<lparr>OBJ_SET_EX := True\<rparr>) (Some next) UNIT_SECONDS
             else if is_option 112 80 120 88 a \<and> \<not> OBJ_SET_KEEPTTL flags \<and> \<not> OBJ_SET_EX flags
               then setOptions rest' (flags\<lparr>OBJ_SET_PX := True\<rparr>) (Some next) UNIT_MILLISECONDS
             else None))"

definition setCommand :: "'a server_config_scheme \<Rightarrow> server \<Rightarrow> key \<Rightarrow> byte list \<Rightarrow> byte list list \<Rightarrow> (reply \<times> server) option" where
  "setCommand cfg s key val opts =
     (case setOptions opts OBJ_SET_NO_FLAGS None UNIT_SECONDS of
        None \<Rightarrow> Some (RError ''syntax error'', s)
      | Some (flags, expire, unit') \<Rightarrow>
          setGenericCommand cfg s ''set'' flags key (tryObjectEncoding 1 (arg_obj val)) expire unit' None None)"

definition setnxCommand :: "'a server_config_scheme \<Rightarrow> server \<Rightarrow> key \<Rightarrow> byte list \<Rightarrow> (reply \<times> server) option" where
  "setnxCommand cfg s key val =
     setGenericCommand cfg s ''setnx'' (OBJ_SET_NO_FLAGS\<lparr>OBJ_SET_NX := True\<rparr>) key (tryObjectEncoding 1 (arg_obj val))
       None UNIT_SECONDS (Some cone) (Some czero)"

definition setexCommand :: "'a server_config_scheme \<Rightarrow> server \<Rightarrow> key \<Rightarrow> byte list \<Rightarrow> byte list \<Rightarrow> (reply \<times> server) option" where
  "setexCommand cfg s key expire val =
     setGenericCommand cfg s ''setex'' OBJ_SET_NO_FLAGS key (tryObjectEncoding 1 (arg_obj val)) (Some expire) UNIT_SECONDS None None"

definition psetexCommand :: "'a server_config_scheme \<Rightarrow> server \<Rightarrow> key \<Rightarrow> byte list \<Rightarrow> byte list \<Rightarrow> (reply \<times> server) option" where
  "psetexCommand cfg s key expire val =
     setGenericCommand cfg s ''psetex'' OBJ_SET_NO_FLAGS key (tryObjectEncoding 1 (arg_obj val)) (Some expire) UNIT_MILLISECONDS None None"

subsection \<open>Reading\<close>

text \<open>The second result is whether the command may go on (\<open>C_OK\<close>).\<close>

definition getGenericCommand :: "'a server_config_scheme \<Rightarrow> server \<Rightarrow> key \<Rightarrow> (reply \<times> bool \<times> server) option" where
  "getGenericCommand cfg s key = do {
     (o', s) \<leftarrow> lookupKeyRead cfg s key;
     Some (case o' of
        None \<Rightarrow> (RNull, True, s)
      | Some (ObjString str) \<Rightarrow> (addReplyBulk str, True, s)
      | Some _ \<Rightarrow> (RWrongType, False, s))
   }"

definition getCommand :: "'a server_config_scheme \<Rightarrow> server \<Rightarrow> key \<Rightarrow> (reply \<times> server) option" where
  "getCommand cfg s key = map_option (\<lambda>(r, _, s). (r, s)) (getGenericCommand cfg s key)"

definition getsetCommand :: "'a server_config_scheme \<Rightarrow> server \<Rightarrow> key \<Rightarrow> byte list \<Rightarrow> (reply \<times> server) option" where
  "getsetCommand cfg s key val = do {
     (r, ok, s) \<leftarrow> getGenericCommand cfg s key;
     if \<not> ok then Some (r, s)
     else do {
       s \<leftarrow> setKey cfg s key (ObjString (tryObjectEncoding 1 (arg_obj val)));
       let s = emit (Notify NOTIFY_STRING ''set'' key) s;
       Some (r, s\<lparr>dirty := dirty s + 1\<rparr>)
     }
   }"

definition getrangeCommand ::
  "'a server_config_scheme \<Rightarrow> server \<Rightarrow> key \<Rightarrow> byte list \<Rightarrow> byte list \<Rightarrow> (reply \<times> server) option" where
  "getrangeCommand cfg s key start_arg end_arg =
     (case (string2ll start_arg, string2ll end_arg) of
        (Some start, Some end) \<Rightarrow> do {
          (o', s) \<leftarrow> lookupKeyRead cfg s key;
          (case o' of
             None \<Rightarrow> Some (RBulk [], s)
           | Some (ObjString ob) \<Rightarrow>
               (let (str, strlen) = (case ob of StrInt v \<Rightarrow> (case ll2string (replicate 32 0) 32 v of (n, buf) \<Rightarrow> (buf, int n))
                                     | _ \<Rightarrow> (sds_buf (obj_sds ob), int (sdslen (obj_sds ob))))
                in if start < 0 \<and> end < 0 \<and> start > end then Some (RBulk [], s)
                   else
                     let start = (if start < 0 then strlen + start else start);
                         end = (if end < 0 then strlen + end else end);
                         start = (if start < 0 then 0 else start);
                         end = (if end < 0 then 0 else end);
                         end = (if end \<ge> strlen then strlen - 1 else end)
                     in if start > end \<or> strlen = 0 then Some (RBulk [], s)
                        else Some (RBulk (take (nat (end - start + 1)) (drop (nat start) str)), s))
           | Some _ \<Rightarrow> Some (RWrongType, s))
        }
      | _ \<Rightarrow> Some (not_an_integer, s))"

fun mgetLoop :: "'a server_config_scheme \<Rightarrow> server \<Rightarrow> key list \<Rightarrow> (reply list \<times> server) option" where
  "mgetLoop cfg s [] = Some ([], s)"
| "mgetLoop cfg s (key # keys) = do {
     (o', s) \<leftarrow> lookupKeyRead cfg s key;
     let r = (case o' of Some (ObjString str) \<Rightarrow> addReplyBulk str | _ \<Rightarrow> RNull);
     (rs, s) \<leftarrow> mgetLoop cfg s keys;
     Some (r # rs, s)
   }"

definition mgetCommand :: "'a server_config_scheme \<Rightarrow> server \<Rightarrow> key list \<Rightarrow> (reply \<times> server) option" where
  "mgetCommand cfg s keys = map_option (\<lambda>(rs, s). (RArray rs, s)) (mgetLoop cfg s keys)"

definition strlenCommand :: "'a server_config_scheme \<Rightarrow> server \<Rightarrow> key \<Rightarrow> (reply \<times> server) option" where
  "strlenCommand cfg s key = do {
     (o', s) \<leftarrow> lookupKeyRead cfg s key;
     Some (case o' of
        None \<Rightarrow> (czero, s)
      | Some (ObjString str) \<Rightarrow> (RInt (int (stringObjectLen str)), s)
      | Some _ \<Rightarrow> (RWrongType, s))
   }"

subsection \<open>Writing\<close>

definition setrangeCommand ::
  "'a server_config_scheme \<Rightarrow> nat \<Rightarrow> server \<Rightarrow> key \<Rightarrow> byte list \<Rightarrow> byte list \<Rightarrow> (reply \<times> server) option" where
  "setrangeCommand cfg refcount s key offset_arg value =
     (case string2ll offset_arg of
        None \<Rightarrow> Some (not_an_integer, s)
      | Some offset \<Rightarrow>
          if offset < 0 then Some (RError ''offset is out of range'', s)
          else do {
            let needed = offset + int (length value);
            (o', s) \<leftarrow> lookupKeyWrite cfg s key;
            r \<leftarrow> (case o' of
               None \<Rightarrow>
                 if length value = 0 then Some (Inl czero, s)
                 else (case checkStringLength needed of
                   Some err \<Rightarrow> Some (Inl err, s)
                 | None \<Rightarrow> do {
                     let ob = StrRaw (sdsnewlen None (nat needed));
                     s \<leftarrow> dbAdd cfg s key (ObjString ob);
                     Some (Inr ob, s)
                   })
             | Some (ObjString ob) \<Rightarrow>
                 if length value = 0 then Some (Inl (RInt (int (stringObjectLen ob))), s)
                 else (case checkStringLength needed of
                   Some err \<Rightarrow> Some (Inl err, s)
                 | None \<Rightarrow> do {
                     (ob, s) \<leftarrow> dbUnshareStringValue refcount s key ob;
                     Some (Inr ob, s)
                   })
             | Some _ \<Rightarrow> Some (Inl RWrongType, s));
            (case r of
               (Inl reply, s) \<Rightarrow> Some (reply, s)
             | (Inr ob, s) \<Rightarrow> do {
                 let str = put_bytes (nat offset) value (sdsgrowzero (obj_sds ob) (nat needed));
                 let s = obj_update s key (ObjString (StrRaw str));
                 let s = emit (Notify NOTIFY_STRING ''setrange'' key) (emit (SignalModified key) s);
                 Some (RInt (int (sdslen str)), s\<lparr>dirty := dirty s + 1\<rparr>)
               })
          })"

definition appendCommand :: "'a server_config_scheme \<Rightarrow> nat \<Rightarrow> server \<Rightarrow> key \<Rightarrow> byte list \<Rightarrow> (reply \<times> server) option" where
  "appendCommand cfg refcount s key val = do {
     (o', s) \<leftarrow> lookupKeyWrite cfg s key;
     r \<leftarrow> (case o' of
        None \<Rightarrow> do {
          let ob = tryObjectEncoding 1 (arg_obj val);
          s \<leftarrow> dbAdd cfg s key (ObjString ob);
          Some (Inr (stringObjectLen ob), s)
        }
      | Some (ObjString ob) \<Rightarrow>
          (case checkStringLength (int (stringObjectLen ob + length val)) of
             Some err \<Rightarrow> Some (Inl err, s)
           | None \<Rightarrow> do {
               (ob, s) \<leftarrow> dbUnshareStringValue refcount s key ob;
               let str = sdscatlen (obj_sds ob) val;
               Some (Inr (sdslen str), obj_update s key (ObjString (StrRaw str)))
             })
      | Some _ \<Rightarrow> Some (Inl RWrongType, s));
     (case r of
        (Inl reply, s) \<Rightarrow> Some (reply, s)
      | (Inr totlen, s) \<Rightarrow> do {
          let s = emit (Notify NOTIFY_STRING ''append'' key) (emit (SignalModified key) s);
          Some (RInt (int totlen), s\<lparr>dirty := dirty s + 1\<rparr>)
        })
   }"

fun msetnxGuard :: "'a server_config_scheme \<Rightarrow> server \<Rightarrow> (key \<times> byte list) list \<Rightarrow> (bool \<times> server) option" where
  "msetnxGuard cfg s [] = Some (False, s)"
| "msetnxGuard cfg s ((key, _) # pairs) = do {
     (o', s) \<leftarrow> lookupKeyWrite cfg s key;
     if o' \<noteq> None then Some (True, s) else msetnxGuard cfg s pairs
   }"

fun msetLoop :: "'a server_config_scheme \<Rightarrow> server \<Rightarrow> (key \<times> byte list) list \<Rightarrow> server option" where
  "msetLoop cfg s [] = Some s"
| "msetLoop cfg s ((key, val) # pairs) = do {
     s \<leftarrow> setKey cfg s key (ObjString (tryObjectEncoding 1 (arg_obj val)));
     msetLoop cfg (emit (Notify NOTIFY_STRING ''set'' key) s) pairs
   }"

fun arg_pairs :: "byte list list \<Rightarrow> (key \<times> byte list) list" where
  "arg_pairs (k # v # args) = (k, v) # arg_pairs args"
| "arg_pairs _ = []"

text \<open>\<open>args\<close> are the arguments after the command name.\<close>

definition msetGenericCommand :: "'a server_config_scheme \<Rightarrow> server \<Rightarrow> byte list list \<Rightarrow> bool \<Rightarrow> (reply \<times> server) option" where
  "msetGenericCommand cfg s args nx =
     (if (length args + 1) mod 2 = 0 then Some (RError ''wrong number of arguments for MSET'', s)
      else do {
        (exists, s) \<leftarrow> (if nx then msetnxGuard cfg s (arg_pairs args) else Some (False, s));
        if exists then Some (czero, s)
        else do {
          s \<leftarrow> msetLoop cfg s (arg_pairs args);
          Some (if nx then cone else ROk, s\<lparr>dirty := dirty s + length args div 2\<rparr>)
        }
      })"

definition msetCommand :: "'a server_config_scheme \<Rightarrow> server \<Rightarrow> byte list list \<Rightarrow> (reply \<times> server) option" where
  "msetCommand cfg s args = msetGenericCommand cfg s args False"

definition msetnxCommand :: "'a server_config_scheme \<Rightarrow> server \<Rightarrow> byte list list \<Rightarrow> (reply \<times> server) option" where
  "msetnxCommand cfg s args = msetGenericCommand cfg s args True"

definition OBJ_SHARED_INTEGERS :: int where "OBJ_SHARED_INTEGERS = 10000"

text \<open>An integer object that nothing else refers to is changed in place.\<close>

definition incr_store ::
  "'a server_config_scheme \<Rightarrow> nat \<Rightarrow> server \<Rightarrow> key \<Rightarrow> string_obj option \<Rightarrow> int \<Rightarrow> server option" where
  "incr_store cfg refcount s key ob value =
     (if (case ob of Some (StrInt _) \<Rightarrow> True | _ \<Rightarrow> False) \<and> refcount = 1 \<and> (value < 0 \<or> value \<ge> OBJ_SHARED_INTEGERS) \<and>
         value \<ge> LLONG_MIN \<and> value \<le> LLONG_MAX
      then Some (obj_update s key (ObjString (StrInt value)))
      else
        let new = ObjString (createStringObjectFromLongLong value)
        in if ob \<noteq> None then dbOverwrite s key new else dbAdd cfg s key new)"

definition incrDecrCommand :: "'a server_config_scheme \<Rightarrow> nat \<Rightarrow> server \<Rightarrow> key \<Rightarrow> int \<Rightarrow> (reply \<times> server) option" where
  "incrDecrCommand cfg refcount s key incr = do {
     (o', s) \<leftarrow> lookupKeyWrite cfg s key;
     (case (case o' of None \<Rightarrow> Some None | Some (ObjString ob) \<Rightarrow> Some (Some ob) | Some _ \<Rightarrow> None) of
        None \<Rightarrow> Some (RWrongType, s)
      | Some ob \<Rightarrow>
          (case getLongLongFromObject ob of
             None \<Rightarrow> Some (not_an_integer, s)
           | Some oldvalue \<Rightarrow>
               if (incr < 0 \<and> oldvalue < 0 \<and> incr < LLONG_MIN - oldvalue) \<or>
                  (incr > 0 \<and> oldvalue > 0 \<and> incr > LLONG_MAX - oldvalue)
               then Some (RError ''increment or decrement would overflow'', s)
               else do {
                 let value = wrap64 (oldvalue + incr);
                 s \<leftarrow> incr_store cfg refcount s key ob value;
                 let s = emit (Notify NOTIFY_STRING ''incrby'' key) (emit (SignalModified key) s);
                 Some (RInt value, s\<lparr>dirty := dirty s + 1\<rparr>)
               }))
   }"

definition incrCommand where "incrCommand cfg refcount s key = incrDecrCommand cfg refcount s key 1"
definition decrCommand where "decrCommand cfg refcount s key = incrDecrCommand cfg refcount s key (-1)"

definition incrbyCommand :: "'a server_config_scheme \<Rightarrow> nat \<Rightarrow> server \<Rightarrow> key \<Rightarrow> byte list \<Rightarrow> (reply \<times> server) option" where
  "incrbyCommand cfg refcount s key arg =
     (case string2ll arg of None \<Rightarrow> Some (not_an_integer, s) | Some incr \<Rightarrow> incrDecrCommand cfg refcount s key incr)"

text \<open>The negation of the smallest integer wraps around to itself.\<close>

definition decrbyCommand :: "'a server_config_scheme \<Rightarrow> nat \<Rightarrow> server \<Rightarrow> key \<Rightarrow> byte list \<Rightarrow> (reply \<times> server) option" where
  "decrbyCommand cfg refcount s key arg =
     (case string2ll arg of None \<Rightarrow> Some (not_an_integer, s) | Some incr \<Rightarrow> incrDecrCommand cfg refcount s key (wrap64 (- incr)))"

section \<open>Lemmas\<close>

lemma arg_obj_spec:
  assumes "length a < 2 ^ 63"
  shows "str_wf (tryObjectEncoding 1 (arg_obj a)) \<and> str_val (tryObjectEncoding 1 (arg_obj a)) = a"
  using tryObjectEncoding_spec [of "arg_obj a" 1] createStringObject_spec [of "length a" a] assms by (simp add: arg_obj_def)

lemma addReplyBulk_spec: "str_wf o' \<Longrightarrow> addReplyBulk o' = RBulk (str_val o')"
proof (cases o')
  case (StrInt v)
  moreover assume "str_wf o'"
  ultimately have v: "in_i64 v" by simp
  show ?thesis
    using StrInt ll2string_spec [OF v, of 32 "replicate 32 0"] dec_bytes_length [OF v] by (auto simp: addReplyBulk_def write_at_def)
qed (simp_all add: addReplyBulk_def sds_val_def)

lemma checkStringLength_spec: "in_i64 n \<Longrightarrow> checkStringLength n = (if n > 536870912 then Some (RError ''string exceeds maximum allowed size (512MB)'') else None)"
  by (simp add: checkStringLength_def wrap64_id)

lemma sds_bits_le: "(n :: nat) < 2 ^ sds_bits t \<Longrightarrow> n < 2 ^ 64"
  by (cases t) simp_all

lemma kstate_unshare:
  assumes "kstate cfg n K s V E" "k \<in> K" "V k = Some (ObjString ob)"
  shows "\<exists>str s'. dbUnshareStringValue rc s k ob = Some (StrRaw str, s') \<and> kstate cfg n K s' (V(k \<mapsto> ObjString (StrRaw str))) E \<and>
    sds_wf str \<and> sds_val str = str_val ob"
proof -
  have ob: "str_wf ob" using kstate_obj [OF assms(1,3)] by simp
  show ?thesis
  proof (cases "rc \<noteq> 1 \<or> (case ob of StrRaw _ \<Rightarrow> False | _ \<Rightarrow> True)")
    case False
    then obtain str where "ob = StrRaw str" by (auto split: string_obj.splits)
    then show ?thesis using False assms ob by (simp add: dbUnshareStringValue_def fun_upd_idem)
  next
    case True
    define d where "d = obj_sds (getDecodedObject ob)"
    have d: "sds_wf d" "sds_val d = str_val ob"
      using getDecodedObject_spec [OF ob] obj_sds_val [of "getDecodedObject ob"] by (simp_all add: d_def)
    define str where "str = sdsnewlen (Some (sds_buf d)) (sdslen d)"
    have "sdslen d \<le> length (sds_buf d)" "sdslen d < 2 ^ 64"
      using d(1) le_less_trans [of "sdslen d" "sdsalloc d"] sds_bits_le [of "sdslen d" "sds_type d"] by (auto simp: sds_wf_def)
    then have str: "sds_wf str" "sds_val str = str_val ob"
      using sdsnewlen_spec [of "sdslen d" "Some (sds_buf d)"] d(2) by (simp_all add: str_def sds_val_def)
    have c: "createRawStringObject (sds_buf d) (sdslen d) = StrRaw str" by (simp add: createRawStringObject_def str_def)
    obtain s' where "dbOverwrite s k (ObjString (StrRaw str)) = Some s'" "kstate cfg n K s' (V(k \<mapsto> ObjString (StrRaw str))) E"
      using kstate_dbOverwrite [OF assms(1,2), of "ObjString (StrRaw str)"] assms(3) str(1) by auto
    then show ?thesis using True str c unfolding dbUnshareStringValue_def Let_def d_def [symmetric] by auto
  qed
qed

subsection \<open>SET\<close>

definition set_spec ::
  "set_flags \<Rightarrow> key \<Rightarrow> byte list \<Rightarrow> int option \<Rightarrow> reply \<Rightarrow> reply \<Rightarrow> astate \<Rightarrow> reply \<times> astate" where
  "set_spec flags key val when ok abort = (\<lambda>(V, E).
     if OBJ_SET_NX flags \<and> V key \<noteq> None \<or> OBJ_SET_XX flags \<and> V key = None then (abort, V, E)
     else (ok, V(key \<mapsto> AStr val),
           E(key := if when \<noteq> None then when else if OBJ_SET_KEEPTTL flags then E key else None)))"

text \<open>The expire time that a valid argument asks for, when it does not overflow.\<close>

definition set_when :: "int \<Rightarrow> byte list option \<Rightarrow> time_unit \<Rightarrow> int option \<Rightarrow> bool" where
  "set_when now expire unit' when \<longleftrightarrow>
     (case expire of
        None \<Rightarrow> when = None
      | Some e \<Rightarrow>
          (case string2ll e of
             None \<Rightarrow> False
           | Some n \<Rightarrow>
               let ms = (if unit' = UNIT_SECONDS then n * 1000 else n) in 0 < n \<and> now + ms < 2 ^ 63 \<and> when = Some (now + ms)))"

lemma set_guards_spec:
  assumes "kstate cfg n K s V E" "\<not> masterhost cfg"
  shows "\<exists>s' K'. set_guards cfg s flags key =
      Some (OBJ_SET_NX flags \<and> V key \<noteq> None \<or> OBJ_SET_XX flags \<and> V key = None, s') \<and> kstate cfg n K' s' V E"
proof -
  obtain s1 where s1: "lookupKeyWrite cfg s key = Some (V key, s1)" "kstate cfg n (insert key K) s1 V E"
    using kstate_lookupKeyWrite [OF assms, of key] by blast
  obtain s2 where s2: "lookupKeyWrite cfg s1 key = Some (V key, s2)" "kstate cfg n (insert key K) s2 V E"
    using kstate_lookupKeyWrite [OF s1(2) assms(2), of key] by auto
  show ?thesis
    using assms(1) s1 s2 by (cases "V key"; cases "OBJ_SET_NX flags"; cases "OBJ_SET_XX flags") (auto simp: set_guards_def)
qed

lemma set_when_milliseconds:
  assumes "set_when (mstime cfg) expire u when" "0 \<le> mstime cfg" "virtual_now cfg \<le> mstime cfg"
  shows "\<exists>ms. set_milliseconds name expire u = Inr ms \<and>
    (case ms of None \<Rightarrow> when = None | Some m \<Rightarrow> when = Some (wrap64 (mstime cfg + m)) \<and> virtual_now cfg \<le> wrap64 (mstime cfg + m))"
proof (cases expire)
  case None
  then show ?thesis using assms(1) by (simp add: set_when_def set_milliseconds_def)
next
  case (Some e)
  then obtain n where n: "string2ll e = Some n" using assms(1) by (auto simp: set_when_def split: option.splits)
  define ms where "ms = (if u = UNIT_SECONDS then n * 1000 else n)"
  have m: "0 < n" "mstime cfg + ms < 2 ^ 63" "when = Some (mstime cfg + ms)"
    using assms(1) Some n by (simp_all add: set_when_def Let_def ms_def)
  have "in_i64 ms" "in_i64 (mstime cfg + ms)" using m(1,2) assms(2) by (auto simp: ms_def in_signed_def split: if_splits)
  then have w: "wrap64 ms = ms" "wrap64 (mstime cfg + ms) = mstime cfg + ms" by (simp_all add: wrap64_id)
  then have "(if u = UNIT_SECONDS then wrap64 (n * 1000) else n) = ms" by (simp add: ms_def split: if_splits)
  moreover have "0 < ms" using m(1) by (simp add: ms_def)
  ultimately show ?thesis using Some n m w(2) assms(3) by (intro exI [of _ "Some ms"]) (simp add: set_milliseconds_def)
qed

lemma set_store_spec:
  assumes "kstate cfg n K s V E" "\<not> masterhost cfg" "n < 2 ^ 60" "str_wf val"
    and wh: "case ms of None \<Rightarrow> when = None | Some m \<Rightarrow> when = Some (wrap64 (mstime cfg + m)) \<and> virtual_now cfg \<le> wrap64 (mstime cfg + m)"
  shows "\<exists>s' E'. set_store cfg s flags key val ms = Some s' \<and> kstate cfg (Suc n) (insert key K) s' (V(key \<mapsto> ObjString val)) E' \<and>
    E' = E(key := if when \<noteq> None then when else if OBJ_SET_KEEPTTL flags then E key else None)"
proof -
  define E2 where "E2 = E(key := if OBJ_SET_KEEPTTL flags then E key else None)"
  obtain s2 where s2: "genericSetKey cfg s key (ObjString val) (OBJ_SET_KEEPTTL flags) True = Some s2"
      "kstate cfg (Suc n) (insert key K) s2 (V(key \<mapsto> ObjString val)) E2"
    using kstate_setKey [OF assms(1,2) _ assms(3), of "ObjString val" key "OBJ_SET_KEEPTTL flags" True] assms(4) by (auto simp: E2_def)
  then have s2': "kstate cfg (Suc n) (insert key K) (s2\<lparr>dirty := dirty s2 + 1\<rparr>) (V(key \<mapsto> ObjString val)) E2" by simp
  show ?thesis
  proof (cases ms)
    case None
    then show ?thesis using s2 wh by (auto simp: set_store_def E2_def Let_def)
  next
    case (Some m)
    obtain s3 where "setExpire cfg (s2\<lparr>dirty := dirty s2 + 1\<rparr>) key (wrap64 (mstime cfg + m)) = Some s3"
        "kstate cfg (Suc n) (insert key K) s3 (V(key \<mapsto> ObjString val)) (E2(key \<mapsto> wrap64 (mstime cfg + m)))"
      using kstate_setExpire [OF s2', of key "wrap64 (mstime cfg + m)"] wh Some assms(3) by auto
    then show ?thesis using Some s2(1) wh by (auto simp: set_store_def E2_def Let_def)
  qed
qed

lemma setGenericCommand_spec:
  assumes w: "db_wf cfg s" "\<not> masterhost cfg" "db_room s" "virtual_now cfg \<le> mstime cfg" "0 \<le> mstime cfg"
    and val: "str_wf val" and wh: "set_when (mstime cfg) expire u when"
  shows "refines cfg s (setGenericCommand cfg s name flags key val expire u ok abort)
    (set_spec flags key (str_val val) when (case ok of Some r \<Rightarrow> r | None \<Rightarrow> ROk) (case abort of Some r \<Rightarrow> r | None \<Rightarrow> RNull))"
proof -
  from w(1,3) obtain n V E where k0: "kstate cfg n {} s V E" "n < 2 ^ 60" "view cfg s = (map_option obj_abs \<circ> V, E)"
    by (rule refines_start)
  obtain s1 K where s1: "set_guards cfg s flags key = Some (OBJ_SET_NX flags \<and> V key \<noteq> None \<or> OBJ_SET_XX flags \<and> V key = None, s1)"
      "kstate cfg n K s1 V E" using set_guards_spec [OF k0(1) w(2), of flags key] by blast
  obtain ms where ms: "set_milliseconds name expire u = Inr ms"
      "case ms of None \<Rightarrow> when = None | Some m \<Rightarrow> when = Some (wrap64 (mstime cfg + m)) \<and> virtual_now cfg \<le> wrap64 (mstime cfg + m)"
    using set_when_milliseconds [OF wh w(5,4)] by blast
  obtain s2 E2 where s2: "set_store cfg s1 flags key val ms = Some s2" "kstate cfg (Suc n) (insert key K) s2 (V(key \<mapsto> ObjString val)) E2"
      "E2 = E(key := if when \<noteq> None then when else if OBJ_SET_KEEPTTL flags then E key else None)"
    using set_store_spec [OF s1(2) w(2) k0(2) val ms(2)] by blast
  show ?thesis
  proof (cases "OBJ_SET_NX flags \<and> V key \<noteq> None \<or> OBJ_SET_XX flags \<and> V key = None")
    case True
    then show ?thesis using s1 ms(1)
      by (intro refinesI [OF k0(1), where V' = V and E' = E]) (auto simp: setGenericCommand_def set_spec_def)
  next
    case False
    then show ?thesis using s1(1) ms(1) s2
      by (intro refinesI [OF k0(1), where V' = "V(key \<mapsto> ObjString val)" and E' = E2]) (auto simp: setGenericCommand_def set_spec_def)
  qed
qed

subsection \<open>Reading\<close>

definition get_spec :: "key \<Rightarrow> astate \<Rightarrow> reply \<times> astate" where
  "get_spec key = (\<lambda>(V, E).
     (case V key of None \<Rightarrow> RNull | Some (AStr b) \<Rightarrow> RBulk b | Some _ \<Rightarrow> RWrongType, V, E))"

lemma getGenericCommand_spec:
  assumes "kstate cfg n K s V E" "\<not> masterhost cfg"
  shows "\<exists>s'. getGenericCommand cfg s key =
      Some (fst (get_spec key (map_option obj_abs \<circ> V, E)), fst (get_spec key (map_option obj_abs \<circ> V, E)) \<noteq> RWrongType, s') \<and>
    kstate cfg n (insert key K) s' V E"
proof -
  obtain s1 where s1: "lookupKeyRead cfg s key = Some (V key, s1)" "kstate cfg n (insert key K) s1 V E"
    using kstate_lookupKeyRead [OF assms, of key] by blast
  have "addReplyBulk str = RBulk (str_val str)" if "V key = Some (ObjString str)" for str
    using kstate_obj [OF s1(2) that] addReplyBulk_spec by simp
  then show ?thesis using s1
    by (cases "V key"; cases "the (V key)") (auto simp: getGenericCommand_def get_spec_def)
qed

lemma getCommand_spec:
  assumes "db_wf cfg s" "\<not> masterhost cfg"
  shows "refines cfg s (getCommand cfg s key) (get_spec key)"
proof -
  note k0 = kstateI [OF assms(1)]
  obtain s1 where "getGenericCommand cfg s key = Some (fst (get_spec key (view cfg s)), fst (get_spec key (view cfg s)) \<noteq> RWrongType, s1)"
      "kstate cfg (card (dom (ks_val s))) {key} s1 (live_val cfg s) (live_exp cfg s)"
    using getGenericCommand_spec [OF k0 assms(2), of key] by (auto simp: view_def)
  then show ?thesis
    by (intro refinesI [OF k0, where V' = "live_val cfg s" and E' = "live_exp cfg s" and K' = "{key}"])
      (auto simp: getCommand_def view_def get_spec_def)
qed

definition mget_spec :: "key list \<Rightarrow> astate \<Rightarrow> reply \<times> astate" where
  "mget_spec keys = (\<lambda>(V, E). (RArray (map (\<lambda>k. case V k of Some (AStr b) \<Rightarrow> RBulk b | _ \<Rightarrow> RNull) keys), V, E))"

lemma mgetLoop_spec:
  assumes "kstate cfg n K s V E" "\<not> masterhost cfg"
  shows "\<exists>s' K'. mgetLoop cfg s keys =
      Some (map (\<lambda>k. case (map_option obj_abs \<circ> V) k of Some (AStr b) \<Rightarrow> RBulk b | _ \<Rightarrow> RNull) keys, s') \<and> kstate cfg n K' s' V E"
  using assms(1)
proof (induction keys arbitrary: s K)
  case (Cons key keys)
  obtain s1 where s1: "lookupKeyRead cfg s key = Some (V key, s1)" "kstate cfg n (insert key K) s1 V E"
    using kstate_lookupKeyRead [OF Cons.prems assms(2), of key] by blast
  have "(case V key of Some (ObjString str) \<Rightarrow> addReplyBulk str | _ \<Rightarrow> RNull) =
      (case (map_option obj_abs \<circ> V) key of Some (AStr b) \<Rightarrow> RBulk b | _ \<Rightarrow> RNull)"
    using kstate_obj [OF s1(2), of key] addReplyBulk_spec by (cases "V key"; cases "the (V key)") auto
  then show ?case using Cons.IH [OF s1(2)] s1(1) by auto
qed auto

lemma mgetCommand_spec:
  assumes "db_wf cfg s" "\<not> masterhost cfg"
  shows "refines cfg s (mgetCommand cfg s keys) (mget_spec keys)"
  using mgetLoop_spec [OF kstateI [OF assms(1)] assms(2), of keys]
  by (auto simp: mgetCommand_def mget_spec_def intro!: refinesI [OF kstateI [OF assms(1)], where V' = "live_val cfg s" and E' = "live_exp cfg s"])

subsection \<open>Counters\<close>

definition incr_spec :: "key \<Rightarrow> int \<Rightarrow> astate \<Rightarrow> reply \<times> astate" where
  "incr_spec key incr = (\<lambda>(V, E).
     (case (case V key of None \<Rightarrow> Inr (Some 0) | Some (AStr b) \<Rightarrow> Inr (string2ll b) | Some _ \<Rightarrow> Inl RWrongType) of
        Inl err \<Rightarrow> (err, V, E)
      | Inr None \<Rightarrow> (not_an_integer, V, E)
      | Inr (Some old) \<Rightarrow>
          if in_i64 (old + incr) then (RInt (old + incr), V(key \<mapsto> AStr (dec_bytes (old + incr))), E)
          else (RError ''increment or decrement would overflow'', V, E)))"

lemma incr_overflow:
  assumes "in_i64 old" "in_i64 incr"
  shows "(incr < 0 \<and> old < 0 \<and> incr < LLONG_MIN - old) \<or> (incr > 0 \<and> old > 0 \<and> incr > LLONG_MAX - old) \<longleftrightarrow> \<not> in_i64 (old + incr)"
  using assms by (auto simp: in_signed_def LLONG_MIN_def LLONG_MAX_def)

lemma incr_store_spec:
  assumes k: "kstate cfg n K s V E" "key \<in> K" "n < 2 ^ 60" and ob: "V key = map_option ObjString ob" and v: "in_i64 value"
  shows "\<exists>s'. incr_store cfg rc s key ob value = Some s' \<and> kstate cfg (Suc n) K s' (V(key \<mapsto> ObjString (StrInt value))) E"
proof -
  have new: "createStringObjectFromLongLong value = StrInt value" by (rule createFromLongLong_spec [OF v])
  have w: "obj_wf cfg (ObjString (StrInt value))" using v by simp
  have mono: "kstate cfg n K s' V' E \<Longrightarrow> kstate cfg (Suc n) K s' V' E" for s' V' by (erule kstate_mono) auto
  show ?thesis
  proof (cases ob)
    case None
    then show ?thesis using kstate_dbAdd [OF k(1,2) _ w k(3)] ob unfolding incr_store_def new by auto
  next
    case (Some str)
    then show ?thesis
      using kstate_update [OF k(1,2) _ w] kstate_dbOverwrite [OF k(1,2) _ w] ob mono unfolding incr_store_def new by (auto simp: Let_def)
  qed
qed

lemma incrDecrCommand_spec:
  assumes w: "db_wf cfg s" "\<not> masterhost cfg" "db_room s" and i: "in_i64 incr"
  shows "refines cfg s (incrDecrCommand cfg rc s key incr) (incr_spec key incr)"
proof -
  from w(1,3) obtain n V E where k0: "kstate cfg n {} s V E" "n < 2 ^ 60" "view cfg s = (map_option obj_abs \<circ> V, E)"
    by (rule refines_start)
  obtain s1 where s1: "lookupKeyWrite cfg s key = Some (V key, s1)" "kstate cfg n {key} s1 V E"
    using kstate_lookupKeyWrite [OF k0(1) w(2), of key] by auto
  show ?thesis
  proof (cases "\<exists>ob. V key = map_option ObjString ob")
    case False
    then obtain v where v: "V key = Some v" "\<forall>str. v \<noteq> ObjString str" by (cases "V key") (auto, metis option.simps(9))
    then show ?thesis using s1
      by (cases v) (auto intro!: refinesI [OF k0(1), where V' = V and E' = E] simp: incrDecrCommand_def incr_spec_def)
  next
    case True
    then obtain ob where ob: "V key = map_option ObjString ob" by blast
    define old where "old = getLongLongFromObject ob"
    have old: "old = (case ob of None \<Rightarrow> Some 0 | Some str \<Rightarrow> string2ll (str_val str))" "\<And>v. old = Some v \<Longrightarrow> in_i64 v"
      using kstate_obj [OF s1(2), of key] ob getLongLong_spec string2ll_iff
      by (auto simp: old_def getLongLongFromObject_def in_signed_def split: option.splits)
    have o': "(case V key of None \<Rightarrow> Some None | Some (ObjString ob) \<Rightarrow> Some (Some ob) | Some _ \<Rightarrow> None) = Some ob"
      using ob by (cases ob) auto
    have a: "(case (map_option obj_abs \<circ> V) key of None \<Rightarrow> Inr (Some 0) | Some (AStr b) \<Rightarrow> Inr (string2ll b) | Some _ \<Rightarrow> Inl RWrongType) = Inr old"
      using ob old(1) by (cases ob) auto
    show ?thesis
    proof (cases old)
      case None
      then show ?thesis using a s1 o'
        by (intro refinesI [OF k0(1), where V' = V and E' = E]) (auto simp: incr_spec_def incrDecrCommand_def old_def)
    next
      case (Some v)
      then have g: "getLongLongFromObject ob = Some v" by (simp add: old_def)
      note ov = incr_overflow [OF old(2) [OF Some] i]
      show ?thesis
      proof (cases "in_i64 (v + incr)")
        case False
        then have "incrDecrCommand cfg rc s key incr = Some (RError ''increment or decrement would overflow'', s1)"
          using s1(1) o' g ov by (simp add: incrDecrCommand_def)
        then show ?thesis using False Some a s1(2) by (intro refinesI [OF k0(1), where V' = V and E' = E]) (auto simp: incr_spec_def)
      next
        case True
        obtain s2 where s2: "incr_store cfg rc s1 key ob (v + incr) = Some s2"
            "kstate cfg (Suc n) {key} s2 (V(key \<mapsto> ObjString (StrInt (v + incr)))) E"
          using incr_store_spec [OF s1(2) _ k0(2) ob True, of rc] by auto
        have "incrDecrCommand cfg rc s key incr =
            Some (RInt (v + incr), (emit (Notify NOTIFY_STRING ''incrby'' key) (emit (SignalModified key) s2))\<lparr>dirty := dirty s2 + 1\<rparr>)"
          using True ov s2(1) s1(1) o' g by (simp add: incrDecrCommand_def Let_def wrap64_id [OF True])
        then show ?thesis using Some a s2(2) True
          by (intro refinesI [OF k0(1), where V' = "V(key \<mapsto> ObjString (StrInt (v + incr)))" and E' = E and K' = "{key}"]) (auto simp: incr_spec_def)
      qed
    qed
  qed
qed

subsection \<open>MSET and MSETNX\<close>

fun mset_one :: "key \<times> byte list \<Rightarrow> astate \<Rightarrow> astate" where
  "mset_one (key, val) (V, E) = (V(key \<mapsto> AStr val), E(key := None))"

definition mset_spec :: "(key \<times> byte list) list \<Rightarrow> bool \<Rightarrow> astate \<Rightarrow> reply \<times> astate" where
  "mset_spec pairs nx v =
     (if nx \<and> (\<exists>k \<in> fst ` set pairs. fst v k \<noteq> None) then (RInt 0, v)
      else (if nx then RInt 1 else ROk, fold mset_one pairs v))"

lemma msetnxGuard_spec:
  assumes "kstate cfg n K s V E" "\<not> masterhost cfg"
  shows "\<exists>s' K'. msetnxGuard cfg s pairs = Some (\<exists>k \<in> fst ` set pairs. V k \<noteq> None, s') \<and> kstate cfg n K' s' V E"
  using assms(1)
proof (induction pairs arbitrary: s K)
  case (Cons p pairs)
  obtain key val where p: "p = (key, val)" by fastforce
  obtain s1 where s1: "lookupKeyWrite cfg s key = Some (V key, s1)" "kstate cfg n (insert key K) s1 V E"
    using kstate_lookupKeyWrite [OF Cons.prems assms(2), of key] by blast
  then show ?case using Cons.IH [OF s1(2)] p by (cases "V key") auto
qed auto

lemma msetLoop_spec:
  assumes "kstate cfg n K s V E" "\<not> masterhost cfg" "n + length pairs \<le> 2 ^ 60" "\<forall>v \<in> snd ` set pairs. length v < 2 ^ 63"
  shows "\<exists>s' K' V' E'. msetLoop cfg s pairs = Some s' \<and> kstate cfg (n + length pairs) K' s' V' E' \<and>
    (map_option obj_abs \<circ> V', E') = fold mset_one pairs (map_option obj_abs \<circ> V, E)"
  using assms(1,3,4)
proof (induction pairs arbitrary: s K V E n)
  case Nil
  then show ?case by auto
next
  case (Cons p pairs)
  obtain key val where p: "p = (key, val)" by fastforce
  define ob where "ob = tryObjectEncoding 1 (arg_obj val)"
  have ob: "str_wf ob" "str_val ob = val" using arg_obj_spec [of val] Cons.prems(3) p by (simp_all add: ob_def)
  have "n < 2 ^ 60" using Cons.prems(2) by simp
  then obtain s1 where s1: "setKey cfg s key (ObjString ob) = Some s1" "kstate cfg (Suc n) (insert key K) s1 (V(key \<mapsto> ObjString ob)) (E(key := None))"
    using kstate_setKey [OF Cons.prems(1) assms(2), of "ObjString ob" key False True] ob(1) by (auto simp: setKey_def)
  have k1: "kstate cfg (Suc n) (insert key K) (emit (Notify NOTIFY_STRING ''set'' key) s1) (V(key \<mapsto> ObjString ob)) (E(key := None))"
    using s1(2) by simp
  have "Suc n + length pairs \<le> 2 ^ 60" "\<forall>v \<in> snd ` set pairs. length v < 2 ^ 63" using Cons.prems(2,3) by auto
  from Cons.IH [OF k1 this] obtain s' K' V' E' where
    m: "msetLoop cfg (emit (Notify NOTIFY_STRING ''set'' key) s1) pairs = Some s'" "kstate cfg (Suc n + length pairs) K' s' V' E'"
    "(map_option obj_abs \<circ> V', E') = fold mset_one pairs (map_option obj_abs \<circ> V(key \<mapsto> ObjString ob), E(key := None))" by blast
  have "fold mset_one (p # pairs) (map_option obj_abs \<circ> V, E) = (map_option obj_abs \<circ> V', E')" using p ob(2) by (subst m(3)) simp
  moreover have "msetLoop cfg s (p # pairs) = Some s'" using s1(1) p m(1) by (simp add: ob_def)
  moreover have "kstate cfg (n + length (p # pairs)) K' s' V' E'" using m(2) by simp
  ultimately show ?case by metis
qed

lemma msetGenericCommand_spec:
  assumes w: "db_wf cfg s" "\<not> masterhost cfg" and even: "even (length args)"
    and room: "card (dom (ks_val s)) + length (arg_pairs args) \<le> 2 ^ 60" "\<forall>v \<in> snd ` set (arg_pairs args). length v < 2 ^ 63"
  shows "refines cfg s (msetGenericCommand cfg s args nx) (mset_spec (arg_pairs args) nx)"
proof -
  note k0 = kstateI [OF w(1)]
  define V where "V = live_val cfg s"
  obtain s1 K where s1: "(if nx then msetnxGuard cfg s (arg_pairs args) else Some (False, s)) =
        Some (nx \<and> (\<exists>k \<in> fst ` set (arg_pairs args). V k \<noteq> None), s1)"
      "kstate cfg (card (dom (ks_val s))) K s1 V (live_exp cfg s)"
    using msetnxGuard_spec [OF k0 w(2), of "arg_pairs args"] k0 by (cases nx) (auto simp: V_def)
  obtain s2 K2 V2 E2 where s2: "msetLoop cfg s1 (arg_pairs args) = Some s2" "kstate cfg (card (dom (ks_val s)) + length (arg_pairs args)) K2 s2 V2 E2"
      "(map_option obj_abs \<circ> V2, E2) = fold mset_one (arg_pairs args) (map_option obj_abs \<circ> V, live_exp cfg s)"
    using msetLoop_spec [OF s1(2) w(2) room] by blast
  have e: "(length args + 1) mod 2 \<noteq> 0" using even by presburger
  show ?thesis
  proof (cases "nx \<and> (\<exists>k \<in> fst ` set (arg_pairs args). V k \<noteq> None)")
    case True
    then have "msetGenericCommand cfg s args nx = Some (RInt 0, s1)" using e s1(1) by (simp add: msetGenericCommand_def czero_def)
    moreover have "mset_spec (arg_pairs args) nx (map_option obj_abs \<circ> live_val cfg s, live_exp cfg s) =
        (RInt 0, map_option obj_abs \<circ> V, live_exp cfg s)" using True by (auto simp: mset_spec_def V_def)
    ultimately show ?thesis using s1(2) by (intro refinesI [OF k0, where V' = V and E' = "live_exp cfg s"]) auto
  next
    case False
    then have "msetGenericCommand cfg s args nx = Some (if nx then RInt 1 else ROk, s2\<lparr>dirty := dirty s2 + length args div 2\<rparr>)"
      using e s1(1) s2(1) by (auto simp: msetGenericCommand_def cone_def)
    moreover have "mset_spec (arg_pairs args) nx (map_option obj_abs \<circ> live_val cfg s, live_exp cfg s) =
        (if nx then RInt 1 else ROk, map_option obj_abs \<circ> V2, E2)" using False s2(3) by (auto simp: mset_spec_def V_def)
    ultimately show ?thesis using s2(2) by (intro refinesI [OF k0, where V' = V2 and E' = E2]) auto
  qed
qed

subsection \<open>APPEND\<close>

definition too_long :: reply where "too_long = RError ''string exceeds maximum allowed size (512MB)''"

definition append_spec :: "key \<Rightarrow> byte list \<Rightarrow> astate \<Rightarrow> reply \<times> astate" where
  "append_spec key val = (\<lambda>(V, E).
     (case V key of
        None \<Rightarrow> (RInt (int (length val)), V(key \<mapsto> AStr val), E)
      | Some (AStr b) \<Rightarrow>
          if length b + length val > 512 * 1024 * 1024 then (too_long, V, E)
          else (RInt (int (length b + length val)), V(key \<mapsto> AStr (b @ val)), E)
      | Some _ \<Rightarrow> (RWrongType, V, E)))"

definition str_small :: "key \<Rightarrow> astate \<Rightarrow> bool" where
  "str_small key v \<longleftrightarrow> (case fst v key of Some (AStr b) \<Rightarrow> length b < 2 ^ 62 | _ \<Rightarrow> True)"

lemma appendCommand_spec:
  assumes w: "db_wf cfg s" "\<not> masterhost cfg" "db_room s" and small: "str_small key (view cfg s)" "length val < 2 ^ 62"
  shows "refines cfg s (appendCommand cfg rc s key val) (append_spec key val)"
proof -
  from w(1,3) obtain n V E where k0: "kstate cfg n {} s V E" "n < 2 ^ 60" "view cfg s = (map_option obj_abs \<circ> V, E)"
    by (rule refines_start)
  obtain s1 where s1: "lookupKeyWrite cfg s key = Some (V key, s1)" "kstate cfg n {key} s1 V E"
    using kstate_lookupKeyWrite [OF k0(1) w(2), of key] by auto
  show ?thesis
  proof (cases "V key")
    case None
    define ob where "ob = tryObjectEncoding 1 (arg_obj val)"
    have ob: "str_wf ob" "str_val ob = val" using arg_obj_spec [of val] small(2) by (simp_all add: ob_def)
    obtain s2 where s2: "dbAdd cfg s1 key (ObjString ob) = Some s2" "kstate cfg (Suc n) {key} s2 (V(key \<mapsto> ObjString ob)) E"
      using kstate_dbAdd [OF s1(2) _ None, of "ObjString ob"] k0(2) ob by auto
    have "\<exists>s'. appendCommand cfg rc s key val = Some (RInt (int (length val)), s') \<and> kstate cfg (Suc n) {key} s' (V(key \<mapsto> ObjString ob)) E"
      using None s1(1) s2 ob stringObjectLen_spec [OF ob(1)] unfolding ob_def by (simp add: appendCommand_def Let_def)
    then show ?thesis using None ob(2) by (intro refinesI [OF k0(1)]) (auto simp: append_spec_def)
  next
    case (Some v)
    show ?thesis
    proof (cases v)
      case (ObjString ob)
      have ob: "str_wf ob" "stringObjectLen ob = length (str_val ob)" using kstate_obj [OF s1(2) Some] ObjString stringObjectLen_spec by simp_all
      have l: "length (str_val ob) < 2 ^ 62" using small(1) Some ObjString by (simp add: str_small_def k0(3))
      then have "in_i64 (int (length (str_val ob) + length val))" using small(2) by (simp add: in_signed_def)
      note chk = checkStringLength_spec [OF this]
      obtain str s2 where s2: "dbUnshareStringValue rc s1 key ob = Some (StrRaw str, s2)"
          "kstate cfg n {key} s2 (V(key \<mapsto> ObjString (StrRaw str))) E" "sds_wf str" "sds_val str = str_val ob"
        using kstate_unshare [OF s1(2), of key ob rc] Some ObjString by auto
      have sl: "sdslen str = length (str_val ob)" using s2(3,4) length_sds_val by metis
      define str' where "str' = sdscatlen str val"
      have str': "sds_wf str'" "sds_val str' = str_val ob @ val" using sdscatlen_spec [OF s2(3), of val] sl l small(2) s2(4) by (simp_all add: str'_def)
      then have sl': "sdslen str' = length (str_val ob) + length val" using length_sds_val by (metis length_append)
      have k3: "kstate cfg n {key} (obj_update s2 key (ObjString (StrRaw str'))) (V(key \<mapsto> ObjString (StrRaw str'))) E"
        using kstate_update [OF s2(2), of key "ObjString (StrRaw str')"] str'(1) by simp
      show ?thesis
      proof (cases "length (str_val ob) + length val > 536870912")
        case True
        then show ?thesis using Some ObjString s1 ob(2) chk
          by (intro refinesI [OF k0(1), where V' = V and E' = E]) (auto simp: appendCommand_def append_spec_def too_long_def)
      next
        case False
        then show ?thesis using Some ObjString s1(1) ob(2) chk s2(1) k3 str'(2) sl'
          by (intro refinesI [OF k0(1), where V' = "V(key \<mapsto> ObjString (StrRaw str'))" and E' = E and K' = "{key}"])
            (auto simp: appendCommand_def append_spec_def str'_def Let_def)
      qed
    qed (use Some s1 in \<open>auto intro!: refinesI [OF k0(1), where V' = V and E' = E] simp: appendCommand_def append_spec_def\<close>)
  qed
qed

subsection \<open>SETRANGE\<close>

definition splice_at :: "nat \<Rightarrow> byte list \<Rightarrow> byte list \<Rightarrow> byte list" where
  "splice_at offset value b = take offset (b @ replicate (offset - length b) 0) @ value @ drop (offset + length value) b"

definition setrange_spec :: "key \<Rightarrow> int \<Rightarrow> byte list \<Rightarrow> astate \<Rightarrow> reply \<times> astate" where
  "setrange_spec key offset value = (\<lambda>(V, E).
     if offset < 0 then (RError ''offset is out of range'', V, E)
     else
       (case (case V key of None \<Rightarrow> Some [] | Some (AStr b) \<Rightarrow> Some b | Some _ \<Rightarrow> None) of
          None \<Rightarrow> (RWrongType, V, E)
        | Some b \<Rightarrow>
            if value = [] then (RInt (int (length b)), V, E)
            else if offset + int (length value) > 512 * 1024 * 1024 then (too_long, V, E)
            else (RInt (int (length (splice_at (nat offset) value b))), V(key \<mapsto> AStr (splice_at (nat offset) value b)), E)))"

lemma setrange_bytes:
  assumes "sds_wf str" "offset + length value < 2 ^ 63"
  shows "sds_wf (put_bytes offset value (sdsgrowzero str (offset + length value))) \<and>
    sds_val (put_bytes offset value (sdsgrowzero str (offset + length value))) = splice_at offset value (sds_val str)"
proof -
  define g where "g = sdsgrowzero str (offset + length value)"
  have g: "sds_wf g" "sds_val g = sds_val str @ replicate (offset + length value - sdslen str) 0"
    using sdsgrowzero_spec [OF assms] by (simp_all add: g_def)
  have gl: "sdslen g = length (sds_val g)" using g(1) by simp
  have n: "offset + length value \<le> sdslen g" using gl g(2) assms(1) by simp
  have t: "write_at offset value (sds_buf g) = take offset (sds_buf g) @ value @ drop (offset + length value) (sds_buf g)"
    by (simp add: write_at_def)
  have b: "sdslen g < length (sds_buf g)" using g(1) by (auto simp: sds_wf_def)
  have "sds_wf (put_bytes offset value g)"
    using g(1) n b unfolding sds_wf_def by (auto simp: t nth_append)
  moreover have "sds_val (put_bytes offset value g) = take offset (sds_val g) @ value @ drop (offset + length value) (sds_val g)"
  proof (cases "sdslen g = offset")
    case False
    then have "\<not> sdslen g \<le> offset" using n by simp
    then show ?thesis using n b by (simp add: sds_val_def t take_drop min_def)
  qed (use n b in \<open>simp add: sds_val_def write_at_def\<close>)
  moreover have "take offset (sds_val g) = take offset (sds_val str @ replicate (offset - length (sds_val str)) 0)"
    using g(2) assms(1) by (simp add: min_def)
  moreover have "drop (offset + length value) (sds_val g) = drop (offset + length value) (sds_val str)"
    using g(2) assms(1) by simp
  ultimately show ?thesis by (simp add: splice_at_def g_def)
qed

lemma setrange_fresh:
  assumes "n < 2 ^ 63" "offset + length value = n"
  shows "sds_wf (sdsnewlen None n) \<and> splice_at offset value (sds_val (sdsnewlen None n)) = splice_at offset value []"
  using sdsnewlen_spec [of n None] assms by (auto simp: splice_at_def take_replicate min_def)

lemma setrangeCommand_spec:
  assumes w: "db_wf cfg s" "\<not> masterhost cfg" "db_room s" and off: "string2ll arg = Some offset" "offset < 2 ^ 62"
    and small: "length value < 2 ^ 62"
  shows "refines cfg s (setrangeCommand cfg rc s key arg value) (setrange_spec key offset value)"
proof -
  from w(1,3) obtain n V E where k0: "kstate cfg n {} s V E" "n < 2 ^ 60" "view cfg s = (map_option obj_abs \<circ> V, E)"
    by (rule refines_start)
  show ?thesis
  proof (cases "offset < 0")
    case True
    then show ?thesis using off(1) k0(1)
      by (intro refinesI [OF k0(1), where V' = V and E' = E and K' = "{}"]) (auto simp: setrangeCommand_def setrange_spec_def)
  next
    case pos: False
    obtain s1 where s1: "lookupKeyWrite cfg s key = Some (V key, s1)" "kstate cfg n {key} s1 V E"
      using kstate_lookupKeyWrite [OF k0(1) w(2), of key] by auto
    define needed where "needed = offset + int (length value)"
    have nn: "nat needed = nat offset + length value" "nat needed < 2 ^ 63" using pos off(2) small by (simp_all add: needed_def)
    have "in_i64 needed" using pos off(2) small by (simp add: in_signed_def needed_def)
    note chk = checkStringLength_spec [OF this]
    consider (other) v where "V key = Some v" "\<forall>ob. v \<noteq> ObjString ob" | (missing) "V key = None" | (str) ob where "V key = Some (ObjString ob)"
      by (cases "V key"; cases "the (V key)") auto
    then show ?thesis
    proof cases
      case other
      then show ?thesis using s1 off(1) pos
        by (cases v) (auto intro!: refinesI [OF k0(1), where V' = V and E' = E] simp: setrangeCommand_def setrange_spec_def)
    next
      case missing
      define str where "str = sdsnewlen None (nat needed)"
      define str' where "str' = put_bytes (nat offset) value (sdsgrowzero str (nat needed))"
      have st: "sds_wf str" "splice_at (nat offset) value (sds_val str) = splice_at (nat offset) value []"
        using setrange_fresh [OF nn(2)] nn(1) by (auto simp: str_def)
      have str': "sds_wf str'" "sds_val str' = splice_at (nat offset) value []"
        using setrange_bytes [OF st(1), of "nat offset" "value"] nn st(2) by (simp_all add: str'_def)
      obtain s2 where s2: "dbAdd cfg s1 key (ObjString (StrRaw str)) = Some s2" "kstate cfg (Suc n) {key} s2 (V(key \<mapsto> ObjString (StrRaw str))) E"
        using kstate_dbAdd [OF s1(2) _ missing, of "ObjString (StrRaw str)"] k0(2) st by auto
      have k3: "kstate cfg (Suc n) {key} (obj_update s2 key (ObjString (StrRaw str'))) (V(key \<mapsto> ObjString (StrRaw str'))) E"
        using kstate_update [OF s2(2), of key "ObjString (StrRaw str')"] str'(1) by simp
      show ?thesis
      proof (cases "value = [] \<or> needed > 536870912")
        case True
        then show ?thesis using s1 off(1) pos missing chk
          by (auto intro!: refinesI [OF k0(1), where V' = V and E' = E]
              simp: setrangeCommand_def setrange_spec_def needed_def [symmetric] czero_def too_long_def Let_def)
      next
        case False
        have "\<exists>s'. setrangeCommand cfg rc s key arg value = Some (RInt (int (sdslen str')), s') \<and>
            kstate cfg (Suc n) {key} s' (V(key \<mapsto> ObjString (StrRaw str'))) E"
          using False s1(1) off(1) pos missing chk s2(1) k3
          by (simp add: setrangeCommand_def needed_def [symmetric] str_def [symmetric] str'_def Let_def)
        moreover have "sdslen str' = length (splice_at (nat offset) value [])" using str' length_sds_val by metis
        ultimately show ?thesis using False missing pos str' by (intro refinesI [OF k0(1)]) (auto simp: setrange_spec_def needed_def)
      qed
    next
      case str
      have ob: "str_wf ob" "stringObjectLen ob = length (str_val ob)" using kstate_obj [OF s1(2) str] stringObjectLen_spec by simp_all
      obtain r s2 where s2: "dbUnshareStringValue rc s1 key ob = Some (StrRaw r, s2)"
          "kstate cfg n {key} s2 (V(key \<mapsto> ObjString (StrRaw r))) E" "sds_wf r" "sds_val r = str_val ob"
        using kstate_unshare [OF s1(2) _ str, of rc] by auto
      define str' where "str' = put_bytes (nat offset) value (sdsgrowzero r (nat needed))"
      have str': "sds_wf str'" "sds_val str' = splice_at (nat offset) value (str_val ob)"
        using setrange_bytes [OF s2(3), of "nat offset" "value"] nn s2(4) by (simp_all add: str'_def)
      have k3: "kstate cfg n {key} (obj_update s2 key (ObjString (StrRaw str'))) (V(key \<mapsto> ObjString (StrRaw str'))) E"
        using kstate_update [OF s2(2), of key "ObjString (StrRaw str')"] str'(1) by simp
      show ?thesis
      proof (cases "value = [] \<or> needed > 536870912")
        case True
        then show ?thesis using s1 off(1) pos str chk ob(2)
          by (auto intro!: refinesI [OF k0(1), where V' = V and E' = E]
              simp: setrangeCommand_def setrange_spec_def needed_def [symmetric] too_long_def Let_def)
      next
        case False
        have "\<exists>s'. setrangeCommand cfg rc s key arg value = Some (RInt (int (sdslen str')), s') \<and>
            kstate cfg n {key} s' (V(key \<mapsto> ObjString (StrRaw str'))) E"
          using False s1(1) off(1) pos str chk s2(1) k3
          by (simp add: setrangeCommand_def needed_def [symmetric] str'_def Let_def)
        moreover have "sdslen str' = length (splice_at (nat offset) value (str_val ob))" using str' length_sds_val by metis
        ultimately show ?thesis using False str pos str' by (intro refinesI [OF k0(1)]) (auto simp: setrange_spec_def needed_def)
      qed
    qed
  qed
qed

text \<open>
  The limit of 512 MB can be passed by: for the largest offset, the sum of offset and length is
  negative as the signed integer that \<open>checkStringLength\<close> receives.
\<close>

lemma setrange_limit_bypass:
  assumes "0 < n" "n \<le> 2 ^ 63"
  shows "checkStringLength (2 ^ 63 - 1 + n) = None"
proof -
  have "(word_of_int (a - 2 ^ 64) :: 64 word) = word_of_int a" for a by (simp add: word_of_int_eq_iff take_bit_eq_mod)
  then have "wrap64 (2 ^ 63 - 1 + n) = wrap64 (2 ^ 63 - 1 + n - 2 ^ 64)" by (simp only: wrap64_def)
  also have "\<dots> = n - 1 - 2 ^ 63" using assms by (subst wrap64_id) (simp_all add: in_signed_def)
  finally show ?thesis using assms by (simp add: checkStringLength_def)
qed

section \<open>Properties\<close>

text \<open>
  C12: on a master, SET with any combination of its options acts on the visible keyspace as
  specified: NX and XX decide on the visible value, the old value of any type is replaced,
  the expire time is set, kept with KEEPTTL or removed; whatever encoding the value gets, GET
  then returns the bytes that were set.
\<close>

theorem set_get:
  assumes "db_wf cfg s" "\<not> masterhost cfg" "db_room s" "virtual_now cfg \<le> mstime cfg" "0 \<le> mstime cfg"
    and "setOptions opts OBJ_SET_NO_FLAGS None UNIT_SECONDS = Some (flags, expire, unit')"
    and "set_when (mstime cfg) expire unit' when" "length val < 2 ^ 63"
  shows "refines cfg s (setCommand cfg s key val opts) (set_spec flags key val when ROk RNull) \<and>
    (\<forall>s'. setCommand cfg s key val opts = Some (ROk, s') \<longrightarrow> (\<exists>s''. getCommand cfg s' key = Some (RBulk val, s'')))"
proof -
  note ob = arg_obj_spec [OF assms(8)]
  have r: "refines cfg s (setCommand cfg s key val opts) (set_spec flags key val when ROk RNull)"
    using setGenericCommand_spec [OF assms(1-5) conjunct1 [OF ob] assms(7), of "''set''" flags key None None] ob assms(6)
    by (simp add: setCommand_def)
  moreover have "\<exists>s''. getCommand cfg s' key = Some (RBulk val, s'')" if s': "setCommand cfg s key val opts = Some (ROk, s')" for s'
  proof -
    have v: "db_wf cfg s'" "(ROk, view cfg s') = set_spec flags key val when ROk RNull (view cfg s)"
      using r s' by (auto simp: refines_def)
    then have "fst (view cfg s') key = Some (AStr val)" by (cases "view cfg s") (auto simp: set_spec_def split: if_splits)
    then show ?thesis
      using refinesD [OF getCommand_spec [OF v(1) assms(2), of key]] by (cases "view cfg s'") (auto simp: get_spec_def)
  qed
  ultimately show ?thesis by blast
qed

text \<open>SET with the options PX 250 and XX.\<close>

theorem set_get_witness:
  "\<exists>s' s''. setCommand example_cfg example_server [97] [49, 50] [[112, 88], dec_bytes 250, [88, 120]] = Some (ROk, s') \<and>
     snd (view example_cfg s') [97] = Some 1250 \<and> getCommand example_cfg s' [97] = Some (RBulk [49, 50], s'')"
proof -
  define flags where "flags = OBJ_SET_NO_FLAGS\<lparr>OBJ_SET_PX := True, OBJ_SET_XX := True\<rparr>"
  have o': "setOptions [[112, 88], dec_bytes 250, [88, 120]] OBJ_SET_NO_FLAGS None UNIT_SECONDS =
      Some (flags, Some (dec_bytes 250), UNIT_MILLISECONDS)"
    by (simp add: flags_def OBJ_SET_NO_FLAGS_def is_option_def strcasecmp_eq_def tolower_def)
  have i: "string2ll (dec_bytes 250) = Some 250" by (simp add: string2ll_iff in_signed_def)
  have w: "set_when (mstime example_cfg) (Some (dec_bytes 250)) UNIT_MILLISECONDS (Some 1250)"
    by (simp add: set_when_def i example_facts)
  have t: "virtual_now example_cfg \<le> mstime example_cfg" "0 \<le> mstime example_cfg" "length [49, 50 :: byte] < 2 ^ 63" by (simp_all add: example_facts)
  note p = set_get [OF example_wf example_facts(1,5) t(1,2) o' w t(3), of "[97]"]
  have "\<exists>s'. setCommand example_cfg example_server [97] [49, 50] [[112, 88], dec_bytes 250, [88, 120]] = Some (ROk, s') \<and>
     snd (view example_cfg s') [97] = Some 1250"
    using refinesD [OF conjunct1 [OF p]] by (auto simp: set_spec_def example_view flags_def OBJ_SET_NO_FLAGS_def)
  then show ?thesis using conjunct2 [OF p] by blast
qed

text \<open>
  C11: on a master, INCR, DECR and INCRBY compute the exact sum of the 64-bit integer stored as
  a string and the increment, or reply with an error and change nothing when the sum does not
  fit: the checks before the addition exclude exactly the overflows.
\<close>

theorem incrDecrCommand_exact:
  assumes "db_wf cfg s" "\<not> masterhost cfg" "db_room s" "in_i64 incr"
  shows "refines cfg s (incrDecrCommand cfg refcount s key incr) (incr_spec key incr)"
  using assms by (rule incrDecrCommand_spec)

theorem incrDecrCommand_exact_witness:
  "\<exists>s'. incrDecrCommand example_cfg 1 example_server [97] (2 ^ 63 - 1) = Some (RError ''increment or decrement would overflow'', s') \<and>
     fst (view example_cfg s') [97] = Some (AStr (dec_bytes 41))"
proof -
  have i: "in_i64 (2 ^ 63 - 1)" by (simp add: in_signed_def)
  have "string2ll (dec_bytes 41) = Some 41" by (simp add: string2ll_iff in_signed_def)
  then show ?thesis
    using refinesD [OF incrDecrCommand_exact [OF example_wf example_facts(1,5) i, of 1 "[97]"]]
    by (auto simp: incr_spec_def example_view in_signed_def)
qed

text \<open>
  DECRBY negates its argument before the overflow check.  For the smallest 64-bit integer
  the negation wraps around to itself, so that subtracting it from a missing key, which should
  overflow, instead stores the smallest integer.
\<close>

lemma decrby_min_wraps:
  assumes "db_wf cfg s" "\<not> masterhost cfg" "db_room s" "fst (view cfg s) key = None"
  shows "\<exists>s'. decrbyCommand cfg refcount s key (dec_bytes (- (2 ^ 63))) = Some (RInt (- (2 ^ 63)), s') \<and>
    fst (view cfg s') key = Some (AStr (dec_bytes (- (2 ^ 63))))"
proof -
  have a: "string2ll (dec_bytes (- (2 ^ 63))) = Some (- (2 ^ 63))" by (simp add: string2ll_iff in_signed_def)
  have "wrap64 (2 ^ 63) = - (2 ^ 63)" by (simp add: wrap64_def signed_take_bit_int_greater_eq)
  then have w: "wrap64 (- (- (2 ^ 63))) = - (2 ^ 63)" by (simp only: minus_minus)
  have i: "in_i64 (- (2 ^ 63))" by (simp add: in_signed_def)
  have d: "decrbyCommand cfg refcount s key (dec_bytes (- (2 ^ 63))) = incrDecrCommand cfg refcount s key (- (2 ^ 63))"
    unfolding decrbyCommand_def a option.case w ..
  obtain V E where v: "view cfg s = (V, E)" "V key = None" using assms(4) by (cases "view cfg s") auto
  have "incr_spec key (- (2 ^ 63)) (view cfg s) = (RInt (- (2 ^ 63)), V(key \<mapsto> AStr (dec_bytes (- (2 ^ 63)))), E)"
    using v i by (simp add: incr_spec_def)
  then show ?thesis
    unfolding d using refinesD [OF incrDecrCommand_spec [OF assms(1-3) i, of refcount key]] by auto
qed

lemma decrby_min_wraps_witness:
  "\<exists>s'. decrbyCommand example_cfg 1 example_server [99] (dec_bytes (- (2 ^ 63))) = Some (RInt (- (2 ^ 63)), s')"
  using decrby_min_wraps [OF example_wf example_facts(1,5), of "[99]" 1] by (auto simp: example_view)

text \<open>
  C31: MSET sets all the given keys and removes their expire times, a later pair for a key
  overriding an earlier one; MSETNX does the same when none of the keys is visible and
  otherwise sets none of them.
\<close>

theorem msetGenericCommand_correct:
  assumes "db_wf cfg s" "\<not> masterhost cfg" "even (length args)"
    and "card (dom (ks_val s)) + length (arg_pairs args) \<le> 2 ^ 60" "\<forall>v \<in> snd ` set (arg_pairs args). length v < 2 ^ 63"
  shows "refines cfg s (msetGenericCommand cfg s args nx) (mset_spec (arg_pairs args) nx)"
  using assms by (rule msetGenericCommand_spec)

theorem msetGenericCommand_correct_witness:
  "\<exists>s'. msetGenericCommand example_cfg example_server [[99], [1], [120], [2], [99], [3]] True = Some (RInt 1, s') \<and>
     fst (view example_cfg s') [99] = Some (AStr [3]) \<and> fst (view example_cfg s') [120] = Some (AStr [2])"
proof -
  have c: "card (dom (ks_val example_server)) + length (arg_pairs [[99], [1], [120], [2], [99], [3]]) \<le> 2 ^ 60"
    by (simp add: example_maps card_insert_if)
  have a: "even (length [[99 :: byte], [1], [120], [2], [99], [3]])"
    "\<forall>v \<in> snd ` set (arg_pairs [[99], [1], [120], [2], [99], [3]]). length v < 2 ^ 63" by simp_all
  show ?thesis
    using refinesD [OF msetGenericCommand_correct [OF example_wf example_facts(1) a(1) c a(2), of True]]
    by (auto simp: mset_spec_def example_view)
qed

text \<open>
  C32: on a master, SETRANGE overwrites the bytes from the offset on, first filling the gap up
  to the offset with zero bytes; it creates a missing string, leaves the keyspace alone when
  there is nothing to write, and refuses negative offsets, other types and results over the
  limit of 512 MB.
\<close>

theorem setrangeCommand_correct:
  assumes "db_wf cfg s" "\<not> masterhost cfg" "db_room s" "string2ll arg = Some offset" "offset < 2 ^ 62" "length val < 2 ^ 62"
  shows "refines cfg s (setrangeCommand cfg refcount s key arg val) (setrange_spec key offset val)"
  using assms by (rule setrangeCommand_spec)

theorem setrangeCommand_correct_witness:
  "\<exists>s'. setrangeCommand example_cfg 1 example_server [97] (dec_bytes 4) [33] = Some (RInt 5, s') \<and>
     fst (view example_cfg s') [97] = Some (AStr [52, 49, 0, 0, 33])"
proof -
  have i: "string2ll (dec_bytes 4) = Some 4" by (simp add: string2ll_iff in_signed_def)
  have d: "dec_bytes 41 = [52, 49]" by code_simp
  have r: "replicate 2 (0 :: byte) = [0, 0]" by (simp add: numeral_2_eq_2)
  show ?thesis
    using refinesD [OF setrangeCommand_correct [OF example_wf example_facts(1,5) i, of "[33]" 1 "[97]"]]
    by (auto simp: setrange_spec_def example_view d splice_at_def r)
qed

end
