(* ===== verification/Bitops.thy ===== *)
theory Bitops
  imports Prelude "HOL-Library.Monad_Syntax"
begin

text \<open>
  The low-level bit functions of \<open>src/redis-6.0.5/src/bitops.c\<close>: counting bits, finding the
  first bit, and reading and writing integers of any width at any bit offset, with their
  overflow checks.

  A bitmap is a byte list.  Bit 0 is the most significant bit of the first byte: \<open>bits_of\<close> is
  the bitmap as the list of its bits in this order, and the specifications are stated on it.
  \<open>None\<close> stands for what C leaves undefined: an access outside the bitmap, or a shift by the
  width of the type or more.  Other 64-bit arithmetic wraps around.
\<close>

section \<open>The program\<close>

subsection \<open>Counting bits\<close>

definition bitsinbyte :: "nat list" where
  "bitsinbyte =
  [0, 1, 1, 2, 1, 2, 2, 3, 1, 2, 2, 3, 2, 3, 3, 4, 1, 2, 2, 3, 2, 3, 3, 4, 2, 3, 3, 4, 3, 4, 4, 5,
   1, 2, 2, 3, 2, 3, 3, 4, 2, 3, 3, 4, 3, 4, 4, 5, 2, 3, 3, 4, 3, 4, 4, 5, 3, 4, 4, 5, 4, 5, 5, 6,
   1, 2, 2, 3, 2, 3, 3, 4, 2, 3, 3, 4, 3, 4, 4, 5, 2, 3, 3, 4, 3, 4, 4, 5, 3, 4, 4, 5, 4, 5, 5, 6,
   2, 3, 3, 4, 3, 4, 4, 5, 3, 4, 4, 5, 4, 5, 5, 6, 3, 4, 4, 5, 4, 5, 5, 6, 4, 5, 5, 6, 5, 6, 6, 7,
   1, 2, 2, 3, 2, 3, 3, 4, 2, 3, 3, 4, 3, 4, 4, 5, 2, 3, 3, 4, 3, 4, 4, 5, 3, 4, 4, 5, 4, 5, 5, 6,
   2, 3, 3, 4, 3, 4, 4, 5, 3, 4, 4, 5, 4, 5, 5, 6, 3, 4, 4, 5, 4, 5, 5, 6, 4, 5, 5, 6, 5, 6, 6, 7,
   2, 3, 3, 4, 3, 4, 4, 5, 3, 4, 4, 5, 4, 5, 5, 6, 3, 4, 4, 5, 4, 5, 5, 6, 4, 5, 5, 6, 5, 6, 6, 7,
   3, 4, 4, 5, 4, 5, 5, 6, 4, 5, 5, 6, 5, 6, 6, 7, 4, 5, 5, 6, 5, 6, 6, 7, 5, 6, 6, 7, 6, 7, 7, 8]"

text \<open>Loading an aligned word; the machine is little-endian.\<close>

definition load32 :: "byte list \<Rightarrow> u32" where
  "load32 bs = word_of_int (le_uint (take 4 bs))"

definition load64 :: "byte list \<Rightarrow> u64" where
  "load64 bs = word_of_int (le_uint (take 8 bs))"

text \<open>The bytes up to the first address that is a multiple of four.\<close>

fun popAlign :: "nat \<Rightarrow> byte list \<Rightarrow> u64 \<Rightarrow> u64 \<times> byte list" where
  "popAlign addr [] bits = (bits, [])"
| "popAlign addr (b # bs) bits =
     (if addr AND 3 \<noteq> 0 then popAlign (addr + 1) bs (bits + of_nat (bitsinbyte ! unat b)) else (bits, b # bs))"

definition popPairs :: "u32 \<Rightarrow> u32" where
  "popPairs aux =
     (let aux = aux - (drop_bit 1 aux AND 0x55555555)
      in (aux AND 0x33333333) + (drop_bit 2 aux AND 0x33333333))"

definition popBytes :: "u32 \<Rightarrow> u32" where
  "popBytes aux = (aux + drop_bit 4 aux) AND 0x0F0F0F0F"

definition popBlock :: "byte list \<Rightarrow> u32" where
  "popBlock p =
     (let aux1 = popPairs (load32 p);
          aux2 = popPairs (load32 (drop 4 p));
          aux3 = popPairs (load32 (drop 8 p));
          aux4 = popPairs (load32 (drop 12 p));
          aux5 = popPairs (load32 (drop 16 p));
          aux6 = popPairs (load32 (drop 20 p));
          aux7 = popPairs (load32 (drop 24 p))
      in drop_bit 24 ((popBytes aux1 + popBytes aux2 + popBytes aux3 + popBytes aux4 +
                       popBytes aux5 + popBytes aux6 + popBytes aux7) * 0x01010101))"

function popBlocks :: "byte list \<Rightarrow> u64 \<Rightarrow> u64 \<times> byte list" where
  "popBlocks p bits =
     (if length p \<ge> 28 then popBlocks (drop 28 p) (bits + ucast (popBlock p)) else (bits, p))"
  by pat_completeness auto
termination by (relation "measure (length \<circ> fst)") auto

fun popTail :: "byte list \<Rightarrow> u64 \<Rightarrow> u64" where
  "popTail [] bits = bits"
| "popTail (b # bs) bits = popTail bs (bits + of_nat (bitsinbyte ! unat b))"

text \<open>\<open>addr\<close> is the address of the bytes \<open>s\<close>.\<close>

definition redisPopcount :: "nat \<Rightarrow> byte list \<Rightarrow> u64" where
  "redisPopcount addr s =
     (let (bits, p) = popAlign addr s 0; (bits, p) = popBlocks p bits in popTail p bits)"

subsection \<open>Finding a bit\<close>

fun posAlign :: "nat \<Rightarrow> byte \<Rightarrow> byte list \<Rightarrow> nat \<Rightarrow> bool \<times> byte list \<times> nat" where
  "posAlign addr skipval [] pos = (False, [], pos)"
| "posAlign addr skipval (b # bs) pos =
     (if addr AND 7 \<noteq> 0 then
        (if b \<noteq> skipval then (True, b # bs, pos) else posAlign (addr + 1) skipval bs (pos + 8))
      else (False, b # bs, pos))"

function posWords :: "u64 \<Rightarrow> byte list \<Rightarrow> nat \<Rightarrow> byte list \<times> nat" where
  "posWords skipval l pos =
     (if length l \<ge> 8 \<and> load64 l = skipval then posWords skipval (drop 8 l) (pos + 64) else (l, pos))"
  by pat_completeness auto
termination by (relation "measure (\<lambda>(_, l, _). length l)") auto

text \<open>The next eight bytes, the first one most significant, zero bytes after the end.\<close>

fun posLoad :: "nat \<Rightarrow> byte list \<Rightarrow> u64 \<Rightarrow> u64" where
  "posLoad 0 c word = word"
| "posLoad (Suc n) c word =
     (case c of
        [] \<Rightarrow> posLoad n [] (push_bit 8 word)
      | b # bs \<Rightarrow> posLoad n bs (push_bit 8 word OR ucast b))"

text \<open>\<open>None\<close> is the panic at the end of the loop.\<close>

function posScan :: "u64 \<Rightarrow> u64 \<Rightarrow> int \<Rightarrow> nat \<Rightarrow> nat option" where
  "posScan one word bit' pos =
     (if one = 0 then None
      else if (if one AND word \<noteq> 0 then 1 else 0) = bit' then Some pos
      else posScan (drop_bit 1 one) word bit' (pos + 1))"
  by pat_completeness auto
termination
proof (relation "measure (\<lambda>(one, _). unat one)", goal_cases)
  case (2 one word bit' pos)
  then show ?case
    by (simp add: drop_bit_Suc unat_div unat_gt_0)
qed simp

definition redisBitpos :: "nat \<Rightarrow> byte list \<Rightarrow> int \<Rightarrow> int option" where
  "redisBitpos addr s bit' =
     (let (found, c, pos) = posAlign addr (if bit' \<noteq> 0 then 0 else 255) s 0;
          (l, pos) = (if \<not> found then posWords (if bit' \<noteq> 0 then 0 else - 1) c pos else (c, pos));
          word = posLoad 8 l 0
      in if bit' = 1 \<and> word = 0 then Some (- 1)
         else map_option int (posScan (NOT (drop_bit 1 (- 1))) word bit' pos))"

subsection \<open>Bit fields\<close>

fun setFieldLoop :: "byte list \<Rightarrow> nat \<Rightarrow> nat \<Rightarrow> u64 \<Rightarrow> byte list option" where
  "setFieldLoop p offset 0 val = Some p"
| "setFieldLoop p offset (Suc left) val =
     (let bitval = (if val AND push_bit left 1 \<noteq> 0 then 1 else 0) :: u64;
          byte = offset div 8;
          bit' = 7 - offset mod 8
      in if byte < length p then
           (let byteval = ucast (p ! byte) :: u64;
                byteval = byteval AND NOT (push_bit bit' 1);
                byteval = byteval OR push_bit bit' bitval
            in setFieldLoop (p[byte := ucast (byteval AND 0xff)]) (offset + 1) left val)
         else None)"

text \<open>The loop counts down the bits that are left: \<open>left\<close> is \<open>bits - 1 - j\<close>.\<close>

definition setUnsignedBitfield :: "byte list \<Rightarrow> nat \<Rightarrow> nat \<Rightarrow> u64 \<Rightarrow> byte list option" where
  "setUnsignedBitfield p offset bits val = setFieldLoop p offset bits val"

definition setSignedBitfield :: "byte list \<Rightarrow> nat \<Rightarrow> nat \<Rightarrow> int \<Rightarrow> byte list option" where
  "setSignedBitfield p offset bits val = setUnsignedBitfield p offset bits (word_of_int val)"

fun getFieldLoop :: "byte list \<Rightarrow> nat \<Rightarrow> nat \<Rightarrow> u64 \<Rightarrow> u64 option" where
  "getFieldLoop p offset 0 val = Some val"
| "getFieldLoop p offset (Suc left) val =
     (let byte = offset div 8; bit' = 7 - offset mod 8
      in if byte < length p then
           (let byteval = ucast (p ! byte) :: u64;
                bitval = drop_bit bit' byteval AND 1
            in getFieldLoop p (offset + 1) left (push_bit 1 val OR bitval))
         else None)"

definition getUnsignedBitfield :: "byte list \<Rightarrow> nat \<Rightarrow> nat \<Rightarrow> u64 option" where
  "getUnsignedBitfield p offset bits = getFieldLoop p offset bits 0"

text \<open>Shifts by 64 are undefined.\<close>

definition shl64 :: "u64 \<Rightarrow> nat \<Rightarrow> u64 option" where
  "shl64 w n = (if n < 64 then Some (push_bit n w) else None)"

definition getSignedBitfield :: "byte list \<Rightarrow> nat \<Rightarrow> nat \<Rightarrow> int option" where
  "getSignedBitfield p offset bits = do {
     val \<leftarrow> getUnsignedBitfield p offset bits;
     msb \<leftarrow> shl64 1 (bits - 1);
     if val AND msb \<noteq> 0 then do {
       mask \<leftarrow> shl64 (- 1) bits;
       Some (sint (val OR mask))
     }
     else Some (sint val)
   }"

subsection \<open>Overflow checks\<close>

datatype owtype = BFOVERFLOW_WRAP | BFOVERFLOW_SAT | BFOVERFLOW_FAIL

text \<open>
  The results are the returned code and what is stored through the pointer \<open>limit\<close>, if
  anything.
\<close>

definition unsigned_wrap :: "u64 \<Rightarrow> int \<Rightarrow> nat \<Rightarrow> (int \<times> u64 option) option" where
  "unsigned_wrap val incr bits = do {
     mask \<leftarrow> shl64 (- 1) bits;
     Some (1, Some ((val + word_of_int incr) AND NOT mask))
   }"

definition checkUnsignedBitfieldOverflow :: "u64 \<Rightarrow> int \<Rightarrow> nat \<Rightarrow> owtype \<Rightarrow> (int \<times> u64 option) option" where
  "checkUnsignedBitfieldOverflow val incr bits owtype =
     (let max = (if bits = 64 then - 1 else push_bit bits 1 - 1);
          maxincr = sint (max - val);
          minincr = sint (- val)
      in if val > max \<or> (incr > 0 \<and> incr > maxincr) then
           (case owtype of
              BFOVERFLOW_WRAP \<Rightarrow> unsigned_wrap val incr bits
            | BFOVERFLOW_SAT \<Rightarrow> Some (1, Some max)
            | BFOVERFLOW_FAIL \<Rightarrow> Some (1, None))
         else if incr < 0 \<and> incr < minincr then
           (case owtype of
              BFOVERFLOW_WRAP \<Rightarrow> unsigned_wrap val incr bits
            | BFOVERFLOW_SAT \<Rightarrow> Some (-1, Some 0)
            | BFOVERFLOW_FAIL \<Rightarrow> Some (-1, None))
         else Some (0, None))"

definition signed_wrap :: "int \<Rightarrow> int \<Rightarrow> nat \<Rightarrow> (int \<times> int option) option" where
  "signed_wrap val incr bits = do {
     mask \<leftarrow> shl64 (- 1) bits;
     msb \<leftarrow> shl64 1 (bits - 1);
     let c = word_of_int val + word_of_int incr;
     let c = (if c AND msb \<noteq> 0 then c OR mask else c AND NOT mask);
     Some (1, Some (sint c))
   }"

definition checkSignedBitfieldOverflow :: "int \<Rightarrow> int \<Rightarrow> nat \<Rightarrow> owtype \<Rightarrow> (int \<times> int option) option" where
  "checkSignedBitfieldOverflow val incr bits owtype =
     (let max = (if bits = 64 then 2 ^ 63 - 1 else 2 ^ (bits - 1) - 1);
          min = - max - 1;
          maxincr = sint (word_of_int (max - val) :: u64);
          minincr = sint (word_of_int (min - val) :: u64)
      in if val > max \<or> (bits \<noteq> 64 \<and> incr > maxincr) \<or> (val \<ge> 0 \<and> incr > 0 \<and> incr > maxincr) then
           (case owtype of
              BFOVERFLOW_WRAP \<Rightarrow> signed_wrap val incr bits
            | BFOVERFLOW_SAT \<Rightarrow> Some (1, Some max)
            | BFOVERFLOW_FAIL \<Rightarrow> Some (1, None))
         else if val < min \<or> (bits \<noteq> 64 \<and> incr < minincr) \<or> (val < 0 \<and> incr < 0 \<and> incr < minincr) then
           (case owtype of
              BFOVERFLOW_WRAP \<Rightarrow> signed_wrap val incr bits
            | BFOVERFLOW_SAT \<Rightarrow> Some (-1, Some min)
            | BFOVERFLOW_FAIL \<Rightarrow> Some (-1, None))
         else Some (0, None))"

section \<open>The bits of a bitmap\<close>

definition byte_bits :: "byte \<Rightarrow> bool list" where
  "byte_bits b = map (bit b) [7, 6, 5, 4, 3, 2, 1, 0]"

definition bits_of :: "byte list \<Rightarrow> bool list" where
  "bits_of bs = concat (map byte_bits bs)"

definition ones :: "byte list \<Rightarrow> nat" where
  "ones bs = count_list (bits_of bs) True"

lemma bits_of_simps [simp]: "bits_of [] = []" "bits_of (b # bs) = byte_bits b @ bits_of bs"
    "bits_of (as @ bs) = bits_of as @ bits_of bs"
  by (simp_all add: bits_of_def)

lemma length_byte_bits [simp]: "length (byte_bits b) = 8" by (simp add: byte_bits_def)

lemma length_bits_of [simp]: "length (bits_of bs) = 8 * length bs"
  by (induction bs) auto

lemma ones_simps [simp]: "ones [] = 0" "ones (b # c # bs) = ones [b] + ones (c # bs)" "ones (as @ bs) = ones as + ones bs"
  by (simp_all add: ones_def)

lemma ones_Cons: "ones (b # bs) = ones [b] + ones bs"
  by (simp add: ones_def)

subsection \<open>Counting\<close>

definition bits8 :: "nat \<Rightarrow> nat" where
  "bits8 n = n mod 2 + n div 2 mod 2 + n div 4 mod 2 + n div 8 mod 2 + n div 16 mod 2 + n div 32 mod 2 + n div 64 mod 2 + n div 128 mod 2"

lemma bit_byte: "bit (b :: byte) i \<longleftrightarrow> odd (unat b div 2 ^ i)"
  proof -
  have "bit b i = bit (unat b) i" by (cases "i < 8") (auto simp: bit_simps dest: bit_imp_le_length)
  then show ?thesis by (simp add: bit_iff_odd)
qed

lemma count_list_bool: "count_list (x # xs) True = of_bool x + count_list xs True"
  by simp

lemma ones_bits8: "ones [b] = bits8 (unat b)"
  by (simp add: ones_def byte_bits_def bits8_def bit_byte count_list_bool mod_2_eq_odd del: count_list.simps(2))

lemma bitsinbyte_map: "bitsinbyte = map bits8 [0..<256]"
proof -
  have "[0..<256] = 0 # Suc 0 # [2..<256]"
    using upt_conv_Cons [of 0 256] upt_conv_Cons [of 1 256] by (simp add: numeral_2_eq_2)
  then show ?thesis unfolding bitsinbyte_def by (simp add: bits8_def)
qed

lemma bitsinbyte_ones: "bitsinbyte ! unat b = ones [b]"
proof -
  have "unat b < length [0..<256]" using unsigned_less [of b] by simp
  then show ?thesis unfolding bitsinbyte_map ones_bits8 by (subst nth_map) (simp_all only: nth_upt, simp)
qed

text \<open>
  The parallel counting works on the digits of a word in base 256: no step lets a digit
  reach into the next one.
\<close>

fun dig :: "nat list \<Rightarrow> nat" where
  "dig [] = 0"
| "dig (d # ds) = d + 256 * dig ds"

lemma and_split:
  assumes "(d :: nat) < 2 ^ k" "m < 2 ^ k"
  shows "(d + 2 ^ k * x) AND (m + 2 ^ k * y) = (d AND m) + 2 ^ k * (x AND y)"
proof -
  have p: "take_bit k (e + 2 ^ k * z) = e" "drop_bit k (e + 2 ^ k * z) = z" if "e < 2 ^ k" for e z :: nat
    using that by (simp_all add: take_bit_eq_mod drop_bit_eq_div)
  have "(d + 2 ^ k * x) AND (m + 2 ^ k * y) =
      push_bit k (drop_bit k ((d + 2 ^ k * x) AND (m + 2 ^ k * y))) + take_bit k ((d + 2 ^ k * x) AND (m + 2 ^ k * y))"
    by (simp only: bits_ident)
  also have "\<dots> = push_bit k (x AND y) + (d AND m)"
    using p assms by (simp only: drop_bit_and take_bit_and)
  finally show ?thesis by (simp add: push_bit_eq_mult)
qed

lemma and_low: "(e :: nat) < 2 ^ k \<Longrightarrow> m < 2 ^ k \<Longrightarrow> (e + 2 ^ k * z) AND m = e AND m"
  using and_split [of e k m z 0] by simp

lemma and_dig:
  "length ds = length ms \<Longrightarrow> \<forall>d \<in> set ds. d < 256 \<Longrightarrow> \<forall>m \<in> set ms. m < 256 \<Longrightarrow> dig ds AND dig ms = dig (map2 (AND) ds ms)"
proof (induction ds ms rule: list_induct2)
  case (Cons d ds m ms)
  then show ?case using and_split [of d 8 m "dig ds" "dig ms"] by simp
qed simp

lemma dig_shift_and:
  assumes "\<forall>d \<in> set ds. d < 256" "k \<le> 8" "m < 2 ^ (8 - k)"
  shows "dig ds div 2 ^ k AND dig (replicate (length ds) m) = dig (map (\<lambda>d. d div 2 ^ k AND m) ds)"
  using assms(1)
proof (induction ds)
  case (Cons d ds)
  have kk: "(256 :: nat) = 2 ^ k * 2 ^ (8 - k)" using assms(2) by (simp flip: power_add)
  define z where "z = dig ds mod 2 ^ k"
  define e where "e = d div 2 ^ k"
  have e: "e < 2 ^ (8 - k)" using Cons.prems kk by (simp add: e_def less_mult_imp_div_less mult.commute)
  have z: "z < 2 ^ k" by (simp add: z_def)
  have "dig (d # ds) div 2 ^ k = e + 2 ^ (8 - k) * dig ds"
    by (simp add: kk e_def mult.assoc)
  also have "dig ds = z + 2 ^ k * (dig ds div 2 ^ k)" by (simp add: z_def)
  finally have s: "dig (d # ds) div 2 ^ k = (e + 2 ^ (8 - k) * z) + 256 * (dig ds div 2 ^ k)"
    by (simp add: kk algebra_simps)
  have "e + 2 ^ (8 - k) * z < 2 ^ (8 - k) * (z + 1)" using e by simp
  also have "\<dots> \<le> 2 ^ (8 - k) * 2 ^ k" using z by (intro mult_left_mono) auto
  finally have b: "e + 2 ^ (8 - k) * z < 2 ^ 8" using kk by (simp add: mult.commute)
  have "(2 :: nat) ^ (8 - k) \<le> 2 ^ 8" by (rule power_increasing) simp_all
  then have "m < 2 ^ 8" using assms(3) by (rule less_le_trans [rotated])
  then show ?case
    using and_split [OF b, of m "dig ds div 2 ^ k" "dig (replicate (length ds) m)"] and_low [OF e assms(3)] Cons s
    by (simp add: e_def)
qed simp

lemma dig_diff: "length ds = length es \<Longrightarrow> list_all2 (\<le>) es ds \<Longrightarrow> dig es \<le> dig ds \<and> dig ds - dig es = dig (map2 (-) ds es)"
proof (induction ds es rule: list_induct2)
  case (Cons d ds e es)
  then have "dig es \<le> dig ds" "dig ds - dig es = dig (map2 (-) ds es)" "e \<le> d" by auto
  then show ?case by (simp add: diff_mult_distrib2)
qed simp

lemma dig_add: "length ds = length es \<Longrightarrow> dig ds + dig es = dig (map2 (+) ds es)"
  by (induction ds es rule: list_induct2) auto

lemma dig_bound: "\<forall>d \<in> set ds. d < 256 \<Longrightarrow> dig ds < 256 ^ length ds"
proof (induction ds)
  case (Cons d ds)
  then have "dig ds + 1 \<le> 256 ^ length ds" by simp
  then have "256 * (dig ds + 1) \<le> 256 * 256 ^ length ds" by (rule mult_left_mono) simp
  then show ?case using Cons.prems by simp
qed simp

text \<open>The steps on one byte.\<close>

definition byte1 :: "nat \<Rightarrow> nat" where "byte1 b = b - (b div 2 AND 85)"
definition byte2 :: "nat \<Rightarrow> nat" where "byte2 b = (byte1 b AND 51) + (byte1 b div 4 AND 51)"

lemma byte_tables:
  assumes "b < 256"
  shows "byte1 b < 256" "b div 2 AND 85 \<le> b" "byte2 b mod 16 \<le> 4" "byte2 b div 16 \<le> 4" "(byte2 b + byte2 b div 16) mod 16 = bits8 b"
proof -
  have u: "[0..<256] = 0 # Suc 0 # [2..<256]"
    using upt_conv_Cons [of 0 256] upt_conv_Cons [of 1 256] by (simp add: numeral_2_eq_2)
  have "list_all (\<lambda>b. byte1 b < 256 \<and> b div 2 AND 85 \<le> b \<and> byte2 b mod 16 \<le> 4 \<and> byte2 b div 16 \<le> 4 \<and> (byte2 b + byte2 b div 16) mod 16 = bits8 b) [0..<256]"
    unfolding u byte2_def byte1_def bits8_def by simp
  then show "byte1 b < 256" "b div 2 AND 85 \<le> b" "byte2 b mod 16 \<le> 4" "byte2 b div 16 \<le> 4" "(byte2 b + byte2 b div 16) mod 16 = bits8 b"
    using assms unfolding list_all_iff set_upt by auto
qed

lemma dig_32: "length ds = 4 \<Longrightarrow> \<forall>d \<in> set ds. d < 256 \<Longrightarrow> dig ds < 2 ^ 32"
  using dig_bound [of ds] by simp

lemma numeral_digits: "(0x55555555 :: nat) = dig (replicate 4 85)" "(0x33333333 :: nat) = dig (replicate 4 51)"
    "(0x0F0F0F0F :: nat) = dig (replicate 4 15)"
proof -
  have "replicate 4 (a :: nat) = [a, a, a, a]" for a by (simp add: eval_nat_numeral)
  then show "(0x55555555 :: nat) = dig (replicate 4 85)" "(0x33333333 :: nat) = dig (replicate 4 51)"
    "(0x0F0F0F0F :: nat) = dig (replicate 4 15)" by simp_all
qed

lemma map2_map: "map2 f (map g xs) (map h xs) = map (\<lambda>x. f (g x) (h x)) xs"
  by (induction xs) auto

lemma map2_replicate: "map2 f xs (replicate (length xs) c) = map (\<lambda>x. f x c) xs"
  by (induction xs) auto

lemma unat_plus: "unat (a :: u32) + unat b < 2 ^ 32 \<Longrightarrow> unat (a + b) = unat a + unat b"
  by (simp add: unat_add_lem [THEN iffD1])

lemma unat_u32_less: "unat (w :: u32) < 2 ^ 32"
  by (rule order_less_le_trans [OF unsigned_less]) simp

lemma unat_byte_less: "unat (b :: byte) < 256"
  by (rule order_less_le_trans [OF unsigned_less]) simp

lemma unat_drop_div: "unat (drop_bit k (w :: u32)) = unat w div 2 ^ k"
  using take_bit_nat_eq_self [of "unat w" 32] unat_u32_less [of w]
  by (simp add: unsigned_drop_bit_eq flip: drop_bit_eq_div)

lemma popPairs_dig:
  assumes w: "unat w = dig ds" and ds: "length ds = 4" "\<forall>d \<in> set ds. d < 256"
  shows "unat (popPairs w) = dig (map byte2 ds)"
proof -
  define a where "a = w - (drop_bit 1 w AND 0x55555555)"
  have m1: "unat (drop_bit 1 w AND 0x55555555) = dig (map (\<lambda>d. d div 2 AND 85) ds)"
    using dig_shift_and [OF ds(2), of 1 85] w ds(1) numeral_digits(1)
    by (simp add: unsigned_and_eq unat_drop_div)
  have l1: "list_all2 (\<le>) (map (\<lambda>d. d div 2 AND 85) ds) ds"
    using ds(2) byte_tables(2) by (simp add: list_all2_conv_all_nth)
  have "unat a = dig (map2 (-) ds (map (\<lambda>d. d div 2 AND 85) ds))"
    using dig_diff [OF _ l1] m1 w by (simp add: a_def unat_sub word_le_nat_alt)
  then have a: "unat a = dig (map byte1 ds)"
    using map2_map [of "(-)" "\<lambda>d. d" ds "\<lambda>d. d div 2 AND 85"] by (simp add: byte1_def [abs_def])
  have b1: "\<forall>d \<in> set (map byte1 ds). d < 256" using ds(2) byte_tables(1) by simp
  have m2: "unat (a AND 0x33333333) = dig (map (\<lambda>d. byte1 d AND 51) ds)"
    using and_dig [OF _ b1, of "replicate 4 51"] map2_replicate [of "(AND)" "map byte1 ds" 51] a ds(1) numeral_digits(2)
    by (simp add: unsigned_and_eq comp_def)
  have m3: "unat (drop_bit 2 a AND 0x33333333) = dig (map (\<lambda>d. byte1 d div 4 AND 51) ds)"
    using dig_shift_and [OF b1, of 2 51] a ds(1) numeral_digits(2)
    by (simp add: unsigned_and_eq unat_drop_div comp_def)
  have s: "unat (a AND 0x33333333) + unat (drop_bit 2 a AND 0x33333333) = dig (map byte2 ds)"
    unfolding m2 m3 by (subst dig_add) (simp_all add: map2_map byte2_def [abs_def])
  have "byte2 d < 256" if "d \<in> set ds" for d
    using byte_tables(4) [of d] ds(2) that by (cases "byte2 d < 256") (auto simp: not_less dest: div_le_mono [of 256 _ 16])
  then have "dig (map byte2 ds) < 2 ^ 32" using dig_32 [of "map byte2 ds"] ds by auto
  then show ?thesis using s unat_plus [of "a AND 0x33333333" "drop_bit 2 a AND 0x33333333"] by (simp add: popPairs_def Let_def a_def)
qed

lemma nibble_sums:
  assumes "\<forall>q \<in> set qs. q mod 16 \<le> 4 \<and> q div 16 \<le> 4"
  shows "dig qs + dig qs div 16 < 256 ^ length qs \<and>
    (dig qs + dig qs div 16) AND dig (replicate (length qs) 15) = dig (map (\<lambda>q. (q + q div 16) mod 16) qs) \<and> dig qs mod 16 \<le> 4"
  using assms
proof (induction qs)
  case (Cons q qs)
  define y where "y = dig qs"
  have y: "y + y div 16 < 256 ^ length qs" "(y + y div 16) AND dig (replicate (length qs) 15) = dig (map (\<lambda>q. (q + q div 16) mod 16) qs)"
      "y mod 16 \<le> 4" and q: "q mod 16 \<le> 4" "q div 16 \<le> 4"
    using Cons by (auto simp: y_def)
  have q': "q \<le> 68" using q div_mult_mod_eq [of q 16] by linarith
  have y16: "16 * y = 16 * (y mod 16) + 256 * (y div 16)" using mult_div_mod_eq [of 16 y] by linarith
  have "(q + 256 * y) div 16 = q div 16 + 16 * y" by (simp add: div_add1_eq)
  then have s: "(q + 256 * y) + (q + 256 * y) div 16 = (q + q div 16 + 16 * (y mod 16)) + 256 * (y + y div 16)"
    using y16 by (simp add: algebra_simps)
  have b: "q + q div 16 + 16 * (y mod 16) < 2 ^ 8" using q' q(2) y(3) by simp
  have "(q + q div 16 + 16 * (y mod 16)) AND 15 = (q + q div 16) mod 16"
    using and_nat_def [of _ 15] take_bit_eq_mask [of 4 "q + q div 16 + 16 * (y mod 16)"] by (simp add: mask_eq_exp_minus_1 take_bit_eq_mod)
  then have "((q + q div 16 + 16 * (y mod 16)) + 256 * (y + y div 16)) AND (15 + 256 * dig (replicate (length qs) 15)) =
      (q + q div 16) mod 16 + 256 * dig (map (\<lambda>q. (q + q div 16) mod 16) qs)"
    using and_split [OF b, of 15 "y + y div 16" "dig (replicate (length qs) 15)"] y(2) by simp
  moreover have "(q + q div 16 + 16 * (y mod 16)) + 256 * (y + y div 16) < 256 * 256 ^ length qs"
    using b y(1) by simp
  moreover have "(q + 256 * y) mod 16 = q mod 16" using mod_mult_self2 [of q 16 "16 * y"] by simp
  ultimately show ?case using q unfolding dig.simps y_def [symmetric] s length_Cons replicate_Suc list.map by simp
qed simp

lemma popBytes_dig:
  assumes w: "unat w = dig (map byte2 ds)" and ds: "length ds = 4" "\<forall>d \<in> set ds. d < 256"
  shows "unat (popBytes w) = dig (map bits8 ds)"
proof -
  have n: "\<forall>q \<in> set (map byte2 ds). q mod 16 \<le> 4 \<and> q div 16 \<le> 4" using byte_tables(3,4) ds(2) by auto
  note ns = nibble_sums [OF n]
  have "unat (w + drop_bit 4 w) = dig (map byte2 ds) + dig (map byte2 ds) div 16"
    using unat_plus [of w "drop_bit 4 w"] ns w ds(1) by (simp add: unat_drop_div)
  moreover have "map (\<lambda>q. (q + q div 16) mod 16) (map byte2 ds) = map bits8 ds" using byte_tables(5) ds(2) by simp
  ultimately show ?thesis using ns ds(1) numeral_digits(3) unfolding popBytes_def unsigned_and_eq by (simp del: map_map)
qed

lemma le_uint_dig: "le_uint bs = int (dig (map unat bs))"
  by (induction bs) auto

lemma unat_load32:
  assumes "length bs \<ge> 4"
  shows "unat (load32 bs) = dig (map unat (take 4 bs))"
proof -
  have "dig (map unat (take 4 bs)) < 2 ^ 32"
    using dig_32 [of "map unat (take 4 bs)"] assms unat_byte_less by (auto simp: in_set_conv_nth)
  then show ?thesis by (simp add: load32_def le_uint_dig unsigned_of_nat take_bit_nat_eq_self)
qed

definition byte_sums :: "byte list \<Rightarrow> nat list" where
  "byte_sums bs = map (bits8 \<circ> unat) (take 4 bs)"

lemma popBytes_popPairs:
  assumes "length bs \<ge> 4"
  shows "unat (popBytes (popPairs (load32 bs))) = dig (byte_sums bs)"
proof -
  have d: "length (map unat (take 4 bs)) = 4" "\<forall>d \<in> set (map unat (take 4 bs)). d < 256"
    using assms unat_byte_less by auto
  show ?thesis using popBytes_dig [OF popPairs_dig [OF unat_load32 [OF assms] d] d] by (simp add: byte_sums_def)
qed

lemma ones_bound: "ones [b] \<le> 8"
  using count_le_length [of "bits_of [b]" True] by (simp add: ones_def)

lemma byte_sums_4:
  assumes "length bs \<ge> 4"
  obtains s0 s1 s2 s3 where "byte_sums bs = [s0, s1, s2, s3]" "s0 \<le> 8" "s1 \<le> 8" "s2 \<le> 8" "s3 \<le> 8"
    "s0 + s1 + s2 + s3 = ones (take 4 bs)"
proof -
  have "Suc (Suc (Suc (Suc 0))) \<le> length bs" using assms by simp
  then obtain a b c d cs where "bs = [a, b, c, d] @ cs" by (auto simp: Suc_le_length_iff)
  then have t: "take 4 bs = [a, b, c, d]" by simp
  show ?thesis
    by (rule that [of "ones [a]" "ones [b]" "ones [c]" "ones [d]"])
      (use ones_bound in \<open>simp_all add: byte_sums_def t ones_bits8 [symmetric]\<close>)
qed

text \<open>Multiplying by \<open>0x01010101\<close> adds the four digits in the top one.\<close>

lemma mult_sum_digits:
  assumes w: "unat w = dig [s0, s1, s2, s3]" and s: "s0 + s1 + s2 + s3 < 256"
  shows "unat (drop_bit 24 ((w :: u32) * 0x01010101)) = s0 + s1 + s2 + s3"
proof -
  define t where "t = s0 + 256 * (s0 + s1) + 65536 * (s0 + s1 + s2)"
  have t: "t < 2 ^ 24" using s by (simp add: t_def)
  define h where "h = s1 + s2 + s3 + 256 * (s2 + s3) + 65536 * s3"
  have "unat (w * 0x01010101) = (dig [s0, s1, s2, s3] * 0x01010101) mod 2 ^ 32"
    by (simp add: unat_word_ariths w)
  also have "dig [s0, s1, s2, s3] * 0x01010101 = (t + 2 ^ 24 * (s0 + s1 + s2 + s3)) + h * 2 ^ 32"
    by (simp add: t_def h_def algebra_simps)
  also have "\<dots> mod 2 ^ 32 = t + 2 ^ 24 * (s0 + s1 + s2 + s3)"
    using t s by (simp only: mod_mult_self1) simp
  finally show ?thesis using t by (simp add: unat_drop_div)
qed

lemma unat_plus7:
  assumes "\<And>i. i \<le> 6 \<Longrightarrow> unat (a i :: u32) < 2 ^ 29"
  shows "unat (a 0 + a 1 + a 2 + a 3 + a 4 + a 5 + a (6 :: nat)) =
    unat (a 0) + unat (a 1) + unat (a 2) + unat (a 3) + unat (a 4) + unat (a 5) + unat (a 6)"
  using assms [of 0] assms [of 1] assms [of 2] assms [of 3] assms [of 4] assms [of 5] assms [of 6]
  by (simp add: unat_plus)

lemma take_28:
  "take 28 p = take 4 p @ take 4 (drop 4 p) @ take 4 (drop 8 p) @ take 4 (drop 12 p) @ take 4 (drop 16 p) @ take 4 (drop 20 p) @ take 4 (drop 24 p)"
  using take_add [of 4 24 p] take_add [of 4 20 "drop 4 p"] take_add [of 4 16 "drop 8 p"] take_add [of 4 12 "drop 12 p"]
    take_add [of 4 8 "drop 16 p"] take_add [of 4 4 "drop 20 p"] by simp

lemma unat_popBlock:
  assumes "length p \<ge> 28"
  shows "unat (popBlock p) = ones (take 28 p)"
proof -
  define q where "q i = drop (4 * i) p" for i
  define a where "a i = popBytes (popPairs (load32 (q i)))" for i
  have l: "length (q i) \<ge> 4" if "i \<le> 6" for i using assms that by (simp add: q_def)
  have "\<exists>s0 s1 s2 s3. unat (a i) = s0 + 256 * s1 + 65536 * s2 + 16777216 * s3 \<and> s0 \<le> 8 \<and> s1 \<le> 8 \<and> s2 \<le> 8 \<and> s3 \<le> 8 \<and>
      s0 + s1 + s2 + s3 = ones (take 4 (q i))" if i: "i \<le> 6" for i
  proof -
    obtain s0 s1 s2 s3 where "byte_sums (q i) = [s0, s1, s2, s3]" "s0 \<le> 8" "s1 \<le> 8" "s2 \<le> 8" "s3 \<le> 8" "s0 + s1 + s2 + s3 = ones (take 4 (q i))"
      by (rule byte_sums_4 [OF l [OF i]])
    then show ?thesis using popBytes_popPairs [OF l [OF i]]
      by (intro exI [of _ s0] exI [of _ s1] exI [of _ s2] exI [of _ s3]) (simp add: a_def)
  qed
  then obtain s0 s1 s2 s3 where s: "\<And>i. i \<le> 6 \<Longrightarrow> unat (a i) = s0 i + 256 * s1 i + 65536 * s2 i + 16777216 * s3 i"
      "\<And>i. i \<le> 6 \<Longrightarrow> s0 i \<le> 8 \<and> s1 i \<le> 8 \<and> s2 i \<le> 8 \<and> s3 i \<le> 8" "\<And>i. i \<le> 6 \<Longrightarrow> s0 i + s1 i + s2 i + s3 i = ones (take 4 (q i))"
    by metis
  define sum7 where "sum7 f = f 0 + f 1 + f 2 + f 3 + f 4 + f 5 + f (6 :: nat)" for f :: "nat \<Rightarrow> nat"
  have "unat (a i) < 2 ^ 29" if "i \<le> 6" for i using s(1,2) [OF that] by simp
  from unat_plus7 [OF this] have w: "unat (a 0 + a 1 + a 2 + a 3 + a 4 + a 5 + a 6) = dig [sum7 s0, sum7 s1, sum7 s2, sum7 s3]"
    by (simp add: s(1) sum7_def algebra_simps)
  have "ones (take 28 p) = sum7 (\<lambda>i. ones (take 4 (q i)))"
    by (subst take_28) (simp add: q_def sum7_def)
  also have "\<dots> = sum7 (\<lambda>i. s0 i + s1 i + s2 i + s3 i)" by (simp add: sum7_def s(3))
  also have "\<dots> = sum7 s0 + sum7 s1 + sum7 s2 + sum7 s3" by (simp add: sum7_def)
  finally have t: "sum7 s0 + sum7 s1 + sum7 s2 + sum7 s3 = ones (take 28 p)" by simp
  have b: "sum7 f \<le> 56" if "\<And>i. i \<le> 6 \<Longrightarrow> f i \<le> 8" for f
    using that [of 0] that [of 1] that [of 2] that [of 3] that [of 4] that [of 5] that [of 6] by (simp add: sum7_def)
  have "sum7 s0 + sum7 s1 + sum7 s2 + sum7 s3 < 256" using b [of s0] b [of s1] b [of s2] b [of s3] s(2) by fastforce
  from mult_sum_digits [OF w this] t show ?thesis by (simp add: popBlock_def Let_def a_def q_def)
qed

lemma popAlign_ones: "popAlign addr s bits = (bits', p) \<Longrightarrow> bits' + of_nat (ones p) = bits + of_nat (ones s)"
proof (induction addr s bits rule: popAlign.induct)
  case (2 addr b bs bits)
  then show ?case using bitsinbyte_ones [of b] by (auto simp: ones_Cons [of b bs] split: if_splits)
qed simp

declare popBlocks.simps [simp del]

lemma popBlocks_ones: "popBlocks p bits = (bits', p') \<Longrightarrow> bits' + of_nat (ones p') = bits + of_nat (ones p)"
proof (induction p bits rule: popBlocks.induct)
  case (1 p bits)
  show ?case
  proof (cases "length p \<ge> 28")
    case True
    have "ucast (popBlock p) = (of_nat (unat (popBlock p)) :: u64)" by simp
    also have "\<dots> = of_nat (ones (take 28 p))" using unat_popBlock [OF True] by simp
    finally have u: "ucast (popBlock p) = (of_nat (ones (take 28 p)) :: u64)" .
    have o: "ones p = ones (take 28 p) + ones (drop 28 p)" using ones_simps(3) [of "take 28 p" "drop 28 p"] by simp
    show ?thesis using True "1.IH" [OF True] "1.prems" by (subst (asm) popBlocks.simps) (simp add: u o algebra_simps)
  next
    case False
    then show ?thesis using "1.prems" by (subst (asm) popBlocks.simps) simp
  qed
qed

lemma popTail_ones: "popTail s bits = bits + of_nat (ones s)"
proof (induction s bits rule: popTail.induct)
  case (2 b bs bits)
  then show ?case by (simp add: bitsinbyte_ones ones_Cons [of b bs])
qed simp

lemma redisPopcount_ones: "redisPopcount addr s = of_nat (count_list (bits_of s) True)"
proof -
  obtain b1 p1 where a: "popAlign addr s 0 = (b1, p1)" by fastforce
  obtain b2 p2 where b: "popBlocks p1 b1 = (b2, p2)" by fastforce
  show ?thesis
    using popAlign_ones [OF a] popBlocks_ones [OF b] by (simp add: redisPopcount_def a b popTail_ones ones_def)
qed

text \<open>
  C36: for every address of the bytes the bit count, which aligns the address, adds up blocks of
  28 bytes with word-parallel arithmetic and finishes byte by byte with a table, is the number of set bits.
\<close>

theorem redisPopcount_correct: "redisPopcount addr s = of_nat (count_list (bits_of s) True)"
  by (rule redisPopcount_ones)

section \<open>Finding the first bit\<close>

text \<open>Where the first bit equal to \<open>v\<close> is, counting past the end if there is none.\<close>

definition first_pos :: "bool \<Rightarrow> bool list \<Rightarrow> nat" where
  "first_pos v bs = length (takeWhile (\<lambda>x. x \<noteq> v) bs)"

lemma first_pos_append: "\<forall>x \<in> set as. x \<noteq> v \<Longrightarrow> first_pos v (as @ bs) = length as + first_pos v bs"
  by (simp add: first_pos_def)

definition skip_byte :: "bool \<Rightarrow> byte" where "skip_byte v = (if v then 0 else - 1)"

lemma less_8_cases: "(n :: nat) < 8 \<Longrightarrow> n = 0 \<or> n = 1 \<or> n = 2 \<or> n = 3 \<or> n = 4 \<or> n = 5 \<or> n = 6 \<or> n = 7"
  by arith

lemma bits_skip: "(\<forall>x \<in> set (byte_bits b). x \<noteq> v) \<longleftrightarrow> b = skip_byte v"
proof
  assume "\<forall>x \<in> set (byte_bits b). x \<noteq> v"
  then have "bit b n \<noteq> v" if "n < 8" for n
    using that by (auto simp: byte_bits_def dest: less_8_cases)
  then show "b = skip_byte v" by (intro bit_word_eqI) (auto simp: skip_byte_def)
qed (auto simp: byte_bits_def skip_byte_def)

lemma bits_skip_list: "(\<forall>x \<in> set (bits_of bs). x \<noteq> v) \<longleftrightarrow> bs = replicate (length bs) (skip_byte v)"
  using bits_skip [of _ v] by (induction bs) auto

lemma posAlign_spec:
  "posAlign addr (skip_byte v) s pos = (found, c, pos') \<Longrightarrow>
   \<exists>k. s = replicate k (skip_byte v) @ c \<and> pos' = pos + 8 * k \<and> (found \<longrightarrow> c \<noteq> [] \<and> hd c \<noteq> skip_byte v)"
proof (induction addr "skip_byte v" s pos rule: posAlign.induct)
  case (2 addr b bs pos)
  show ?case
  proof (cases "addr AND 7 \<noteq> 0 \<and> b = skip_byte v")
    case True
    with 2 obtain k where "bs = replicate k (skip_byte v) @ c" "pos' = pos + 8 + 8 * k" "found \<longrightarrow> c \<noteq> [] \<and> hd c \<noteq> skip_byte v" by auto
    then show ?thesis using True by (intro exI [of _ "Suc k"]) auto
  next
    case False
    then show ?thesis using 2 by (intro exI [of _ 0]) (auto split: if_splits)
  qed
qed auto

lemma le_uint_inj:
  assumes "length a = length b"
  shows "le_uint a = le_uint b \<longleftrightarrow> a = b"
proof
  assume "le_uint a = le_uint b"
  then have "le_bytes (length a) (le_uint a) = le_bytes (length b) (le_uint b)" using assms by simp
  then show "a = b" unfolding le_bytes_le_uint .
qed simp

lemma load64_skip:
  assumes "length l \<ge> 8"
  shows "load64 l = (if v then 0 else - 1) \<longleftrightarrow> take 8 l = replicate 8 (skip_byte v)"
proof -
  have b: "0 \<le> le_uint (take 8 l)" "le_uint (take 8 l) < 2 ^ 64" using le_uint_less [of "take 8 l"] assms by simp_all
  define r where "r = replicate 8 (skip_byte v)"
  have r: "le_uint r = (if v then 0 else 2 ^ 64 - 1)" by (simp add: r_def skip_byte_def eval_nat_numeral unsigned_minus_1_eq_mask mask_eq_exp_minus_1)
  have "load64 l = (if v then 0 else - 1) \<longleftrightarrow> le_uint (take 8 l) = le_uint r"
  proof -
    have "uint (load64 l) = le_uint (take 8 l)" using b by (simp add: load64_def uint_word_of_int)
    moreover have "uint (- 1 :: u64) = 2 ^ 64 - 1" by (simp add: unsigned_minus_1_eq_mask mask_eq_exp_minus_1)
    ultimately show ?thesis unfolding r by (cases v) (simp_all only: word_uint_eq_iff if_True if_False unsigned_0 simp_thms)
  qed
  also have "\<dots> \<longleftrightarrow> take 8 l = r" using assms by (intro le_uint_inj) (simp add: r_def)
  finally show ?thesis unfolding r_def .
qed

declare posWords.simps [simp del]

lemma posWords_spec:
  "posWords (if v then 0 else - 1) l pos = (l', pos') \<Longrightarrow> \<exists>k. l = replicate k (skip_byte v) @ l' \<and> pos' = pos + 8 * k \<and>
     \<not> (length l' \<ge> 8 \<and> take 8 l' = replicate 8 (skip_byte v))"
proof (induction "if v then 0 else - 1 :: u64" l pos rule: posWords.induct)
  case (1 l pos)
  show ?case
  proof (cases "length l \<ge> 8 \<and> load64 l = (if v then 0 else - 1)")
    case True
    with 1 obtain k where k: "drop 8 l = replicate k (skip_byte v) @ l'" "pos' = pos + 64 + 8 * k"
        "\<not> (length l' \<ge> 8 \<and> take 8 l' = replicate 8 (skip_byte v))"
      by (subst (asm) posWords.simps) auto
    have "l = replicate 8 (skip_byte v) @ replicate k (skip_byte v) @ l'"
      using append_take_drop_id [of 8 l] load64_skip [of l v] True k(1) by simp
    then show ?thesis using k by (intro exI [of _ "8 + k"]) (simp add: replicate_add)
  next
    case False
    then have "posWords (if v then 0 else - 1) l pos = (l, pos)" by (subst posWords.simps) auto
    then show ?thesis using False "1.prems" load64_skip [of l v] by (intro exI [of _ 0]) auto
  qed
qed

text \<open>The bits of a word below position \<open>n\<close>, the highest first.\<close>

definition word_bits :: "nat \<Rightarrow> u64 \<Rightarrow> bool list" where
  "word_bits n w = map (bit w) (rev [0..<n])"

lemma word_bits_Suc: "word_bits (Suc n) w = bit w n # word_bits n w"
  by (simp add: word_bits_def)

lemma word_bits_push:
  assumes "n + 8 \<le> 64"
  shows "word_bits (n + 8) (push_bit 8 w OR ucast b) = word_bits n w @ byte_bits b"
proof -
  have "[0..<8] = [0, 1, 2, 3, 4, 5, 6, 7]" by (simp add: eval_nat_numeral)
  then have "rev [0..<n + 8] = map (\<lambda>i. i + 8) (rev [0..<n]) @ [7, 6, 5, 4, 3, 2, 1, 0]"
    using upt_add_eq_append [of 0 8 n] map_add_upt [of 8 n] by (simp add: rev_map [symmetric] add.commute)
  moreover have "bit (push_bit 8 w OR ucast b :: u64) (i + 8) = bit w i" if "i < n" for i
    using that assms by (auto simp: bit_simps dest: bit_imp_le_length)
  moreover have "bit (push_bit 8 w OR ucast b :: u64) i = bit b i" if "i < 8" for i
    using that by (auto simp: bit_simps)
  ultimately show ?thesis by (simp add: word_bits_def byte_bits_def)
qed

definition pad :: "nat \<Rightarrow> byte list \<Rightarrow> byte list" where
  "pad n c = take n c @ replicate (n - length c) 0"

lemma pad_Suc: "pad (Suc n) c = (case c of [] \<Rightarrow> 0 # pad n [] | b # bs \<Rightarrow> b # pad n bs)"
  by (cases c) (simp_all add: pad_def)

lemma posLoad_bits: "m + 8 * n \<le> 64 \<Longrightarrow> word_bits (m + 8 * n) (posLoad n c w) = word_bits m w @ bits_of (pad n c)"
proof (induction n arbitrary: m c w)
  case (Suc n)
  obtain b c' where c: "posLoad (Suc n) c w = posLoad n c' (push_bit 8 w OR ucast b)" "pad (Suc n) c = b # pad n c'"
  proof (cases c)
    case Nil
    then show ?thesis using that [of "[]" 0] by (simp add: pad_Suc)
  next
    case (Cons b bs)
    then show ?thesis using that [of bs b] by (simp add: pad_Suc)
  qed
  show ?case using Suc.IH [of "m + 8" c' "push_bit 8 w OR ucast b"] Suc.prems word_bits_push [of m w b] c by (simp add: add.assoc)
qed (simp add: pad_def)

lemma first_pos_Cons: "first_pos v (x # xs) = (if x = v then 0 else Suc (first_pos v xs))"
  by (simp add: first_pos_def)

declare posScan.simps [simp del]

lemma posScan_bits:
  assumes "k < 64"
  shows "posScan (push_bit k 1) word (of_bool v) pos =
    (if v \<in> set (word_bits (Suc k) word) then Some (pos + first_pos v (word_bits (Suc k) word)) else None)"
  using assms
proof (induction k arbitrary: pos)
  case 0
  have z: "posScan 0 word b (Suc pos) = None" for b by (subst posScan.simps) simp
  have "(1 AND word \<noteq> 0) = bit word 0"
    using and_exp_eq_0_iff_not_bit [of word 0] by (simp add: and.commute)
  then show ?case by (subst posScan.simps) (auto simp: z word_bits_def first_pos_def)
next
  case (Suc k)
  have "bit (push_bit (Suc k) (1 :: u64)) (Suc k)" using Suc.prems by (simp add: bit_simps)
  then have "push_bit (Suc k) (1 :: u64) \<noteq> 0" by (metis bit_0_eq bot_apply bot_bool_def)
  moreover have "(push_bit (Suc k) 1 AND word \<noteq> 0) = bit word (Suc k)"
    using and_exp_eq_0_iff_not_bit [of word "Suc k"] by (simp only: push_bit_of_1 and.commute) simp
  moreover have "drop_bit 1 (push_bit (Suc k) (1 :: u64)) = push_bit k 1"
    using Suc.prems by (intro bit_word_eqI) (auto simp: bit_simps)
  ultimately show ?case using Suc.IH [of "Suc pos"] Suc.prems
    by (subst posScan.simps) (auto simp: word_bits_Suc [of "Suc k"] first_pos_Cons)
qed

lemma first_pos_prefix: "v \<in> set as \<Longrightarrow> first_pos v (as @ bs) = first_pos v as"
  by (auto simp: first_pos_def takeWhile_append1)

lemma first_pos_none: "v \<notin> set as \<Longrightarrow> first_pos v as = length as"
  by (induction as) (auto simp: first_pos_def)

lemma bits_zeros: "set (bits_of (replicate n 0)) \<subseteq> {False}"
  by (induction n) (auto simp: byte_bits_def)

lemma word_bits_64: "word_bits 64 (posLoad 8 l 0) = bits_of (pad 8 l)"
  using posLoad_bits [of 0 8 l 0] by (simp add: word_bits_def)

lemma word_0_bits: "w = 0 \<longleftrightarrow> True \<notin> set (word_bits 64 w)"
  by (auto simp: word_bits_def intro!: bit_word_eqI)

text \<open>The scan of the last word gives the position in the bytes that are left.\<close>

lemma last_word:
  assumes "\<not> (length l \<ge> 8 \<and> take 8 l = replicate 8 (skip_byte v))"
  shows "(if v \<and> posLoad 8 l 0 = 0 then Some (- 1) else map_option int (posScan (NOT (drop_bit 1 (- 1))) (posLoad 8 l 0) (of_bool v) pos)) =
    Some (if v \<and> v \<notin> set (bits_of l) then - 1 else int (pos + first_pos v (bits_of l)))"
proof -
  have o': "NOT (drop_bit 1 (- 1)) = (push_bit k 1 :: u64)" if "63 \<le> k" "k < 64" for k
    using that by (intro bit_word_eqI) (auto simp: bit_simps)
  have one: "NOT (drop_bit 1 (- 1)) = (push_bit 63 1 :: u64)" by (rule o') simp_all
  have sc: "posScan (NOT (drop_bit 1 (- 1))) (posLoad 8 l 0) (of_bool v) pos =
      (if v \<in> set (bits_of (pad 8 l)) then Some (pos + first_pos v (bits_of (pad 8 l))) else None)"
    unfolding one using posScan_bits [of 63 "posLoad 8 l 0" v pos] by (simp add: word_bits_64)
  have z: "posLoad 8 l 0 = 0 \<longleftrightarrow> True \<notin> set (bits_of (pad 8 l))"
    using word_0_bits [of "posLoad 8 l 0"] by (simp add: word_bits_64)
  have l: "bits_of l = bits_of (take 8 l) @ bits_of (drop 8 l)" using bits_of_simps(3) [of "take 8 l" "drop 8 l"] by simp
  show ?thesis
  proof (cases "v \<in> set (bits_of (take 8 l))")
    case True
    then have "first_pos v (bits_of (pad 8 l)) = first_pos v (bits_of l)" "v \<in> set (bits_of (pad 8 l))" "v \<in> set (bits_of l)"
      by (simp_all add: pad_def l first_pos_prefix)
    then show ?thesis using sc z by auto
  next
    case False
    then have "\<forall>x \<in> set (bits_of (take 8 l)). x \<noteq> v" by blast
    then have "take 8 l = replicate (length (take 8 l)) (skip_byte v)" unfolding bits_skip_list .
    then have s: "length l < 8" using assms by (cases "length l < 8") auto
    then have n: "v \<notin> set (bits_of l)" using False by simp
    then have n': "\<forall>x \<in> set (bits_of l). x \<noteq> v" by blast
    from n have f: "first_pos v (bits_of l) = 8 * length l" by (simp add: first_pos_none)
    show ?thesis
    proof (cases v)
      case True
      then have "True \<notin> set (bits_of (pad 8 l))" using n s bits_zeros [of "8 - length l"] by (auto simp: pad_def)
      then show ?thesis using True z n by simp
    next
      case v: False
      obtain m where m: "8 - length l = Suc m" using s by (cases "8 - length l") auto
      have "first_pos v (bits_of (pad 8 l)) = 8 * length l" "v \<in> set (bits_of (pad 8 l))"
        using v s m first_pos_append [of "bits_of l" v "bits_of (replicate (8 - length l) 0)"] n'
        by (auto simp: pad_def byte_bits_def first_pos_Cons)
      then show ?thesis using v sc f by simp
    qed
  qed
qed

lemma first_pos_in: "v \<in> set as \<Longrightarrow> first_pos v as < length as"
  by (induction as) (auto simp: first_pos_def)

lemma redisBitpos_first:
  "redisBitpos addr s (of_bool v) =
     Some (if v \<and> v \<notin> set (bits_of s) then - 1 else int (length (takeWhile (\<lambda>b. b \<noteq> v) (bits_of s))))"
proof -
  have sk: "(if of_bool v \<noteq> (0 :: int) then 0 else 255) = skip_byte v" "(if of_bool v \<noteq> (0 :: int) then 0 else - 1) = (if v then 0 else - 1 :: u64)"
    by (simp_all add: skip_byte_def)
  obtain found c pos where a: "posAlign addr (skip_byte v) s 0 = (found, c, pos)" by (metis prod_cases3)
  then obtain k1 where k1: "s = replicate k1 (skip_byte v) @ c" "pos = 8 * k1" "found \<Longrightarrow> c \<noteq> [] \<and> hd c \<noteq> skip_byte v"
    using posAlign_spec by fastforce
  obtain l pos' where w: "(if \<not> found then posWords (if v then 0 else - 1) c pos else (c, pos)) = (l, pos')" by fastforce
  have "\<exists>k2. c = replicate k2 (skip_byte v) @ l \<and> pos' = pos + 8 * k2 \<and> \<not> (length l \<ge> 8 \<and> take 8 l = replicate 8 (skip_byte v))"
  proof (cases found)
    case True
    then have "l = c" "pos' = pos" "hd (take 8 l) \<noteq> hd (replicate 8 (skip_byte v))" using w k1(3) by (auto simp: hd_take)
    moreover from this(3) have "take 8 l \<noteq> replicate 8 (skip_byte v)" by metis
    ultimately have "c = replicate 0 (skip_byte v) @ l" "pos' = pos + 8 * 0" "take 8 l \<noteq> replicate 8 (skip_byte v)" by simp_all
    then show ?thesis by blast
  next
    case False
    then show ?thesis using w posWords_spec [of v c pos l pos'] by simp
  qed
  then obtain k2 where k2: "c = replicate k2 (skip_byte v) @ l" "pos' = pos + 8 * k2" "\<not> (length l \<ge> 8 \<and> take 8 l = replicate 8 (skip_byte v))"
    by blast
  define r where "r = replicate (k1 + k2) (skip_byte v)"
  have s: "s = r @ l" "pos' = 8 * length r" using k1 k2 by (simp_all add: r_def replicate_add)
  have n: "\<forall>x \<in> set (bits_of r). x \<noteq> v" using bits_skip_list [of r v] by (simp add: r_def)
  then have f: "first_pos v (bits_of s) = pos' + first_pos v (bits_of l)" "v \<in> set (bits_of s) \<longleftrightarrow> v \<in> set (bits_of l)"
    using s by (auto simp: first_pos_append)
  have "redisBitpos addr s (of_bool v) =
      (if v \<and> posLoad 8 l 0 = 0 then Some (- 1) else map_option int (posScan (NOT (drop_bit 1 (- 1))) (posLoad 8 l 0) (of_bool v) pos'))"
    unfolding redisBitpos_def sk a prod.case Let_def w by (cases v) simp_all
  also have "\<dots> = Some (if v \<and> v \<notin> set (bits_of l) then - 1 else int (pos' + first_pos v (bits_of l)))" by (rule last_word [OF k2(3)])
  finally show ?thesis using f unfolding first_pos_def [symmetric] by (cases v) simp_all
qed

text \<open>
  C37: for every address of the bytes the search for the first set or clear bit, byte by byte to
  an aligned address, then word by word, then bit by bit in the last word, never panics and
  returns the position of the first such bit; without one it returns -1 for set bits and the
  length of the bitmap for clear bits.
\<close>

theorem redisBitpos_correct:
  "redisBitpos addr s (of_bool v) =
     Some (if v \<and> v \<notin> set (bits_of s) then - 1 else int (length (takeWhile (\<lambda>b. b \<noteq> v) (bits_of s))))"
  by (rule redisBitpos_first)

section \<open>Bit fields\<close>

lemma bits_of_nth: "i < 8 * length p \<Longrightarrow> bits_of p ! i = bit (p ! (i div 8)) (7 - i mod 8)"
proof (induction p arbitrary: i)
  case (Cons b p)
  show ?case
  proof (cases "i < 8")
    case True
    then show ?thesis by (auto simp: nth_append byte_bits_def dest: less_8_cases)
  next
    case False
    then have "bits_of p ! (i - 8) = bit (p ! ((i - 8) div 8)) (7 - (i - 8) mod 8)" using Cons by simp
    moreover have "i div 8 = Suc ((i - 8) div 8)" "i mod 8 = (i - 8) mod 8" using False by (simp_all add: le_div_geq le_mod_geq)
    ultimately show ?thesis using False by (simp add: nth_append)
  qed
qed simp

lemma bits_of_update:
  assumes "i < 8 * length p" "\<And>j. j < 8 \<Longrightarrow> bit b j = (if j = 7 - i mod 8 then x else bit (p ! (i div 8)) j)"
  shows "bits_of (p[i div 8 := b]) = (bits_of p)[i := x]"
proof (rule nth_equalityI)
  fix n assume "n < length (bits_of (p[i div 8 := b]))"
  then have n: "n < 8 * length p" by simp
  have l: "n div 8 < length p" "i div 8 < length p" using n assms(1) by (simp_all add: less_mult_imp_div_less mult.commute)
  have "7 - n mod 8 = 7 - i mod 8 \<longleftrightarrow> n = i" if "n div 8 = i div 8"
  proof -
    have "7 - n mod 8 = 7 - i mod 8 \<longleftrightarrow> n mod 8 = i mod 8"
      using mod_less_divisor [of 8 n] mod_less_divisor [of 8 i] by linarith
    then show ?thesis using that by (metis div_mult_mod_eq)
  qed
  then show "bits_of (p[i div 8 := b]) ! n = (bits_of p)[i := x] ! n"
    using n l assms(2) [of "7 - n mod 8"] assms(1) bits_of_nth [of n "p[i div 8 := b]"] bits_of_nth [of n p]
    by (cases "n div 8 = i div 8") (auto simp: nth_list_update)
qed simp

lemma write_at_Cons: "i < length xs \<Longrightarrow> write_at i (x # ys) xs = write_at (Suc i) ys (xs[i := x])"
  by (simp add: write_at_def take_Suc_conv_app_nth drop_update_cancel)

lemma write_at_Nil [simp]: "write_at i [] xs = xs" by (simp add: write_at_def)

lemma setFieldLoop_spec:
  "n \<le> 64 \<Longrightarrow> off + n \<le> 8 * length p \<Longrightarrow>
   \<exists>p'. setFieldLoop p off n val = Some p' \<and> length p' = length p \<and> bits_of p' = write_at off (word_bits n val) (bits_of p)"
proof (induction n arbitrary: p off)
  case 0
  then show ?case by (simp add: word_bits_def)
next
  case (Suc n)
  define bit' where "bit' = 7 - off mod 8"
  define bv where "bv = (if val AND push_bit n 1 \<noteq> 0 then 1 else 0 :: u64)"
  have v: "val AND push_bit n 1 \<noteq> 0 \<longleftrightarrow> bit val n" using and_exp_eq_0_iff_not_bit [of val n] by simp
  define b where "b = (ucast ((ucast (p ! (off div 8)) AND NOT (push_bit bit' 1) OR push_bit bit' bv :: u64) AND 0xff) :: byte)"
  have m: "0xff = (mask 8 :: u64)" by (simp add: mask_eq_exp_minus_1)
  have b: "bit b j = (if j = bit' then bit val n else bit (p ! (off div 8)) j)" if "j < 8" for j
    using that v by (auto simp: b_def bv_def bit_simps bit'_def m)
  have l: "off div 8 < length p" using Suc.prems(2) by (simp add: less_mult_imp_div_less mult.commute)
  have u: "bits_of (p[off div 8 := b]) = (bits_of p)[off := bit val n]"
    using Suc.prems(2) b by (intro bits_of_update) (simp_all add: bit'_def)
  have "setFieldLoop p off (Suc n) val = setFieldLoop (p[off div 8 := b]) (off + 1) n val"
    using l by (simp add: Let_def b_def bv_def bit'_def)
  moreover obtain p' where "setFieldLoop (p[off div 8 := b]) (off + 1) n val = Some p'" "length p' = length p"
      "bits_of p' = write_at (off + 1) (word_bits n val) ((bits_of p)[off := bit val n])"
    using Suc.IH [of "off + 1" "p[off div 8 := b]"] Suc.prems u by auto
  moreover have "write_at off (word_bits (Suc n) val) (bits_of p) = write_at (off + 1) (word_bits n val) ((bits_of p)[off := bit val n])"
    unfolding word_bits_Suc using Suc.prems(2) by (subst write_at_Cons) simp_all
  ultimately show ?case by simp
qed

text \<open>The number a list of bits stands for, the most significant bit first.\<close>

definition bits_val :: "bool list \<Rightarrow> nat" where
  "bits_val bs = foldl (\<lambda>v b. 2 * v + of_bool b) 0 bs"

lemma foldl_bits_val: "foldl (\<lambda>v b. 2 * v + of_bool b) (a :: nat) bs = a * 2 ^ length bs + bits_val bs"
proof (induction bs arbitrary: a)
  case (Cons b bs)
  show ?case using Cons [of "2 * a + of_bool b"] Cons [of "of_bool b"] by (simp add: bits_val_def algebra_simps)
qed (simp add: bits_val_def)

lemma bits_val_Cons: "bits_val (b # bs) = of_bool b * 2 ^ length bs + bits_val bs"
  using foldl_bits_val [of "of_bool b" bs] by (simp add: bits_val_def)

lemma bits_val_less: "bits_val bs < 2 ^ length bs"
proof (induction bs)
  case (Cons b bs)
  then show ?case by (cases b) (simp_all add: bits_val_Cons)
qed (simp add: bits_val_def)

lemma getFieldLoop_spec:
  "m + n \<le> 64 \<Longrightarrow> unat v < 2 ^ m \<Longrightarrow> off + n \<le> 8 * length p \<Longrightarrow>
   \<exists>w. getFieldLoop p off n v = Some w \<and> unat w = unat v * 2 ^ n + bits_val (take n (drop off (bits_of p)))"
proof (induction n arbitrary: m off v)
  case 0
  then show ?case by (simp add: bits_val_def)
next
  case (Suc n)
  define x where "x = bits_of p ! off"
  have l: "off div 8 < length p" "off < 8 * length p" using Suc.prems(3) by (simp_all add: less_mult_imp_div_less mult.commute)
  have x: "drop_bit (7 - off mod 8) (ucast (p ! (off div 8))) AND 1 = (of_bool x :: u64)"
    using bits_of_nth [OF l(2)] by (intro bit_word_eqI) (auto simp: bit_simps x_def)
  define v' where "v' = push_bit 1 v OR (of_bool x :: u64)"
  have "2 ^ Suc m \<le> (2 :: nat) ^ 64" using Suc.prems(1) by (intro power_increasing) auto
  then have m: "2 * unat v + 1 < 2 ^ 64" using Suc.prems(2) by simp
  have "push_bit 1 v AND of_bool x = 0" by (intro bit_word_eqI) (auto simp: bit_simps bit_0)
  then have "v' = 2 * v + of_bool x" unfolding v'_def by (subst disjunctive_add_eq_or [symmetric]) (simp_all add: push_bit_eq_mult)
  then have v': "unat v' = 2 * unat v + of_bool x"
    using m by (cases x) (simp_all add: unat_word_ariths)
  have "unat v' < 2 ^ Suc m" using v' Suc.prems(2) by (cases x) simp_all
  then obtain w where w: "getFieldLoop p (off + 1) n v' = Some w" "unat w = unat v' * 2 ^ n + bits_val (take n (drop (off + 1) (bits_of p)))"
    using Suc.IH [of "Suc m" v' "off + 1"] Suc.prems by auto
  have "getFieldLoop p off (Suc n) v = getFieldLoop p (off + 1) n v'"
    using l(1) x by (simp add: Let_def v'_def)
  moreover have "take (Suc n) (drop off (bits_of p)) = x # take n (drop (off + 1) (bits_of p))"
    using l(2) by (simp add: x_def Cons_nth_drop_Suc [symmetric])
  moreover have "length (take n (drop (off + 1) (bits_of p))) = n" using Suc.prems(3) by simp
  ultimately show ?case using w v' by (simp add: bits_val_Cons algebra_simps)
qed

definition field :: "byte list \<Rightarrow> nat \<Rightarrow> nat \<Rightarrow> nat" where
  "field p offset n = bits_val (take n (drop offset (bits_of p)))"

text \<open>Two's complement with \<open>n\<close> bits.\<close>

definition twos :: "nat \<Rightarrow> int \<Rightarrow> int" where
  "twos n t = (t + 2 ^ (n - 1)) mod 2 ^ n - 2 ^ (n - 1)"

lemma twos_id: "0 < n \<Longrightarrow> - (2 ^ (n - 1)) \<le> t \<Longrightarrow> t < 2 ^ (n - 1) \<Longrightarrow> twos n t = t"
  by (cases n) (simp_all add: twos_def)

lemma twos_mod: "twos n (t mod 2 ^ n) = twos n t"
  by (simp add: twos_def mod_simps)

lemma int_pow_iff: "int u < 2 ^ k \<longleftrightarrow> u < 2 ^ k" "2 ^ k \<le> int u \<longleftrightarrow> 2 ^ k \<le> u"
  by (metis of_nat_less_iff of_nat_numeral of_nat_power) (metis of_nat_le_iff of_nat_numeral of_nat_power)

lemma twos_nat:
  assumes "0 < n" "u < 2 ^ n"
  shows "twos n (int u) = (if u < 2 ^ (n - 1) then int u else int u - 2 ^ n)"
proof -
  obtain m where m: "n = Suc m" using assms(1) by (cases n) auto
  have u: "int u < 2 * 2 ^ m" using assms(2) m int_pow_iff(1) [of u n] by simp
  have "(int u + 2 ^ m) mod (2 * 2 ^ m) = (if u < 2 ^ m then int u + 2 ^ m else int u + 2 ^ m - 2 * 2 ^ m)"
  proof (cases "u < 2 ^ m")
    case True
    then have "int u < 2 ^ m" unfolding int_pow_iff .
    then show ?thesis using True by (simp add: mod_pos_pos_trivial)
  next
    case False
    then have "2 ^ m \<le> int u" unfolding int_pow_iff by simp
    then have "(int u + 2 ^ m - 2 * 2 ^ m) mod (2 * 2 ^ m) = int u + 2 ^ m - 2 * 2 ^ m"
      using u by (intro mod_pos_pos_trivial) linarith+
    then show ?thesis using False minus_mod_self2 [of "int u + 2 ^ m" "2 * 2 ^ m"] by simp
  qed
  then show ?thesis by (simp add: twos_def m)
qed

lemma field_less: "offset + n \<le> 8 * length p \<Longrightarrow> field p offset n < 2 ^ n"
  using bits_val_less [of "take n (drop offset (bits_of p))"] by (simp add: field_def)

lemma getUnsignedBitfield_spec:
  assumes "n \<le> 64" "offset + n \<le> 8 * length p"
  shows "getUnsignedBitfield p offset n = Some (of_nat (field p offset n))"
proof -
  obtain w where "getFieldLoop p offset n 0 = Some w" "unat w = field p offset n"
    using getFieldLoop_spec [of 0 n 0 offset p] assms by (auto simp: field_def)
  then show ?thesis by (metis getUnsignedBitfield_def of_nat_unat ucast_id)
qed

lemma unat_field:
  assumes "n \<le> 64" "offset + n \<le> 8 * length p"
  shows "unat (of_nat (field p offset n) :: u64) = field p offset n"
proof -
  have "(2 :: nat) ^ n \<le> 2 ^ 64" using assms(1) by (intro power_increasing) auto
  then have "field p offset n < 2 ^ 64" using field_less [OF assms(2)] by simp
  then show ?thesis by (simp add: unsigned_of_nat take_bit_nat_eq_self)
qed

lemma bit_u64: "bit (w :: u64) i \<longleftrightarrow> odd (unat w div 2 ^ i)"
proof -
  have "bit w i = bit (unat w) i" by (cases "i < 64") (auto simp: bit_simps dest: bit_imp_le_length)
  then show ?thesis by (simp add: bit_iff_odd)
qed

lemma bit_top:
  assumes "unat (w :: u64) < 2 ^ n" "0 < n"
  shows "w AND push_bit (n - 1) 1 \<noteq> 0 \<longleftrightarrow> 2 ^ (n - 1) \<le> unat w"
proof -
  have "w AND push_bit (n - 1) 1 \<noteq> 0 \<longleftrightarrow> bit w (n - 1)" using and_exp_eq_0_iff_not_bit [of w "n - 1"] by simp
  also have "\<dots> \<longleftrightarrow> odd (unat w div 2 ^ (n - 1))"
    by (rule bit_u64)
  also have "\<dots> \<longleftrightarrow> 2 ^ (n - 1) \<le> unat w"
  proof -
    obtain k where n: "n = Suc k" using assms(2) by (cases n) auto
    have "unat w div 2 ^ k < 2" using assms(1) n by (simp add: less_mult_imp_div_less)
    then have "unat w div 2 ^ k = 0 \<or> unat w div 2 ^ k = 1" by linarith
    then have "odd (unat w div 2 ^ k) \<longleftrightarrow> unat w div 2 ^ k \<noteq> 0" by auto
    then show ?thesis using n by (simp add: div_eq_0_iff not_less)
  qed
  finally show ?thesis .
qed

lemma sint_word_of_int: "in_i64 v \<Longrightarrow> sint (word_of_int v :: u64) = v"
  by (subst signed_of_int) (simp add: signed_take_bit_int_eq_self in_signed_def)

lemma in_i64_alt: "in_i64 v \<longleftrightarrow> - (2 ^ 63) \<le> v \<and> v < 2 ^ 63"
  by (simp add: in_signed_def)

lemma or_high:
  assumes "unat (w :: u64) < 2 ^ n" "n < 64"
  shows "w OR push_bit n (- 1) = word_of_int (int (unat w) - 2 ^ n)"
proof -
  have "\<not> bit w i" if "n \<le> i" for i
  proof -
    have "(2 :: nat) ^ n \<le> 2 ^ i" using that by (intro power_increasing) auto
    then have "unat w < 2 ^ i" using assms(1) by linarith
    then show ?thesis by (simp add: bit_u64)
  qed
  then have "\<not> (bit w i \<and> n \<le> i)" for i by blast
  then have "w AND push_bit n (- 1) = 0" by (intro bit_word_eqI) (auto simp: bit_simps not_less)
  then have "w OR push_bit n (- 1) = w + push_bit n (- 1)" by (rule disjunctive_add_eq_or [symmetric])
  also have "\<dots> = word_of_int (int (unat w) - 2 ^ n)" unfolding push_bit_eq_mult by simp
  finally show ?thesis .
qed

lemma getSignedBitfield_spec:
  assumes n: "0 < n" "n < 64" "offset + n \<le> 8 * length p"
  shows "getSignedBitfield p offset n = Some (twos n (int (field p offset n)))"
proof -
  define u where "u = field p offset n"
  define w where "w = (of_nat u :: u64)"
  have u: "u < 2 ^ n" "unat w = u" using field_less [OF n(3)] unat_field [of n offset p] n by (simp_all add: u_def w_def)
  have g: "getUnsignedBitfield p offset n = Some w" using getUnsignedBitfield_spec [of n offset p] n by (simp add: w_def u_def)
  have "(2 :: int) ^ n \<le> 2 ^ 63" using n(2) by (intro power_increasing) auto
  moreover have "int u < 2 ^ n" using u(1) unfolding int_pow_iff .
  ultimately have i: "in_i64 (int u)" "in_i64 (int u - 2 ^ n)" unfolding in_i64_alt by linarith+
  have "sint w = int u" using sint_word_of_int [OF i(1)] by (simp add: w_def)
  moreover have "sint (w OR push_bit n (- 1)) = int u - 2 ^ n"
    using or_high [of w n] sint_word_of_int [OF i(2)] u n(2) by simp
  moreover have m: "shl64 1 (n - 1) = Some (push_bit (n - 1) 1)" "shl64 (- 1) n = Some (push_bit n (- 1))"
    using n(2) by (auto simp: shl64_def)
  moreover have "w AND push_bit (n - 1) 1 \<noteq> 0 \<longleftrightarrow> 2 ^ (n - 1) \<le> u" using bit_top [of w n] u n(1) by blast
  ultimately have "getSignedBitfield p offset n = Some (if 2 ^ (n - 1) \<le> u then int u - 2 ^ n else int u)"
    unfolding getSignedBitfield_def g by (cases "2 ^ (n - 1) \<le> u") (simp_all only: Option.bind.bind_lunit if_True if_False simp_thms)
  then show ?thesis using twos_nat [OF n(1) u(1)] by (simp add: u_def not_less)
qed

lemma getSignedBitfield_64:
  assumes "offset + 64 \<le> 8 * length p"
  shows "getSignedBitfield p offset 64 = (if field p offset 64 < 2 ^ 63 then Some (int (field p offset 64)) else None)"
proof -
  define u where "u = field p offset 64"
  define w where "w = (of_nat u :: u64)"
  have u: "u < 2 ^ 64" "unat w = u" using field_less [OF assms] unat_field [of 64 offset p] assms by (simp_all add: u_def w_def)
  have g: "getUnsignedBitfield p offset 64 = Some w" using getUnsignedBitfield_spec [of 64 offset p] assms by (simp add: w_def u_def)
  have m: "shl64 1 (64 - 1) = Some (push_bit (64 - 1) 1)" "shl64 (- 1) 64 = None" by (simp_all add: shl64_def)
  have b: "w AND push_bit (64 - 1) 1 \<noteq> 0 \<longleftrightarrow> 2 ^ (64 - 1) \<le> u" using bit_top [of w 64] u by linarith
  have "sint w = int u" if "u < 2 ^ 63"
  proof -
    have "int u < 2 ^ 63" using that unfolding int_pow_iff .
    then have "in_i64 (int u)" unfolding in_i64_alt by linarith
    from sint_word_of_int [OF this] show ?thesis by (simp add: w_def)
  qed
  then have "getSignedBitfield p offset 64 = (if 2 ^ (64 - 1) \<le> u then None else Some (int u))"
    using b unfolding getSignedBitfield_def g m
    by (cases "2 ^ (64 - 1) \<le> u") (simp_all only: Option.bind.bind_lunit Option.bind.bind_lzero if_True if_False simp_thms, simp)
  then show ?thesis by (simp add: u_def not_less)
qed

text \<open>What the overflow checks ask for: the limit that replaces a value outside the range.\<close>

definition limit_spec :: "int \<Rightarrow> int \<Rightarrow> (int \<Rightarrow> int) \<Rightarrow> owtype \<Rightarrow> int \<Rightarrow> int option" where
  "limit_spec lo hi wrap ow t =
     (if lo \<le> t \<and> t \<le> hi then None
      else (case ow of BFOVERFLOW_WRAP \<Rightarrow> Some (wrap t) | BFOVERFLOW_SAT \<Rightarrow> Some (if t < lo then lo else hi) | BFOVERFLOW_FAIL \<Rightarrow> None))"

lemma and_not_high:
  assumes "n < 64"
  shows "(w :: u64) AND NOT (push_bit n (- 1)) = word_of_int (uint w mod 2 ^ n)"
proof -
  have "NOT (push_bit n (- 1)) = (mask n :: u64)" by (simp add: push_bit_minus_one_eq_not_mask)
  then have "w AND NOT (push_bit n (- 1)) = take_bit n w" by (simp add: take_bit_eq_mask)
  also have "\<dots> = word_of_int (uint (take_bit n w))" by simp
  also have "uint (take_bit n w) = uint w mod 2 ^ n" by (simp add: unsigned_take_bit_eq flip: take_bit_eq_mod)
  finally show ?thesis .
qed

lemma unsigned_wrap_spec:
  assumes "n < 64"
  shows "unsigned_wrap val incr n = Some (1, Some (word_of_int ((uint val + incr) mod 2 ^ n)))"
proof -
  have d: "(2 :: int) ^ n dvd 2 ^ 64" using assms by (intro le_imp_power_dvd) simp
  have "uint (val + word_of_int incr) = (uint val + incr) mod 2 ^ 64"
    by (simp add: uint_word_ariths uint_word_of_int mod_simps)
  then have "uint (val + word_of_int incr) mod 2 ^ n = (uint val + incr) mod 2 ^ n" using mod_mod_cancel [OF d] by simp
  then show ?thesis using assms and_not_high [OF assms, of "val + word_of_int incr"] by (simp add: unsigned_wrap_def shl64_def del: push_bit_minus_one_eq_not_mask)
qed

lemma checkUnsigned_spec:
  assumes n: "0 < n" "n < 64" and v: "uint val < 2 ^ n \<or> incr = 0" and i: "in_i64 incr"
  shows "\<exists>ov. checkUnsignedBitfieldOverflow val incr n ow =
      Some (ov, map_option word_of_int (limit_spec 0 (2 ^ n - 1) (\<lambda>t. t mod 2 ^ n) ow (uint val + incr))) \<and>
    (ov \<noteq> 0 \<longleftrightarrow> \<not> (0 \<le> uint val + incr \<and> uint val + incr < 2 ^ n))"
proof -
  define mx where "mx = (if n = 64 then - 1 else push_bit n 1 - 1 :: u64)"
  have p: "(2 :: int) ^ n \<le> 2 ^ 63" using n by (intro power_increasing) auto
  have "uint (word_of_int (2 ^ n) :: u64) = 2 ^ n" unfolding uint_word_of_int using p by (intro mod_pos_pos_trivial) auto
  then have "uint (push_bit n 1 :: u64) = 2 ^ n" by simp
  then have mx: "uint mx = 2 ^ n - 1" using n p unfolding mx_def by (simp add: uint_word_ariths)
  have gt: "val > mx \<longleftrightarrow> uint val > 2 ^ n - 1" by (simp add: word_less_def mx)
  have mi: "sint (mx - val) = 2 ^ n - 1 - uint val" "sint (- val) = - uint val" if "uint val < 2 ^ n"
  proof -
    have a: "in_i64 (2 ^ n - 1 - uint val)" "in_i64 (- uint val)" using that p uint_ge_0 [of val] unfolding in_i64_alt by linarith+
    have "mx - val = word_of_int (2 ^ n - 1 - uint val)" by (simp flip: mx)
    then show "sint (mx - val) = 2 ^ n - 1 - uint val" using sint_word_of_int [OF a(1)] by simp
    have "- val = word_of_int (- uint val)" by simp
    then show "sint (- val) = - uint val" using sint_word_of_int [OF a(2)] by simp
  qed
  have mw: "mx = word_of_int (2 ^ n - 1)" by (simp flip: mx)
  note c = checkUnsignedBitfieldOverflow_def [of val incr n ow, folded mx_def] unsigned_wrap_spec [OF n(2), of val incr]
  consider "uint val > 2 ^ n - 1" | "uint val < 2 ^ n" by linarith
  then show ?thesis
  proof cases
    case 1
    then have "incr = 0" using v by linarith
    then show ?thesis using 1 c gt mx mw by (cases ow) (auto simp: limit_spec_def Let_def)
  next
    case 2
    define x where "x = uint val"
    have x: "0 \<le> x" "x < 2 ^ n" using 2 by (simp_all add: x_def)
    show ?thesis using x c gt mi [OF 2] mx mw unfolding x_def [symmetric] by (cases ow) (auto simp: limit_spec_def Let_def)
  qed
qed

lemma twos_bounds: "0 < n \<Longrightarrow> - (2 ^ (n - 1)) \<le> twos n t \<and> twos n t < 2 ^ (n - 1)"
proof -
  assume "0 < n"
  then obtain k where n: "n = Suc k" by (cases n) auto
  have "(t + 2 ^ k) mod 2 ^ Suc k < 2 ^ Suc k" "0 \<le> (t + 2 ^ k) mod 2 ^ Suc k" by simp_all
  then show ?thesis unfolding twos_def n by simp
qed

lemma signed_wrap_spec:
  assumes "0 < n" "n < 64"
  shows "signed_wrap val incr n = Some (1, Some (twos n (val + incr)))"
proof -
  define c where "c = (word_of_int val + word_of_int incr :: u64)"
  define w where "w = c AND NOT (push_bit n (- 1))"
  define t where "t = (val + incr) mod 2 ^ n"
  have d: "(2 :: int) ^ n dvd 2 ^ 64" using assms by (intro le_imp_power_dvd) simp
  have "uint c mod 2 ^ n = t" using mod_mod_cancel [OF d] by (simp add: c_def t_def uint_word_ariths uint_word_of_int mod_simps)
  then have w: "w = word_of_int t" using and_not_high [OF assms(2), of c] by (simp add: w_def)
  have "(2 :: int) ^ n \<le> 2 ^ 63" using assms by (intro power_increasing) auto
  then have t: "0 \<le> t" "t < 2 ^ n" "t < 2 ^ 63" by (simp_all add: t_def less_le_trans [OF pos_mod_bound])
  have "uint w = t" unfolding w uint_word_of_int using t by (intro mod_pos_pos_trivial) auto
  then have u: "unat w = nat t" "nat t < 2 ^ n" using t by (simp_all add: nat_less_iff unat_eq_nat_uint)
  have "c AND push_bit (n - 1) 1 \<noteq> 0 \<longleftrightarrow> bit c (n - 1)" using and_exp_eq_0_iff_not_bit [of c "n - 1"] by simp
  also have "\<dots> \<longleftrightarrow> bit w (n - 1)" using assms by (auto simp: w_def bit_simps)
  also have "\<dots> \<longleftrightarrow> w AND push_bit (n - 1) 1 \<noteq> 0" using and_exp_eq_0_iff_not_bit [of w "n - 1"] by simp
  also have "\<dots> \<longleftrightarrow> 2 ^ (n - 1) \<le> nat t" using bit_top [of w n] u assms by simp
  finally have b: "c AND push_bit (n - 1) 1 \<noteq> 0 \<longleftrightarrow> 2 ^ (n - 1) \<le> nat t" .
  have o': "c OR push_bit n (- 1) = w OR push_bit n (- 1)" by (intro bit_word_eqI) (auto simp: w_def bit_simps)
  have s: "sint w = t" "sint (c OR push_bit n (- 1)) = t - 2 ^ n"
  proof -
    have i: "in_i64 t" "in_i64 (t - 2 ^ n)" using t \<open>2 ^ n \<le> 2 ^ 63\<close> unfolding in_i64_alt by linarith+
    show "sint w = t" using sint_word_of_int [OF i(1)] w by simp
    show "sint (c OR push_bit n (- 1)) = t - 2 ^ n"
      using or_high [of w n] u assms(2) t sint_word_of_int [OF i(2)] unfolding o' by simp
  qed
  have "twos n (val + incr) = twos n (int (nat t))" using t(1) twos_mod [of n "val + incr"] by (simp add: t_def)
  also have "\<dots> = (if 2 ^ (n - 1) \<le> nat t then t - 2 ^ n else t)" using twos_nat [OF assms(1) u(2)] t(1) by (simp add: not_less)
  finally have v: "twos n (val + incr) = (if 2 ^ (n - 1) \<le> nat t then t - 2 ^ n else t)" .
  have m: "shl64 1 (n - 1) = Some (push_bit (n - 1) 1)" "shl64 (- 1) n = Some (push_bit n (- 1))"
    using assms by (auto simp: shl64_def)
  show ?thesis
    unfolding signed_wrap_def m v c_def [symmetric] Let_def
    using b s(1) [unfolded w_def] s(2) by (cases "2 ^ (n - 1) \<le> nat t") (simp_all only: Option.bind.bind_lunit if_True if_False simp_thms)
qed

definition signed_min :: "nat \<Rightarrow> int" where "signed_min n = - (2 ^ (n - 1))"
definition signed_max :: "nat \<Rightarrow> int" where "signed_max n = 2 ^ (n - 1) - 1"

text \<open>
  The check on a value of the range with any increment, and on a value to be stored, if the
  difference to the maximum does not overflow.
\<close>

lemma checkSigned_spec:
  assumes n: "0 < n" "n < 64" and i: "in_i64 incr"
    and v: "signed_min n \<le> val \<and> val \<le> signed_max n \<or> incr = 0 \<and> val < 2 ^ 63 \<and> signed_max n - val < 2 ^ 63"
  shows "\<exists>ov. checkSignedBitfieldOverflow val incr n ow =
      Some (ov, limit_spec (signed_min n) (signed_max n) (twos n) ow (val + incr)) \<and>
    (ov \<noteq> 0 \<longleftrightarrow> \<not> (signed_min n \<le> val + incr \<and> val + incr \<le> signed_max n))"
proof -
  define mx where "mx = signed_max n"
  have p: "(1 :: int) \<le> 2 ^ (n - 1)" "(2 :: int) ^ (n - 1) \<le> 2 ^ 62" using n by (simp, intro power_increasing) auto
  have mn: "signed_min n = - mx - 1" "0 \<le> mx" "mx < 2 ^ 62" using p by (simp_all add: mx_def signed_max_def signed_min_def)
  have mx: "(if n = 64 then 2 ^ 63 - 1 else 2 ^ (n - 1) - 1) = mx" using n by (simp add: mx_def signed_max_def)
  have s1: "sint (word_of_int (mx - val) :: u64) = mx - val" if "val \<le> mx"
    using that v mn by (intro sint_word_of_int) (auto simp: in_i64_alt mx_def [symmetric])
  have s2: "sint (word_of_int (- mx - 1 - val) :: u64) = - mx - 1 - val" if "val \<le> mx"
    using that v mn by (intro sint_word_of_int) (auto simp: in_i64_alt mx_def [symmetric])
  note c = checkSignedBitfieldOverflow_def [of val incr n ow, unfolded mx Let_def] signed_wrap_spec [OF n, of val incr]
  have n64: "n \<noteq> 64" using n by simp
  have v': "- mx - 1 \<le> val \<and> val \<le> mx \<or> incr = 0" using v mn by (auto simp: mx_def [symmetric])
  show ?thesis
  proof (cases "val \<le> mx")
    case False
    then show ?thesis using v' c n64 mn(2) unfolding limit_spec_def mn(1) mx_def [symmetric] by (cases ow) auto
  next
    case True
    show ?thesis using True v' c n64 mn(2) unfolding s1 [OF True] s2 [OF True] limit_spec_def mn(1) mx_def [symmetric] by (cases ow) auto
  qed
qed

lemma checkSigned_64:
  assumes "in_i64 val" "in_i64 incr"
  shows "checkSignedBitfieldOverflow val incr 64 ow =
    (if in_i64 (val + incr) then Some (0, None)
     else (case ow of
        BFOVERFLOW_WRAP \<Rightarrow> None
      | BFOVERFLOW_SAT \<Rightarrow> Some (if val + incr > 0 then (1, Some (signed_max 64)) else (-1, Some (signed_min 64)))
      | BFOVERFLOW_FAIL \<Rightarrow> Some (if val + incr > 0 then 1 else -1, None)))"
proof -
  have w: "signed_wrap val incr 64 = None" by (simp add: signed_wrap_def shl64_def)
  have s1: "sint (word_of_int (2 ^ 63 - 1 - val) :: u64) = 2 ^ 63 - 1 - val" if "0 \<le> val"
    using that assms(1) by (intro sint_word_of_int) (auto simp: in_i64_alt)
  have s2: "sint (word_of_int (- (2 ^ 63 - 1) - 1 - val) :: u64) = - (2 ^ 63 - 1) - 1 - val" if "val < 0"
    using that assms(1) by (intro sint_word_of_int) (auto simp: in_i64_alt)
  note c = checkSignedBitfieldOverflow_def [of val incr 64 ow, unfolded Let_def w]
  show ?thesis
  proof (cases "0 \<le> val")
    case True
    then show ?thesis using c s1 [OF True] assms unfolding in_i64_alt by (cases ow) (auto simp: signed_max_def signed_min_def)
  next
    case False
    then have "val < 0" by simp
    then show ?thesis using c s2 assms unfolding in_i64_alt by (cases ow) (auto simp: signed_max_def signed_min_def)
  qed
qed

text \<open>
  All widths.  A 64-bit sum that does not fit cannot be wrapped around: the mask of the wrapping is a shift
  by 64.  A value to be stored may be so small that its difference to the maximum overflows; then the
  check reports an overflow instead of an underflow, which matters only for saturation.
\<close>

lemma checkSigned_all:
  assumes n: "0 < n" "n \<le> 64" and i: "in_i64 val" "in_i64 incr"
    and v: "signed_min n \<le> val \<and> val \<le> signed_max n \<or> incr = 0"
    and w: "n = 64 \<Longrightarrow> ow = BFOVERFLOW_WRAP \<Longrightarrow> val + incr \<le> signed_max 64 \<and> signed_min 64 \<le> val + incr"
    and d: "n < 64 \<Longrightarrow> ow = BFOVERFLOW_SAT \<Longrightarrow> signed_min n \<le> val \<and> val \<le> signed_max n \<or> signed_max n - val < 2 ^ 63"
  shows "\<exists>ov. checkSignedBitfieldOverflow val incr n ow =
      Some (ov, limit_spec (signed_min n) (signed_max n) (twos n) ow (val + incr)) \<and>
    (ov \<noteq> 0 \<longleftrightarrow> \<not> (signed_min n \<le> val + incr \<and> val + incr \<le> signed_max n))"
proof -
  have v63: "val < 2 ^ 63" "- (2 ^ 63) \<le> val" using i(1) by (simp_all add: in_i64_alt)
  consider "n = 64" | "n < 64" "signed_min n \<le> val \<and> val \<le> signed_max n \<or> incr = 0 \<and> val < 2 ^ 63 \<and> signed_max n - val < 2 ^ 63"
    | "n < 64" "incr = 0" "\<not> signed_max n - val < 2 ^ 63" "ow \<noteq> BFOVERFLOW_SAT" using n v d v63 by fastforce
  then show ?thesis
  proof cases
    case 1
    have r: "in_i64 (val + incr) \<longleftrightarrow> signed_min 64 \<le> val + incr \<and> val + incr \<le> signed_max 64"
      by (auto simp: in_i64_alt signed_min_def signed_max_def)
    have "val + incr > 0 \<longleftrightarrow> \<not> val + incr < signed_min 64" if "\<not> in_i64 (val + incr)"
      using that unfolding r by (auto simp: signed_min_def signed_max_def)
    then show ?thesis using checkSigned_64 [OF i, of ow] w 1 r by (cases ow) (auto simp: limit_spec_def)
  next
    case 2
    show ?thesis by (rule checkSigned_spec [OF n(1) 2(1) i(2) 2(2)])
  next
    case 3
    define mx where "mx = signed_max n"
    have "(1 :: int) \<le> 2 ^ (n - 1)" "(2 :: int) ^ (n - 1) \<le> 2 ^ 62" using 3(1) by (simp, intro power_increasing) auto
    then have mn: "signed_min n = - mx - 1" "0 \<le> mx" "mx < 2 ^ 62" by (simp_all add: mx_def signed_max_def signed_min_def)
    have mx: "(if n = 64 then 2 ^ 63 - 1 else 2 ^ (n - 1) - 1) = mx" using 3(1) by (simp add: mx_def signed_max_def)
    have big: "2 ^ 63 \<le> mx - val" using 3(3) by (simp add: mx_def)
    have "sint (word_of_int (mx - val) :: u64) = sint (word_of_int (mx - val - 2 ^ 64) :: u64)"
      by (rule arg_cong [where f = sint]) (simp add: word_of_int_eq_iff take_bit_eq_mod)
    also have "\<dots> = mx - val - 2 ^ 64" using big v63 mn(3) by (intro sint_word_of_int) (auto simp: in_i64_alt)
    finally have neg: "sint (word_of_int (mx - val) :: u64) < 0" using v63(2) mn(3) by simp
    have "val < signed_min n" using big mn by simp
    then show ?thesis
      using neg 3 checkSignedBitfieldOverflow_def [of val incr n ow, unfolded mx Let_def] signed_wrap_spec [OF n(1) 3(1), of val incr]
      by (cases ow) (auto simp: limit_spec_def)
  qed
qed

lemma bits_val_word_bits: "bits_val (word_bits n w) = unat w mod 2 ^ n"
proof (induction n)
  case (Suc n)
  have "unat w mod 2 ^ Suc n = of_bool (bit w n) * 2 ^ n + unat w mod 2 ^ n"
    using take_bit_Suc_from_most [of n "unat w"] by (simp add: take_bit_eq_mod bit_u64 bit_iff_odd [of "unat w"])
  then show ?case using Suc by (simp add: word_bits_Suc bits_val_Cons word_bits_def)
qed (simp add: word_bits_def bits_val_def)

lemma setUnsignedBitfield_spec:
  assumes "n \<le> 64" "offset + n \<le> 8 * length p"
  shows "\<exists>p'. setUnsignedBitfield p offset n val = Some p' \<and> length p' = length p \<and>
    bits_of p' = write_at offset (word_bits n val) (bits_of p) \<and> field p' offset n = unat val mod 2 ^ n"
proof -
  obtain p' where p': "setFieldLoop p offset n val = Some p'" "length p' = length p" "bits_of p' = write_at offset (word_bits n val) (bits_of p)"
    using setFieldLoop_spec [OF assms, of val] by blast
  have "read_at offset n (write_at offset (word_bits n val) (bits_of p)) = word_bits n val"
    using assms(2) by (intro read_at_write_at_same) (simp_all add: word_bits_def)
  then have "field p' offset n = unat val mod 2 ^ n"
    by (simp add: field_def p'(3) read_at_def bits_val_word_bits)
  then show ?thesis using p' by (simp add: setUnsignedBitfield_def)
qed

lemma bits_of_eq_nth: "bits_of p' = write_at offset bs (bits_of p) \<Longrightarrow> offset + length bs \<le> 8 * length p \<Longrightarrow>
    i < offset \<or> offset + length bs \<le> i \<Longrightarrow> i < 8 * length p \<Longrightarrow> bits_of p' ! i = bits_of p ! i"
  by (auto simp: write_at_def nth_append)

text \<open>
  C38: writing an integer of at most 64 bits at any bit offset inside the bitmap changes
  exactly the bits of the field, and reading the field back gives the integer modulo the size
  of the field, or its two's complement value when it is read as signed with fewer than 64
  bits.
\<close>

theorem bitfield_roundtrip:
  assumes "0 < n" "n \<le> 64" "offset + n \<le> 8 * length p"
  shows "\<exists>p'. setSignedBitfield p offset n val = Some p' \<and> length p' = length p \<and>
    (\<forall>i < 8 * length p. i < offset \<or> offset + n \<le> i \<longrightarrow> bits_of p' ! i = bits_of p ! i) \<and>
    getUnsignedBitfield p' offset n = Some (word_of_int (val mod 2 ^ n)) \<and>
    (n < 64 \<longrightarrow> getSignedBitfield p' offset n = Some (twos n val))"
proof -
  obtain p' where p': "setUnsignedBitfield p offset n (word_of_int val) = Some p'" "length p' = length p"
      "bits_of p' = write_at offset (word_bits n (word_of_int val)) (bits_of p)" "field p' offset n = unat (word_of_int val :: u64) mod 2 ^ n"
    using setUnsignedBitfield_spec [OF assms(2,3), of "word_of_int val"] by blast
  have d: "(2 :: int) ^ n dvd 2 ^ 64" using assms by (intro le_imp_power_dvd) simp
  have "int (unat (word_of_int val :: u64)) = val mod 2 ^ 64" by (simp add: uint_word_of_int)
  then have f: "int (field p' offset n) = val mod 2 ^ n" using mod_mod_cancel [OF d] by (simp add: p'(4) zmod_int)
  have g: "getUnsignedBitfield p' offset n = Some (word_of_int (val mod 2 ^ n))"
    using getUnsignedBitfield_spec [of n offset p'] assms p'(2) by (simp flip: f)
  have s: "n < 64 \<Longrightarrow> getSignedBitfield p' offset n = Some (twos n val)"
    using getSignedBitfield_spec [of n offset p'] assms p'(2) by (simp add: f twos_mod)
  have l: "length (word_bits n (word_of_int val)) = n" by (simp add: word_bits_def)
  show ?thesis
    using p'(1,2) g s bits_of_eq_nth [OF p'(3)] l assms(3) by (simp add: setSignedBitfield_def)
qed

theorem bitfield_roundtrip_witness:
  "setSignedBitfield [0, 255, 0] 5 11 (- 700) = Some [5, 68, 0] \<and> getSignedBitfield [5, 68, 0] 5 11 = Some (- 700)"
proof -
  have s: "setSignedBitfield [0, 255, 0] 5 11 (- 700) = Some [5, 68, 0]" by code_simp
  have "twos 11 (- 700) = - 700" by (simp add: twos_def)
  then show ?thesis using bitfield_roundtrip [of 11 5 "[0, 255, 0]" "- 700"] s by simp
qed

text \<open>Reading a negative number as a 64-bit integer shifts by 64.\<close>

lemma getSignedBitfield_i64_undefined: "getSignedBitfield [255, 255, 255, 255, 255, 255, 255, 255] 0 64 = None"
  by code_simp

text \<open>The smallest integer stored in eight bits with saturation becomes the largest value.\<close>

lemma saturate_min_up: "checkSignedBitfieldOverflow (- (2 ^ 63)) 0 8 BFOVERFLOW_SAT = Some (1, Some 127)"
  by code_simp

end
