(* ===== verification/BitCommands.thy ===== *)
theory BitCommands
  imports StringCommands Bitops
begin

text \<open>
  The bit commands of \<open>src/redis-6.0.5/src/bitops.c\<close> on string keys: SETBIT, GETBIT, BITOP,
  BITCOUNT, BITPOS, BITFIELD and BITFIELD_RO, with their specifications on the view of the
  keyspace.  \<open>addr\<close> is the address of the bytes of the string a command reads, which decides
  how the counting and searching loops align themselves.
\<close>

section \<open>The program\<close>

subsection \<open>Arguments and objects\<close>

definition bit_offset_error :: reply where
  "bit_offset_error = RError ''bit offset is not an integer or out of range''"

definition getBitOffsetFromArgument :: "byte list \<Rightarrow> bool \<Rightarrow> int \<Rightarrow> nat option" where
  "getBitOffsetFromArgument p hash bits =
     (let usehash = (take 1 p = [35] \<and> hash \<and> bits > 0)
      in case string2ll (if usehash then drop 1 p else p) of
           None \<Rightarrow> None
         | Some loffset \<Rightarrow>
             (let loffset = (if usehash then wrap64 (loffset * bits) else loffset)
              in if loffset < 0 \<or> loffset div 8 \<ge> 512 * 1024 * 1024 then None else Some (nat loffset)))"

text \<open>The number after the sign letter ends at the first zero byte.\<close>

definition getBitfieldTypeFromArgument :: "byte list \<Rightarrow> (bool \<times> nat) option" where
  "getBitfieldTypeFromArgument p =
     (case (if take 1 p = [105] then Some True else if take 1 p = [117] then Some False else None) of
        None \<Rightarrow> None
      | Some sign \<Rightarrow>
          (case string2ll (takeWhile (\<lambda>c. c \<noteq> 0) (drop 1 p)) of
             None \<Rightarrow> None
           | Some llbits \<Rightarrow>
               if llbits < 1 \<or> (sign \<and> llbits > 64) \<or> (\<not> sign \<and> llbits > 63) then None else Some (sign, nat llbits)))"

definition lookupStringForBitCommand ::
  "'a server_config_scheme \<Rightarrow> nat \<Rightarrow> server \<Rightarrow> key \<Rightarrow> nat \<Rightarrow> ((reply + sds) \<times> server) option" where
  "lookupStringForBitCommand cfg refcount s key maxbit = do {
     let byte = maxbit div 8;
     (o', s) \<leftarrow> lookupKeyWrite cfg s key;
     (case o' of
        None \<Rightarrow> do {
          let str = sdsnewlen None (byte + 1);
          s \<leftarrow> dbAdd cfg s key (ObjString (StrRaw str));
          Some (Inr str, s)
        }
      | Some (ObjString ob) \<Rightarrow> do {
          (ob, s) \<leftarrow> dbUnshareStringValue refcount s key ob;
          let str = sdsgrowzero (obj_sds ob) (byte + 1);
          Some (Inr str, obj_update s key (ObjString (StrRaw str)))
        }
      | Some _ \<Rightarrow> Some (Inl RWrongType, s))
   }"

definition LONG_STR_SIZE :: nat where "LONG_STR_SIZE = 21"

definition getObjectReadOnlyString :: "string_obj \<Rightarrow> byte list" where
  "getObjectReadOnlyString o' =
     (case o' of
        StrInt v \<Rightarrow> (case ll2string (replicate LONG_STR_SIZE 0) LONG_STR_SIZE v of (len, llbuf) \<Rightarrow> take len llbuf)
      | _ \<Rightarrow> take (sdslen (obj_sds o')) (sds_buf (obj_sds o')))"

subsection \<open>SETBIT and GETBIT\<close>

definition setbit_error :: reply where
  "setbit_error = RError ''bit is not an integer or out of range''"

definition setbitCommand ::
  "'a server_config_scheme \<Rightarrow> nat \<Rightarrow> server \<Rightarrow> key \<Rightarrow> byte list \<Rightarrow> byte list \<Rightarrow> (reply \<times> server) option" where
  "setbitCommand cfg refcount s key offset_arg on_arg =
     (case getBitOffsetFromArgument offset_arg False 0 of
        None \<Rightarrow> Some (bit_offset_error, s)
      | Some bitoffset \<Rightarrow>
          (case string2ll on_arg of
             None \<Rightarrow> Some (setbit_error, s)
           | Some on \<Rightarrow>
               if on AND NOT 1 \<noteq> 0 then Some (setbit_error, s)
               else do {
                 (r, s) \<leftarrow> lookupStringForBitCommand cfg refcount s key bitoffset;
                 (case r of
                    Inl err \<Rightarrow> Some (err, s)
                  | Inr str \<Rightarrow> do {
                      let byte = bitoffset div 8;
                      let byteval = sds_buf str ! byte;
                      let bit' = 7 - bitoffset mod 8;
                      let bitval = byteval AND push_bit bit' 1;
                      let byteval = byteval AND NOT (push_bit bit' 1);
                      let byteval = byteval OR push_bit bit' (word_of_int (on AND 1));
                      let s = obj_update s key (ObjString (StrRaw (put_byte byte byteval str)));
                      let s = emit (Notify NOTIFY_STRING ''setbit'' key) (emit (SignalModified key) s);
                      Some (if bitval \<noteq> 0 then cone else czero, s\<lparr>dirty := dirty s + 1\<rparr>)
                    })
               }))"

definition getbitCommand :: "'a server_config_scheme \<Rightarrow> server \<Rightarrow> key \<Rightarrow> byte list \<Rightarrow> (reply \<times> server) option" where
  "getbitCommand cfg s key offset_arg =
     (case getBitOffsetFromArgument offset_arg False 0 of
        None \<Rightarrow> Some (bit_offset_error, s)
      | Some bitoffset \<Rightarrow> do {
          (o', s) \<leftarrow> lookupKeyRead cfg s key;
          (case o' of
             None \<Rightarrow> Some (czero, s)
           | Some (ObjString ob) \<Rightarrow>
               (let byte = bitoffset div 8;
                    bit' = 7 - bitoffset mod 8;
                    (len, buf) = (case ob of StrInt v \<Rightarrow> ll2string (replicate 32 0) 32 v
                                  | _ \<Rightarrow> (sdslen (obj_sds ob), sds_buf (obj_sds ob)));
                    bitval = (if byte < len then buf ! byte AND push_bit bit' 1 else 0)
                in Some (if bitval \<noteq> 0 then cone else czero, s))
           | Some _ \<Rightarrow> Some (RWrongType, s))
        })"

subsection \<open>BITOP\<close>

datatype bitop = BITOP_AND | BITOP_OR | BITOP_XOR | BITOP_NOT

definition bitopName :: "byte list \<Rightarrow> bitop option" where
  "bitopName opname =
     (if strcasecmp_eq opname [97, 110, 100] then Some BITOP_AND
      else if strcasecmp_eq opname [111, 114] then Some BITOP_OR
      else if strcasecmp_eq opname [120, 111, 114] then Some BITOP_XOR
      else if strcasecmp_eq opname [110, 111, 116] then Some BITOP_NOT
      else None)"

text \<open>A missing key has no bytes.\<close>

fun bitopLoad ::
  "'a server_config_scheme \<Rightarrow> server \<Rightarrow> nat \<Rightarrow> key list \<Rightarrow> nat \<Rightarrow> nat \<Rightarrow> byte list list \<Rightarrow>
   ((reply + byte list list \<times> nat \<times> nat) \<times> server) option" where
  "bitopLoad cfg s j [] minlen maxlen src = Some (Inr (src, minlen, maxlen), s)"
| "bitopLoad cfg s j (key # keys) minlen maxlen src = do {
     (o', s) \<leftarrow> lookupKeyRead cfg s key;
     (case o' of
        None \<Rightarrow> bitopLoad cfg s (j + 1) keys 0 maxlen (src @ [[]])
      | Some (ObjString ob) \<Rightarrow> do {
          let str = obj_sds (getDecodedObject ob);
          let len = sdslen str;
          let maxlen = (if len > maxlen then len else maxlen);
          let minlen = (if j = 0 \<or> len < minlen then len else minlen);
          bitopLoad cfg s (j + 1) keys minlen maxlen (src @ [take len (sds_buf str)])
        }
      | Some _ \<Rightarrow> Some (Inl RWrongType, s))
   }"

fun bitop_word :: "bitop \<Rightarrow> 'a :: len word \<Rightarrow> 'a word \<Rightarrow> 'a word" where
  "bitop_word BITOP_AND a b = a AND b"
| "bitop_word BITOP_OR a b = a OR b"
| "bitop_word BITOP_XOR a b = a XOR b"
| "bitop_word BITOP_NOT a b = a"

text \<open>\<open>lres[k] op= lp[i][k]\<close>, for the word at byte \<open>off\<close>.\<close>

definition fastWord :: "bitop \<Rightarrow> byte list \<Rightarrow> nat \<Rightarrow> byte list \<Rightarrow> byte list" where
  "fastWord op src off res =
     write_at off (le_bytes 8 (uint (bitop_word op (load64 (drop off res)) (load64 (drop off src))))) res"

definition fastNot :: "nat \<Rightarrow> byte list \<Rightarrow> byte list" where
  "fastNot off res = write_at off (le_bytes 8 (uint (NOT (load64 (drop off res))))) res"

fun fastSources :: "bitop \<Rightarrow> byte list list \<Rightarrow> nat \<Rightarrow> byte list \<Rightarrow> byte list" where
  "fastSources op [] j res = res"
| "fastSources op (src # srcs) j res =
     fastSources op srcs j (fastWord op src (j + 24) (fastWord op src (j + 16) (fastWord op src (j + 8) (fastWord op src j res))))"

function fastLoop :: "bitop \<Rightarrow> byte list list \<Rightarrow> nat \<Rightarrow> nat \<Rightarrow> byte list \<Rightarrow> nat \<times> byte list" where
  "fastLoop op srcs j minlen res =
     (if minlen \<ge> 32 then
        fastLoop op srcs (j + 32) (minlen - 32)
          (if op = BITOP_NOT then fastNot (j + 24) (fastNot (j + 16) (fastNot (j + 8) (fastNot j res)))
           else fastSources op srcs j res)
      else (j, res))"
  by pat_completeness auto
termination by (relation "measure (\<lambda>(_, _, _, minlen, _). minlen)") auto

definition bitopByte :: "bitop \<Rightarrow> byte list list \<Rightarrow> nat \<Rightarrow> byte" where
  "bitopByte op src j =
     (let at = (\<lambda>s. if length s \<le> j then 0 else s ! j);
          output = at (src ! 0);
          output = (if op = BITOP_NOT then NOT output else output)
      in foldl (\<lambda>output s. bitop_word op output (at s)) output (drop 1 src))"

function slowLoop :: "bitop \<Rightarrow> byte list list \<Rightarrow> nat \<Rightarrow> nat \<Rightarrow> byte list \<Rightarrow> byte list" where
  "slowLoop op src j maxlen res =
     (if j < maxlen then slowLoop op src (j + 1) maxlen (res[j := bitopByte op src j]) else res)"
  by pat_completeness auto
termination by (relation "measure (\<lambda>(_, _, j, maxlen, _). maxlen - j)") auto

definition bitopCompute :: "bitop \<Rightarrow> byte list list \<Rightarrow> nat \<Rightarrow> nat \<Rightarrow> byte list" where
  "bitopCompute op src minlen maxlen =
     (let res = replicate maxlen 0;
          (j, res) =
            (if minlen \<ge> 32 \<and> length src \<le> 16
             then fastLoop op (drop 1 src) 0 minlen (write_at 0 (take minlen (src ! 0)) res)
             else (0, res))
      in slowLoop op src j maxlen res)"

text \<open>
  The result is computed in the buffer of a new string of \<open>maxlen\<close> zero bytes.
\<close>

definition bitopStore ::
  "'a server_config_scheme \<Rightarrow> server \<Rightarrow> key \<Rightarrow> byte list \<Rightarrow> nat \<Rightarrow> server option" where
  "bitopStore cfg s targetkey res maxlen =
     (if maxlen \<noteq> 0 then do {
        s \<leftarrow> setKey cfg s targetkey (ObjString (StrRaw (put_bytes 0 res (sdsnewlen None maxlen))));
        Some (emit (Notify NOTIFY_STRING ''set'' targetkey) s)
      }
      else do {
        (deleted, s) \<leftarrow> dbDelete cfg s targetkey;
        Some (if deleted then emit (Notify NOTIFY_GENERIC ''del'' targetkey) (emit (SignalModified targetkey) s) else s)
      })"

definition bitopCommand ::
  "'a server_config_scheme \<Rightarrow> server \<Rightarrow> byte list \<Rightarrow> key \<Rightarrow> key list \<Rightarrow> (reply \<times> server) option" where
  "bitopCommand cfg s opname targetkey keys =
     (case bitopName opname of
        None \<Rightarrow> Some (RError ''syntax error'', s)
      | Some op \<Rightarrow>
          if op = BITOP_NOT \<and> length keys \<noteq> 1 then Some (RError ''BITOP NOT must be called with a single source key.'', s)
          else do {
            (r, s) \<leftarrow> bitopLoad cfg s 0 keys 0 0 [];
            (case r of
               Inl err \<Rightarrow> Some (err, s)
             | Inr (src, minlen, maxlen) \<Rightarrow> do {
                 s \<leftarrow> bitopStore cfg s targetkey (bitopCompute op src minlen maxlen) maxlen;
                 Some (RInt (int maxlen), s\<lparr>dirty := dirty s + 1\<rparr>)
               })
          })"

subsection \<open>BITCOUNT and BITPOS\<close>

text \<open>Negative indexes count from the end; the result is cut to the string.\<close>

definition clip_range :: "int \<Rightarrow> int \<Rightarrow> int \<Rightarrow> int \<times> int" where
  "clip_range len start end =
     (let start = (if start < 0 then len + start else start);
          end = (if end < 0 then len + end else end);
          start = (if start < 0 then 0 else start);
          end = (if end < 0 then 0 else end);
          end = (if end \<ge> len then len - 1 else end)
      in (start, end))"

definition bitcountRange :: "int \<Rightarrow> byte list list \<Rightarrow> reply + int \<times> int" where
  "bitcountRange len args =
     (case args of
        [a, b] \<Rightarrow>
          (case (string2ll a, string2ll b) of
             (Some start, Some end) \<Rightarrow>
               if start < 0 \<and> end < 0 \<and> start > end then Inl czero else Inr (clip_range len start end)
           | _ \<Rightarrow> Inl not_an_integer)
      | [] \<Rightarrow> Inr (0, len - 1)
      | _ \<Rightarrow> Inl (RError ''syntax error''))"

definition bitcountCommand ::
  "'a server_config_scheme \<Rightarrow> nat \<Rightarrow> server \<Rightarrow> key \<Rightarrow> byte list list \<Rightarrow> (reply \<times> server) option" where
  "bitcountCommand cfg addr s key args = do {
     (o', s) \<leftarrow> lookupKeyRead cfg s key;
     (case o' of
        None \<Rightarrow> Some (czero, s)
      | Some (ObjString ob) \<Rightarrow>
          (let p = getObjectReadOnlyString ob
           in case bitcountRange (int (length p)) args of
                Inl r \<Rightarrow> Some (r, s)
              | Inr (start, end) \<Rightarrow>
                  if start > end then Some (czero, s)
                  else
                    let bytes = end - start + 1
                    in Some (RInt (uint (redisPopcount (addr + nat start) (take (nat bytes) (drop (nat start) p)))), s))
      | Some _ \<Rightarrow> Some (RWrongType, s))
   }"

definition bitposRange :: "int \<Rightarrow> byte list list \<Rightarrow> reply + bool \<times> int \<times> int" where
  "bitposRange len args =
     (case args of
        [] \<Rightarrow> Inr (False, 0, len - 1)
      | [a] \<Rightarrow>
          (case string2ll a of
             None \<Rightarrow> Inl not_an_integer
           | Some start \<Rightarrow> Inr (False, clip_range len start (len - 1)))
      | [a, b] \<Rightarrow>
          (case (string2ll a, string2ll b) of
             (Some start, Some end) \<Rightarrow> Inr (True, clip_range len start end)
           | _ \<Rightarrow> Inl not_an_integer)
      | _ \<Rightarrow> Inl (RError ''syntax error''))"

definition bitposReply :: "nat \<Rightarrow> byte list \<Rightarrow> int \<Rightarrow> bool \<Rightarrow> int \<Rightarrow> int \<Rightarrow> reply option" where
  "bitposReply addr p bit' end_given start end =
     (if start > end then Some (RInt (- 1))
      else do {
        let bytes = end - start + 1;
        pos \<leftarrow> redisBitpos (addr + nat start) (take (nat bytes) (drop (nat start) p)) bit';
        if end_given \<and> bit' = 0 \<and> pos = bytes * 8 then Some (RInt (- 1))
        else Some (RInt (if pos \<noteq> - 1 then pos + start * 8 else pos))
      })"

definition bitposCommand ::
  "'a server_config_scheme \<Rightarrow> nat \<Rightarrow> server \<Rightarrow> key \<Rightarrow> byte list \<Rightarrow> byte list list \<Rightarrow> (reply \<times> server) option" where
  "bitposCommand cfg addr s key bit_arg args =
     (case string2ll bit_arg of
        None \<Rightarrow> Some (not_an_integer, s)
      | Some bit' \<Rightarrow>
          if bit' \<noteq> 0 \<and> bit' \<noteq> 1 then Some (RError ''The bit argument must be 1 or 0.'', s)
          else do {
            (o', s) \<leftarrow> lookupKeyRead cfg s key;
            (case o' of
               None \<Rightarrow> Some (RInt (if bit' \<noteq> 0 then - 1 else 0), s)
             | Some (ObjString ob) \<Rightarrow>
                 (let p = getObjectReadOnlyString ob
                  in case bitposRange (int (length p)) args of
                       Inl r \<Rightarrow> Some (r, s)
                     | Inr (end_given, start, end) \<Rightarrow>
                         map_option (\<lambda>r. (r, s)) (bitposReply addr p bit' end_given start end))
             | Some _ \<Rightarrow> Some (RWrongType, s))
          })"

subsection \<open>BITFIELD\<close>

datatype bitfield_opcode = BITFIELDOP_GET | BITFIELDOP_SET | BITFIELDOP_INCRBY

record bitfieldOp =
  op_offset :: nat
  op_i64 :: int
  op_opcode :: bitfield_opcode
  op_owtype :: owtype
  op_bits :: nat
  op_sign :: bool

definition bitfieldSubcmd :: "byte list \<Rightarrow> nat \<Rightarrow> bitfield_opcode option" where
  "bitfieldSubcmd subcmd remargs =
     (if strcasecmp_eq subcmd [103, 101, 116] \<and> remargs \<ge> 2 then Some BITFIELDOP_GET
      else if strcasecmp_eq subcmd [115, 101, 116] \<and> remargs \<ge> 3 then Some BITFIELDOP_SET
      else if strcasecmp_eq subcmd [105, 110, 99, 114, 98, 121] \<and> remargs \<ge> 3 then Some BITFIELDOP_INCRBY
      else None)"

definition bitfieldOverflowType :: "byte list \<Rightarrow> owtype option" where
  "bitfieldOverflowType owtypename =
     (if strcasecmp_eq owtypename [119, 114, 97, 112] then Some BFOVERFLOW_WRAP
      else if strcasecmp_eq owtypename [115, 97, 116] then Some BFOVERFLOW_SAT
      else if strcasecmp_eq owtypename [102, 97, 105, 108] then Some BFOVERFLOW_FAIL
      else None)"

definition bitfieldOperands :: "bitfield_opcode \<Rightarrow> owtype \<Rightarrow> byte list list \<Rightarrow> reply + bitfieldOp" where
  "bitfieldOperands opcode ow args =
     (case getBitfieldTypeFromArgument (args ! 0) of
        None \<Rightarrow> Inl (RError ''Invalid bitfield type. Use something like i16 u8. Note that u64 is not supported but i64 is.'')
      | Some (sign, bits) \<Rightarrow>
          (case getBitOffsetFromArgument (args ! 1) True (int bits) of
             None \<Rightarrow> Inl bit_offset_error
           | Some bitoffset \<Rightarrow>
               (case (if opcode \<noteq> BITFIELDOP_GET then string2ll (args ! 2) else Some 0) of
                  None \<Rightarrow> Inl not_an_integer
                | Some i64 \<Rightarrow>
                    Inr \<lparr>op_offset = bitoffset, op_i64 = i64, op_opcode = opcode, op_owtype = ow, op_bits = bits, op_sign = sign\<rparr>)))"

function bitfieldParse ::
  "byte list list \<Rightarrow> owtype \<Rightarrow> bitfieldOp list \<Rightarrow> bool \<Rightarrow> nat \<Rightarrow> reply + bitfieldOp list \<times> bool \<times> nat" where
  "bitfieldParse [] ow ops readonly highest = Inr (ops, readonly, highest)"
| "bitfieldParse (subcmd # args) ow ops readonly highest =
     (case bitfieldSubcmd subcmd (length args) of
        None \<Rightarrow>
          if strcasecmp_eq subcmd [111, 118, 101, 114, 102, 108, 111, 119] \<and> length args \<ge> 1 then
            (case bitfieldOverflowType (args ! 0) of
               None \<Rightarrow> Inl (RError ''Invalid OVERFLOW type specified'')
             | Some ow \<Rightarrow> bitfieldParse (drop 1 args) ow ops readonly highest)
          else Inl (RError ''syntax error'')
      | Some opcode \<Rightarrow>
          (case bitfieldOperands opcode ow args of
             Inl err \<Rightarrow> Inl err
           | Inr op \<Rightarrow>
               if opcode = BITFIELDOP_GET then bitfieldParse (drop 2 args) ow (ops @ [op]) readonly highest
               else
                 let top = op_offset op + op_bits op - 1
                 in bitfieldParse (drop 3 args) ow (ops @ [op]) False (if highest < top then top else highest)))"
  by pat_completeness auto
termination by (relation "measure (\<lambda>(args, _). length args)") auto

text \<open>
  One operation on the bytes of the string.  \<open>RNull\<close> is the reply for an overflow that fails.
  A pointer that is not set by the check is not read.
\<close>

definition bitfieldSigned :: "byte list \<Rightarrow> bitfieldOp \<Rightarrow> (reply \<times> byte list) option" where
  "bitfieldSigned p op = do {
     oldval \<leftarrow> getSignedBitfield p (op_offset op) (op_bits op);
     (overflow, wrapped) \<leftarrow>
       (if op_opcode op = BITFIELDOP_INCRBY
        then checkSignedBitfieldOverflow oldval (op_i64 op) (op_bits op) (op_owtype op)
        else checkSignedBitfieldOverflow (op_i64 op) 0 (op_bits op) (op_owtype op));
     let newval = (if op_opcode op = BITFIELDOP_INCRBY then wrap64 (oldval + op_i64 op) else op_i64 op);
     if overflow \<noteq> 0 \<and> op_owtype op = BFOVERFLOW_FAIL then Some (RNull, p)
     else do {
       newval \<leftarrow> (if overflow \<noteq> 0 then wrapped else Some newval);
       let retval = (if op_opcode op = BITFIELDOP_INCRBY then newval else oldval);
       p \<leftarrow> setSignedBitfield p (op_offset op) (op_bits op) newval;
       Some (RInt retval, p)
     }
   }"

definition bitfieldUnsigned :: "byte list \<Rightarrow> bitfieldOp \<Rightarrow> (reply \<times> byte list) option" where
  "bitfieldUnsigned p op = do {
     oldval \<leftarrow> getUnsignedBitfield p (op_offset op) (op_bits op);
     (overflow, wrapped) \<leftarrow>
       (if op_opcode op = BITFIELDOP_INCRBY
        then checkUnsignedBitfieldOverflow oldval (op_i64 op) (op_bits op) (op_owtype op)
        else checkUnsignedBitfieldOverflow (word_of_int (op_i64 op)) 0 (op_bits op) (op_owtype op));
     let newval = (if op_opcode op = BITFIELDOP_INCRBY then oldval + word_of_int (op_i64 op) else word_of_int (op_i64 op));
     if overflow \<noteq> 0 \<and> op_owtype op = BFOVERFLOW_FAIL then Some (RNull, p)
     else do {
       newval \<leftarrow> (if overflow \<noteq> 0 then wrapped else Some newval);
       let retval = (if op_opcode op = BITFIELDOP_INCRBY then newval else oldval);
       p \<leftarrow> setUnsignedBitfield p (op_offset op) (op_bits op) newval;
       Some (RInt (sint retval), p)
     }
   }"

text \<open>GET copies nine bytes into a zeroed buffer, so that it may reach past the string.\<close>

definition bitfieldGet :: "byte list \<Rightarrow> bitfieldOp \<Rightarrow> reply option" where
  "bitfieldGet src op =
     (let byte = op_offset op div 8;
          copied = take 9 (drop byte src);
          buf = copied @ replicate (9 - length copied) 0;
          offset = op_offset op - byte * 8
      in if op_sign op then map_option RInt (getSignedBitfield buf offset (op_bits op))
         else map_option (\<lambda>val. RInt (sint val)) (getUnsignedBitfield buf offset (op_bits op)))"

text \<open>
  \<open>o'\<close> is the string object the operations work on, which is missing only if all of them
  read.  The number of operations that are not GET is counted, whether they wrote or not.
\<close>

fun bitfieldExec :: "string_obj option \<Rightarrow> bitfieldOp list \<Rightarrow> (reply list \<times> nat \<times> string_obj option) option" where
  "bitfieldExec o' [] = Some ([], 0, o')"
| "bitfieldExec o' (op # ops) =
     (if op_opcode op = BITFIELDOP_GET then do {
        r \<leftarrow> bitfieldGet (case o' of None \<Rightarrow> [] | Some ob \<Rightarrow> getObjectReadOnlyString ob) op;
        (rs, changes, o') \<leftarrow> bitfieldExec o' ops;
        Some (r # rs, changes, o')
      }
      else do {
        ob \<leftarrow> o';
        let str = obj_sds ob;
        (r, p) \<leftarrow> (if op_sign op then bitfieldSigned (sds_buf str) op else bitfieldUnsigned (sds_buf str) op);
        (rs, changes, o') \<leftarrow> bitfieldExec (Some (StrRaw (str\<lparr>sds_buf := p\<rparr>))) ops;
        Some (r # rs, changes + 1, o')
      })"

text \<open>The object the operations work on, or an error reply.\<close>

definition bitfieldLookup ::
  "'a server_config_scheme \<Rightarrow> nat \<Rightarrow> server \<Rightarrow> key \<Rightarrow> bool \<Rightarrow> bool \<Rightarrow> nat \<Rightarrow> ((reply + string_obj option) \<times> server) option" where
  "bitfieldLookup cfg refcount s key flag_readonly readonly highest =
     (if readonly then do {
        (o', s) \<leftarrow> lookupKeyRead cfg s key;
        Some (case o' of
           None \<Rightarrow> (Inr None, s)
         | Some (ObjString ob) \<Rightarrow> (Inr (Some ob), s)
         | Some _ \<Rightarrow> (Inl RWrongType, s))
      }
      else if flag_readonly then Some (Inl (RError ''BITFIELD_RO only supports the GET subcommand''), s)
      else do {
        (r, s) \<leftarrow> lookupStringForBitCommand cfg refcount s key highest;
        Some (case r of Inl err \<Rightarrow> (Inl err, s) | Inr str \<Rightarrow> (Inr (Some (StrRaw str)), s))
      })"

definition bitfieldGeneric ::
  "'a server_config_scheme \<Rightarrow> nat \<Rightarrow> server \<Rightarrow> key \<Rightarrow> byte list list \<Rightarrow> bool \<Rightarrow> (reply \<times> server) option" where
  "bitfieldGeneric cfg refcount s key args flag_readonly =
     (case bitfieldParse args BFOVERFLOW_WRAP [] True 0 of
        Inl err \<Rightarrow> Some (err, s)
      | Inr (ops, readonly, highest) \<Rightarrow> do {
          (r, s) \<leftarrow> bitfieldLookup cfg refcount s key flag_readonly readonly highest;
          (case r of
             Inl err \<Rightarrow> Some (err, s)
           | Inr o' \<Rightarrow> do {
               (rs, changes, o') \<leftarrow> bitfieldExec o' ops;
               if changes > 0 then do {
                 ob \<leftarrow> o';
                 let s = obj_update s key (ObjString ob);
                 let s = emit (Notify NOTIFY_STRING ''setbit'' key) (emit (SignalModified key) s);
                 Some (RArray rs, s\<lparr>dirty := dirty s + changes\<rparr>)
               }
               else Some (RArray rs, s)
             })
        })"

definition bitfieldCommand where "bitfieldCommand cfg refcount s key args = bitfieldGeneric cfg refcount s key args False"
definition bitfieldroCommand where "bitfieldroCommand cfg refcount s key args = bitfieldGeneric cfg refcount s key args True"

section \<open>BITOP\<close>

lemma le_bytes_nth: "i < n \<Longrightarrow> le_bytes n v ! i = word_of_int (v div 256 ^ i)"
proof (induction n arbitrary: v i)
  case (Suc n)
  show ?case
  proof (cases i)
    case (Suc k)
    then show ?thesis using Suc.prems Suc.IH [of k "v div 256"] by (simp add: zdiv_zmult2_eq)
  qed simp
qed simp

lemma bit_le_bytes: "i < n \<Longrightarrow> k < 8 \<Longrightarrow> bit (le_bytes n v ! i) k \<longleftrightarrow> bit v (8 * i + k)"
proof -
  assume a: "i < n" "k < 8"
  have "v div 256 ^ i = drop_bit (8 * i) v" by (simp add: drop_bit_eq_div power_mult)
  then show ?thesis using a by (simp add: le_bytes_nth bit_simps)
qed

lemma bit_load64: "8 \<le> length a \<Longrightarrow> i < 8 \<Longrightarrow> k < 8 \<Longrightarrow> bit (load64 a) (8 * i + k) \<longleftrightarrow> bit (a ! i) k"
  using bit_le_bytes [of i 8 k "le_uint (take 8 a)"] le_bytes_le_uint [of "take 8 a"]
  by (simp add: load64_def bit_simps)

lemma bit_bitop_word: "n < LENGTH('a :: len) \<Longrightarrow>
   bit (bitop_word op (a :: 'a word) b) n \<longleftrightarrow>
   (case op of BITOP_AND \<Rightarrow> bit a n \<and> bit b n | BITOP_OR \<Rightarrow> bit a n \<or> bit b n | BITOP_XOR \<Rightarrow> bit a n \<noteq> bit b n | BITOP_NOT \<Rightarrow> bit a n)"
  by (cases op) (auto simp: bit_simps)

lemma fastWord_nth:
  assumes "off + 8 \<le> length res" "off + 8 \<le> length src" "i < length res"
  shows "fastWord op src off res ! i = (if off \<le> i \<and> i < off + 8 then bitop_word op (res ! i) (src ! i) else res ! i)"
proof (cases "off \<le> i \<and> i < off + 8")
  case True
  define k where "k = i - off"
  have k: "k < 8" "i = off + k" using True by (auto simp: k_def)
  define w where "w = bitop_word op (load64 (drop off res)) (load64 (drop off src))"
  have "fastWord op src off res ! i = le_bytes 8 (uint w) ! k"
    using assms k by (simp add: fastWord_def write_at_def nth_append w_def)
  also have "\<dots> = bitop_word op (res ! i) (src ! i)"
  proof (rule bit_word_eqI)
    fix n assume n: "n < LENGTH(8)"
    then have "bit (le_bytes 8 (uint w) ! k) n = bit w (8 * k + n)" using k by (simp add: bit_le_bytes bit_simps)
    also have "\<dots> = bit (bitop_word op (res ! i) (src ! i)) n"
      using k n assms bit_load64 [of "drop off res" k n] bit_load64 [of "drop off src" k n]
      unfolding w_def by (subst (1 2) bit_bitop_word) (auto split: bitop.splits)
    finally show "bit (le_bytes 8 (uint w) ! k) n = bit (bitop_word op (res ! i) (src ! i)) n" .
  qed
  finally show ?thesis using True by simp
next
  case False
  then show ?thesis using assms by (auto simp: fastWord_def write_at_def nth_append)
qed

lemma fastNot_nth:
  assumes "off + 8 \<le> length res" "i < length res"
  shows "fastNot off res ! i = (if off \<le> i \<and> i < off + 8 then NOT (res ! i) else res ! i)"
proof (cases "off \<le> i \<and> i < off + 8")
  case True
  define k where "k = i - off"
  have k: "k < 8" "i = off + k" using True by (auto simp: k_def)
  define w where "w = NOT (load64 (drop off res))"
  have "fastNot off res ! i = le_bytes 8 (uint w) ! k"
    using assms k by (simp add: fastNot_def write_at_def nth_append w_def)
  also have "\<dots> = NOT (res ! i)"
  proof (rule bit_word_eqI)
    fix n assume n: "n < LENGTH(8)"
    then have "bit (le_bytes 8 (uint w) ! k) n = bit w (8 * k + n)" using k by (simp add: bit_le_bytes bit_simps)
    also have "\<dots> = bit (NOT (res ! i)) n"
      using k n assms bit_load64 [of "drop off res" k n] unfolding w_def by (auto simp: bit_simps)
    finally show "bit (le_bytes 8 (uint w) ! k) n = bit (NOT (res ! i)) n" .
  qed
  finally show ?thesis using True by simp
next
  case False
  then show ?thesis using assms by (auto simp: fastNot_def write_at_def nth_append)
qed

lemma length_fast [simp]:
  "off + 8 \<le> length res \<Longrightarrow> length (fastWord op src off res) = length res"
  "off + 8 \<le> length res \<Longrightarrow> length (fastNot off res) = length res"
  by (simp_all add: fastWord_def fastNot_def)

lemma fastSources_nth:
  "j + 32 \<le> length res \<Longrightarrow> \<forall>s \<in> set srcs. j + 32 \<le> length s \<Longrightarrow>
   length (fastSources op srcs j res) = length res \<and>
   (\<forall>i < length res. fastSources op srcs j res ! i =
      (if j \<le> i \<and> i < j + 32 then foldl (\<lambda>b s. bitop_word op b (s ! i)) (res ! i) srcs else res ! i))"
proof (induction srcs arbitrary: res)
  case (Cons src srcs)
  define r where "r = fastWord op src (j + 24) (fastWord op src (j + 16) (fastWord op src (j + 8) (fastWord op src j res)))"
  have l: "length r = length res" using Cons.prems by (simp add: r_def)
  have n: "r ! i = (if j \<le> i \<and> i < j + 32 then bitop_word op (res ! i) (src ! i) else res ! i)" if "i < length res" for i
    using that Cons.prems unfolding r_def by (simp add: fastWord_nth)
  show ?case using Cons.IH [of r] Cons.prems l n by (simp add: r_def [symmetric])
qed simp

declare fastLoop.simps [simp del] slowLoop.simps [simp del]

definition fastByte :: "bitop \<Rightarrow> byte list list \<Rightarrow> byte \<Rightarrow> nat \<Rightarrow> byte" where
  "fastByte op srcs b i = (if op = BITOP_NOT then NOT b else foldl (\<lambda>b s. bitop_word op b (s ! i)) b srcs)"

lemma fastLoop_spec:
  "fastLoop op srcs j minlen res = (j', res') \<Longrightarrow> j + minlen \<le> length res \<Longrightarrow> \<forall>s \<in> set srcs. j + minlen \<le> length s \<Longrightarrow>
   length res' = length res \<and> j \<le> j' \<and> j' \<le> j + minlen \<and>
   (\<forall>i < length res. res' ! i = (if j \<le> i \<and> i < j' then fastByte op srcs (res ! i) i else res ! i))"
proof (induction op srcs j minlen res arbitrary: j' res' rule: fastLoop.induct)
  case (1 op srcs j minlen res)
  show ?case
  proof (cases "minlen \<ge> 32")
    case False
    then show ?thesis using "1.prems"(1) by (subst (asm) fastLoop.simps) auto
  next
    case True
    define r where "r = (if op = BITOP_NOT then fastNot (j + 24) (fastNot (j + 16) (fastNot (j + 8) (fastNot j res))) else fastSources op srcs j res)"
    have l: "length r = length res \<and> (\<forall>i < length res. r ! i = (if j \<le> i \<and> i < j + 32 then fastByte op srcs (res ! i) i else res ! i))"
    proof (cases "op = BITOP_NOT")
      case op: True
      then show ?thesis using True "1.prems"(2) by (simp add: r_def fastNot_nth fastByte_def)
    next
      case op: False
      have "\<forall>s \<in> set srcs. j + 32 \<le> length s" using True "1.prems"(3) by fastforce
      then show ?thesis using op True "1.prems"(2) fastSources_nth [of j res srcs op] by (auto simp: r_def fastByte_def)
    qed
    have f: "fastLoop op srcs (j + 32) (minlen - 32) r = (j', res')" using "1.prems"(1) True by (subst (asm) fastLoop.simps) (simp add: r_def)
    have "length res' = length r \<and> j + 32 \<le> j' \<and> j' \<le> j + 32 + (minlen - 32) \<and>
        (\<forall>i < length r. res' ! i = (if j + 32 \<le> i \<and> i < j' then fastByte op srcs (r ! i) i else r ! i))"
      using "1.IH" [OF True, folded r_def, OF f] True "1.prems"(2,3) l by simp
    then show ?thesis using l True by auto
  qed
qed

lemma slowLoop_spec:
  "maxlen \<le> length res \<Longrightarrow> length (slowLoop op src j maxlen res) = length res \<and>
   (\<forall>i < length res. slowLoop op src j maxlen res ! i = (if j \<le> i \<and> i < maxlen then bitopByte op src i else res ! i))"
proof (induction op src j maxlen res rule: slowLoop.induct)
  case (1 op src j maxlen res)
  show ?case
  proof (cases "j < maxlen")
    case True
    then show ?thesis using 1 by (subst (1 2) slowLoop.simps) (auto simp: nth_list_update not_less_eq_eq le_less_Suc_eq dest: le_antisym)
  next
    case False
    then show ?thesis by (subst (1 2) slowLoop.simps) auto
  qed
qed

lemma foldl_cong_set: "(\<And>s b. s \<in> set xs \<Longrightarrow> f b s = g b s) \<Longrightarrow> foldl f a xs = foldl g a xs"
  by (induction xs arbitrary: a) auto

lemma bitopCompute_spec:
  assumes ne: "src \<noteq> []" and mn: "\<forall>s \<in> set src. minlen \<le> length s" "minlen \<le> maxlen" and nt: "op = BITOP_NOT \<longrightarrow> length src = 1"
  shows "bitopCompute op src minlen maxlen = map (bitopByte op src) [0..<maxlen]"
proof -
  obtain s0 rest where src: "src = s0 # rest" using ne by (cases src) auto
  define r0 where "r0 = write_at 0 (take minlen (src ! 0)) (replicate maxlen (0 :: byte))"
  have r0: "length r0 = maxlen" "\<And>i. i < minlen \<Longrightarrow> r0 ! i = s0 ! i"
    using mn src by (auto simp: r0_def write_at_def nth_append)
  have b: "fastByte op rest (s0 ! i) i = bitopByte op src i" if "i < minlen" for i
  proof -
    have "\<forall>s \<in> set src. \<not> length s \<le> i" using mn that by fastforce
    then show ?thesis
      using nt src by (cases op) (auto simp: fastByte_def bitopByte_def Let_def intro!: foldl_cong_set)
  qed
  obtain j res where p: "(if minlen \<ge> 32 \<and> length src \<le> 16 then fastLoop op (drop 1 src) 0 minlen r0 else (0, replicate maxlen 0)) = (j, res)" by fastforce
  have "length res = maxlen \<and> (\<forall>i < j. i < maxlen \<longrightarrow> res ! i = bitopByte op src i)"
  proof (cases "minlen \<ge> 32 \<and> length src \<le> 16")
    case True
    then have f: "fastLoop op rest 0 minlen r0 = (j, res)" using p src by simp
    have "length res = length r0 \<and> j \<le> minlen \<and> (\<forall>i < length r0. res ! i = (if i < j then fastByte op rest (r0 ! i) i else r0 ! i))"
      using fastLoop_spec [OF f] mn src r0(1) by auto
    then show ?thesis using b r0 by auto
  qed (use p in auto)
  moreover have "bitopCompute op src minlen maxlen = slowLoop op src j maxlen res"
    unfolding bitopCompute_def Let_def r0_def [symmetric] p by simp
  ultimately show ?thesis using slowLoop_spec [of maxlen res op src j]
    by (intro nth_equalityI) (auto simp: not_le)
qed

section \<open>Strings as bitmaps\<close>

definition byte_of :: "bool list \<Rightarrow> byte" where
  "byte_of bs = horner_sum of_bool 2 (rev bs)"

fun bytes_of :: "bool list \<Rightarrow> byte list" where
  "bytes_of (a # b # c # d # e # f # g # h # bs) = byte_of [a, b, c, d, e, f, g, h] # bytes_of bs"
| "bytes_of _ = []"

lemma byte_of_bits: "byte_of (byte_bits b) = b"
proof (rule bit_word_eqI)
  fix n assume "n < LENGTH(8)"
  then have n: "n < 8" by simp
  show "bit (byte_of (byte_bits b)) n = bit b n"
    unfolding byte_of_def bit_horner_sum_bit_word_iff using less_8_cases [OF n] by (elim disjE) (simp_all add: byte_bits_def)
qed

lemma bytes_of_bits_of [simp]: "bytes_of (bits_of p) = p"
proof (induction p)
  case (Cons b p)
  then show ?case using byte_of_bits [of b] by (simp add: byte_bits_def)
qed simp

lemma bits_of_inj: "bits_of p = bits_of q \<Longrightarrow> p = q"
  by (metis bytes_of_bits_of)

lemma bits_of_take: "bits_of (take n p) = take (8 * n) (bits_of p)"
proof (induction p arbitrary: n)
  case (Cons b p)
  then show ?case by (cases n) simp_all
qed simp

lemma bits_of_drop: "bits_of (drop n p) = drop (8 * n) (bits_of p)"
proof (induction p arbitrary: n)
  case (Cons b p)
  then show ?case by (cases n) simp_all
qed simp

text \<open>A write to the bits of the string leaves the rest of its buffer alone.\<close>

lemma sds_write_bits:
  assumes str: "sds_wf str" and p: "length p = length (sds_buf str)" "bits_of p = write_at off bs (bits_of (sds_buf str))"
    and off: "off + length bs \<le> 8 * sdslen str"
  shows "sds_wf (str\<lparr>sds_buf := p\<rparr>) \<and> bits_of (sds_val (str\<lparr>sds_buf := p\<rparr>)) = write_at off bs (bits_of (sds_val str)) \<and>
    sds_val (str\<lparr>sds_buf := p\<rparr>) = bytes_of (write_at off bs (bits_of (sds_val str)))"
proof -
  have l: "sdslen str < length (sds_buf str)" using str by (auto simp: sds_wf_def)
  have f: "sdslen (str\<lparr>sds_buf := p\<rparr>) = sdslen str" "sdsalloc (str\<lparr>sds_buf := p\<rparr>) = sdsalloc str"
    by (simp_all add: sdslen_def sdsalloc_def)
  have "bits_of (drop (sdslen str) p) = bits_of (drop (sdslen str) (sds_buf str))"
    using off l by (simp add: bits_of_drop p(2) write_at_def)
  then have d: "drop (sdslen str) p = drop (sdslen str) (sds_buf str)" by (rule bits_of_inj)
  have "p ! sdslen str = sds_buf str ! sdslen str"
    using hd_drop_conv_nth [of "sdslen str" p] hd_drop_conv_nth [of "sdslen str" "sds_buf str"] d l p(1) by simp
  then have w: "sds_wf (str\<lparr>sds_buf := p\<rparr>)" using str f p(1) by (simp add: sds_wf_def)
  have b: "bits_of (sds_val (str\<lparr>sds_buf := p\<rparr>)) = write_at off bs (bits_of (sds_val str))"
    using off l f by (cases "off = 8 * sdslen str") (simp_all add: sds_val_def bits_of_take p(2) write_at_def min_def take_drop)
  then show ?thesis using w bytes_of_bits_of by metis
qed

definition string_at :: "(key \<rightharpoonup> avalue) \<Rightarrow> key \<Rightarrow> byte list option" where
  "string_at V key = (case V key of None \<Rightarrow> Some [] | Some (AStr b) \<Rightarrow> Some b | Some _ \<Rightarrow> None)"

definition grow :: "byte list \<Rightarrow> nat \<Rightarrow> byte list" where
  "grow b n = b @ replicate (n - length b) 0"

lemma string_at_None: "string_at (map_option obj_abs \<circ> V) key = None \<longleftrightarrow> (\<exists>v. V key = Some v \<and> (\<forall>ob. v \<noteq> ObjString ob))"
  by (cases "V key"; cases "the (V key)") (auto simp: string_at_def)

lemma string_at_Some:
  "string_at (map_option obj_abs \<circ> V) key = Some b \<longleftrightarrow> V key = None \<and> b = [] \<or> (\<exists>ob. V key = Some (ObjString ob) \<and> b = str_val ob)"
  by (cases "V key"; cases "the (V key)") (auto simp: string_at_def)

lemma kstate_lookupString:
  assumes k: "kstate cfg n K s V E" and m: "\<not> masterhost cfg" "n < 2 ^ 60" and mb: "maxbit div 8 < 2 ^ 60"
    and b: "string_at (map_option obj_abs \<circ> V) key = Some b"
  shows "\<exists>str s'. lookupStringForBitCommand cfg rc s key maxbit = Some (Inr str, s') \<and> sds_wf str \<and> sds_val str = grow b (maxbit div 8 + 1) \<and>
    kstate cfg (Suc n) (insert key K) s' (V(key \<mapsto> ObjString (StrRaw str))) E"
proof -
  obtain s1 where s1: "lookupKeyWrite cfg s key = Some (V key, s1)" "kstate cfg n (insert key K) s1 V E"
    using kstate_lookupKeyWrite [OF k m(1), of key] by auto
  define len where "len = maxbit div 8 + 1"
  from b consider (none) "V key = None" "b = []" | (str) ob where "V key = Some (ObjString ob)" "b = str_val ob"
    unfolding string_at_Some by auto
  then show ?thesis
  proof cases
    case none
    define str where "str = sdsnewlen None len"
    have str: "sds_wf str" "sds_val str = grow b len" using sdsnewlen_spec [of len None] mb none by (simp_all add: str_def len_def grow_def)
    obtain s2 where "dbAdd cfg s1 key (ObjString (StrRaw str)) = Some s2" "kstate cfg (Suc n) (insert key K) s2 (V(key \<mapsto> ObjString (StrRaw str))) E"
      using kstate_dbAdd [OF s1(2) _ none(1), of "ObjString (StrRaw str)"] m(2) str by auto
    then show ?thesis using s1(1) none str by (simp add: lookupStringForBitCommand_def Let_def len_def str_def)
  next
    case st: str
    obtain r s2 where s2: "dbUnshareStringValue rc s1 key ob = Some (StrRaw r, s2)"
        "kstate cfg n (insert key K) s2 (V(key \<mapsto> ObjString (StrRaw r))) E" "sds_wf r" "sds_val r = str_val ob"
      using kstate_unshare [OF s1(2) _ st(1), of rc] by auto
    define str where "str = sdsgrowzero r len"
    have str: "sds_wf str" "sds_val str = grow b len"
      using sdsgrowzero_spec [OF s2(3), of len] mb s2(3,4) st(2) length_sds_val [OF s2(3)] by (simp_all add: str_def len_def grow_def)
    have "kstate cfg n (insert key K) (obj_update s2 key (ObjString (StrRaw str))) (V(key \<mapsto> ObjString (StrRaw str))) E"
      using kstate_update [OF s2(2), of key "ObjString (StrRaw str)"] str(1) by simp
    then have "kstate cfg (Suc n) (insert key K) (obj_update s2 key (ObjString (StrRaw str))) (V(key \<mapsto> ObjString (StrRaw str))) E"
      by (rule kstate_mono) auto
    then show ?thesis using s1(1) st(1) s2(1) str by (simp add: lookupStringForBitCommand_def Let_def len_def str_def)
  qed
qed

lemma kstate_lookupString_other:
  assumes k: "kstate cfg n K s V E" and m: "\<not> masterhost cfg" and b: "string_at (map_option obj_abs \<circ> V) key = None"
  shows "\<exists>s'. lookupStringForBitCommand cfg rc s key maxbit = Some (Inl RWrongType, s') \<and> kstate cfg n (insert key K) s' V E"
proof -
  obtain s1 where s1: "lookupKeyWrite cfg s key = Some (V key, s1)" "kstate cfg n (insert key K) s1 V E"
    using kstate_lookupKeyWrite [OF k m(1), of key] by auto
  obtain v where "V key = Some v" "\<forall>ob. v \<noteq> ObjString ob" using b unfolding string_at_None by blast
  then show ?thesis using s1 by (cases v) (simp_all add: lookupStringForBitCommand_def)
qed

subsection \<open>SETBIT and GETBIT\<close>

definition setbit_spec :: "key \<Rightarrow> byte list \<Rightarrow> byte list \<Rightarrow> astate \<Rightarrow> reply \<times> astate" where
  "setbit_spec key offset_arg on_arg = (\<lambda>(V, E).
     case getBitOffsetFromArgument offset_arg False 0 of
       None \<Rightarrow> (bit_offset_error, V, E)
     | Some off \<Rightarrow>
         if string2ll on_arg \<notin> {Some 0, Some 1} then (setbit_error, V, E)
         else
           (case string_at V key of
              None \<Rightarrow> (RWrongType, V, E)
            | Some b \<Rightarrow>
                let bits = bits_of (grow b (off div 8 + 1))
                in (RInt (of_bool (bits ! off)), V(key \<mapsto> AStr (bytes_of (bits[off := string2ll on_arg = Some 1]))), E)))"

definition getbit_spec :: "key \<Rightarrow> byte list \<Rightarrow> astate \<Rightarrow> reply \<times> astate" where
  "getbit_spec key offset_arg = (\<lambda>(V, E).
     case getBitOffsetFromArgument offset_arg False 0 of
       None \<Rightarrow> (bit_offset_error, V, E)
     | Some off \<Rightarrow>
         (case string_at V key of
            None \<Rightarrow> (RWrongType, V, E)
          | Some b \<Rightarrow> (RInt (of_bool (off < 8 * length b \<and> bits_of b ! off)), V, E)))"

lemma getBitOffset_bound: "getBitOffsetFromArgument arg hash bits = Some off \<Longrightarrow> off div 8 < 2 ^ 29"
  by (auto simp: getBitOffsetFromArgument_def Let_def split: option.splits if_splits)

lemma and_not_1: "(on :: int) AND - 2 = 0 \<longleftrightarrow> on = 0 \<or> on = 1"
proof -
  have "drop_bit 1 (on AND - 2) = on div 2" by (simp only: drop_bit_and) (simp add: drop_bit_eq_div)
  then have "on div 2 = 0" if "on AND - 2 = 0" using that by simp
  then show ?thesis by auto
qed

lemma write_at_1: "i < length xs \<Longrightarrow> write_at i [x] xs = xs[i := x]"
  by (simp add: write_at_def upd_conv_take_nth_drop)

lemma setbit_bits:
  assumes str: "sds_wf str" "off < 8 * sdslen str"
    and b': "b' = sds_buf str ! (off div 8) AND NOT (push_bit (7 - off mod 8) 1) OR push_bit (7 - off mod 8) (of_bool v)"
  shows "sds_wf (put_byte (off div 8) b' str) \<and> sds_val (put_byte (off div 8) b' str) = bytes_of ((bits_of (sds_val str))[off := v]) \<and>
    (sds_buf str ! (off div 8) AND push_bit (7 - off mod 8) 1 \<noteq> 0 \<longleftrightarrow> bits_of (sds_val str) ! off)"
proof -
  have l: "sdslen str \<le> length (sds_buf str)" using str by (auto simp: sds_wf_def)
  have "bit b' j = (if j = 7 - off mod 8 then v else bit (sds_buf str ! (off div 8)) j)" if "j < 8" for j
    using that by (auto simp: b' bit_simps)
  then have "bits_of ((sds_buf str)[off div 8 := b']) = (bits_of (sds_buf str))[off := v]"
    using str(2) l by (intro bits_of_update) auto
  also have "\<dots> = write_at off [v] (bits_of (sds_buf str))" using str(2) l by (simp add: write_at_1)
  finally have w: "bits_of ((sds_buf str)[off div 8 := b']) = write_at off [v] (bits_of (sds_buf str))" .
  have "bits_of (sds_val str) ! off = bits_of (sds_buf str) ! off" using str(2) l by (simp add: sds_val_def bits_of_take)
  also have "\<dots> = bit (sds_buf str ! (off div 8)) (7 - off mod 8)" using str(2) l by (intro bits_of_nth) simp
  also have "\<dots> \<longleftrightarrow> sds_buf str ! (off div 8) AND push_bit (7 - off mod 8) 1 \<noteq> 0"
    using and_exp_eq_0_iff_not_bit [of "sds_buf str ! (off div 8)" "7 - off mod 8"] by simp
  finally have g: "bits_of (sds_val str) ! off \<longleftrightarrow> sds_buf str ! (off div 8) AND push_bit (7 - off mod 8) 1 \<noteq> 0" .
  have "off < length (bits_of (sds_val str))" using str by simp
  then show ?thesis
    using sds_write_bits [OF str(1) _ w] str(2) g write_at_1 [of off "bits_of (sds_val str)" v] by (simp add: put_byte_def)
qed

lemma setbitCommand_spec:
  assumes w: "db_wf cfg s" "\<not> masterhost cfg" "db_room s"
  shows "refines cfg s (setbitCommand cfg rc s key offset_arg on_arg) (setbit_spec key offset_arg on_arg)"
proof -
  from w(1,3) obtain n V E where k0: "kstate cfg n {} s V E" "n < 2 ^ 60" "view cfg s = (map_option obj_abs \<circ> V, E)"
    by (rule refines_start)
  show ?thesis
  proof (cases "getBitOffsetFromArgument offset_arg False 0 = None \<or> string2ll on_arg \<notin> {Some 0, Some 1}")
    case True
    then have "setbitCommand cfg rc s key offset_arg on_arg =
        Some (if getBitOffsetFromArgument offset_arg False 0 = None then bit_offset_error else setbit_error, s)"
      by (auto simp: setbitCommand_def and_not_1 split: option.splits)
    then show ?thesis using True k0(1)
      by (intro refinesI [OF k0(1), where V' = V and E' = E and K' = "{}"]) (auto simp: setbit_spec_def split: option.splits)
  next
    case False
    then obtain off v where off: "getBitOffsetFromArgument offset_arg False 0 = Some off" and v: "string2ll on_arg = Some (of_bool v)"
      by (cases "string2ll on_arg = Some 1") auto
    have ob: "off div 8 < 2 ^ 60" using getBitOffset_bound [OF off] by simp
    have a1: "of_bool v AND NOT 1 = (0 :: int)" "word_of_int (of_bool v AND 1) = (of_bool v :: byte)" by (cases v; simp)+
    show ?thesis
    proof (cases "string_at (map_option obj_abs \<circ> V) key")
      case None
      obtain s1 where "lookupStringForBitCommand cfg rc s key off = Some (Inl RWrongType, s1)" "kstate cfg n {key} s1 V E"
        using kstate_lookupString_other [OF k0(1) w(2) None, of rc off] by blast
      then show ?thesis using off v a1(1) None
        by (intro refinesI [OF k0(1), where V' = V and E' = E]) (auto simp: setbitCommand_def setbit_spec_def)
    next
      case (Some b)
      obtain str s1 where s1: "lookupStringForBitCommand cfg rc s key off = Some (Inr str, s1)" "sds_wf str" "sds_val str = grow b (off div 8 + 1)"
          "kstate cfg (Suc n) {key} s1 (V(key \<mapsto> ObjString (StrRaw str))) E"
        using kstate_lookupString [OF k0(1) w(2) k0(2) ob Some, of rc] by blast
      have "sdslen str = length (grow b (off div 8 + 1))" using s1(2,3) length_sds_val by metis
      then have l: "off < 8 * sdslen str" by (simp add: grow_def)
      define b' where "b' = sds_buf str ! (off div 8) AND NOT (push_bit (7 - off mod 8) 1) OR push_bit (7 - off mod 8) (of_bool v)"
      define str' where "str' = put_byte (off div 8) b' str"
      have str': "sds_wf str'" "sds_val str' = bytes_of ((bits_of (sds_val str))[off := v])"
          "sds_buf str ! (off div 8) AND push_bit (7 - off mod 8) 1 \<noteq> 0 \<longleftrightarrow> bits_of (sds_val str) ! off"
        using setbit_bits [OF s1(2) l b'_def] by (simp_all add: str'_def)
      have k2: "kstate cfg (Suc n) {key} (obj_update s1 key (ObjString (StrRaw str'))) (V(key \<mapsto> ObjString (StrRaw str'))) E"
        using kstate_update [OF s1(4), of key "ObjString (StrRaw str')"] str'(1) by simp
      have "\<exists>s'. setbitCommand cfg rc s key offset_arg on_arg = Some (RInt (of_bool (bits_of (sds_val str) ! off)), s') \<and>
          kstate cfg (Suc n) {key} s' (V(key \<mapsto> ObjString (StrRaw str'))) E"
        using off v a1 s1(1) k2 str'(3) unfolding str'_def b'_def by (cases v) (simp_all add: setbitCommand_def Let_def cone_def czero_def)
      moreover have "string2ll on_arg = Some 1 \<longleftrightarrow> v" "string2ll on_arg \<in> {Some 0, Some 1}" using v by (cases v; simp)+
      ultimately show ?thesis using off Some str'(2) s1(3)
        by (intro refinesI [OF k0(1)]) (auto simp: setbit_spec_def Let_def)
    qed
  qed
qed

lemma getObjectReadOnlyString_val: "str_wf ob \<Longrightarrow> getObjectReadOnlyString ob = str_val ob"
proof (cases ob)
  case (StrInt v)
  moreover assume "str_wf ob"
  ultimately have v: "in_i64 v" by simp
  show ?thesis
    using StrInt ll2string_spec [OF v, of 21 "replicate 21 0"] dec_bytes_length [OF v]
    by (auto simp: getObjectReadOnlyString_def LONG_STR_SIZE_def write_at_def)
qed (simp_all add: getObjectReadOnlyString_def sds_val_def)

text \<open>The bytes GETBIT looks at.\<close>

lemma getbit_buffer:
  assumes "str_wf ob" "(len, buf) = (case ob of StrInt v \<Rightarrow> ll2string (replicate 32 0) 32 v | _ \<Rightarrow> (sdslen (obj_sds ob), sds_buf (obj_sds ob)))"
  shows "len \<le> length buf \<and> take len buf = str_val ob"
proof (cases ob)
  case (StrInt v)
  then have v: "in_i64 v" using assms(1) by simp
  show ?thesis
    using StrInt assms(2) ll2string_spec [OF v, of 32 "replicate 32 0"] dec_bytes_length [OF v] by (auto simp: write_at_def)
next
  case (StrEmb x)
  then show ?thesis using assms by (auto simp: sds_val_def sds_wf_def)
next
  case (StrRaw x)
  then show ?thesis using assms by (auto simp: sds_val_def sds_wf_def)
qed

lemma getbit_value:
  assumes "len \<le> length buf"
  shows "(if off div 8 < len then buf ! (off div 8) AND push_bit (7 - off mod 8) 1 else 0) \<noteq> 0 \<longleftrightarrow>
    off < 8 * length (take len buf) \<and> bits_of (take len buf) ! off"
proof -
  have "off div 8 < len \<longleftrightarrow> off < 8 * len" by (simp add: div_less_iff_less_mult mult.commute)
  moreover have "buf ! (off div 8) AND push_bit (7 - off mod 8) 1 \<noteq> 0 \<longleftrightarrow> bits_of (take len buf) ! off" if "off < 8 * len"
  proof -
    have "bits_of (take len buf) ! off = bits_of buf ! off" using that assms by (simp add: bits_of_take)
    also have "\<dots> = bit (buf ! (off div 8)) (7 - off mod 8)" using that assms by (intro bits_of_nth) simp
    finally show ?thesis using and_exp_eq_0_iff_not_bit [of "buf ! (off div 8)" "7 - off mod 8"] by simp
  qed
  ultimately show ?thesis using assms by (auto simp: min_def)
qed

lemma getbitCommand_spec:
  assumes w: "db_wf cfg s" "\<not> masterhost cfg"
  shows "refines cfg s (getbitCommand cfg s key offset_arg) (getbit_spec key offset_arg)"
proof -
  note k0 = kstateI [OF w(1)]
  define V where "V = live_val cfg s"
  define E where "E = live_exp cfg s"
  have k0: "kstate cfg (card (dom (ks_val s))) {} s V E" using kstateI [OF w(1)] by (simp add: V_def E_def)
  obtain s1 where s1: "lookupKeyRead cfg s key = Some (V key, s1)" "kstate cfg (card (dom (ks_val s))) {key} s1 V E"
    using kstate_lookupKeyRead [OF k0 w(2), of key] by auto
  show ?thesis
  proof (cases "getBitOffsetFromArgument offset_arg False 0")
    case None
    then show ?thesis using k0
      by (intro refinesI [OF k0, where V' = V and E' = E and K' = "{}"]) (auto simp: getbitCommand_def getbit_spec_def)
  next
    case (Some off)
    consider (other) v where "V key = Some v" "\<forall>ob. v \<noteq> ObjString ob" | (missing) "V key = None" | (str) ob where "V key = Some (ObjString ob)"
      by (cases "V key"; cases "the (V key)") auto
    then show ?thesis
    proof cases
      case other
      then show ?thesis using s1 Some
        by (cases v) (auto intro!: refinesI [OF k0, where V' = V and E' = E] simp: getbitCommand_def getbit_spec_def string_at_def)
    next
      case missing
      then show ?thesis using s1 Some
        by (auto intro!: refinesI [OF k0, where V' = V and E' = E] simp: getbitCommand_def getbit_spec_def string_at_def czero_def)
    next
      case (str ob)
      obtain len buf where lb: "(len, buf) = (case ob of StrInt v \<Rightarrow> ll2string (replicate 32 0) 32 v | _ \<Rightarrow> (sdslen (obj_sds ob), sds_buf (obj_sds ob)))"
        by (metis surj_pair)
      have t: "len \<le> length buf" "take len buf = str_val ob"
        using getbit_buffer [OF _ lb] kstate_obj [OF s1(2) str] by simp_all
      have "getbitCommand cfg s key offset_arg = Some (RInt (of_bool (off < 8 * length (str_val ob) \<and> bits_of (str_val ob) ! off)), s1)"
        using s1(1) Some str getbit_value [OF t(1), of off] unfolding t(2)
        by (simp add: getbitCommand_def Let_def lb [symmetric] cone_def czero_def)
      then show ?thesis using s1(2) Some str
        by (intro refinesI [OF k0, where V' = V and E' = E and K' = "{key}"]) (auto simp: getbit_spec_def string_at_def)
    qed
  qed
qed

subsection \<open>BITOP on keys\<close>

fun bitop_bit :: "bitop \<Rightarrow> bool list \<Rightarrow> bool" where
  "bitop_bit BITOP_AND bs = list_all (\<lambda>b. b) bs"
| "bitop_bit BITOP_OR bs = list_ex (\<lambda>b. b) bs"
| "bitop_bit BITOP_XOR bs = odd (count_list bs True)"
| "bitop_bit BITOP_NOT bs = (\<not> hd bs)"

definition longest :: "byte list list \<Rightarrow> nat" where
  "longest srcs = foldr max (map length srcs) 0"

text \<open>The bits of the result, with zero bits after the end of the shorter strings.\<close>

definition bitop_bits :: "bitop \<Rightarrow> byte list list \<Rightarrow> bool list" where
  "bitop_bits op srcs =
     map (\<lambda>i. bitop_bit op (map (\<lambda>s. i < 8 * length s \<and> bits_of s ! i) srcs)) [0..<8 * longest srcs]"

lemma bit_foldl_bitop:
  "op \<noteq> BITOP_NOT \<Longrightarrow> n < 8 \<Longrightarrow> bit (foldl (bitop_word op) b bs :: byte) n = bitop_bit op (bit b n # map (\<lambda>c. bit c n) bs)"
proof (induction bs arbitrary: b)
  case (Cons c bs)
  then show ?case by (cases op) (auto simp: bit_simps)
qed (cases op, simp_all)

lemma foldl_map: "foldl f a (map g xs) = foldl (\<lambda>b x. f b (g x)) a xs"
  by (induction xs arbitrary: a) auto

lemma bitopByte_bit:
  assumes "src \<noteq> []" "op = BITOP_NOT \<longrightarrow> length src = 1" "i < 8 * n"
  shows "bit (bitopByte op src (i div 8)) (7 - i mod 8) = bitop_bit op (map (\<lambda>s. i < 8 * length s \<and> bits_of s ! i) src)"
proof -
  define at where "at = (\<lambda>s. if length s \<le> i div 8 then 0 else s ! (i div 8) :: byte)"
  have at: "bit (at s) (7 - i mod 8) = (i < 8 * length s \<and> bits_of s ! i)" for s
  proof -
    have "length s \<le> i div 8 \<longleftrightarrow> \<not> i < 8 * length s" by (simp add: not_less less_eq_div_iff_mult_less_eq mult.commute)
    then show ?thesis using bits_of_nth [of i s] by (simp add: at_def)
  qed
  obtain s0 rest where src: "src = s0 # rest" using assms(1) by (cases src) auto
  show ?thesis
  proof (cases "op = BITOP_NOT")
    case True
    then have "bitopByte op src (i div 8) = NOT (at s0)" using assms(2) src by (simp add: bitopByte_def at_def)
    moreover have "7 - i mod 8 < 8" by (rule le_less_trans [of _ 7]) simp_all
    ultimately show ?thesis using True src at [of s0] by (simp add: bit_simps)
  next
    case False
    have "bitopByte op src (i div 8) = foldl (bitop_word op) (at s0) (map at rest)"
      using False src by (simp add: bitopByte_def foldl_map Let_def at_def [symmetric])
    then show ?thesis using bit_foldl_bitop [OF False, of "7 - i mod 8" "at s0" "map at rest"] src at by (simp add: comp_def)
  qed
qed

lemma bitop_result:
  assumes "src \<noteq> []" "op = BITOP_NOT \<longrightarrow> length src = 1"
  shows "map (bitopByte op src) [0..<longest src] = bytes_of (bitop_bits op src)"
proof -
  have "bits_of (map (bitopByte op src) [0..<longest src]) = bitop_bits op src"
  proof (rule nth_equalityI)
    fix i assume "i < length (bits_of (map (bitopByte op src) [0..<longest src]))"
    then have i: "i < 8 * longest src" "i div 8 < longest src" by (simp_all add: less_mult_imp_div_less mult.commute)
    then show "bits_of (map (bitopByte op src) [0..<longest src]) ! i = bitop_bits op src ! i"
      using bits_of_nth [of i "map (bitopByte op src) [0..<longest src]"] bitopByte_bit [OF assms i(1)] by (simp add: bitop_bits_def)
  qed (simp add: bitop_bits_def)
  then show ?thesis by (metis bytes_of_bits_of)
qed

definition bitop_spec :: "byte list \<Rightarrow> key \<Rightarrow> key list \<Rightarrow> astate \<Rightarrow> reply \<times> astate" where
  "bitop_spec opname target keys = (\<lambda>(V, E).
     case bitopName opname of
       None \<Rightarrow> (RError ''syntax error'', V, E)
     | Some op \<Rightarrow>
         if op = BITOP_NOT \<and> length keys \<noteq> 1 then (RError ''BITOP NOT must be called with a single source key.'', V, E)
         else if \<exists>k \<in> set keys. string_at V k = None then (RWrongType, V, E)
         else
           let srcs = map (\<lambda>k. the (string_at V k)) keys
           in (RInt (int (longest srcs)),
               V(target := if longest srcs = 0 then None else Some (AStr (bytes_of (bitop_bits op srcs)))), E(target := None)))"

lemma longest_append [simp]: "longest (xs @ ys) = max (longest xs) (longest ys)"
  by (induction xs) (auto simp: longest_def)

lemma longest_simps [simp]: "longest [] = 0" "longest (x # xs) = max (length x) (longest xs)"
  by (simp_all add: longest_def)

lemma str_val_length: "str_wf ob \<Longrightarrow> length (str_val ob) < 2 ^ 64"
proof (cases ob)
  case (StrInt v)
  then show "str_wf ob \<Longrightarrow> ?thesis" using dec_bytes_length [of v] by simp
next
  case (StrEmb x)
  then show "str_wf ob \<Longrightarrow> ?thesis" using sds_bits_le [of "sdslen x" "sds_type x"] by (simp add: sds_wf_def)
next
  case (StrRaw x)
  then show "str_wf ob \<Longrightarrow> ?thesis" using sds_bits_le [of "sdslen x" "sds_type x"] by (simp add: sds_wf_def)
qed

lemma decoded_bytes:
  assumes "str_wf ob"
  shows "sdslen (obj_sds (getDecodedObject ob)) = length (str_val ob) \<and>
    take (length (str_val ob)) (sds_buf (obj_sds (getDecodedObject ob))) = str_val ob"
proof -
  have "sds_wf (obj_sds (getDecodedObject ob))" "sds_val (obj_sds (getDecodedObject ob)) = str_val ob"
    using getDecodedObject_spec [OF assms] obj_sds_val [of "getDecodedObject ob"] by simp_all
  then show ?thesis using length_sds_val [of "obj_sds (getDecodedObject ob)"] by (metis sds_val_def)
qed

definition load_result ::
  "(key \<rightharpoonup> avalue) \<Rightarrow> key list \<Rightarrow> byte list list \<Rightarrow> reply + byte list list \<times> nat \<times> nat \<Rightarrow> bool" where
  "load_result A keys src r \<longleftrightarrow>
     (if \<exists>k \<in> set keys. string_at A k = None then r = Inl RWrongType
      else \<exists>mn. r = Inr (src @ map (\<lambda>k. the (string_at A k)) keys, mn, longest (src @ map (\<lambda>k. the (string_at A k)) keys)) \<and>
        (\<forall>v \<in> set (src @ map (\<lambda>k. the (string_at A k)) keys). mn \<le> length v))"

lemma load_result_Cons: "string_at A key = Some b \<Longrightarrow> load_result A (key # keys) src r = load_result A keys (src @ [b]) r"
  by (cases "\<exists>k \<in> set keys. string_at A k = None") (force simp: load_result_def)+

lemma bitopLoad_spec:
  assumes A: "A = map_option obj_abs \<circ> V" and k: "kstate cfg n K s V E" and m: "\<not> masterhost cfg"
    and inv: "j = length src" "\<forall>v \<in> set src. minlen \<le> length v" "maxlen = longest src"
  shows "\<exists>s' K' r. bitopLoad cfg s j keys minlen maxlen src = Some (r, s') \<and> kstate cfg n K' s' V E \<and> load_result A keys src r"
  using k inv
proof (induction keys arbitrary: s K j minlen maxlen src)
  case Nil
  then show ?case by (auto simp: load_result_def)
next
  case (Cons key keys)
  obtain s1 where s1: "lookupKeyRead cfg s key = Some (V key, s1)" "kstate cfg n (insert key K) s1 V E"
    using kstate_lookupKeyRead [OF Cons.prems(1) m, of key] by auto
  show ?case
  proof (cases "string_at A key")
    case None
    then obtain v where "V key = Some v" "\<forall>ob. v \<noteq> ObjString ob" unfolding A string_at_None by auto
    then have "bitopLoad cfg s j (key # keys) minlen maxlen src = Some (Inl RWrongType, s1)" using s1(1) by (cases v) simp_all
    moreover have "load_result A (key # keys) src (Inl RWrongType)" using None by (simp add: load_result_def)
    ultimately show ?thesis using s1(2) by blast
  next
    case (Some b)
    define mn where "mn = (if V key = None then 0 else if j = 0 \<or> length b < minlen then length b else minlen)"
    define mx where "mx = max maxlen (length b)"
    have l: "bitopLoad cfg s j (key # keys) minlen maxlen src = bitopLoad cfg s1 (Suc j) keys mn mx (src @ [b])"
      using Some s1(1) decoded_bytes kstate_obj [OF s1(2), of key] unfolding A string_at_Some
      by (auto simp: mn_def mx_def max_def Let_def)
    have b: "V key = None \<Longrightarrow> b = []" using Some unfolding A string_at_Some by auto
    have "\<forall>v \<in> set (src @ [b]). mn \<le> length v" using Cons.prems(2,3) b by (auto simp: mn_def)
    from Cons.IH [OF s1(2) _ this, of "Suc j" mx] Cons.prems(2,4)
    show ?thesis unfolding l load_result_Cons [OF Some] by (simp add: mx_def)
  qed
qed

lemma bitopStore_spec:
  assumes k: "kstate cfg n K s V E" and m: "\<not> masterhost cfg" "n < 2 ^ 60" and res: "length res = maxlen" "maxlen < 2 ^ 64"
  shows "\<exists>s' v. bitopStore cfg s target res maxlen = Some s' \<and> kstate cfg (Suc n) (insert target K) s' (V(target := v)) (E(target := None)) \<and>
    map_option obj_abs v = (if maxlen = 0 then None else Some (AStr res))"
proof (cases "maxlen = 0")
  case True
  obtain b s1 where s1: "dbDelete cfg s target = Some (b, s1)" "kstate cfg n (insert target K) s1 (V(target := None)) (E(target := None))"
    using kstate_dbDelete [OF k, of target] by blast
  have "kstate cfg (Suc n) (insert target K) s1 (V(target := None)) (E(target := None))" by (rule kstate_mono [OF s1(2)]) auto
  then have "\<exists>s'. bitopStore cfg s target res maxlen = Some s' \<and> kstate cfg (Suc n) (insert target K) s' (V(target := None)) (E(target := None))"
    using True s1(1) by (cases b) (simp_all add: bitopStore_def)
  then show ?thesis using True by force
next
  case False
  define str where "str = put_bytes 0 res (sdsnewlen None maxlen)"
  have n: "sds_wf (sdsnewlen None maxlen)" "sds_val (sdsnewlen None maxlen) = replicate maxlen 0"
    using sdsnewlen_spec [of maxlen None] res(2) by simp_all
  then have l: "sdslen (sdsnewlen None maxlen) = maxlen" "maxlen < length (sds_buf (sdsnewlen None maxlen))"
    using length_sds_val [OF n(1)] by (auto simp: sds_wf_def)
  have str: "sds_wf str" "sds_val str = res"
    using n l res(1) by (simp_all add: str_def sds_wf_def sds_val_def write_at_def nth_append)
  obtain s1 where s1: "setKey cfg s target (ObjString (StrRaw str)) = Some s1"
      "kstate cfg (Suc n) (insert target K) s1 (V(target \<mapsto> ObjString (StrRaw str))) (E(target := None))"
    using kstate_setKey [OF k m(1) _ m(2), of "ObjString (StrRaw str)" target False True] str(1) by (auto simp: setKey_def)
  then show ?thesis using False str by (intro exI [of _ "Some (ObjString (StrRaw str))"] exI) (auto simp: bitopStore_def str_def)
qed

lemma bitop_apply:
  assumes k: "kstate cfg n K s V E" and m: "\<not> masterhost cfg" "n < 2 ^ 60" and op: "op = BITOP_NOT \<longrightarrow> length srcs = 1"
    and mn: "\<forall>v \<in> set srcs. mn \<le> length v" and ne: "srcs \<noteq> []" and lg: "\<forall>v \<in> set srcs. length v < 2 ^ 64"
  shows "\<exists>s' v. bitopStore cfg s target (bitopCompute op srcs mn (longest srcs)) (longest srcs) = Some s' \<and>
    kstate cfg (Suc n) (insert target K) s' (V(target := v)) (E(target := None)) \<and>
    map_option obj_abs v = (if longest srcs = 0 then None else Some (AStr (bytes_of (bitop_bits op srcs))))"
proof -
  have l: "mn \<le> longest srcs" using mn ne by (cases srcs) auto
  have c: "bitopCompute op srcs mn (longest srcs) = bytes_of (bitop_bits op srcs)"
    using bitopCompute_spec [OF ne mn l op] bitop_result [OF ne op] by simp
  have "length (bitopCompute op srcs mn (longest srcs)) = longest srcs" using bitopCompute_spec [OF ne mn l op] by simp
  moreover have "longest srcs < 2 ^ 64" using lg by (induction srcs) auto
  ultimately show ?thesis using bitopStore_spec [OF k m] c by metis
qed

lemma string_at_length:
  assumes "kstate cfg n K s V E" "string_at (map_option obj_abs \<circ> V) k = Some v"
  shows "length v < 2 ^ 64"
  using assms(2) str_val_length kstate_obj [OF assms(1), of k] unfolding string_at_Some by auto

lemma bitopCommand_spec:
  assumes w: "db_wf cfg s" "\<not> masterhost cfg" "db_room s" and keys: "keys \<noteq> []"
  shows "refines cfg s (bitopCommand cfg s opname target keys) (bitop_spec opname target keys)"
proof -
  from w(1,3) obtain n V E where k0: "kstate cfg n {} s V E" "n < 2 ^ 60" "view cfg s = (map_option obj_abs \<circ> V, E)"
    by (rule refines_start)
  show ?thesis
  proof (cases "bitopName opname = None \<or> bitopName opname = Some BITOP_NOT \<and> length keys \<noteq> 1")
    case True
    then have "\<exists>r. bitopCommand cfg s opname target keys = Some (r, s) \<and>
        bitop_spec opname target keys (map_option obj_abs \<circ> V, E) = (r, map_option obj_abs \<circ> V, E)"
      by (auto simp: bitopCommand_def bitop_spec_def)
    then show ?thesis using k0(1) refinesI [OF k0(1), of "bitopCommand cfg s opname target keys"] by blast
  next
    case False
    then obtain op where op: "bitopName opname = Some op" "op = BITOP_NOT \<longrightarrow> length keys = 1" by auto
    define srcs where "srcs = map (\<lambda>k. the (string_at (map_option obj_abs \<circ> V) k)) keys"
    have i: "0 = length ([] :: byte list list)" "\<forall>v \<in> set ([] :: byte list list). 0 \<le> length v" "0 = longest []" by simp_all
    obtain s1 K1 r where s1: "bitopLoad cfg s 0 keys 0 0 [] = Some (r, s1)" "kstate cfg n K1 s1 V E"
        "load_result (map_option obj_abs \<circ> V) keys [] r"
      using bitopLoad_spec [OF refl k0(1) w(2) i, of keys] by blast
    note lr = s1(3) [unfolded load_result_def append_Nil, folded srcs_def]
    show ?thesis
    proof (cases "\<exists>k \<in> set keys. string_at (map_option obj_abs \<circ> V) k = None")
      case True
      then have "bitopCommand cfg s opname target keys = Some (RWrongType, s1)"
        using s1(1) op lr [unfolded if_P [OF True]] by (auto simp: bitopCommand_def)
      then show ?thesis using True s1(2) op
        by (intro refinesI [OF k0(1), where V' = V and E' = E and K' = K1 and n' = n]) (auto simp: bitop_spec_def)
    next
      case all: False
      then obtain mn where mn: "r = Inr (srcs, mn, longest srcs)" "\<forall>v \<in> set srcs. mn \<le> length v"
        using lr unfolding if_not_P [OF all] by blast
      have ne: "srcs \<noteq> []" "op = BITOP_NOT \<longrightarrow> length srcs = 1" using keys op by (simp_all add: srcs_def)
      have "\<forall>v \<in> set srcs. length v < 2 ^ 64" using string_at_length [OF k0(1)] all by (force simp: srcs_def)
      from bitop_apply [OF s1(2) w(2) k0(2) ne(2) mn(2) ne(1) this, of target] obtain s2 v where
          s2: "bitopStore cfg s1 target (bitopCompute op srcs mn (longest srcs)) (longest srcs) = Some s2"
          "kstate cfg (Suc n) (insert target K1) s2 (V(target := v)) (E(target := None))"
          "map_option obj_abs v = (if longest srcs = 0 then None else Some (AStr (bytes_of (bitop_bits op srcs))))" by blast
      have out: "bitopCommand cfg s opname target keys = Some (RInt (int (longest srcs)), s2\<lparr>dirty := dirty s2 + 1\<rparr>)"
        using op s1(1) s2(1) mn(1) by (auto simp: bitopCommand_def)
      have "map_option obj_abs \<circ> V(target := v) = (map_option obj_abs \<circ> V)(target := map_option obj_abs v)" by auto
      then show ?thesis using out s2(2,3) op all
        by (intro refinesI [OF k0(1), where V' = "V(target := v)" and E' = "E(target := None)" and K' = "insert target K1" and n' = "Suc n"])
          (auto simp: bitop_spec_def srcs_def [symmetric] Let_def)
    qed
  qed
qed

section \<open>BITFIELD\<close>

text \<open>The range of the fields, the value of a field, and what an operation stores for the value \<open>t\<close>.\<close>

definition fld_lo :: "bitfieldOp \<Rightarrow> int" where "fld_lo op = (if op_sign op then signed_min (op_bits op) else 0)"
definition fld_hi :: "bitfieldOp \<Rightarrow> int" where "fld_hi op = (if op_sign op then signed_max (op_bits op) else 2 ^ op_bits op - 1)"
definition fld_wrap :: "bitfieldOp \<Rightarrow> int \<Rightarrow> int" where "fld_wrap op t = (if op_sign op then twos (op_bits op) t else t mod 2 ^ op_bits op)"

definition fld_val :: "bitfieldOp \<Rightarrow> byte list \<Rightarrow> int" where
  "fld_val op b = fld_wrap op (int (field b (op_offset op) (op_bits op)))"

definition fld_new :: "bitfieldOp \<Rightarrow> int \<Rightarrow> int option" where
  "fld_new op t =
     (if fld_lo op \<le> t \<and> t \<le> fld_hi op then Some t else limit_spec (fld_lo op) (fld_hi op) (fld_wrap op) (op_owtype op) t)"

text \<open>A number to be stored without sign is read modulo $2^{64}$.\<close>

definition fld_target :: "bitfieldOp \<Rightarrow> byte list \<Rightarrow> int" where
  "fld_target op b =
     (if op_opcode op = BITFIELDOP_INCRBY then fld_val op b + op_i64 op
      else if op_sign op then op_i64 op else op_i64 op mod 2 ^ 64)"

definition field_bits :: "nat \<Rightarrow> int \<Rightarrow> bool list" where
  "field_bits n v = map (bit v) (rev [0..<n])"

definition bitfield_op_spec :: "bitfieldOp \<Rightarrow> byte list \<Rightarrow> reply \<times> byte list" where
  "bitfield_op_spec op b =
     (case fld_new op (fld_target op b) of
        None \<Rightarrow> (RNull, b)
      | Some v \<Rightarrow>
          (RInt (if op_opcode op = BITFIELDOP_INCRBY then v else fld_val op b),
           bytes_of (write_at (op_offset op) (field_bits (op_bits op) v) (bits_of b))))"

text \<open>GET reads past the end of the string as zeros.\<close>

definition zero_padded :: "bitfieldOp \<Rightarrow> byte list \<Rightarrow> byte list" where
  "zero_padded op b = b @ replicate (op_offset op div 8 + 9) 0"

lemma field_append: "offset + n \<le> 8 * length p \<Longrightarrow> field (p @ q) offset n = field p offset n"
  by (simp add: field_def)

text \<open>What the parser guarantees of an operation: 64-bit fields are signed.\<close>

definition op_typed :: "bitfieldOp \<Rightarrow> bool" where
  "op_typed op \<longleftrightarrow> 0 < op_bits op \<and> op_bits op \<le> 64 \<and> (\<not> op_sign op \<longrightarrow> op_bits op < 64) \<and> in_i64 (op_i64 op)"

text \<open>
  The operations that are specified.  Reading a negative 64-bit number shifts by 64, and so does
  wrapping a 64-bit sum around; both are undefined in C.  A number to be stored in a signed field with
  saturation may be so small that its difference to the largest value of the field overflows, and
  then the code saturates to the largest value.
\<close>

definition op_defined :: "bitfieldOp \<Rightarrow> byte list \<Rightarrow> bool" where
  "op_defined op b \<longleftrightarrow>
     (op_bits op = 64 \<longrightarrow>
        0 \<le> fld_val op (zero_padded op b) \<and>
        (op_opcode op = BITFIELDOP_INCRBY \<and> op_owtype op = BFOVERFLOW_WRAP \<longrightarrow>
           fld_val op (zero_padded op b) + op_i64 op < 2 ^ 63)) \<and>
     (op_opcode op = BITFIELDOP_SET \<and> op_sign op \<and> op_bits op < 64 \<and> op_owtype op = BFOVERFLOW_SAT \<longrightarrow>
        signed_max (op_bits op) - op_i64 op < 2 ^ 63)"

lemma fld_val_padded:
  "op_offset op + op_bits op \<le> 8 * length b \<Longrightarrow> fld_val op (zero_padded op b) = fld_val op b"
  by (simp add: fld_val_def zero_padded_def field_append)

text \<open>A signed field reads as a number, also with all 64 bits as long as the number is not negative.\<close>

lemma getSigned_field:
  assumes "0 < n" "n \<le> 64" "offset + n \<le> 8 * length p" "n = 64 \<Longrightarrow> 0 \<le> twos 64 (int (field p offset 64))"
  shows "getSignedBitfield p offset n = Some (twos n (int (field p offset n)))"
proof (cases "n = 64")
  case True
  have u: "field p offset 64 < 2 ^ 64" using field_less [of offset 64 p] assms(3) True by simp
  have t: "twos 64 (int (field p offset 64)) = (if field p offset 64 < 2 ^ 63 then int (field p offset 64) else int (field p offset 64) - 2 ^ 64)"
    using twos_nat [of 64, OF _ u] by simp
  then have "field p offset 64 < 2 ^ 63" using assms(4) True u by (auto split: if_splits)
  then show ?thesis using getSignedBitfield_64 [of offset p] assms(3) True t by simp
qed (use assms getSignedBitfield_spec in auto)

lemma word_bits_int: "n \<le> 64 \<Longrightarrow> word_bits n (word_of_int v) = field_bits n v"
  by (auto simp: word_bits_def field_bits_def bit_simps)

lemma setField_bytes:
  assumes "n \<le> 64" "off + n \<le> 8 * length p"
  shows "setUnsignedBitfield p off n (word_of_int v) = Some (bytes_of (write_at off (field_bits n v) (bits_of p)))"
proof -
  obtain p' where "setUnsignedBitfield p off n (word_of_int v) = Some p'" "bits_of p' = write_at off (field_bits n v) (bits_of p)"
    using setUnsignedBitfield_spec [OF assms, of "word_of_int v"] word_bits_int [OF assms(1), of v] by auto
  then show ?thesis by (metis bytes_of_bits_of)
qed

lemma limit_spec_fail: "limit_spec lo hi f ow t = None \<longleftrightarrow> lo \<le> t \<and> t \<le> hi \<or> ow = BFOVERFLOW_FAIL"
  by (cases ow) (auto simp: limit_spec_def)

lemma bitfieldSigned_spec:
  assumes s: "op_typed op" "op_defined op p" "op_sign op" "op_opcode op \<noteq> BITFIELDOP_GET" and off: "op_offset op + op_bits op \<le> 8 * length p"
  shows "bitfieldSigned p op = Some (bitfield_op_spec op p)"
proof -
  define n where "n = op_bits op"
  define old where "old = twos n (int (field p (op_offset op) n))"
  define inc where "inc \<longleftrightarrow> op_opcode op = BITFIELDOP_INCRBY"
  define val where "val = (if inc then old else op_i64 op)"
  define incr where "incr = (if inc then op_i64 op else 0)"
  define t where "t = val + incr"
  have n: "0 < n" "n \<le> 64" "in_i64 (op_i64 op)" using s(1) by (simp_all add: op_typed_def n_def)
  have v: "fld_val op (zero_padded op p) = old" using fld_val_padded [OF off] s(3) by (simp add: fld_val_def fld_wrap_def old_def n_def)
  have g: "getSignedBitfield p (op_offset op) n = Some old"
    using getSigned_field [OF n(1,2) off [folded n_def]] s(2) unfolding op_defined_def v by (auto simp: old_def n_def)
  have ob: "signed_min n \<le> old" "old \<le> signed_max n" using twos_bounds [OF n(1)] by (auto simp: old_def signed_min_def signed_max_def)
  have p63: "(2 :: int) ^ (n - 1) \<le> 2 ^ 63" using n by (intro power_increasing) auto
  then have i64: "in_i64 x" if "signed_min n \<le> x" "x \<le> signed_max n" for x using that by (simp add: signed_min_def signed_max_def in_i64_alt)
  have w64: "t \<le> signed_max 64 \<and> signed_min 64 \<le> t" if "n = 64" "op_owtype op = BFOVERFLOW_WRAP"
    using that s(2) n(3) unfolding op_defined_def v
    by (auto simp: t_def val_def incr_def inc_def n_def in_i64_alt signed_max_def signed_min_def)
  have "signed_min n \<le> val \<and> val \<le> signed_max n \<or> signed_max n - val < 2 ^ 63" if "n < 64" "op_owtype op = BFOVERFLOW_SAT"
    using that s ob by (cases "op_opcode op") (auto simp: val_def inc_def op_defined_def n_def)
  then obtain ov where ov: "checkSignedBitfieldOverflow val incr n (op_owtype op) =
      Some (ov, limit_spec (signed_min n) (signed_max n) (twos n) (op_owtype op) t)"
      "ov \<noteq> 0 \<longleftrightarrow> \<not> (signed_min n \<le> t \<and> t \<le> signed_max n)"
    using checkSigned_all [OF n(1,2), of val incr "op_owtype op"] n(3) i64 [OF ob] ob w64
    unfolding t_def val_def incr_def by (cases inc) (auto simp: in_i64_alt)
  have chk: "(if inc then checkSignedBitfieldOverflow old (op_i64 op) n (op_owtype op)
      else checkSignedBitfieldOverflow (op_i64 op) 0 n (op_owtype op)) = Some (ov, limit_spec (signed_min n) (signed_max n) (twos n) (op_owtype op) t)"
    using ov(1) by (cases inc) (simp_all add: val_def incr_def)
  have f: "fld_lo op = signed_min n" "fld_hi op = signed_max n" "fld_wrap op = twos n" "fld_val op p = old" "fld_target op p = t"
    using s(3) by (auto simp: fld_lo_def fld_hi_def fld_wrap_def fld_val_def fld_target_def n_def old_def t_def val_def incr_def inc_def)
  have w: "(if inc then wrap64 (old + op_i64 op) else op_i64 op) = t" if "ov = 0"
  proof -
    have "signed_min n \<le> t" "t \<le> signed_max n" using that ov(2) by auto
    then have "in_i64 t" by (rule i64)
    then show ?thesis using wrap64_id by (cases inc) (simp_all add: t_def val_def incr_def)
  qed
  have set: "setSignedBitfield p (op_offset op) n v = Some (bytes_of (write_at (op_offset op) (field_bits n v) (bits_of p)))" for v
    using setField_bytes [of n "op_offset op" p v] n off by (simp add: setSignedBitfield_def n_def)
  show ?thesis
  proof (cases "ov = 0")
    case True
    then show ?thesis using g chk ov(2) f set w unfolding n_def inc_def
      by (simp add: bitfieldSigned_def bitfield_op_spec_def fld_new_def n_def)
  next
    case False
    then have r: "\<not> (signed_min n \<le> t \<and> t \<le> signed_max n)" using ov(2) by simp
    show ?thesis using False g chk f set r unfolding n_def inc_def
      by (cases "op_owtype op") (auto simp: bitfieldSigned_def bitfield_op_spec_def fld_new_def limit_spec_def n_def Let_def)
  qed
qed

lemma bitfieldUnsigned_spec:
  assumes s: "op_typed op" "\<not> op_sign op" "op_opcode op \<noteq> BITFIELDOP_GET" and off: "op_offset op + op_bits op \<le> 8 * length p"
  shows "bitfieldUnsigned p op = Some (bitfield_op_spec op p)"
proof -
  define n where "n = op_bits op"
  define u where "u = int (field p (op_offset op) n)"
  define inc where "inc \<longleftrightarrow> op_opcode op = BITFIELDOP_INCRBY"
  define val where "val = (if inc then word_of_int u else word_of_int (op_i64 op) :: u64)"
  define incr where "incr = (if inc then op_i64 op else 0)"
  define t where "t = uint val + incr"
  have n: "0 < n" "n < 64" "in_i64 (op_i64 op)" using s(1,2) by (simp_all add: op_typed_def n_def)
  have u: "0 \<le> u" "u < 2 ^ n" using field_less [OF off [folded n_def]] int_pow_iff(1) by (simp_all add: u_def n_def)
  have p63: "(2 :: int) ^ n \<le> 2 ^ 63" using n by (intro power_increasing) auto
  have uw: "uint (word_of_int v :: u64) = v" if "0 \<le> v" "v < 2 ^ n" for v
    unfolding uint_word_of_int using that p63 by (intro mod_pos_pos_trivial) auto
  have sw: "sint (word_of_int v :: u64) = v" if "0 \<le> v" "v < 2 ^ n" for v
    using that p63 by (intro sint_word_of_int) (auto simp: in_i64_alt)
  have g: "getUnsignedBitfield p (op_offset op) n = Some (word_of_int u)"
    using getUnsignedBitfield_spec [of n "op_offset op" p] off n by (simp add: u_def n_def)
  have "uint val < 2 ^ n \<or> incr = 0" using uw [OF u] u by (simp add: val_def incr_def)
  moreover have "in_i64 incr" using n(3) by (simp add: incr_def in_i64_alt)
  ultimately obtain ov where ov: "checkUnsignedBitfieldOverflow val incr n (op_owtype op) =
      Some (ov, map_option word_of_int (limit_spec 0 (2 ^ n - 1) (\<lambda>t. t mod 2 ^ n) (op_owtype op) t))"
      "ov \<noteq> 0 \<longleftrightarrow> \<not> (0 \<le> t \<and> t < 2 ^ n)"
    using checkUnsigned_spec [OF n(1,2), of val incr "op_owtype op"] unfolding t_def by blast
  have chk: "(if inc then checkUnsignedBitfieldOverflow (word_of_int u) (op_i64 op) n (op_owtype op)
      else checkUnsignedBitfieldOverflow (word_of_int (op_i64 op)) 0 n (op_owtype op)) =
      Some (ov, map_option word_of_int (limit_spec 0 (2 ^ n - 1) (\<lambda>t. t mod 2 ^ n) (op_owtype op) t))"
    using ov(1) by (cases inc) (simp_all add: val_def incr_def)
  have t: "t = (if inc then u + op_i64 op else op_i64 op mod 2 ^ 64)" using uw [OF u] by (simp add: t_def val_def incr_def uint_word_of_int)
  have f: "fld_lo op = 0" "fld_hi op = 2 ^ n - 1" "fld_wrap op = (\<lambda>t. t mod 2 ^ n)" "fld_val op p = u" "fld_target op p = t"
    using s(2) t u by (auto simp: fld_lo_def fld_hi_def fld_wrap_def fld_val_def fld_target_def n_def [symmetric] u_def [symmetric] inc_def)
  have w: "(if inc then word_of_int u + word_of_int (op_i64 op) else word_of_int (op_i64 op)) = (word_of_int t :: u64)"
    using t by (simp add: word_of_int_eq_iff take_bit_eq_mod)
  have set: "setUnsignedBitfield p (op_offset op) n (word_of_int v) = Some (bytes_of (write_at (op_offset op) (field_bits n v) (bits_of p)))" for v
    using setField_bytes [of n "op_offset op" p v] n off by (simp add: n_def)
  have m: "0 \<le> t mod 2 ^ n" "t mod 2 ^ n < 2 ^ n" by simp_all
  have one: "(1 :: int) \<le> 2 ^ n" by simp
  show ?thesis
  proof (cases "ov = 0")
    case True
    then have r: "0 \<le> t" "t < 2 ^ n" using ov(2) by auto
    then show ?thesis using True g chk f set w sw [OF u] sw [OF r] unfolding n_def inc_def
      by (simp add: bitfieldUnsigned_def bitfield_op_spec_def fld_new_def n_def)
  next
    case False
    then have r: "\<not> (0 \<le> t \<and> t \<le> 2 ^ n - 1)" using ov(2) by simp
    have sw0: "sint (word_of_int v :: u64) = v" if "v = t mod 2 ^ n \<or> v = 0 \<or> v = 2 ^ n - 1" for v
      using that sw [of v] m one by auto
    show ?thesis using False g chk f set r sw [OF u] sw0 unfolding n_def inc_def
      by (cases "op_owtype op") (auto simp: bitfieldUnsigned_def bitfield_op_spec_def fld_new_def limit_spec_def n_def Let_def)
  qed
qed

text \<open>
  SET and INCRBY of BITFIELD compute exactly.  For a field inside the bitmap, signed or unsigned, the new value is the requested one if it fits the field; otherwise
  it wraps around, saturates, or nothing is written and the reply is null, as the overflow type
  asks.  Only the bits of the field change.
\<close>

lemma bitfield_op_exact:
  assumes "op_typed op" "op_defined op p" "op_opcode op \<noteq> BITFIELDOP_GET" "op_offset op + op_bits op \<le> 8 * length p"
  shows "(if op_sign op then bitfieldSigned p op else bitfieldUnsigned p op) = Some (bitfield_op_spec op p)"
  using bitfieldSigned_spec [OF assms(1,2) _ assms(3,4)] bitfieldUnsigned_spec [OF assms(1) _ assms(3,4)] by simp

lemma field_drop: "8 * k \<le> offset \<Longrightarrow> field (drop k p) (offset - 8 * k) n = field p offset n"
  by (simp add: field_def bits_of_drop)

lemma bitfieldGet_spec:
  assumes "op_typed op" "op_defined op src"
  shows "bitfieldGet src op = Some (RInt (fld_val op (zero_padded op src)))"
proof -
  define byte where "byte = op_offset op div 8"
  define z where "z = drop byte (zero_padded op src)"
  define buf where "buf = take 9 (drop byte src) @ replicate (9 - length (take 9 (drop byte src))) (0 :: byte)"
  define off where "off = op_offset op - byte * 8"
  define u where "u = field (zero_padded op src) (op_offset op) (op_bits op)"
  have n: "0 < op_bits op" "op_bits op \<le> 64" using assms(1) by (simp_all add: op_typed_def)
  have off: "off < 8" by (simp add: off_def byte_def minus_mult_div_eq_mod mult.commute)
  have b: "buf = take 9 z" by (simp add: buf_def z_def zero_padded_def byte_def [symmetric] take_drop)
  have l: "length buf = 9" by (simp add: buf_def)
  have fit: "off + op_bits op \<le> 8 * length buf" using off n l by simp
  have "field buf off (op_bits op) = field z off (op_bits op)"
    using field_append [OF fit, of "drop 9 z"] by (simp add: b)
  also have "\<dots> = u" unfolding z_def off_def u_def by (subst mult.commute, rule field_drop) (simp add: byte_def)
  finally have f: "field buf off (op_bits op) = u" .
  show ?thesis
  proof (cases "op_sign op")
    case True
    have "0 \<le> twos 64 (int (field buf off 64))" if "op_bits op = 64"
      using assms(2) True f that by (simp add: op_defined_def fld_val_def fld_wrap_def u_def)
    then have "getSignedBitfield buf off (op_bits op) = Some (twos (op_bits op) (int u))"
      using getSigned_field [OF n fit] f by simp
    then show ?thesis using True
      unfolding bitfieldGet_def Let_def byte_def [symmetric] buf_def [symmetric] off_def [symmetric] by (simp add: fld_val_def fld_wrap_def u_def)
  next
    case False
    then have n63: "op_bits op \<le> 63" using assms(1) by (auto simp: op_typed_def)
    have "u < 2 ^ op_bits op" using field_less [OF fit] f by simp
    then have iu: "int u < 2 ^ op_bits op" unfolding int_pow_iff .
    have "(2 :: int) ^ op_bits op \<le> 2 ^ 63" using n63 by (intro power_increasing) auto
    then have "in_i64 (int u)" using iu unfolding in_i64_alt by linarith
    then have "sint (of_nat u :: u64) = int u" using sint_word_of_int [of "int u"] by simp
    then show ?thesis using False getUnsignedBitfield_spec [OF _ fit] n f iu
      unfolding bitfieldGet_def Let_def byte_def [symmetric] buf_def [symmetric] off_def [symmetric] by (simp add: fld_val_def fld_wrap_def u_def)
  qed
qed

subsection \<open>The whole command\<close>

fun bitfield_ops_spec :: "bitfieldOp list \<Rightarrow> byte list \<Rightarrow> reply list \<times> byte list" where
  "bitfield_ops_spec [] b = ([], b)"
| "bitfield_ops_spec (op # ops) b =
     (let (r, b) = (if op_opcode op = BITFIELDOP_GET then (RInt (fld_val op (zero_padded op b)), b) else bitfield_op_spec op b);
          (rs, b) = bitfield_ops_spec ops b
      in (r # rs, b))"

text \<open>Every operation is specified on the string its predecessors leave.\<close>

fun ops_defined :: "bitfieldOp list \<Rightarrow> byte list \<Rightarrow> bool" where
  "ops_defined [] b \<longleftrightarrow> True"
| "ops_defined (op # ops) b \<longleftrightarrow>
     op_defined op b \<and> ops_defined ops (if op_opcode op = BITFIELDOP_GET then b else snd (bitfield_op_spec op b))"

definition writes :: "bitfieldOp list \<Rightarrow> nat" where
  "writes ops = length (filter (\<lambda>op. op_opcode op \<noteq> BITFIELDOP_GET) ops)"

text \<open>Reading only: the string may be missing or have any encoding.\<close>

lemma bitfieldExec_read:
  assumes "list_all op_typed ops" "ops_defined ops b" "writes ops = 0" "case o' of None \<Rightarrow> b = [] | Some ob \<Rightarrow> str_wf ob \<and> str_val ob = b"
  shows "bitfieldExec o' ops = Some (fst (bitfield_ops_spec ops b), 0, o') \<and> snd (bitfield_ops_spec ops b) = b"
  using assms(1-3)
proof (induction ops)
  case (Cons op ops)
  have "(case o' of None \<Rightarrow> [] | Some ob \<Rightarrow> getObjectReadOnlyString ob) = b"
    using assms(4) getObjectReadOnlyString_val by (auto split: option.splits)
  moreover have "op_opcode op = BITFIELDOP_GET" "writes ops = 0" using Cons.prems(3) by (auto simp: writes_def split: if_splits)
  ultimately show ?case using Cons bitfieldGet_spec [of op b] by (auto simp: Let_def split: prod.splits)
qed (auto simp: writes_def)

lemma sds_field_update:
  assumes str: "sds_wf str" and off: "op_offset op + op_bits op \<le> 8 * sdslen str"
    and op: "op_typed op" "op_defined op (sds_val str)" "op_opcode op \<noteq> BITFIELDOP_GET"
  shows "\<exists>p. (if op_sign op then bitfieldSigned (sds_buf str) op else bitfieldUnsigned (sds_buf str) op) = Some (fst (bitfield_op_spec op (sds_val str)), p) \<and>
    sds_wf (str\<lparr>sds_buf := p\<rparr>) \<and> sdslen (str\<lparr>sds_buf := p\<rparr>) = sdslen str \<and> sds_val (str\<lparr>sds_buf := p\<rparr>) = snd (bitfield_op_spec op (sds_val str))"
proof -
  have l: "sdslen str \<le> length (sds_buf str)" using str by (auto simp: sds_wf_def)
  define rest where "rest = drop (sdslen str) (sds_buf str)"
  have buf: "sds_buf str = sds_val str @ rest" by (simp add: sds_val_def rest_def)
  have "field (sds_buf str) (op_offset op) (op_bits op) = field (sds_val str) (op_offset op) (op_bits op)"
    unfolding buf using off str by (intro field_append) simp
  then have fv: "fld_val op (sds_buf str) = fld_val op (sds_val str)" "fld_target op (sds_buf str) = fld_target op (sds_val str)"
    by (simp_all add: fld_val_def fld_target_def)
  have "fld_val op (zero_padded op (sds_buf str)) = fld_val op (zero_padded op (sds_val str))"
    using fv(1) fld_val_padded [of op "sds_buf str"] fld_val_padded [of op "sds_val str"] off l str by simp
  then have df: "op_defined op (sds_buf str)" using op(2) by (simp add: op_defined_def)
  have e: "(if op_sign op then bitfieldSigned (sds_buf str) op else bitfieldUnsigned (sds_buf str) op) = Some (bitfield_op_spec op (sds_buf str))"
    using bitfield_op_exact [OF op(1) df op(3)] off l by auto
  show ?thesis
  proof (cases "fld_new op (fld_target op (sds_val str))")
    case None
    then show ?thesis using e fv str by (intro exI [of _ "sds_buf str"]) (simp add: bitfield_op_spec_def)
  next
    case (Some v)
    define bs where "bs = field_bits (op_bits op) v"
    define p where "p = bytes_of (write_at (op_offset op) bs (bits_of (sds_buf str)))"
    obtain q where q: "length q = length (sds_buf str)" "bits_of q = write_at (op_offset op) bs (bits_of (sds_buf str))"
      using setUnsignedBitfield_spec [of "op_bits op" "op_offset op" "sds_buf str" "word_of_int v"] op(1) off l word_bits_int [of "op_bits op" v]
      by (auto simp: op_typed_def bs_def)
    have "q = p" using q(2) bytes_of_bits_of unfolding p_def by metis
    then have p: "length p = length (sds_buf str)" "bits_of p = write_at (op_offset op) bs (bits_of (sds_buf str))" using q by simp_all
    have "op_offset op + length bs \<le> 8 * sdslen str" using off by (simp add: bs_def field_bits_def)
    note sw = sds_write_bits [OF str p this]
    have "sdslen (str\<lparr>sds_buf := p\<rparr>) = sdslen str" by (simp add: sdslen_def)
    then show ?thesis using e fv Some sw by (intro exI [of _ p]) (simp add: bitfield_op_spec_def p_def bs_def)
  qed
qed

lemma bitfieldExec_write:
  assumes "list_all (\<lambda>op. op_typed op \<and> (op_opcode op \<noteq> BITFIELDOP_GET \<longrightarrow> op_offset op + op_bits op \<le> 8 * sdslen str)) ops" "sds_wf str"
    and "ops_defined ops (sds_val str)"
  shows "\<exists>str'. bitfieldExec (Some (StrRaw str)) ops = Some (fst (bitfield_ops_spec ops (sds_val str)), writes ops, Some (StrRaw str')) \<and>
    sds_wf str' \<and> sds_val str' = snd (bitfield_ops_spec ops (sds_val str))"
  using assms
proof (induction ops arbitrary: str)
  case (Cons op ops)
  show ?case
  proof (cases "op_opcode op = BITFIELDOP_GET")
    case True
    have "getObjectReadOnlyString (StrRaw str) = sds_val str" using Cons.prems(2) getObjectReadOnlyString_val by simp
    moreover obtain str' where "bitfieldExec (Some (StrRaw str)) ops = Some (fst (bitfield_ops_spec ops (sds_val str)), writes ops, Some (StrRaw str'))"
        "sds_wf str'" "sds_val str' = snd (bitfield_ops_spec ops (sds_val str))" using Cons True by auto
    ultimately show ?thesis using True Cons.prems(1,3) bitfieldGet_spec [of op "sds_val str"]
      by (auto simp: writes_def Let_def split: prod.splits)
  next
    case False
    then obtain p where p: "(if op_sign op then bitfieldSigned (sds_buf str) op else bitfieldUnsigned (sds_buf str) op) = Some (fst (bitfield_op_spec op (sds_val str)), p)"
        "sds_wf (str\<lparr>sds_buf := p\<rparr>)" "sdslen (str\<lparr>sds_buf := p\<rparr>) = sdslen str" "sds_val (str\<lparr>sds_buf := p\<rparr>) = snd (bitfield_op_spec op (sds_val str))"
      using sds_field_update [OF Cons.prems(2), of op] Cons.prems(1,3) by auto
    obtain str' where "bitfieldExec (Some (StrRaw (str\<lparr>sds_buf := p\<rparr>))) ops =
          Some (fst (bitfield_ops_spec ops (snd (bitfield_op_spec op (sds_val str)))), writes ops, Some (StrRaw str'))"
        "sds_wf str'" "sds_val str' = snd (bitfield_ops_spec ops (snd (bitfield_op_spec op (sds_val str))))"
      using Cons.IH [of "str\<lparr>sds_buf := p\<rparr>"] Cons.prems(1,3) p False by auto
    then show ?thesis using False p(1) by (auto simp: writes_def Let_def split: prod.splits)
  qed
qed (simp add: writes_def)

definition parsed :: "bitfieldOp list \<Rightarrow> bool \<Rightarrow> nat \<Rightarrow> bool" where
  "parsed ops readonly highest \<longleftrightarrow>
     (\<forall>op \<in> set ops. op_typed op \<and> (op_opcode op \<noteq> BITFIELDOP_GET \<longrightarrow> op_offset op + op_bits op \<le> highest + 1)) \<and>
     (readonly \<longleftrightarrow> writes ops = 0) \<and> highest div 8 < 2 ^ 30"

lemma bitfieldOperands_spec:
  assumes "bitfieldOperands opcode ow args = Inr op"
  shows "op_typed op \<and> op_opcode op = opcode \<and> op_offset op div 8 < 2 ^ 29"
proof -
  obtain sign bits off i where "getBitfieldTypeFromArgument (args ! 0) = Some (sign, bits)"
      "getBitOffsetFromArgument (args ! 1) True (int bits) = Some off"
      "op = \<lparr>op_offset = off, op_i64 = i, op_opcode = opcode, op_owtype = ow, op_bits = bits, op_sign = sign\<rparr>" "in_i64 i"
    using assms by (auto simp: bitfieldOperands_def string2ll_iff in_signed_def split: option.splits prod.splits if_splits)
  then show ?thesis using getBitOffset_bound by (auto simp: op_typed_def getBitfieldTypeFromArgument_def split: option.splits if_splits)
qed

lemma parsed_snoc:
  assumes p: "parsed ops ro h" and op: "op_typed op" "op_offset op div 8 < 2 ^ 29"
  shows "op_opcode op = BITFIELDOP_GET \<Longrightarrow> parsed (ops @ [op]) ro h"
    and "op_opcode op \<noteq> BITFIELDOP_GET \<Longrightarrow> h' = max h (op_offset op + op_bits op - 1) \<Longrightarrow> parsed (ops @ [op]) False h'"
proof -
  show "op_opcode op = BITFIELDOP_GET \<Longrightarrow> parsed (ops @ [op]) ro h" using p op by (auto simp: parsed_def writes_def)
  assume a: "op_opcode op \<noteq> BITFIELDOP_GET" "h' = max h (op_offset op + op_bits op - 1)"
  have "(op_offset op + op_bits op - 1) div 8 \<le> (op_offset op + 64) div 8" using op(1) by (intro div_le_mono) (auto simp: op_typed_def)
  also have "\<dots> = op_offset op div 8 + 8" by simp
  finally have "h' div 8 < 2 ^ 30" using a(2) op(2) p by (auto simp: parsed_def max_def)
  moreover have "0 < op_bits op" using op(1) by (simp add: op_typed_def)
  ultimately show "parsed (ops @ [op]) False h'" using p op a by (auto simp: parsed_def writes_def)
qed

lemma bitfieldParse_spec: "bitfieldParse args ow ops ro h = Inr (ops', ro', h') \<Longrightarrow> parsed ops ro h \<Longrightarrow> parsed ops' ro' h'"
proof (induction args ow ops ro h rule: bitfieldParse.induct)
  case (1 ow ops ro h)
  then show ?case by simp
next
  case (2 subcmd args ow ops ro h)
  show ?case
  proof (cases "bitfieldSubcmd subcmd (length args)")
    case None
    then show ?thesis using 2 by (auto split: if_splits option.splits)
  next
    case (Some opcode)
    then obtain op where op: "bitfieldOperands opcode ow args = Inr op" using "2.prems"(1) by (auto split: sum.splits)
    note o = bitfieldOperands_spec [OF op]
    show ?thesis
    proof (cases "opcode = BITFIELDOP_GET")
      case True
      then show ?thesis using 2 Some op o parsed_snoc(1) [OF "2.prems"(2), of op] by auto
    next
      case False
      define top where "top = op_offset op + op_bits op - 1"
      have "(if h < top then top else h) = max h top" by auto
      then have "parsed (ops @ [op]) False (if h < top then top else h)"
        using parsed_snoc(2) [OF "2.prems"(2), of op] o False by (simp add: top_def)
      moreover have "bitfieldParse (drop 3 args) ow (ops @ [op]) False (if h < top then top else h) = Inr (ops', ro', h')"
        using "2.prems"(1) Some op False by (cases "h < top") (simp_all add: Let_def top_def)
      ultimately show ?thesis using "2.IH"(3) [OF Some op False top_def] by blast
    qed
  qed
qed

definition bitfield_spec :: "key \<Rightarrow> byte list list \<Rightarrow> bool \<Rightarrow> astate \<Rightarrow> reply \<times> astate" where
  "bitfield_spec key args flag_readonly = (\<lambda>(V, E).
     case bitfieldParse args BFOVERFLOW_WRAP [] True 0 of
       Inl err \<Rightarrow> (err, V, E)
     | Inr (ops, readonly, highest) \<Rightarrow>
         if \<not> readonly \<and> flag_readonly then (RError ''BITFIELD_RO only supports the GET subcommand'', V, E)
         else
           (case string_at V key of
              None \<Rightarrow> (RWrongType, V, E)
            | Some b \<Rightarrow>
                if readonly then (RArray (fst (bitfield_ops_spec ops b)), V, E)
                else
                  let (rs, b') = bitfield_ops_spec ops (grow b (highest div 8 + 1))
                  in (RArray rs, V(key \<mapsto> AStr b'), E)))"

text \<open>Whether all operations of the command are specified in a given keyspace.\<close>

definition bitfield_defined :: "key \<Rightarrow> byte list list \<Rightarrow> bool \<Rightarrow> astate \<Rightarrow> bool" where
  "bitfield_defined key args flag_readonly = (\<lambda>(V, E).
     case bitfieldParse args BFOVERFLOW_WRAP [] True 0 of
       Inl _ \<Rightarrow> True
     | Inr (ops, readonly, highest) \<Rightarrow>
         \<not> readonly \<and> flag_readonly \<or>
         (case string_at V key of
            None \<Rightarrow> True
          | Some b \<Rightarrow> ops_defined ops (if readonly then b else grow b (highest div 8 + 1))))"

lemma bitfield_read:
  assumes k: "kstate cfg n {} s V E" and m: "\<not> masterhost cfg"
    and p: "bitfieldParse args BFOVERFLOW_WRAP [] True 0 = Inr (ops, True, h)"
    and safe: "bitfield_defined key args flag (map_option obj_abs \<circ> V, E)"
  shows "refines cfg s (bitfieldGeneric cfg rc s key args flag) (bitfield_spec key args flag)"
proof -
  have pr: "list_all op_typed ops" "writes ops = 0" using bitfieldParse_spec [OF p] by (simp_all add: parsed_def writes_def list_all_iff)
  obtain s1 where s1: "lookupKeyRead cfg s key = Some (V key, s1)" "kstate cfg n {key} s1 V E"
    using kstate_lookupKeyRead [OF k m, of key] by auto
  show ?thesis
  proof (cases "string_at (map_option obj_abs \<circ> V) key")
    case None
    then obtain v where v: "V key = Some v" "\<forall>ob. v \<noteq> ObjString ob" unfolding string_at_None by auto
    then have "bitfieldGeneric cfg rc s key args flag = Some (RWrongType, s1)"
      using p s1(1) by (cases v) (auto simp: bitfieldGeneric_def bitfieldLookup_def)
    then show ?thesis using p s1(2) None
      by (intro refinesI [OF k, where V' = V and E' = E]) (auto simp: bitfield_spec_def)
  next
    case (Some b)
    define o' where "o' = (case V key of Some (ObjString ob) \<Rightarrow> Some ob | _ \<Rightarrow> None)"
    have o': "case o' of None \<Rightarrow> b = [] | Some ob \<Rightarrow> str_wf ob \<and> str_val ob = b"
      using Some kstate_obj [OF s1(2), of key] unfolding string_at_Some by (auto simp: o'_def)
    have l: "bitfieldLookup cfg rc s key flag True h = Some (Inr o', s1)"
      using s1(1) Some unfolding string_at_Some by (auto simp: bitfieldLookup_def o'_def)
    have "bitfieldGeneric cfg rc s key args flag = Some (RArray (fst (bitfield_ops_spec ops b)), s1)"
      using p l bitfieldExec_read [OF pr(1) _ pr(2) o'] safe Some by (simp add: bitfieldGeneric_def bitfield_defined_def)
    then show ?thesis using p s1(2) Some
      by (intro refinesI [OF k, where V' = V and E' = E]) (auto simp: bitfield_spec_def)
  qed
qed

lemma bitfield_write:
  assumes k: "kstate cfg n {} s V E" "n < 2 ^ 60" and m: "\<not> masterhost cfg" and b: "string_at (map_option obj_abs \<circ> V) key = Some b"
    and p: "bitfieldParse args BFOVERFLOW_WRAP [] True 0 = Inr (ops, False, h)"
    and safe: "bitfield_defined key args False (map_option obj_abs \<circ> V, E)"
  shows "refines cfg s (bitfieldGeneric cfg rc s key args False) (bitfield_spec key args False)"
proof -
  have pr: "parsed ops False h" using bitfieldParse_spec [OF p] by (simp add: parsed_def writes_def)
  have "h div 8 < 2 ^ 60" using pr by (simp add: parsed_def)
  then obtain str s1 where s1: "lookupStringForBitCommand cfg rc s key h = Some (Inr str, s1)" "sds_wf str" "sds_val str = grow b (h div 8 + 1)"
      "kstate cfg (Suc n) {key} s1 (V(key \<mapsto> ObjString (StrRaw str))) E"
    using kstate_lookupString [OF k(1) m k(2) _ b, of h rc] by auto
  have "sdslen str = length (grow b (h div 8 + 1))" using s1(2,3) length_sds_val by metis
  then have "h + 1 \<le> 8 * sdslen str" by (simp add: grow_def)
  then have ok: "list_all (\<lambda>op. op_typed op \<and> (op_opcode op \<noteq> BITFIELDOP_GET \<longrightarrow> op_offset op + op_bits op \<le> 8 * sdslen str)) ops"
    using pr by (fastforce simp: parsed_def list_all_iff)
  have df: "ops_defined ops (sds_val str)" using safe p b s1(3) by (simp add: bitfield_defined_def)
  obtain str' where e: "bitfieldExec (Some (StrRaw str)) ops = Some (fst (bitfield_ops_spec ops (sds_val str)), writes ops, Some (StrRaw str'))"
      "sds_wf str'" "sds_val str' = snd (bitfield_ops_spec ops (sds_val str))"
    using bitfieldExec_write [OF ok s1(2) df] by blast
  have k2: "kstate cfg (Suc n) {key} (obj_update s1 key (ObjString (StrRaw str'))) (V(key \<mapsto> ObjString (StrRaw str'))) E"
    using kstate_update [OF s1(4), of key "ObjString (StrRaw str')"] e(2) by simp
  have "0 < writes ops" using pr by (simp add: parsed_def)
  then have "\<exists>s'. bitfieldGeneric cfg rc s key args False = Some (RArray (fst (bitfield_ops_spec ops (sds_val str))), s') \<and>
      kstate cfg (Suc n) {key} s' (V(key \<mapsto> ObjString (StrRaw str'))) E"
    using p s1(1) e(1) k2 by (simp add: bitfieldGeneric_def bitfieldLookup_def)
  then show ?thesis using p b e(3) s1(3)
    by (intro refinesI [OF k(1)]) (auto simp: bitfield_spec_def split: prod.splits)
qed

lemma bitfieldGeneric_spec:
  assumes w: "db_wf cfg s" "\<not> masterhost cfg" "db_room s"
    and safe: "bitfield_defined key args flag (view cfg s)"
  shows "refines cfg s (bitfieldGeneric cfg rc s key args flag) (bitfield_spec key args flag)"
proof -
  from w(1,3) obtain n V E where k0: "kstate cfg n {} s V E" "n < 2 ^ 60" "view cfg s = (map_option obj_abs \<circ> V, E)"
    by (rule refines_start)
  consider (err) err where "bitfieldParse args BFOVERFLOW_WRAP [] True 0 = Inl err"
    | (read) ops h where "bitfieldParse args BFOVERFLOW_WRAP [] True 0 = Inr (ops, True, h)"
    | (flag) ops h where "bitfieldParse args BFOVERFLOW_WRAP [] True 0 = Inr (ops, False, h)" flag
    | (other) ops h where "bitfieldParse args BFOVERFLOW_WRAP [] True 0 = Inr (ops, False, h)" "\<not> flag" "string_at (map_option obj_abs \<circ> V) key = None"
    | (wr) ops h b where "bitfieldParse args BFOVERFLOW_WRAP [] True 0 = Inr (ops, False, h)" "\<not> flag" "string_at (map_option obj_abs \<circ> V) key = Some b"
    by (cases "bitfieldParse args BFOVERFLOW_WRAP [] True 0"; cases flag; cases "string_at (map_option obj_abs \<circ> V) key")
      (auto, (metis (full_types) prod_cases3)+)
  then show ?thesis
  proof cases
    case err
    then show ?thesis using k0(1)
      by (intro refinesI [OF k0(1), where V' = V and E' = E and K' = "{}"]) (auto simp: bitfieldGeneric_def bitfield_spec_def)
  next
    case read
    then show ?thesis using bitfield_read [OF k0(1) w(2)] safe by (simp add: k0(3))
  next
    case flag
    then show ?thesis using k0(1)
      by (intro refinesI [OF k0(1), where V' = V and E' = E and K' = "{}"]) (auto simp: bitfieldGeneric_def bitfieldLookup_def bitfield_spec_def)
  next
    case other
    then obtain s1 where "lookupStringForBitCommand cfg rc s key h = Some (Inl RWrongType, s1)" "kstate cfg n {key} s1 V E"
      using kstate_lookupString_other [OF k0(1) w(2), of key rc h] by auto
    then show ?thesis using other
      by (intro refinesI [OF k0(1), where V' = V and E' = E and K' = "{key}"]) (auto simp: bitfieldGeneric_def bitfieldLookup_def bitfield_spec_def)
  next
    case wr
    then show ?thesis using bitfield_write [OF k0(1,2) w(2)] safe by (simp add: k0(3))
  qed
qed

section \<open>BITCOUNT and BITPOS\<close>

definition bitcount_spec :: "key \<Rightarrow> byte list list \<Rightarrow> astate \<Rightarrow> reply \<times> astate" where
  "bitcount_spec key args = (\<lambda>(V, E).
     (case V key of
        None \<Rightarrow> RInt 0
      | Some (AStr b) \<Rightarrow>
          (case bitcountRange (int (length b)) args of
             Inl r \<Rightarrow> r
           | Inr (start, end) \<Rightarrow>
               if start > end then RInt 0
               else RInt (int (count_list (bits_of (take (nat (end - start + 1)) (drop (nat start) b))) True)))
      | Some _ \<Rightarrow> RWrongType, V, E))"

text \<open>The position of the first bit equal to \<open>v\<close> in the bytes from \<open>start\<close> to \<open>end\<close>.\<close>

definition bitpos_spec :: "key \<Rightarrow> bool \<Rightarrow> byte list list \<Rightarrow> astate \<Rightarrow> reply \<times> astate" where
  "bitpos_spec key v args = (\<lambda>(V, E).
     (case V key of
        None \<Rightarrow> RInt (if v then - 1 else 0)
      | Some (AStr b) \<Rightarrow>
          (case bitposRange (int (length b)) args of
             Inl r \<Rightarrow> r
           | Inr (end_given, start, end) \<Rightarrow>
               if start > end then RInt (- 1)
               else
                 let bits = bits_of (take (nat (end - start + 1)) (drop (nat start) b))
                 in if v \<notin> set bits \<and> (v \<or> end_given) then RInt (- 1)
                    else RInt (start * 8 + int (length (takeWhile (\<lambda>x. x \<noteq> v) bits))))
      | Some _ \<Rightarrow> RWrongType, V, E))"

lemma clip_range_bounds:
  assumes "clip_range len start end = (a, b)" "0 \<le> len"
  shows "0 \<le> a" "b < len"
  using assms by (auto simp: clip_range_def Let_def split: if_splits)

lemma bitcountRange_bounds: "bitcountRange len args = Inr (a, b) \<Longrightarrow> 0 \<le> len \<Longrightarrow> 0 \<le> a \<and> b < len"
  using clip_range_bounds [of len _ _ a b]
  by (auto simp: bitcountRange_def split: list.splits option.splits if_splits)

lemma bitposRange_bounds: "bitposRange len args = Inr (g, a, b) \<Longrightarrow> 0 \<le> len \<Longrightarrow> 0 \<le> a \<and> b < len"
  using clip_range_bounds [of len _ _ a b]
  by (auto simp: bitposRange_def split: list.splits option.splits if_splits)

lemma uint_redisPopcount: "length p < 2 ^ 60 \<Longrightarrow> uint (redisPopcount addr p) = int (count_list (bits_of p) True)"
proof -
  assume "length p < 2 ^ 60"
  then have "count_list (bits_of p) True < 2 ^ 63" using count_le_length [of "bits_of p" True] by simp
  then show ?thesis
    unfolding redisPopcount_ones by (simp add: uint_nat unsigned_of_nat take_bit_nat_eq_self)
qed

lemma bitcountCommand_spec:
  assumes w: "db_wf cfg s" "\<not> masterhost cfg" and small: "\<And>b. fst (view cfg s) key = Some (AStr b) \<Longrightarrow> length b < 2 ^ 60"
  shows "refines cfg s (bitcountCommand cfg addr s key args) (bitcount_spec key args)"
proof -
  define V where "V = live_val cfg s"
  define E where "E = live_exp cfg s"
  have k0: "kstate cfg (card (dom (ks_val s))) {} s V E" using kstateI [OF w(1)] by (simp add: V_def E_def)
  obtain s1 where s1: "lookupKeyRead cfg s key = Some (V key, s1)" "kstate cfg (card (dom (ks_val s))) {key} s1 V E"
    using kstate_lookupKeyRead [OF k0 w(2), of key] by auto
  have "bitcountCommand cfg addr s key args = Some (fst (bitcount_spec key args (map_option obj_abs \<circ> V, E)), s1)"
  proof (cases "\<exists>ob. V key = Some (ObjString ob)")
    case True
    then obtain ob where ob: "V key = Some (ObjString ob)" by blast
    define b where "b = str_val ob"
    have b: "getObjectReadOnlyString ob = b" "length b < 2 ^ 60"
      using kstate_obj [OF s1(2) ob] getObjectReadOnlyString_val small [of b] ob by (simp_all add: b_def view_def V_def)
    have "length (take (nat m) (drop i b)) < 2 ^ 60" for m i using b(2) by simp
    note pc = uint_redisPopcount [OF this]
    show ?thesis using s1(1) ob b(1) pc unfolding bitcountCommand_def bitcount_spec_def
      by (auto simp: b_def [symmetric] czero_def Let_def split: sum.splits prod.splits)
  next
    case False
    then show ?thesis using s1(1) by (cases "V key"; cases "the (V key)") (auto simp: bitcountCommand_def bitcount_spec_def czero_def)
  qed
  then show ?thesis using s1(2)
    by (intro refinesI [OF k0, where V' = V and E' = E and K' = "{key}"]) (auto simp: bitcount_spec_def)
qed

lemma bitposReply_spec:
  assumes "0 \<le> start" "end < int (length b)" "start \<le> end"
  shows "bitposReply addr b (of_bool v) end_given start end =
    (let bits = bits_of (take (nat (end - start + 1)) (drop (nat start) b))
     in Some (if v \<notin> set bits \<and> (v \<or> end_given) then RInt (- 1) else RInt (start * 8 + int (length (takeWhile (\<lambda>x. x \<noteq> v) bits)))))"
proof -
  define p where "p = take (nat (end - start + 1)) (drop (nat start) b)"
  have l: "int (length p) = end - start + 1" using assms by (simp add: p_def)
  have n: "v \<notin> set (bits_of p) \<Longrightarrow> length (takeWhile (\<lambda>x. x \<noteq> v) (bits_of p)) = 8 * length p"
    using first_pos_none [of v "bits_of p"] by (simp add: first_pos_def)
  have f: "v \<in> set (bits_of p) \<Longrightarrow> length (takeWhile (\<lambda>x. x \<noteq> v) (bits_of p)) < 8 * length p"
    using first_pos_in [of v "bits_of p"] by (simp add: first_pos_def)
  note bp = redisBitpos_first [of "addr + nat start" p v]
  show ?thesis
  proof (cases "v \<in> set (bits_of p)")
    case True
    then have "int (length (takeWhile (\<lambda>x. x \<noteq> v) (bits_of p))) \<noteq> (end - start + 1) * 8"
      using f unfolding l [symmetric] by linarith
    then show ?thesis using True assms bp unfolding bitposReply_def Let_def p_def [symmetric] by auto
  next
    case False
    then show ?thesis using assms bp n l unfolding bitposReply_def Let_def p_def [symmetric] by (cases v) auto
  qed
qed

lemma bitposCommand_spec:
  assumes w: "db_wf cfg s" "\<not> masterhost cfg" and a: "string2ll bit_arg = Some (of_bool v)"
  shows "refines cfg s (bitposCommand cfg addr s key bit_arg args) (bitpos_spec key v args)"
proof -
  define V where "V = live_val cfg s"
  define E where "E = live_exp cfg s"
  have k0: "kstate cfg (card (dom (ks_val s))) {} s V E" using kstateI [OF w(1)] by (simp add: V_def E_def)
  obtain s1 where s1: "lookupKeyRead cfg s key = Some (V key, s1)" "kstate cfg (card (dom (ks_val s))) {key} s1 V E"
    using kstate_lookupKeyRead [OF k0 w(2), of key] by auto
  have v01: "\<not> (of_bool v \<noteq> (0 :: int) \<and> of_bool v \<noteq> (1 :: int))" by simp
  have "bitposCommand cfg addr s key bit_arg args = Some (fst (bitpos_spec key v args (map_option obj_abs \<circ> V, E)), s1)"
  proof (cases "\<exists>ob. V key = Some (ObjString ob)")
    case True
    then obtain ob where ob: "V key = Some (ObjString ob)" by blast
    define b where "b = str_val ob"
    have b: "getObjectReadOnlyString ob = b" using kstate_obj [OF s1(2) ob] getObjectReadOnlyString_val by (simp add: b_def)
    have r: "bitposReply addr b (of_bool v) g st en = Some (if st > en then RInt (- 1) else
          let bits = bits_of (take (nat (en - st + 1)) (drop (nat st) b))
          in if v \<notin> set bits \<and> (v \<or> g) then RInt (- 1) else RInt (st * 8 + int (length (takeWhile (\<lambda>x. x \<noteq> v) bits))))"
      if "bitposRange (int (length b)) args = Inr (g, st, en)" for g st en
      using bitposRange_bounds [OF that] bitposReply_spec [of st en b addr v g] by (cases "st > en") (simp_all add: bitposReply_def Let_def)
    show ?thesis using s1(1) ob b r a v01 unfolding bitposCommand_def bitpos_spec_def
      by (auto simp: b_def [symmetric] Let_def split: sum.splits prod.splits)
  next
    case False
    then show ?thesis using s1(1) a v01 by (cases "V key"; cases "the (V key)") (auto simp: bitposCommand_def bitpos_spec_def)
  qed
  then show ?thesis using s1(2)
    by (intro refinesI [OF k0, where V' = V and E' = E and K' = "{key}"]) (auto simp: bitpos_spec_def)
qed

section \<open>The commands as properties\<close>

text \<open>
  C35: SETBIT implements its specification on the visible keyspace.  It replies the old bit, the string grows
  with zero bytes up to the bit written, exactly the addressed bit changes, the expire time stays, and a wrong offset,
  bit or type changes nothing.  GETBIT reads that bit back, through every encoding of the string.
\<close>

theorem setbit_getbit_refines:
  assumes "db_wf cfg s" "\<not> masterhost cfg" "db_room s"
  shows "refines cfg s (setbitCommand cfg rc s key offset_arg on_arg) (setbit_spec key offset_arg on_arg) \<and>
    refines cfg s (getbitCommand cfg s key' offset_arg') (getbit_spec key' offset_arg')"
  using setbitCommand_spec [OF assms] getbitCommand_spec [OF assms(1,2)] by blast

theorem setbit_getbit_refines_witness:
  "(\<exists>s'. setbitCommand example_cfg 1 example_server [97] [49, 55] [49] = Some (RInt 0, s') \<and>
     fst (view example_cfg s') [97] = Some (AStr [52, 49, 64])) \<and>
   (\<exists>s'. getbitCommand example_cfg example_server [97] [55] = Some (RInt 0, s'))"
proof -
  have d: "dec_bytes 41 = [52, 49]" "dec_bytes 17 = [49, 55]" "dec_bytes 7 = [55]" "dec_bytes 1 = [49]" by code_simp+
  have n: "string2ll [49, 55] = Some 17" "string2ll [55] = Some 7" "string2ll [49] = Some 1"
    by (simp_all add: string2ll_iff in_signed_def d)
  have i: "getBitOffsetFromArgument [49, 55] False 0 = Some 17" "getBitOffsetFromArgument [55] False 0 = Some 7"
    by (simp_all add: getBitOffsetFromArgument_def n)
  have b: "bits_of (grow [52, 49] 3) ! 17 = False" "bytes_of ((bits_of (grow [52, 49] 3))[17 := True]) = [52, 49, 64]" "bits_of [52, 49] ! 7 = False"
    by code_simp+
  note r = setbit_getbit_refines [OF example_wf example_facts(1,5), of 1 "[97]" "[49, 55]" "[49]" "[97]" "[55]"]
  show ?thesis
    using refinesD [OF conjunct1 [OF r]] refinesD [OF conjunct2 [OF r]] b
    by (auto simp: setbit_spec_def getbit_spec_def string_at_def example_view i n d Let_def)
qed

text \<open>
  C33: BITOP implements its specification on the visible keyspace.  The word-wise fast path, the byte-wise tail and the early
  exits together compute the bit-wise operation of all sources, the shorter ones padded with zero bits; the result replaces
  the target without an expire time, or deletes it when empty, and an ill-typed source changes nothing.
\<close>

theorem bitopCommand_refines:
  assumes "db_wf cfg s" "\<not> masterhost cfg" "db_room s" and "keys \<noteq> []"
  shows "refines cfg s (bitopCommand cfg s opname target keys) (bitop_spec opname target keys)"
  using assms by (rule bitopCommand_spec)

theorem bitopCommand_refines_witness:
  "\<exists>s'. bitopCommand example_cfg example_server [78, 111, 116] [100] [[97]] = Some (RInt 2, s') \<and>
     view example_cfg s' = ((fst (view example_cfg example_server))([100] \<mapsto> AStr [203, 206]), Map.empty)"
proof -
  have i: "bitopName [78, 111, 116] = Some BITOP_NOT" "bytes_of (bitop_bits BITOP_NOT [[52, 49]]) = [203, 206]" by code_simp+
  have d: "dec_bytes 41 = [52, 49]" by code_simp
  show ?thesis
    using refinesD [OF bitopCommand_refines [OF example_wf example_facts(1,5), of "[[97]]" "[78, 111, 116]" "[100]"]]
    by (auto simp: bitop_spec_def string_at_def example_view i d)
qed

text \<open>
  C34: BITFIELD and BITFIELD_RO implement their specification on the visible keyspace.  The commands are parsed first, so that
  a wrong one leaves the keyspace as it was; then they run in order on the string grown to the highest bit
  written.  Every GET reads the field as an integer.  SET stores its argument, which for an unsigned field is taken modulo
  $2^{64}$, and INCRBY the sum; a number outside the range of the field is wrapped around, saturated or rejected according to
  the overflow policy in force.  Three kinds of operation are excluded by \<open>bitfield_defined\<close>: those on an i64 field that holds
  a negative number and the wrap-around of an i64 sum, where the C code shifts by 64, and a SET of a narrower signed field with
  saturation to a number so small that its distance from the largest value of the field exceeds 64 bits, where the code
  saturates to the wrong end.
\<close>

theorem bitfieldGeneric_refines:
  assumes "db_wf cfg s" "\<not> masterhost cfg" "db_room s" "bitfield_defined key args flag (view cfg s)"
  shows "refines cfg s (bitfieldGeneric cfg rc s key args flag) (bitfield_spec key args flag)"
  using assms by (rule bitfieldGeneric_spec)

theorem bitfieldGeneric_refines_witness:
  "\<exists>s'. bitfieldGeneric example_cfg 1 example_server [97]
       [[115, 101, 116], [117, 52], [52], [49, 53], [103, 101, 116], [105, 56], [48]] False = Some (RArray [RInt 4, RInt 63], s') \<and>
     fst (view example_cfg s') [97] = Some (AStr [63, 49])"
proof -
  define ops where "ops =
    [\<lparr>op_offset = 4, op_i64 = 15, op_opcode = BITFIELDOP_SET, op_owtype = BFOVERFLOW_WRAP, op_bits = 4, op_sign = False\<rparr>,
     \<lparr>op_offset = 0, op_i64 = 0, op_opcode = BITFIELDOP_GET, op_owtype = BFOVERFLOW_WRAP, op_bits = 8, op_sign = True\<rparr>]"
  have d: "dec_bytes 41 = [52, 49]" "dec_bytes 4 = [52]" "dec_bytes 15 = [49, 53]" "dec_bytes 8 = [56]" "dec_bytes 0 = [48]" by code_simp+
  have n: "string2ll [52] = Some 4" "string2ll [49, 53] = Some 15" "string2ll [56] = Some 8" "string2ll [48] = Some 0"
    by (simp_all add: string2ll_iff in_signed_def d)
  have k: "strcasecmp_eq [115, 101, 116] [103, 101, 116] = False" "strcasecmp_eq [103, 101, 116] [103, 101, 116] = True"
    "strcasecmp_eq [115, 101, 116] [115, 101, 116] = True" by code_simp+
  have p: "bitfieldParse [[115, 101, 116], [117, 52], [52], [49, 53], [103, 101, 116], [105, 56], [48]] BFOVERFLOW_WRAP [] True 0 = Inr (ops, False, 7)"
    unfolding ops_def
    by (simp add: bitfieldSubcmd_def bitfieldOperands_def getBitfieldTypeFromArgument_def getBitOffsetFromArgument_def n k)
  have o: "bitfield_ops_spec ops (grow [52, 49] (Suc 0)) = ([RInt 4, RInt 63], [63, 49])" unfolding ops_def by code_simp
  have "ops_defined ops (grow [52, 49] (Suc 0))" unfolding ops_def by (simp add: op_defined_def)
  then have "bitfield_defined [97] [[115, 101, 116], [117, 52], [52], [49, 53], [103, 101, 116], [105, 56], [48]] False (view example_cfg example_server)"
    by (simp add: bitfield_defined_def example_view string_at_def p d del: bitfieldParse.simps)
  then show ?thesis
    using refinesD [OF bitfieldGeneric_refines [OF example_wf example_facts(1,5),
      of "[97]" "[[115, 101, 116], [117, 52], [52], [49, 53], [103, 101, 116], [105, 56], [48]]" False 1]]
    by (auto simp: bitfield_spec_def string_at_def example_view p o d simp del: bitfieldParse.simps)
qed

end
