(* ===== verification/Commands.thy ===== *)
theory Commands
  imports SetAlgebra BitCommands
begin

text \<open>
  The command table of \<open>src/redis-6.0.5/src/server.c\<close> for the commands of the other theories,
  the dispatch of an argument vector to the procedure of its command, and the law every
  procedure obeys: it returns, keeps the keyspace well-formed, and signals every key whose
  visible value it changes.
\<close>

section \<open>The program\<close>

datatype cmd_proc =
    GET | SET | SETNX | SETEX | PSETEX | APPEND | STRLEN | DEL | UNLINK | EXISTS
  | SETBIT | GETBIT | BITFIELD | BITFIELD_RO | SETRANGE | GETRANGE | INCR | DECR | MGET
  | SADD | SREM | SMOVE | SISMEMBER | SCARD
  | SINTER | SINTERSTORE | SUNION | SUNIONSTORE | SDIFF | SDIFFSTORE
  | INCRBY | DECRBY | GETSET | MSET | MSETNX
  | RENAME | RENAMENX | EXPIRE | EXPIREAT | PEXPIRE | PEXPIREAT | TYPE_OF
  | MULTI | EXEC | DISCARD | TTL | TOUCH | PTTL | PERSIST | WATCH | UNWATCH
  | BITOP | BITCOUNT | BITPOS

datatype cmd_flag = CMD_WRITE | CMD_READONLY | CMD_DENYOOM | CMD_ADMIN | CMD_LOADING | CMD_STALE | CMD_NO_AUTH

record redisCommand =
  cmd_name :: string
  proc_of :: cmd_proc
  arity :: int
  cmd_flags :: "cmd_flag set"

definition entry :: "string \<Rightarrow> cmd_proc \<Rightarrow> int \<Rightarrow> cmd_flag set \<Rightarrow> redisCommand" where
  "entry name p a flags = \<lparr>cmd_name = name, proc_of = p, arity = a, cmd_flags = flags\<rparr>"

text \<open>
  The entries of the modelled commands, in the order of the table.  \<open>use-memory\<close> is \<open>CMD_DENYOOM\<close>, \<open>ok-loading\<close> and
  \<open>ok-stale\<close> are \<open>CMD_LOADING\<close> and \<open>CMD_STALE\<close>; the flags that only concern scripts, the
  monitor, the slow log and the ACL categories are left out.
\<close>

definition string_entries :: "redisCommand list" where
  "string_entries =
    [entry ''get'' GET 2 {CMD_READONLY},
     entry ''set'' SET (-3) {CMD_WRITE, CMD_DENYOOM},
     entry ''setnx'' SETNX 3 {CMD_WRITE, CMD_DENYOOM},
     entry ''setex'' SETEX 4 {CMD_WRITE, CMD_DENYOOM},
     entry ''psetex'' PSETEX 4 {CMD_WRITE, CMD_DENYOOM},
     entry ''append'' APPEND 3 {CMD_WRITE, CMD_DENYOOM},
     entry ''strlen'' STRLEN 2 {CMD_READONLY},
     entry ''del'' DEL (-2) {CMD_WRITE},
     entry ''unlink'' UNLINK (-2) {CMD_WRITE},
     entry ''exists'' EXISTS (-2) {CMD_READONLY},
     entry ''setbit'' SETBIT 4 {CMD_WRITE, CMD_DENYOOM},
     entry ''getbit'' GETBIT 3 {CMD_READONLY},
     entry ''bitfield'' BITFIELD (-2) {CMD_WRITE, CMD_DENYOOM},
     entry ''bitfield_ro'' BITFIELD_RO (-2) {CMD_READONLY},
     entry ''setrange'' SETRANGE 4 {CMD_WRITE, CMD_DENYOOM},
     entry ''getrange'' GETRANGE 4 {CMD_READONLY},
     entry ''substr'' GETRANGE 4 {CMD_READONLY},
     entry ''incr'' INCR 2 {CMD_WRITE, CMD_DENYOOM},
     entry ''decr'' DECR 2 {CMD_WRITE, CMD_DENYOOM},
     entry ''mget'' MGET (-2) {CMD_READONLY}]"

definition set_entries :: "redisCommand list" where
  "set_entries =
    [entry ''sadd'' SADD (-3) {CMD_WRITE, CMD_DENYOOM},
     entry ''srem'' SREM (-3) {CMD_WRITE},
     entry ''smove'' SMOVE 4 {CMD_WRITE},
     entry ''sismember'' SISMEMBER 3 {CMD_READONLY},
     entry ''scard'' SCARD 2 {CMD_READONLY},
     entry ''sinter'' SINTER (-2) {CMD_READONLY},
     entry ''sinterstore'' SINTERSTORE (-3) {CMD_WRITE, CMD_DENYOOM},
     entry ''sunion'' SUNION (-2) {CMD_READONLY},
     entry ''sunionstore'' SUNIONSTORE (-3) {CMD_WRITE, CMD_DENYOOM},
     entry ''sdiff'' SDIFF (-2) {CMD_READONLY},
     entry ''sdiffstore'' SDIFFSTORE (-3) {CMD_WRITE, CMD_DENYOOM}]"

definition key_entries :: "redisCommand list" where
  "key_entries =
    [entry ''incrby'' INCRBY 3 {CMD_WRITE, CMD_DENYOOM},
     entry ''decrby'' DECRBY 3 {CMD_WRITE, CMD_DENYOOM},
     entry ''getset'' GETSET 3 {CMD_WRITE, CMD_DENYOOM},
     entry ''mset'' MSET (-3) {CMD_WRITE, CMD_DENYOOM},
     entry ''msetnx'' MSETNX (-3) {CMD_WRITE, CMD_DENYOOM},
     entry ''rename'' RENAME 3 {CMD_WRITE},
     entry ''renamenx'' RENAMENX 3 {CMD_WRITE},
     entry ''expire'' EXPIRE 3 {CMD_WRITE},
     entry ''expireat'' EXPIREAT 3 {CMD_WRITE},
     entry ''pexpire'' PEXPIRE 3 {CMD_WRITE},
     entry ''pexpireat'' PEXPIREAT 3 {CMD_WRITE}]"

definition control_entries :: "redisCommand list" where
  "control_entries =
    [entry ''type'' TYPE_OF 2 {CMD_READONLY},
     entry ''multi'' MULTI 1 {CMD_LOADING, CMD_STALE},
     entry ''exec'' EXEC 1 {CMD_LOADING, CMD_STALE},
     entry ''discard'' DISCARD 1 {CMD_LOADING, CMD_STALE}]"

definition ttl_entries :: "redisCommand list" where
  "ttl_entries =
    [entry ''ttl'' TTL 2 {CMD_READONLY},
     entry ''touch'' TOUCH (-2) {CMD_READONLY},
     entry ''pttl'' PTTL 2 {CMD_READONLY},
     entry ''persist'' PERSIST 2 {CMD_WRITE}]"

definition watch_entries :: "redisCommand list" where
  "watch_entries =
    [entry ''watch'' WATCH (-2) {CMD_LOADING, CMD_STALE},
     entry ''unwatch'' UNWATCH 1 {CMD_LOADING, CMD_STALE}]"

definition bit_entries :: "redisCommand list" where
  "bit_entries =
    [entry ''bitop'' BITOP (-4) {CMD_WRITE, CMD_DENYOOM},
     entry ''bitcount'' BITCOUNT (-2) {CMD_READONLY},
     entry ''bitpos'' BITPOS (-3) {CMD_READONLY}]"

definition redisCommandTable :: "redisCommand list" where
  "redisCommandTable =
     string_entries @ set_entries @ key_entries @ control_entries @ ttl_entries @ watch_entries @ bit_entries"

text \<open>
  Names are compared without regard to case.  A name with a zero byte is not the name of a
  command.
\<close>

definition lookupCommand :: "byte list \<Rightarrow> redisCommand option" where
  "lookupCommand name = find (\<lambda>c. map tolower name = map of_char (cmd_name c)) redisCommandTable"

definition arity_ok :: "redisCommand \<Rightarrow> byte list list \<Rightarrow> bool" where
  "arity_ok c argv \<longleftrightarrow>
     \<not> ((arity c > 0 \<and> arity c \<noteq> int (length argv)) \<or> int (length argv) < - arity c)"

text \<open>
  What the procedures read besides the arguments and the keyspace: the reference count and the
  address of the string they work on, the addresses of set values, and the name of a module type.
\<close>

record proc_env =
  env_refcount :: nat
  env_addr :: nat
  env_set_addr :: "set_obj \<Rightarrow> u64 \<times> u64"
  env_module_name :: string

text \<open>
  The procedures read the arguments after the name.  A missing argument would be a read past the
  vector; the arity of the command excludes it.  The transaction commands have their own theory.
\<close>

definition args1 :: "byte list list \<Rightarrow> (byte list \<Rightarrow> 'a option) \<Rightarrow> 'a option" where
  "args1 argv f = (case argv of [_, a] \<Rightarrow> f a | _ \<Rightarrow> None)"

definition args2 :: "byte list list \<Rightarrow> (byte list \<Rightarrow> byte list \<Rightarrow> 'a option) \<Rightarrow> 'a option" where
  "args2 argv f = (case argv of [_, a, b] \<Rightarrow> f a b | _ \<Rightarrow> None)"

definition args3 :: "byte list list \<Rightarrow> (byte list \<Rightarrow> byte list \<Rightarrow> byte list \<Rightarrow> 'a option) \<Rightarrow> 'a option" where
  "args3 argv f = (case argv of [_, a, b, c] \<Rightarrow> f a b c | _ \<Rightarrow> None)"

definition args0_rest :: "byte list list \<Rightarrow> (byte list list \<Rightarrow> 'a option) \<Rightarrow> 'a option" where
  "args0_rest argv f = (case argv of _ # r \<Rightarrow> f r | _ \<Rightarrow> None)"

definition args1_rest :: "byte list list \<Rightarrow> (byte list \<Rightarrow> byte list list \<Rightarrow> 'a option) \<Rightarrow> 'a option" where
  "args1_rest argv f = (case argv of _ # a # r \<Rightarrow> f a r | _ \<Rightarrow> None)"

definition args2_rest :: "byte list list \<Rightarrow> (byte list \<Rightarrow> byte list \<Rightarrow> byte list list \<Rightarrow> 'a option) \<Rightarrow> 'a option" where
  "args2_rest argv f = (case argv of _ # a # b # r \<Rightarrow> f a b r | _ \<Rightarrow> None)"

definition args3_rest :: "byte list list \<Rightarrow> (byte list \<Rightarrow> byte list \<Rightarrow> byte list \<Rightarrow> byte list list \<Rightarrow> 'a option) \<Rightarrow> 'a option" where
  "args3_rest argv f = (case argv of _ # a # b # c # r \<Rightarrow> f a b c r | _ \<Rightarrow> None)"

definition call_proc ::
  "proc_env \<Rightarrow> 'a server_config_scheme \<Rightarrow> server \<Rightarrow> cmd_proc \<Rightarrow> byte list list \<Rightarrow> (reply \<times> server) option" where
  "call_proc ev cfg s p argv =
     (case p of
        GET \<Rightarrow> args1 argv (\<lambda>key. getCommand cfg s key)
      | SET \<Rightarrow> args2_rest argv (\<lambda>key val opts. setCommand cfg s key val opts)
      | SETNX \<Rightarrow> args2 argv (\<lambda>key val. setnxCommand cfg s key val)
      | SETEX \<Rightarrow> args3 argv (\<lambda>key expire val. setexCommand cfg s key expire val)
      | PSETEX \<Rightarrow> args3 argv (\<lambda>key expire val. psetexCommand cfg s key expire val)
      | APPEND \<Rightarrow> args2 argv (\<lambda>key val. appendCommand cfg (env_refcount ev) s key val)
      | STRLEN \<Rightarrow> args1 argv (\<lambda>key. strlenCommand cfg s key)
      | DEL \<Rightarrow> args0_rest argv (\<lambda>keys. delCommand cfg s keys)
      | UNLINK \<Rightarrow> args0_rest argv (\<lambda>keys. unlinkCommand cfg s keys)
      | EXISTS \<Rightarrow> args0_rest argv (\<lambda>keys. existsCommand cfg s keys)
      | SETBIT \<Rightarrow> args3 argv (\<lambda>key offset on. setbitCommand cfg (env_refcount ev) s key offset on)
      | GETBIT \<Rightarrow> args2 argv (\<lambda>key offset. getbitCommand cfg s key offset)
      | BITFIELD \<Rightarrow> args1_rest argv (\<lambda>key args. bitfieldCommand cfg (env_refcount ev) s key args)
      | BITFIELD_RO \<Rightarrow> args1_rest argv (\<lambda>key args. bitfieldroCommand cfg (env_refcount ev) s key args)
      | SETRANGE \<Rightarrow> args3 argv (\<lambda>key offset val. setrangeCommand cfg (env_refcount ev) s key offset val)
      | GETRANGE \<Rightarrow> args3 argv (\<lambda>key start end. getrangeCommand cfg s key start end)
      | INCR \<Rightarrow> args1 argv (\<lambda>key. incrCommand cfg (env_refcount ev) s key)
      | DECR \<Rightarrow> args1 argv (\<lambda>key. decrCommand cfg (env_refcount ev) s key)
      | MGET \<Rightarrow> args0_rest argv (\<lambda>keys. mgetCommand cfg s keys)
      | SADD \<Rightarrow> args2_rest argv (\<lambda>key member members. saddCommand cfg s key (member # members))
      | SREM \<Rightarrow> args2_rest argv (\<lambda>key member members. sremCommand cfg s key (member # members))
      | SMOVE \<Rightarrow> args3 argv (\<lambda>src dst ele. smoveCommand cfg s src dst ele)
      | SISMEMBER \<Rightarrow> args2 argv (\<lambda>key ele. sismemberCommand cfg s key ele)
      | SCARD \<Rightarrow> args1 argv (\<lambda>key. scardCommand cfg s key)
      | SINTER \<Rightarrow> args1_rest argv (\<lambda>key keys. sinterCommand cfg (env_set_addr ev) s (key # keys))
      | SINTERSTORE \<Rightarrow> args2_rest argv (\<lambda>dst key keys. sinterstoreCommand cfg (env_set_addr ev) s dst (key # keys))
      | SUNION \<Rightarrow> args1_rest argv (\<lambda>key keys. sunionCommand cfg (env_set_addr ev) s (key # keys))
      | SUNIONSTORE \<Rightarrow> args2_rest argv (\<lambda>dst key keys. sunionstoreCommand cfg (env_set_addr ev) s dst (key # keys))
      | SDIFF \<Rightarrow> args1_rest argv (\<lambda>key keys. sdiffCommand cfg (env_set_addr ev) s (key # keys))
      | SDIFFSTORE \<Rightarrow> args2_rest argv (\<lambda>dst key keys. sdiffstoreCommand cfg (env_set_addr ev) s dst (key # keys))
      | INCRBY \<Rightarrow> args2 argv (\<lambda>key incr. incrbyCommand cfg (env_refcount ev) s key incr)
      | DECRBY \<Rightarrow> args2 argv (\<lambda>key decr. decrbyCommand cfg (env_refcount ev) s key decr)
      | GETSET \<Rightarrow> args2 argv (\<lambda>key val. getsetCommand cfg s key val)
      | MSET \<Rightarrow> args0_rest argv (\<lambda>args. msetCommand cfg s args)
      | MSETNX \<Rightarrow> args0_rest argv (\<lambda>args. msetnxCommand cfg s args)
      | RENAME \<Rightarrow> args2 argv (\<lambda>src dst. renameCommand cfg s src dst)
      | RENAMENX \<Rightarrow> args2 argv (\<lambda>src dst. renamenxCommand cfg s src dst)
      | EXPIRE \<Rightarrow> args2 argv (\<lambda>key t. expireCommand cfg s key t)
      | EXPIREAT \<Rightarrow> args2 argv (\<lambda>key t. expireatCommand cfg s key t)
      | PEXPIRE \<Rightarrow> args2 argv (\<lambda>key t. pexpireCommand cfg s key t)
      | PEXPIREAT \<Rightarrow> args2 argv (\<lambda>key t. pexpireatCommand cfg s key t)
      | TYPE_OF \<Rightarrow> args1 argv (\<lambda>key. typeCommand cfg (env_module_name ev) s key)
      | TTL \<Rightarrow> args1 argv (\<lambda>key. ttlCommand cfg s key)
      | TOUCH \<Rightarrow> args0_rest argv (\<lambda>keys. touchCommand cfg s keys)
      | PTTL \<Rightarrow> args1 argv (\<lambda>key. pttlCommand cfg s key)
      | PERSIST \<Rightarrow> args1 argv (\<lambda>key. persistCommand cfg s key)
      | BITOP \<Rightarrow> args3_rest argv (\<lambda>opname target key keys. bitopCommand cfg s opname target (key # keys))
      | BITCOUNT \<Rightarrow> args1_rest argv (\<lambda>key args. bitcountCommand cfg (env_addr ev) s key args)
      | BITPOS \<Rightarrow> args2_rest argv (\<lambda>key bit args. bitposCommand cfg (env_addr ev) s key bit args)
      | _ \<Rightarrow> None)"

section \<open>What a command announces\<close>

text \<open>
  A command returns, keeps the keyspace well-formed, and signals every key whose visible value
  it changes.
\<close>

definition announces :: "'a server_config_scheme \<Rightarrow> server \<Rightarrow> (reply \<times> server) option \<Rightarrow> bool" where
  "announces cfg s out \<longleftrightarrow> (\<exists>r s'. out = Some (r, s') \<and> db_wf cfg s' \<and>
     (\<forall>k. fst (view cfg s') k \<noteq> fst (view cfg s) k \<longrightarrow> SignalModified k \<in> set (events s')))"

lemma announces_refines:
  assumes "refines cfg s out spec"
    and "\<And>r s' v k. out = Some (r, s') \<Longrightarrow> spec (view cfg s) = (r, v) \<Longrightarrow> fst v k \<noteq> fst (view cfg s) k \<Longrightarrow> SignalModified k \<in> set (events s')"
  shows "announces cfg s out"
  using assms unfolding refines_def announces_def by metis

lemma announces_read:
  assumes "refines cfg s out spec" "\<And>v. snd (spec v) = v"
  shows "announces cfg s out"
  using assms(1) by (rule announces_refines) (use assms(2) in \<open>metis snd_conv\<close>)

lemma announces_same: "db_wf cfg s \<Longrightarrow> announces cfg s (Some (r, s))"
  by (simp add: announces_def)

lemma announces_live:
  assumes "db_wf cfg s'" "\<And>k. live_val cfg s' k \<noteq> live_val cfg s k \<Longrightarrow> SignalModified k \<in> set (events s')"
  shows "announces cfg s (Some (r, s'))"
proof -
  have "SignalModified k \<in> set (events s')" if "fst (view cfg s') k \<noteq> fst (view cfg s) k" for k
    using assms(2) [of k] that by (cases "live_val cfg s' k = live_val cfg s k") (simp_all add: view_def)
  then show ?thesis using assms(1) by (simp add: announces_def)
qed

lemma announces_kstate:
  assumes "kstate cfg n K s V E" "out = Some (r, s')" "kstate cfg n' K' s' V E'"
  shows "announces cfg s out"
  using assms view_kstate [OF assms(1)] view_kstate [OF assms(3)] kstate_wf [OF assms(3)] by (simp add: announces_def)

lemma signal_emit [simp]: "SignalModified k \<in> set (events (emit e s)) \<longleftrightarrow> e = SignalModified k \<or> SignalModified k \<in> set (events s)"
  by (auto simp: emit_def)

lemmas path_simps = Let_def not_an_integer_def czero_def cone_def
lemmas path_splits = Option.bind_split_asm option.split_asm prod.split_asm robj.split_asm if_split_asm sum.split_asm

subsection \<open>String commands\<close>

lemma incrDecrCommand_signal: "incrDecrCommand cfg rc s key i = Some (RInt n, s') \<Longrightarrow> SignalModified key \<in> set (events s')"
  by (auto simp: incrDecrCommand_def path_simps split: path_splits)

lemma incrDecrCommand_announces:
  assumes "db_wf cfg s" "\<not> masterhost cfg" "db_room s" "in_i64 i"
  shows "announces cfg s (incrDecrCommand cfg rc s key i)"
  by (rule announces_refines [OF incrDecrCommand_spec [OF assms]])
    (auto simp: incr_spec_def not_an_integer_def dest: incrDecrCommand_signal split: option.splits avalue.splits if_splits prod.splits)

lemma genericSetKey_signal: "genericSetKey cfg s key val keepttl True = Some s' \<Longrightarrow> SignalModified key \<in> set (events s')"
  by (auto simp: genericSetKey_def path_simps split: path_splits)

lemma setExpire_events: "setExpire cfg s key w = Some s' \<Longrightarrow> set (events s) \<subseteq> set (events s')"
  by (auto simp: setExpire_def emit_def path_simps split: path_splits)

lemma set_store_signal: "set_store cfg s flags key val expire = Some s' \<Longrightarrow> SignalModified key \<in> set (events s')"
  by (auto simp: set_store_def path_simps dest!: genericSetKey_signal setExpire_events split: path_splits)

lemma setGenericCommand_announces:
  assumes w: "db_wf cfg s" "\<not> masterhost cfg" "db_room s" "virtual_now cfg \<le> mstime cfg" "0 \<le> mstime cfg"
    and val: "str_wf val" and wh: "set_milliseconds name expire u = Inl err \<or> set_when (mstime cfg) expire u when"
    and r: "(case ok of Some r \<Rightarrow> r | None \<Rightarrow> ROk) \<noteq> (case abort of Some r \<Rightarrow> r | None \<Rightarrow> RNull)"
  shows "announces cfg s (setGenericCommand cfg s name flags key val expire u ok abort)"
proof (cases "set_milliseconds name expire u")
  case (Inl err)
  then show ?thesis using w(1) by (simp add: setGenericCommand_def announces_same)
next
  case (Inr ms)
  then have wh: "set_when (mstime cfg) expire u when" using wh by simp
  have sig: "SignalModified key \<in> set (events s')"
    if "setGenericCommand cfg s name flags key val expire u ok abort = Some (case ok of Some r \<Rightarrow> r | None \<Rightarrow> ROk, s')" for s'
    using that r by (auto simp: setGenericCommand_def Inr path_simps dest: set_store_signal split: path_splits)
  show ?thesis
    by (rule announces_refines [OF setGenericCommand_spec [OF w val wh]]) (auto simp: set_spec_def dest: sig split: if_splits prod.splits)
qed

text \<open>The log only grows.\<close>

lemma delete_events:
  "dbSyncDelete s key = Some (b, s') \<Longrightarrow> events s' = events s"
  "dbAsyncDelete s key = Some (b, s') \<Longrightarrow> events s' = events s"
  by (auto simp: dbSyncDelete_def dbAsyncDelete_def path_simps split: path_splits)

lemma expireIfNeeded_events: "expireIfNeeded cfg s key = Some (b, s') \<Longrightarrow> set (events s) \<subseteq> set (events s')"
  by (auto simp: expireIfNeeded_def keyIsExpired_def getExpire_def propagateExpire_def emit_def path_simps
      dest!: delete_events split: path_splits)

lemma lookupKeyWrite_events: "lookupKeyWrite cfg s key = Some (v, s') \<Longrightarrow> set (events s) \<subseteq> set (events s')"
  by (auto simp: lookupKeyWrite_def lookupKeyWriteWithFlags_def lookupKey_def path_simps dest!: expireIfNeeded_events split: path_splits)

lemma store_events:
  "dbAdd cfg s key val = Some s' \<Longrightarrow> set (events s) \<subseteq> set (events s')"
  "dbOverwrite s key val = Some s' \<Longrightarrow> events s' = events s"
  "removeExpire s key = Some (b, s') \<Longrightarrow> events s' = events s"
  by (auto simp: dbAdd_def dbOverwrite_def removeExpire_def emit_def path_simps split: path_splits)

lemma genericSetKey_events: "genericSetKey cfg s key val keepttl True = Some s' \<Longrightarrow> set (events s) \<subseteq> set (events s')"
  by (auto simp: genericSetKey_def emit_def path_simps dest!: lookupKeyWrite_events store_events split: path_splits)

lemma msetLoop_signal:
  "msetLoop cfg s pairs = Some s' \<Longrightarrow> set (events s) \<subseteq> set (events s') \<and> (\<forall>k v. (k, v) \<in> set pairs \<longrightarrow> SignalModified k \<in> set (events s'))"
proof (induction pairs arbitrary: s)
  case (Cons p pairs)
  obtain key val where p: "p = (key, val)" by fastforce
  obtain s1 where s1: "genericSetKey cfg s key (ObjString (tryObjectEncoding 1 (arg_obj val))) False True = Some s1"
      "msetLoop cfg (emit (Notify NOTIFY_STRING ''set'' key) s1) pairs = Some s'"
    using Cons.prems by (auto simp: p setKey_def split: path_splits)
  then show ?case using Cons.IH [OF s1(2)] genericSetKey_events [OF s1(1)] genericSetKey_signal [OF s1(1)] by (auto simp: p emit_def)
qed simp

lemma mset_fold_other: "k \<notin> fst ` set pairs \<Longrightarrow> fst (fold mset_one pairs v) k = fst v k"
  by (induction pairs arbitrary: v) (auto split: prod.splits)

lemma msetGenericCommand_announces:
  assumes w: "db_wf cfg s" "\<not> masterhost cfg"
    and room: "card (dom (ks_val s)) + length (arg_pairs args) \<le> 2 ^ 60" "\<forall>v \<in> snd ` set (arg_pairs args). length v < 2 ^ 63"
  shows "announces cfg s (msetGenericCommand cfg s args nx)"
proof (cases "even (length args)")
  case False
  then have "(length args + 1) mod 2 = 0" by presburger
  then show ?thesis using w(1) by (simp add: msetGenericCommand_def announces_same)
next
  case True
  have sig: "\<forall>k \<in> fst ` set (arg_pairs args). SignalModified k \<in> set (events s')"
    if "msetGenericCommand cfg s args nx = Some (if nx then RInt 1 else ROk, s')" for s'
  proof -
    have "\<exists>s1 s2. msetLoop cfg s1 (arg_pairs args) = Some s2 \<and> events s' = events s2"
      using that by (auto simp: msetGenericCommand_def path_simps split: path_splits) blast+
    then show ?thesis using msetLoop_signal by fastforce
  qed
  show ?thesis
  proof (rule announces_refines [OF msetGenericCommand_spec [OF w True room]])
    fix r s' v k
    assume a: "msetGenericCommand cfg s args nx = Some (r, s')" "mset_spec (arg_pairs args) nx (view cfg s) = (r, v)"
      "fst v k \<noteq> fst (view cfg s) k"
    then have v: "v = fold mset_one (arg_pairs args) (view cfg s)" "r = (if nx then RInt 1 else ROk)" by (auto simp: mset_spec_def split: if_splits)
    have "k \<in> fst ` set (arg_pairs args)" using a(3) mset_fold_other [of k "arg_pairs args" "view cfg s"] unfolding v(1) by blast
    moreover have "msetGenericCommand cfg s args nx = Some (if nx then RInt 1 else ROk, s')" using a(1) v(2) by simp
    ultimately show "SignalModified k \<in> set (events s')" using sig by blast
  qed
qed

lemma appendCommand_signal: "appendCommand cfg rc s key val = Some (RInt n, s') \<Longrightarrow> SignalModified key \<in> set (events s')"
  by (auto simp: appendCommand_def checkStringLength_def path_simps split: path_splits)

lemma appendCommand_announces:
  assumes "db_wf cfg s" "\<not> masterhost cfg" "db_room s" "str_small key (view cfg s)" "length val < 2 ^ 62"
  shows "announces cfg s (appendCommand cfg rc s key val)"
  by (rule announces_refines [OF appendCommand_spec [OF assms]])
    (auto simp: append_spec_def too_long_def dest: appendCommand_signal split: option.splits avalue.splits if_splits prod.splits)

lemma setrangeCommand_signal:
  "setrangeCommand cfg rc s key arg value = Some (RInt n, s') \<Longrightarrow> value \<noteq> [] \<Longrightarrow> SignalModified key \<in> set (events s')"
  by (auto simp: setrangeCommand_def checkStringLength_def path_simps split: path_splits)

lemma setrangeCommand_announces:
  assumes w: "db_wf cfg s" "\<not> masterhost cfg" "db_room s" and off: "\<And>offset. string2ll arg = Some offset \<Longrightarrow> offset < 2 ^ 62"
    and small: "length value < 2 ^ 62"
  shows "announces cfg s (setrangeCommand cfg rc s key arg value)"
proof (cases "string2ll arg")
  case None
  then show ?thesis using w(1) by (simp add: setrangeCommand_def announces_same)
next
  case (Some offset)
  show ?thesis
    by (rule announces_refines [OF setrangeCommand_spec [OF w Some off [OF Some] small]])
      (auto simp: setrange_spec_def too_long_def dest: setrangeCommand_signal split: option.splits avalue.splits if_splits prod.splits)
qed

subsection \<open>Key commands\<close>

lemma delOne_events:
  "delOne cfg lazy s key = Some (s', b) \<Longrightarrow> set (events s) \<subseteq> set (events s') \<and> (b \<longrightarrow> SignalModified key \<in> set (events s'))"
  by (auto simp: delOne_def emit_def path_simps dest!: expireIfNeeded_events delete_events split: path_splits)

lemma count_all_Cons:
  assumes "count_all f s (x # xs) = Some (s', n)"
  obtains s1 b m where "f s x = Some (s1, b)" "count_all f s1 xs = Some (s', m)"
  using assms by (auto split: option.splits)

lemma del_all_events: "count_all (delOne cfg lazy) s keys = Some (s', n) \<Longrightarrow> set (events s) \<subseteq> set (events s')"
proof (induction keys arbitrary: s n)
  case (Cons key keys)
  from Cons.prems show ?case by (rule count_all_Cons) (use Cons.IH delOne_events in blast)
qed simp

lemma del_all_signal:
  assumes "db_wf cfg s" "\<not> masterhost cfg" "count_all (delOne cfg lazy) s keys = Some (s', n)" "k \<in> set keys" "live_val cfg s k \<noteq> None"
  shows "SignalModified k \<in> set (events s')"
  using assms(1,3-)
proof (induction keys arbitrary: s n)
  case (Cons key keys)
  obtain s1 where s1: "delOne cfg lazy s key = Some (s1, live_val cfg s key \<noteq> None)"
      "becomes cfg s1 ((ks_val s)(key := None)) ((ks_exp s)(key := None))"
    using delOne_master [OF Cons.prems(1) assms(2)] by blast
  from Cons.prems(2) obtain m where m: "count_all (delOne cfg lazy) s1 keys = Some (s', m)"
    by (rule count_all_Cons) (use s1(1) in simp)
  show ?case
  proof (cases "k = key")
    case True
    then show ?thesis using delOne_events [OF s1(1)] del_all_events [OF m] Cons.prems(4) by blast
  next
    case False
    then have "live_val cfg s1 k = live_val cfg s k" using s1(2) live_cong [of s1 k s cfg] by (simp add: becomes_def)
    then show ?thesis using Cons.IH [OF _ m] s1(2) Cons.prems(3,4) False by (simp add: becomes_def)
  qed
qed simp

lemma delGenericCommand_announces:
  assumes w: "db_wf cfg s" "\<not> masterhost cfg"
  shows "announces cfg s (delGenericCommand cfg lazy s keys)"
proof -
  obtain r s' where r: "delGenericCommand cfg lazy s keys = Some (r, s')" "db_wf cfg s'" "live_val cfg s' = live_val cfg s |` (- set keys)"
    using delGenericCommand_spec [OF w, of lazy keys] by blast
  then obtain n where n: "count_all (delOne cfg lazy) s keys = Some (s', n)" by (auto simp: delGenericCommand_def split: path_splits)
  have "SignalModified k \<in> set (events s')" if "live_val cfg s' k \<noteq> live_val cfg s k" for k
  proof -
    have "k \<in> set keys" using that by (cases "k \<in> set keys") (simp_all add: r(3))
    moreover from this have "live_val cfg s k \<noteq> None" using that by (cases "live_val cfg s k") (simp_all add: r(3))
    ultimately show ?thesis by (rule del_all_signal [OF w n])
  qed
  then show ?thesis unfolding r(1) using r(2) by (intro announces_live)
qed

lemma renameGenericCommand_signal:
  "renameGenericCommand cfg s src dst nx = Some (r, s') \<Longrightarrow> r = (if nx then cone else ROk) \<Longrightarrow> src \<noteq> dst \<Longrightarrow>
   SignalModified src \<in> set (events s') \<and> SignalModified dst \<in> set (events s')"
  by (auto simp: renameGenericCommand_def path_simps split: path_splits)

lemma renameGenericCommand_announces:
  assumes w: "db_wf cfg s" "\<not> masterhost cfg" "db_room s"
  shows "announces cfg s (renameGenericCommand cfg s src dst nx)"
proof -
  obtain r s' where r: "renameGenericCommand cfg s src dst nx = Some (r, s')" "db_wf cfg s'" "(r, live cfg s') = rename_spec src dst nx (live cfg s)"
    using renameGenericCommand_spec [OF w] by blast
  have "SignalModified k \<in> set (events s')" if "live_val cfg s' k \<noteq> live_val cfg s k" for k
    using r(3) that renameGenericCommand_signal [OF r(1)]
    by (auto simp: rename_spec_def live_def split: option.splits if_splits)
  then show ?thesis unfolding r(1) using r(2) by (intro announces_live)
qed

lemma expireGenericCommand_signal:
  "expireGenericCommand cfg s key param base u = Some (cone, s') \<Longrightarrow> SignalModified key \<in> set (events s')"
  by (auto simp: expireGenericCommand_def path_simps split: path_splits)

lemma expireGenericCommand_announces:
  assumes w: "db_wf cfg s" "\<not> masterhost cfg" "db_room s" and l: "\<not> loading cfg" "virtual_now cfg \<le> mstime cfg"
  shows "announces cfg s (expireGenericCommand cfg s key param base u)"
proof (cases "string2ll param")
  case None
  then show ?thesis using w(1) by (simp add: expireGenericCommand_def announces_same)
next
  case (Some n)
  obtain r s' where r: "expireGenericCommand cfg s key param base u = Some (r, s')" "db_wf cfg s'"
      "(r, live cfg s') = expire_spec (mstime cfg) key (expire_when n base u) (live cfg s)"
    using expireGenericCommand_spec [OF w l Some] by blast
  have "SignalModified k \<in> set (events s')" if "live_val cfg s' k \<noteq> live_val cfg s k" for k
    using r(1,3) that expireGenericCommand_signal by (auto simp: expire_spec_def live_def split: if_splits)
  then show ?thesis unfolding r(1) using r(2) by (intro announces_live)
qed

lemma persistCommand_announces:
  assumes w: "db_wf cfg s" "\<not> masterhost cfg"
  shows "announces cfg s (persistCommand cfg s key)"
proof -
  define V where "V = live_val cfg s"
  define E where "E = live_exp cfg s"
  define n where "n = card (dom (ks_val s))"
  have k0: "kstate cfg n {} s V E" using kstateI [OF w(1)] by (simp add: V_def E_def n_def)
  obtain s1 where s1: "lookupKeyWrite cfg s key = Some (V key, s1)" "kstate cfg n {key} s1 V E"
    using kstate_lookupKeyWrite [OF k0 w(2), of key] by auto
  show ?thesis
  proof (cases "V key")
    case None
    then show ?thesis using announces_kstate [OF k0 _ s1(2)] s1(1) by (simp add: persistCommand_def)
  next
    case (Some v)
    have raw: "db_wf cfg s1" "ks_val s1 key = V key" using kstate_wf [OF s1(2)] kstate_raw [OF s1(2), of key] by simp_all
    obtain b s2 where s2: "removeExpire s1 key = Some (b, s2)" "becomes cfg s2 (ks_val s1) ((ks_exp s1)(key := None))"
      using removeExpire_spec [OF raw(1), of key] raw(2) Some by auto
    have "becomes cfg s2 ((ks_val s1)(key := V key)) ((ks_exp s1)(key := None))" using s2(2) raw(2) by (simp add: fun_upd_idem)
    moreover have "card (dom (ks_val s2)) \<le> n" using s1(2) s2(2) by (simp add: becomes_def kstate_def)
    ultimately have "kstate cfg n {key} s2 V (E(key := None))" using kstate_change [OF s1(2), of s2 key "V key" None n] by (simp add: fun_upd_idem)
    then show ?thesis using announces_kstate [OF k0, of _ _ "if b then emit (Notify NOTIFY_GENERIC ''persist'' key) s2\<lparr>dirty := dirty s2 + 1\<rparr> else s2"] s1(1) s2(1) Some
      by (auto simp: persistCommand_def Let_def)
  qed
qed

lemma lookup_announces:
  assumes "db_wf cfg s" "\<not> masterhost cfg"
    and "\<And>v s'. lookupKeyRead cfg s key = Some (v, s') \<Longrightarrow> \<exists>r. out = Some (r, s')"
  shows "announces cfg s out"
proof -
  obtain s' where s': "lookupKeyRead cfg s key = Some (live_val cfg s key, s')"
      "kstate cfg (card (dom (ks_val s))) {key} s' (live_val cfg s) (live_exp cfg s)"
    using kstate_lookupKeyRead [OF kstateI [OF assms(1)] assms(2), of key] by blast
  from assms(3) [OF s'(1)] obtain r where "out = Some (r, s')" by blast
  then show ?thesis by (rule announces_kstate [OF kstateI [OF assms(1)] _ s'(2)])
qed

lemma strlenCommand_announces: "db_wf cfg s \<Longrightarrow> \<not> masterhost cfg \<Longrightarrow> announces cfg s (strlenCommand cfg s key)"
  by (erule (1) lookup_announces [where key = key]) (auto simp: strlenCommand_def split: option.splits robj.splits)

lemma getrangeCommand_announces: "db_wf cfg s \<Longrightarrow> \<not> masterhost cfg \<Longrightarrow> announces cfg s (getrangeCommand cfg s key a b)"
proof (cases "string2ll a = None \<or> string2ll b = None")
  case True
  moreover assume "db_wf cfg s"
  ultimately show ?thesis by (auto simp: getrangeCommand_def announces_same split: option.split)
next
  case False
  moreover assume "db_wf cfg s" "\<not> masterhost cfg"
  ultimately show ?thesis
    by (intro lookup_announces [where key = key]) (auto simp: getrangeCommand_def Let_def split_beta split: option.split robj.split)
qed

lemma typeCommand_announces: "db_wf cfg s \<Longrightarrow> \<not> masterhost cfg \<Longrightarrow> announces cfg s (typeCommand cfg m s key)"
  by (erule (1) lookup_announces [where key = key]) (auto simp: typeCommand_def lookupKeyRead_def)

lemma existsCommand_announces: "db_wf cfg s \<Longrightarrow> \<not> masterhost cfg \<Longrightarrow> announces cfg s (existsCommand cfg s keys)"
  using existsCommand_spec [of cfg s keys] by (auto simp: announces_def view_def)

lemma touchCommand_announces: "db_wf cfg s \<Longrightarrow> \<not> masterhost cfg \<Longrightarrow> announces cfg s (touchCommand cfg s keys)"
  using existsCommand_announces [of cfg s keys] by (simp add: touchCommand_def existsCommand_def)

lemma ttlGenericCommand_announces: "db_wf cfg s \<Longrightarrow> \<not> masterhost cfg \<Longrightarrow> announces cfg s (ttlGenericCommand cfg s key ms)"
  using ttlGenericCommand_spec [of cfg s key ms] by (auto simp: announces_def view_def live_def)

lemma getsetCommand_announces:
  assumes w: "db_wf cfg s" "\<not> masterhost cfg" "db_room s" and val: "length val < 2 ^ 63"
  shows "announces cfg s (getsetCommand cfg s key val)"
proof -
  from w(1,3) obtain n V E where k0: "kstate cfg n {} s V E" "n < 2 ^ 60" "view cfg s = (map_option obj_abs \<circ> V, E)"
    by (rule refines_start)
  obtain r ok s1 where s1: "getGenericCommand cfg s key = Some (r, ok, s1)" "kstate cfg n {key} s1 V E"
    using getGenericCommand_spec [OF k0(1) w(2), of key] by auto
  show ?thesis
  proof (cases ok)
    case False
    then show ?thesis using s1(1) announces_kstate [OF k0(1) _ s1(2)] by (simp add: getsetCommand_def)
  next
    case True
    define v where "v = tryObjectEncoding 1 (arg_obj val)"
    have v: "obj_wf cfg (ObjString v)" using arg_obj_spec [OF val] by (simp add: v_def)
    obtain s2 where s2: "setKey cfg s1 key (ObjString v) = Some s2" "kstate cfg (Suc n) {key} s2 (V(key \<mapsto> ObjString v)) (E(key := None))"
      using kstate_setKey [OF s1(2) w(2) v k0(2), of key False True] by (auto simp: setKey_def)
    have "SignalModified key \<in> set (events s2)" using s2(1) genericSetKey_signal by (auto simp: setKey_def)
    moreover have "getsetCommand cfg s key val = Some (r, emit (Notify NOTIFY_STRING ''set'' key) s2\<lparr>dirty := dirty s2 + 1\<rparr>)"
      unfolding getsetCommand_def v_def [symmetric] using s1(1) s2(1) True by simp
    ultimately show ?thesis using view_kstate [OF s2(2)] k0(3) kstate_wf [OF s2(2)] by (auto simp: announces_def)
  qed
qed

subsection \<open>Set commands\<close>

lemma saddCommand_signal: "saddCommand cfg s key members = Some (RInt n, s') \<Longrightarrow> 0 < n \<Longrightarrow> SignalModified key \<in> set (events s')"
  by (auto simp: saddCommand_def path_simps split: path_splits)

lemma saddCommand_announces:
  assumes "db_wf cfg s" "\<not> masterhost cfg" "db_room s" "set_room key (length members) (view cfg s)" "members \<noteq> []"
  shows "announces cfg s (saddCommand cfg s key members)"
proof (rule announces_refines [OF saddCommand_spec [OF assms(1-4)]])
  fix r s' v k
  assume a: "saddCommand cfg s key members = Some (r, s')" "sadd_spec key members (view cfg s) = (r, v)" "fst v k \<noteq> fst (view cfg s) k"
  obtain V E where v0: "view cfg s = (V, E)" by fastforce
  have "\<exists>n. k = key \<and> r = RInt n \<and> 0 < n"
    using a(2,3) assms(5) unfolding v0 by (auto simp: sadd_spec_def card_gt_0_iff split: option.splits avalue.splits prod.splits if_splits)
  then show "SignalModified k \<in> set (events s')" using saddCommand_signal a(1) by blast
qed

lemma sremCommand_signal: "sremCommand cfg s key members = Some (RInt n, s') \<Longrightarrow> 0 < n \<Longrightarrow> SignalModified key \<in> set (events s')"
  by (auto simp: sremCommand_def path_simps split: path_splits)

lemma sremCommand_announces:
  assumes "db_wf cfg s" "\<not> masterhost cfg" "db_room s" "set_room key 0 (view cfg s)"
  shows "announces cfg s (sremCommand cfg s key members)"
proof (rule announces_refines [OF sremCommand_spec [OF assms]])
  fix r s' v k
  assume a: "sremCommand cfg s key members = Some (r, s')" "srem_spec key members (view cfg s) = (r, v)" "fst v k \<noteq> fst (view cfg s) k"
  obtain V E where v0: "view cfg s = (V, E)" by fastforce
  have "\<exists>n. k = key \<and> r = RInt n \<and> 0 < n"
    using a(2,3) unfolding v0 by (auto simp: srem_spec_def card_gt_0_iff split: option.splits avalue.splits prod.splits if_splits) blast+
  then show "SignalModified k \<in> set (events s')" using sremCommand_signal a(1) by blast
qed

lemma smoveCommand_signal:
  "smoveCommand cfg s src dst ele = Some (RInt 1, s') \<Longrightarrow> src \<noteq> dst \<Longrightarrow> SignalModified src \<in> set (events s') \<and> SignalModified dst \<in> set (events s')"
  by (auto simp: smoveCommand_def obj_update_def path_simps split: path_splits)

lemma smoveCommand_announces:
  assumes "db_wf cfg s" "\<not> masterhost cfg" "db_room s" "set_room src 0 (view cfg s)" "set_room dst 1 (view cfg s)"
  shows "announces cfg s (smoveCommand cfg s src dst ele)"
proof (rule announces_refines [OF smoveCommand_spec [OF assms]])
  fix r s' v k
  assume a: "smoveCommand cfg s src dst ele = Some (r, s')" "smove_spec src dst ele (view cfg s) = (r, v)" "fst v k \<noteq> fst (view cfg s) k"
  obtain V E where v0: "view cfg s = (V, E)" by fastforce
  have "(k = src \<or> k = dst) \<and> r = RInt 1 \<and> src \<noteq> dst"
    using a(2,3) unfolding v0 by (auto simp: smove_spec_def split: option.splits avalue.splits prod.splits if_splits)
  then show "SignalModified k \<in> set (events s')" using smoveCommand_signal a(1) by blast
qed

lemma store_result_signal: "store_result cfg s ev dst st = Some (r, s') \<Longrightarrow> SignalModified dst \<in> set (events s')"
  by (auto simp: store_result_def path_simps split: path_splits)

lemma sunionDiffstore_announces:
  assumes w: "db_wf cfg s" "\<not> masterhost cfg" "db_room s" and keys: "keys \<noteq> []" "card (\<Union>k \<in> set keys. aset (view cfg s) k) < 2 ^ 28"
    and op: "op \<in> {SET_OP_UNION, SET_OP_DIFF}"
  shows "announces cfg s (sunionDiffGenericCommand cfg addr s keys (Some dst) op)"
proof (rule announces_refines [OF sunionDiff_store [OF w keys op]])
  fix r s' v k
  assume a: "sunionDiffGenericCommand cfg addr s keys (Some dst) op = Some (r, s')" "sunionDiff_spec op dst keys (view cfg s) = (r, v)"
    "fst v k \<noteq> fst (view cfg s) k"
  obtain V E where v0: "view cfg s = (V, E)" by fastforce
  have "k = dst" "r \<noteq> RWrongType"
    using a(2,3) unfolding v0 by (auto simp: sunionDiff_spec_def store_spec_def split: if_splits)
  moreover have "r \<noteq> RWrongType \<Longrightarrow> SignalModified dst \<in> set (events s')"
    using a(1) by (auto simp: sunionDiffGenericCommand_def dest: store_result_signal split: path_splits looked_up.split_asm)
  ultimately show "SignalModified k \<in> set (events s')" by simp
qed

lemma sunionDiffquery_announces:
  assumes w: "db_wf cfg s" "\<not> masterhost cfg" "db_room s" and keys: "keys \<noteq> []" "card (\<Union>k \<in> set keys. aset (view cfg s) k) < 2 ^ 28"
    and op: "op \<in> {SET_OP_UNION, SET_OP_DIFF}"
  shows "announces cfg s (sunionDiffGenericCommand cfg addr s keys None op)"
proof (cases "all_sets (view cfg s) keys")
  case True
  then show ?thesis using sunionDiff_query [OF w keys op True, of addr] by (auto simp: announces_def)
next
  case False
  obtain n where k0: "kview cfg n {} s (view cfg s)" using kview_start [OF w(1,3)] by blast
  from sunion_lookup_spec [OF k0 w(2), of False keys] False obtain s' K' where
    s': "sunion_lookup cfg False s keys = Some (WrongType, s')" "kview cfg n K' s' (view cfg s)" by auto
  then show ?thesis using kview_view [OF s'(2)] by (simp add: sunionDiffGenericCommand_def announces_def)
qed

lemma dbDelete_visible:
  assumes "kview cfg n K s v" "dbDelete cfg s k = Some (False, s')"
  shows "fst v k = None"
proof -
  from assms(1) obtain V E where V: "kstate cfg n K s V E" "v = (map_option obj_abs \<circ> V, E)" by (auto simp: kview_def)
  obtain s2 where "dbDelete cfg s k = Some (k \<in> dom (ks_val s), s2)"
    using dbDelete_spec [OF kstate_wf [OF V(1)], of k] by (auto simp: delete_spec_def)
  then have "ks_val s k = None" using assms(2) by auto
  then show ?thesis using V by (auto simp: kstate_def live_val_def)
qed

lemma sinterstore_announces:
  assumes w: "db_wf cfg s" "\<not> masterhost cfg" "db_room s" and ne: "keys \<noteq> []"
    and c: "\<forall>k \<in> set keys. card (aset (view cfg s) k) < 2 ^ 28"
  shows "announces cfg s (sinterGenericCommand cfg addr s keys (Some dst))"
proof (rule announces_refines [OF sinter_store [OF w ne c]])
  fix r s' v k
  assume a: "sinterGenericCommand cfg addr s keys (Some dst) = Some (r, s')" "sinterstore_spec dst keys (view cfg s) = (r, v)"
    "fst v k \<noteq> fst (view cfg s) k"
  obtain n where k0: "kview cfg n {} s (view cfg s)" using kview_start [OF w(1,3)] by blast
  from sinter_lookup_spec [OF k0 w(2), of True keys] obtain s1 K1 where
    s1: "sinter_lookup cfg True s keys = Some (sinter_result (view cfg s) keys, s1)" "kview cfg n K1 s1 (view cfg s)" by blast
  obtain V E where v0: "view cfg s = (V, E)" by fastforce
  have k: "k = dst" "sinter_result (view cfg s) keys \<noteq> WrongType"
    using a(2,3) unfolding v0 by (auto simp: sinterstore_spec_def store_spec_def split: looked_up.splits if_splits)
  show "SignalModified k \<in> set (events s')"
  proof (cases "sinter_result (view cfg s) keys")
    case Missing
    then have "fst v dst = None" using a(2) by (auto simp: sinterstore_spec_def store_spec_def split: prod.splits)
    then have "fst (view cfg s) dst \<noteq> None" using a(3) k(1) by simp
    moreover obtain b s2 where "dbDelete cfg s1 dst = Some (b, s2)" "b \<Longrightarrow> SignalModified dst \<in> set (events s')"
      using a(1) s1(1) Missing by (auto simp: sinterGenericCommand_def path_simps split: path_splits)
    ultimately show ?thesis using dbDelete_visible [OF s1(2)] k(1) by (cases b) auto
  next
    case (Found sets)
    then show ?thesis using a(1) s1(1) k(1)
      by (auto simp: sinterGenericCommand_def dest: store_result_signal split: path_splits list.split_asm)
  qed (use k in simp)
qed

lemma sinterquery_announces:
  assumes w: "db_wf cfg s" "\<not> masterhost cfg" "db_room s" and ne: "keys \<noteq> []"
    and c: "\<forall>k \<in> set keys. card (aset (view cfg s) k) < 2 ^ 28"
  shows "announces cfg s (sinterGenericCommand cfg addr s keys None)"
proof (cases "all_sets (view cfg s) keys")
  case True
  then show ?thesis using sinter_query [OF w ne c True, of addr] by (auto simp: announces_def)
next
  case False
  obtain n where k0: "kview cfg n {} s (view cfg s)" using kview_start [OF w(1,3)] by blast
  from sinter_lookup_spec [OF k0 w(2), of False keys] obtain s1 K1 where
    s1: "sinter_lookup cfg False s keys = Some (sinter_result (view cfg s) keys, s1)" "kview cfg n K1 s1 (view cfg s)" by blast
  have "sinter_result (view cfg s) keys \<noteq> Found sets" for sets
    using False by (auto simp: sinter_result_def all_sets_def find_None_iff split: option.splits)
  then consider "sinter_result (view cfg s) keys = Missing" | "sinter_result (view cfg s) keys = WrongType"
    by (cases "sinter_result (view cfg s) keys") auto
  then show ?thesis using s1(1) kview_view [OF s1(2)] by cases (simp_all add: sinterGenericCommand_def announces_def)
qed

subsection \<open>Bit commands\<close>

lemma lookupString_reply: "lookupStringForBitCommand cfg rc s key maxbit = Some (Inl r, s') \<Longrightarrow> r = RWrongType"
  by (auto simp: lookupStringForBitCommand_def path_simps split: path_splits)

lemma setbitCommand_signal: "setbitCommand cfg rc s key off on = Some (RInt n, s') \<Longrightarrow> SignalModified key \<in> set (events s')"
  by (auto simp: setbitCommand_def bit_offset_error_def setbit_error_def path_simps dest: lookupString_reply split: path_splits)

lemma setbitCommand_announces:
  assumes "db_wf cfg s" "\<not> masterhost cfg" "db_room s"
  shows "announces cfg s (setbitCommand cfg rc s key off on)"
proof (rule announces_refines [OF setbitCommand_spec [OF assms]])
  fix r s' v k
  assume a: "setbitCommand cfg rc s key off on = Some (r, s')" "setbit_spec key off on (view cfg s) = (r, v)" "fst v k \<noteq> fst (view cfg s) k"
  obtain V E where v0: "view cfg s = (V, E)" by fastforce
  have "\<exists>n. k = key \<and> r = RInt n"
    using a(2,3) unfolding v0 by (auto simp: setbit_spec_def Let_def split: option.splits if_splits)
  then show "SignalModified k \<in> set (events s')" using setbitCommand_signal a(1) by blast
qed

lemma bitopLoad_reply: "bitopLoad cfg s j keys mn mx src = Some (Inl err, s') \<Longrightarrow> err = RWrongType"
  by (induction keys arbitrary: s j mn mx src) (auto simp: path_simps split: path_splits)

lemma bitopCommand_signal:
  assumes "bitopCommand cfg s opname target keys = Some (RInt n, s')"
  shows "\<exists>src mn s1. bitopLoad cfg s 0 keys 0 0 [] = Some (Inr (src, mn, nat n), s1) \<and>
    (SignalModified target \<in> set (events s') \<or> n = 0 \<and> (\<exists>s2. dbDelete cfg s1 target = Some (False, s2)))"
  using assms
  by (auto simp: bitopCommand_def bitopStore_def setKey_def path_simps dest: genericSetKey_signal bitopLoad_reply split: path_splits)

lemma bitopCommand_announces:
  assumes w: "db_wf cfg s" "\<not> masterhost cfg" "db_room s" and ne: "keys \<noteq> []"
  shows "announces cfg s (bitopCommand cfg s opname target keys)"
proof (rule announces_refines [OF bitopCommand_spec [OF w ne]])
  fix r s' v k
  assume a: "bitopCommand cfg s opname target keys = Some (r, s')" "bitop_spec opname target keys (view cfg s) = (r, v)" "fst v k \<noteq> fst (view cfg s) k"
  obtain V E where v0: "view cfg s = (V, E)" by fastforce
  obtain n where n: "k = target" "r = RInt (int n)" "n = 0 \<Longrightarrow> fst v target = None"
    using a(2,3) unfolding v0 by (auto simp: bitop_spec_def Let_def split: option.splits if_splits)
  from bitopCommand_signal [OF a(1) [unfolded n(2)]] obtain src mn s1 where
    s1: "bitopLoad cfg s 0 keys 0 0 [] = Some (Inr (src, mn, n), s1)"
    "SignalModified target \<in> set (events s') \<or> n = 0 \<and> (\<exists>s2. dbDelete cfg s1 target = Some (False, s2))" by auto
  show "SignalModified k \<in> set (events s')"
  proof (rule ccontr)
    assume "SignalModified k \<notin> set (events s')"
    then obtain s2 where s2: "n = 0" "dbDelete cfg s1 target = Some (False, s2)" using s1(2) n(1) by blast
    obtain n0 V0 where k0: "kstate cfg n0 {} s V0 E" "view cfg s = (map_option obj_abs \<circ> V0, E)"
      using refines_start [OF w(1,3)] v0 by (metis prod.inject)
    from bitopLoad_spec [OF refl k0(1) w(2), of 0 "[]" 0 0 keys] s1(1) obtain K' where "kstate cfg n0 K' s1 V0 E"
      by (auto simp: longest_def)
    then have "fst (view cfg s) target = None" using dbDelete_visible [OF _ s2(2), of n0 K' "view cfg s"] k0(2) by (auto simp: kview_def)
    then show False using a(3) n(1,3) s2(1) by simp
  qed
qed

lemma bitfieldExec_changes: "bitfieldExec o' ops = Some (rs, changes, o'') \<Longrightarrow> changes = writes ops"
  by (induction ops arbitrary: o' rs changes) (auto simp: writes_def path_simps split: path_splits)

lemma bitfieldLookup_reply: "bitfieldLookup cfg rc s key flag ro h \<noteq> Some (Inl (RArray rs), s')"
  by (auto simp: bitfieldLookup_def path_simps dest: lookupString_reply split: path_splits)

lemma bitfieldGeneric_signal:
  assumes "bitfieldGeneric cfg rc s key args flag = Some (RArray rs, s')"
    and p: "bitfieldParse args BFOVERFLOW_WRAP [] True 0 = Inr (ops, False, h)"
  shows "SignalModified key \<in> set (events s')"
proof -
  have "writes ops > 0" using bitfieldParse_spec [OF p] by (simp add: parsed_def writes_def)
  then show ?thesis
    using assms(1) p
    by (auto simp: bitfieldGeneric_def path_simps bitfieldLookup_reply dest!: bitfieldExec_changes split: path_splits)
qed

lemma bitfieldGeneric_announces:
  assumes w: "db_wf cfg s" "\<not> masterhost cfg" "db_room s"
    and safe: "bitfield_defined key args flag (view cfg s)"
  shows "announces cfg s (bitfieldGeneric cfg rc s key args flag)"
proof (rule announces_refines [OF bitfieldGeneric_spec [OF w safe]])
  fix r s' v k
  assume a: "bitfieldGeneric cfg rc s key args flag = Some (r, s')" "bitfield_spec key args flag (view cfg s) = (r, v)" "fst v k \<noteq> fst (view cfg s) k"
  obtain V E where v0: "view cfg s = (V, E)" by fastforce
  have "\<exists>rs ops h. k = key \<and> r = RArray rs \<and> bitfieldParse args BFOVERFLOW_WRAP [] True 0 = Inr (ops, False, h)"
    using a(2,3) unfolding v0 by (auto simp: bitfield_spec_def Let_def split: option.splits if_splits sum.splits prod.splits)
  then show "SignalModified k \<in> set (events s')" using bitfieldGeneric_signal a(1) by blast
qed

lemma bitposCommand_announces:
  assumes w: "db_wf cfg s" "\<not> masterhost cfg"
  shows "announces cfg s (bitposCommand cfg addr s key arg args)"
proof (cases "string2ll arg = Some 0 \<or> string2ll arg = Some 1")
  case True
  then have "string2ll arg = Some (of_bool (string2ll arg = Some 1))" by auto
  from announces_read [OF bitposCommand_spec [OF w this]] show ?thesis by (simp add: bitpos_spec_def split_beta)
next
  case False
  then have "(case string2ll arg of None \<Rightarrow> True | Some b \<Rightarrow> b \<noteq> 0 \<and> b \<noteq> 1)" by (auto split: option.split)
  then show ?thesis using w(1) by (auto simp: bitposCommand_def announces_same split: option.split)
qed

section \<open>The law of the command table\<close>

text \<open>
  The sizes within which the procedures are known to return: the capacity of the tables and of
  the integer sets, the range of the expire times, and the operations of BITFIELD that are
  specified.
\<close>

definition expire_ok :: "int \<Rightarrow> byte list option \<Rightarrow> time_unit \<Rightarrow> bool" where
  "expire_ok now expire u \<longleftrightarrow>
     (case expire of
        None \<Rightarrow> True
      | Some e \<Rightarrow> (case string2ll e of None \<Rightarrow> True | Some n \<Rightarrow> n \<le> 0 \<or> now + (if u = UNIT_SECONDS then n * 1000 else n) < 2 ^ 63))"

definition small_sets :: "key list \<Rightarrow> astate \<Rightarrow> bool" where
  "small_sets keys v \<longleftrightarrow> card (\<Union>k \<in> set keys. aset v k) < 2 ^ 28 \<and> (\<forall>k \<in> set keys. card (aset v k) < 2 ^ 28)"

definition limits :: "'a server_config_scheme \<Rightarrow> server \<Rightarrow> cmd_proc \<Rightarrow> byte list list \<Rightarrow> bool" where
  "limits cfg s p argv \<longleftrightarrow>
     card (dom (ks_val s)) + length argv \<le> 2 ^ 60 \<and> list_all (\<lambda>a. length a < 2 ^ 62) argv \<and>
     (case p of
        SET \<Rightarrow> (case setOptions (drop 3 argv) OBJ_SET_NO_FLAGS None UNIT_SECONDS of None \<Rightarrow> True | Some (_, expire, u) \<Rightarrow> expire_ok (mstime cfg) expire u)
      | SETEX \<Rightarrow> expire_ok (mstime cfg) (Some (argv ! 2)) UNIT_SECONDS
      | PSETEX \<Rightarrow> expire_ok (mstime cfg) (Some (argv ! 2)) UNIT_MILLISECONDS
      | APPEND \<Rightarrow> str_small (argv ! 1) (view cfg s)
      | SETRANGE \<Rightarrow> (case string2ll (argv ! 2) of None \<Rightarrow> True | Some offset \<Rightarrow> offset < 2 ^ 62)
      | BITFIELD \<Rightarrow> bitfield_defined (argv ! 1) (drop 2 argv) False (view cfg s)
      | BITFIELD_RO \<Rightarrow> bitfield_defined (argv ! 1) (drop 2 argv) True (view cfg s)
      | BITCOUNT \<Rightarrow> (case fst (view cfg s) (argv ! 1) of Some (AStr b) \<Rightarrow> length b < 2 ^ 60 | _ \<Rightarrow> True)
      | SADD \<Rightarrow> set_room (argv ! 1) (length argv - 2) (view cfg s)
      | SREM \<Rightarrow> set_room (argv ! 1) 0 (view cfg s)
      | SMOVE \<Rightarrow> set_room (argv ! 1) 0 (view cfg s) \<and> set_room (argv ! 2) 1 (view cfg s)
      | SINTER \<Rightarrow> small_sets (drop 1 argv) (view cfg s)
      | SUNION \<Rightarrow> small_sets (drop 1 argv) (view cfg s)
      | SDIFF \<Rightarrow> small_sets (drop 1 argv) (view cfg s)
      | SINTERSTORE \<Rightarrow> small_sets (drop 2 argv) (view cfg s)
      | SUNIONSTORE \<Rightarrow> small_sets (drop 2 argv) (view cfg s)
      | SDIFFSTORE \<Rightarrow> small_sets (drop 2 argv) (view cfg s)
      | _ \<Rightarrow> True)"

text \<open>A master that is not loading, with its clock.\<close>

definition master_ready :: "'a server_config_scheme \<Rightarrow> bool" where
  "master_ready cfg \<longleftrightarrow> \<not> masterhost cfg \<and> \<not> loading cfg \<and> virtual_now cfg \<le> mstime cfg \<and> 0 \<le> mstime cfg"

definition transaction_procs :: "cmd_proc set" where
  "transaction_procs = {MULTI, EXEC, DISCARD, WATCH, UNWATCH}"

lemma limitsD:
  assumes "limits cfg s p argv" "argv \<noteq> []"
  shows "db_room s" "a \<in> set argv \<Longrightarrow> length a < 2 ^ 62"
  using assms by (auto simp: limits_def db_room_def list_all_iff neq_Nil_conv)

lemma set_when_ok:
  assumes "expire_ok (mstime cfg) expire u"
  shows "\<exists>err when. set_milliseconds name expire u = Inl err \<or> set_when (mstime cfg) expire u when"
  using assms by (cases u) (auto simp: expire_ok_def set_milliseconds_def set_when_def Let_def split: option.splits)

lemma arg_pairs_length: "length (arg_pairs args) \<le> length args"
  by (induction args rule: arg_pairs.induct) auto

lemma arg_pairs_set: "(k, v) \<in> set (arg_pairs args) \<Longrightarrow> v \<in> set args"
  by (induction args rule: arg_pairs.induct) auto

lemma argvE:
  "length argv = 2 \<Longrightarrow> (\<And>n a. argv = [n, a] \<Longrightarrow> P) \<Longrightarrow> P"
  "length argv = 3 \<Longrightarrow> (\<And>n a b. argv = [n, a, b] \<Longrightarrow> P) \<Longrightarrow> P"
  "length argv = 4 \<Longrightarrow> (\<And>n a b c. argv = [n, a, b, c] \<Longrightarrow> P) \<Longrightarrow> P"
  "2 \<le> length argv \<Longrightarrow> (\<And>n a r. argv = n # a # r \<Longrightarrow> P) \<Longrightarrow> P"
  "3 \<le> length argv \<Longrightarrow> (\<And>n a b r. argv = n # a # b # r \<Longrightarrow> P) \<Longrightarrow> P"
  "4 \<le> length argv \<Longrightarrow> (\<And>n a b c r. argv = n # a # b # c # r \<Longrightarrow> P) \<Longrightarrow> P"
  by (auto simp: numeral_eq_Suc length_Suc_conv Suc_le_length_iff)

lemmas args_defs = args1_def args2_def args3_def args0_rest_def args1_rest_def args2_rest_def args3_rest_def


lemma args_announces:
  "length argv = 2 \<Longrightarrow> (\<And>n a. argv = [n, a] \<Longrightarrow> announces cfg s (f1 a)) \<Longrightarrow> announces cfg s (args1 argv f1)"
  "length argv = 3 \<Longrightarrow> (\<And>n a b. argv = [n, a, b] \<Longrightarrow> announces cfg s (f2 a b)) \<Longrightarrow> announces cfg s (args2 argv f2)"
  "length argv = 4 \<Longrightarrow> (\<And>n a b c. argv = [n, a, b, c] \<Longrightarrow> announces cfg s (f3 a b c)) \<Longrightarrow> announces cfg s (args3 argv f3)"
  "2 \<le> length argv \<Longrightarrow> (\<And>n r. argv = n # r \<Longrightarrow> announces cfg s (g0 r)) \<Longrightarrow> announces cfg s (args0_rest argv g0)"
  "2 \<le> length argv \<Longrightarrow> (\<And>n a r. argv = n # a # r \<Longrightarrow> announces cfg s (g1 a r)) \<Longrightarrow> announces cfg s (args1_rest argv g1)"
  "3 \<le> length argv \<Longrightarrow> (\<And>n a b r. argv = n # a # b # r \<Longrightarrow> announces cfg s (g2 a b r)) \<Longrightarrow> announces cfg s (args2_rest argv g2)"
  "4 \<le> length argv \<Longrightarrow> (\<And>n a b c r. argv = n # a # b # c # r \<Longrightarrow> announces cfg s (g3 a b c r)) \<Longrightarrow> announces cfg s (args3_rest argv g3)"
  by (auto simp: args_defs elim!: argvE)

lemma tryObject_wf: "length a < 2 ^ 62 \<Longrightarrow> str_wf (tryObjectEncoding 1 (arg_obj a))"
  using arg_obj_spec [of a] by simp

lemma set_announces:
  assumes w: "db_wf cfg s" "master_ready cfg" "db_room s" and val: "length val < 2 ^ 62" and e: "expire_ok (mstime cfg) expire u"
    and r: "(case ok of Some r \<Rightarrow> r | None \<Rightarrow> ROk) \<noteq> (case abort of Some r \<Rightarrow> r | None \<Rightarrow> RNull)"
  shows "announces cfg s (setGenericCommand cfg s name flags key (tryObjectEncoding 1 (arg_obj val)) expire u ok abort)"
  using set_when_ok [OF e, of name] setGenericCommand_announces [OF w(1) _ w(3) _ _ tryObject_wf [OF val] _ r] w(2)
  unfolding master_ready_def by blast

lemma setCommand_announces:
  assumes w: "db_wf cfg s" "master_ready cfg" "db_room s" and val: "length val < 2 ^ 62"
    and e: "case setOptions opts OBJ_SET_NO_FLAGS None UNIT_SECONDS of None \<Rightarrow> True | Some (_, expire, u) \<Rightarrow> expire_ok (mstime cfg) expire u"
  shows "announces cfg s (setCommand cfg s key val opts)"
proof (cases "setOptions opts OBJ_SET_NO_FLAGS None UNIT_SECONDS")
  case None
  then show ?thesis using w(1) by (simp add: setCommand_def announces_same)
next
  case (Some x)
  then obtain flags expire u where x: "x = (flags, expire, u)" using prod_cases3 by blast
  then have "expire_ok (mstime cfg) expire u" using e Some by simp
  then show ?thesis using set_announces [OF w val, of expire u None None "''set''" flags key] Some x by (simp add: setCommand_def)
qed

lemma incrby_announces:
  assumes "db_wf cfg s" "\<not> masterhost cfg" "db_room s"
  shows "announces cfg s (incrbyCommand cfg rc s key arg)" "announces cfg s (decrbyCommand cfg rc s key arg)"
proof -
  have i: "in_i64 i" if "string2ll arg = Some i" for i using that string2ll_iff by blast
  have w: "in_i64 (wrap64 x)" for x
    using sint_greater_eq [of "word_of_int x :: 64 word"] sint_less [of "word_of_int x :: 64 word"] by (simp add: wrap64_def in_signed_def)
  show "announces cfg s (incrbyCommand cfg rc s key arg)"
    using incrDecrCommand_announces [OF assms i] assms(1) by (cases "string2ll arg") (simp_all add: incrbyCommand_def announces_same)
  show "announces cfg s (decrbyCommand cfg rc s key arg)"
    using incrDecrCommand_announces [OF assms w] assms(1) by (cases "string2ll arg") (simp_all add: decrbyCommand_def announces_same)
qed


text \<open>The arity of every procedure in the table.\<close>

fun arity_of :: "cmd_proc \<Rightarrow> int" where
  "arity_of p = (case find (\<lambda>c. proc_of c = p) redisCommandTable of Some c \<Rightarrow> arity c | None \<Rightarrow> 0)"

lemma table_arity: "list_all (\<lambda>c. arity c = arity_of (proc_of c)) redisCommandTable"
  by code_simp

lemma arities:
  "list_all (\<lambda>p. arity_of p = 2) [GET, STRLEN, INCR, DECR, SCARD, TYPE_OF, TTL, PTTL, PERSIST]"
  "list_all (\<lambda>p. arity_of p = 3) [SETNX, APPEND, GETBIT, SISMEMBER, INCRBY, DECRBY, GETSET, RENAME, RENAMENX, EXPIRE, EXPIREAT, PEXPIRE, PEXPIREAT]"
  "list_all (\<lambda>p. arity_of p = 4) [SETEX, PSETEX, SETBIT, SETRANGE, GETRANGE, SMOVE]"
  "list_all (\<lambda>p. arity_of p = - 2) [DEL, UNLINK, EXISTS, BITFIELD, BITFIELD_RO, MGET, SINTER, SUNION, SDIFF, TOUCH, BITCOUNT]"
  "list_all (\<lambda>p. arity_of p = - 3) [SET, SADD, SREM, SINTERSTORE, SUNIONSTORE, SDIFFSTORE, MSET, MSETNX, BITPOS]"
  "arity_of BITOP = - 4"
  by code_simp+

text \<open>The procedures by the number of their arguments.\<close>

lemma read_announces:
  assumes w: "db_wf cfg s" "\<not> masterhost cfg" "db_room s"
  shows "announces cfg s (getCommand cfg s k)" "announces cfg s (mgetCommand cfg s ks)" "announces cfg s (sismemberCommand cfg s k e)"
    "announces cfg s (scardCommand cfg s k)" "announces cfg s (getbitCommand cfg s k off)"
    "(\<And>b. fst (view cfg s) k = Some (AStr b) \<Longrightarrow> length b < 2 ^ 60) \<Longrightarrow> announces cfg s (bitcountCommand cfg addr s k as)"
proof -
  have r: "snd (get_spec k v) = v" "snd (mget_spec ks v) = v" "snd (sismember_spec k e v) = v" "snd (scard_spec k v) = v"
      "snd (getbit_spec k off v) = v" "snd (bitcount_spec k as v) = v" for v
    by (auto simp: get_spec_def mget_spec_def sismember_spec_def scard_spec_def getbit_spec_def bitcount_spec_def
        split: prod.split option.split)
  show "announces cfg s (getCommand cfg s k)" "announces cfg s (mgetCommand cfg s ks)" "announces cfg s (sismemberCommand cfg s k e)"
    "announces cfg s (scardCommand cfg s k)" "announces cfg s (getbitCommand cfg s k off)"
    by (rule announces_read [OF getCommand_spec [OF w(1,2)] r(1)] announces_read [OF mgetCommand_spec [OF w(1,2)] r(2)]
        announces_read [OF sismemberCommand_spec [OF w] r(3)] announces_read [OF scardCommand_spec [OF w] r(4)]
        announces_read [OF getbitCommand_spec [OF w(1,2)] r(5)])+
  show "(\<And>b. fst (view cfg s) k = Some (AStr b) \<Longrightarrow> length b < 2 ^ 60) \<Longrightarrow> announces cfg s (bitcountCommand cfg addr s k as)"
    by (rule announces_read [OF bitcountCommand_spec [OF w(1,2)] r(6)])
qed

lemma procs_1:
  assumes w: "db_wf cfg s" "master_ready cfg" "limits cfg s p argv" and a: "length argv = 2"
    and p: "p \<in> set [GET, STRLEN, INCR, DECR, SCARD, TYPE_OF, TTL, PTTL, PERSIST]"
  shows "announces cfg s (call_proc ev cfg s p argv)"
proof -
  from a obtain n key where argv: "argv = [n, key]" by (rule argvE(1))
  have m: "\<not> masterhost cfg" "db_room s" using w(2) limitsD(1) [OF w(3)] argv by (simp_all add: master_ready_def)
  have i: "in_i64 1" "in_i64 (- 1)" by (simp_all add: in_signed_def)
  show ?thesis using p
    by (auto simp: argv call_proc_def args1_def incrCommand_def decrCommand_def ttlCommand_def pttlCommand_def
        intro!: read_announces [OF w(1) m] strlenCommand_announces [OF w(1) m(1)]
          incrDecrCommand_announces [OF w(1) m] typeCommand_announces [OF w(1) m(1)] ttlGenericCommand_announces [OF w(1) m(1)]
          persistCommand_announces [OF w(1) m(1)] i)
qed

lemma procs_2:
  assumes w: "db_wf cfg s" "master_ready cfg" "limits cfg s p argv" and a: "length argv = 3"
    and p: "p \<in> set [SETNX, APPEND, GETBIT, SISMEMBER, INCRBY, DECRBY, GETSET, RENAME, RENAMENX, EXPIRE, EXPIREAT, PEXPIRE, PEXPIREAT]"
  shows "announces cfg s (call_proc ev cfg s p argv)"
proof -
  from a obtain n key b where argv: "argv = [n, key, b]" by (rule argvE(2))
  have m: "\<not> masterhost cfg" "db_room s" "\<not> loading cfg" "virtual_now cfg \<le> mstime cfg" and b: "length b < 2 ^ 62"
    using w(2) limitsD(1) [OF w(3)] limitsD(2) [OF w(3), of b] argv by (simp_all add: master_ready_def)
  have s: "str_small key (view cfg s)" if "p = APPEND" using w(3) that by (simp add: limits_def argv)
  have e: "expire_ok (mstime cfg) None u" for u by (simp add: expire_ok_def)
  have b': "length b < 2 ^ 63" using b by simp
  show ?thesis using p s
    by (auto simp: argv call_proc_def args2_def setnxCommand_def renameCommand_def renamenxCommand_def expireCommand_def
          expireatCommand_def pexpireCommand_def pexpireatCommand_def cone_def czero_def
        simp del: One_nat_def
        intro!: set_announces [OF w(1,2) m(2) b e] appendCommand_announces [OF w(1) m(1,2)] 
          read_announces [OF w(1) m(1,2)] incrby_announces [OF w(1) m(1,2)] getsetCommand_announces [OF w(1) m(1,2) b']
          renameGenericCommand_announces [OF w(1) m(1,2)] expireGenericCommand_announces [OF w(1) m] b)
qed

lemma procs_3:
  assumes w: "db_wf cfg s" "master_ready cfg" "limits cfg s p argv" and a: "length argv = 4"
    and p: "p \<in> set [SETEX, PSETEX, SETBIT, SETRANGE, GETRANGE, SMOVE]"
  shows "announces cfg s (call_proc ev cfg s p argv)"
proof -
  from a obtain n key b c where argv: "argv = [n, key, b, c]" by (rule argvE(3))
  have m: "\<not> masterhost cfg" "db_room s" and c: "length c < 2 ^ 62"
    using w(2) limitsD(1) [OF w(3)] limitsD(2) [OF w(3), of c] argv by (simp_all add: master_ready_def)
  have l: "p = SETEX \<Longrightarrow> expire_ok (mstime cfg) (Some b) UNIT_SECONDS" "p = PSETEX \<Longrightarrow> expire_ok (mstime cfg) (Some b) UNIT_MILLISECONDS"
    "p = SETRANGE \<Longrightarrow> string2ll b = Some offset \<Longrightarrow> offset < 2 ^ 62"
    "p = SMOVE \<Longrightarrow> set_room key 0 (view cfg s) \<and> set_room b 1 (view cfg s)" for offset
    using w(3) by (simp_all add: limits_def argv)
  show ?thesis using p l
    by (auto simp: argv call_proc_def args3_def setexCommand_def psetexCommand_def simp del: One_nat_def
        intro!: set_announces [OF w(1,2) m(2) c] setbitCommand_announces [OF w(1) m] setrangeCommand_announces [OF w(1) m _ c]
          getrangeCommand_announces [OF w(1) m(1)] smoveCommand_announces [OF w(1) m])
qed

lemma procs_rest_1:
  assumes w: "db_wf cfg s" "master_ready cfg" "limits cfg s p argv" and a: "2 \<le> length argv"
    and p: "p \<in> set [DEL, UNLINK, EXISTS, BITFIELD, BITFIELD_RO, MGET, SINTER, SUNION, SDIFF, TOUCH, BITCOUNT]"
  shows "announces cfg s (call_proc ev cfg s p argv)"
proof -
  from a obtain n b r where argv: "argv = n # b # r" by (rule argvE(4))
  have m: "\<not> masterhost cfg" "db_room s" using w(2) limitsD(1) [OF w(3)] argv by (simp_all add: master_ready_def)
  have sets: "card (\<Union>k \<in> set (b # r). aset (view cfg s) k) < 2 ^ 28" "\<forall>k \<in> set (b # r). card (aset (view cfg s) k) < 2 ^ 28"
    if "p \<in> set [SINTER, SUNION, SDIFF]" using w(3) that by (auto simp: limits_def argv small_sets_def)
  have safe: "p = BITFIELD \<Longrightarrow> bitfield_defined b r False (view cfg s)" "p = BITFIELD_RO \<Longrightarrow> bitfield_defined b r True (view cfg s)"
    using w(3) by (simp_all add: limits_def argv)
  have small: "length x < 2 ^ 60" if "p = BITCOUNT" "fst (view cfg s) b = Some (AStr x)" for x
    using w(3) that by (simp add: limits_def argv)
  show ?thesis using p sets safe small
    by (auto simp: argv call_proc_def args0_rest_def args1_rest_def delCommand_def unlinkCommand_def bitfieldCommand_def bitfieldroCommand_def
          sinterCommand_def sunionCommand_def sdiffCommand_def simp del: Union_insert UN_insert
        intro!: delGenericCommand_announces [OF w(1) m(1)] existsCommand_announces [OF w(1) m(1)] touchCommand_announces [OF w(1) m(1)]
          read_announces [OF w(1) m] bitfieldGeneric_announces [OF w(1) m] sinterquery_announces [OF w(1) m] sunionDiffquery_announces [OF w(1) m])
qed

lemma procs_rest_2:
  assumes w: "db_wf cfg s" "master_ready cfg" "limits cfg s p argv" and a: "3 \<le> length argv"
    and p: "p \<in> set [SET, SADD, SREM, SINTERSTORE, SUNIONSTORE, SDIFFSTORE, BITPOS]"
  shows "announces cfg s (call_proc ev cfg s p argv)"
proof -
  from a obtain n b c r where argv: "argv = n # b # c # r" by (rule argvE(5))
  have m: "\<not> masterhost cfg" "db_room s" and c: "length c < 2 ^ 62"
    using w(2) limitsD(1) [OF w(3)] limitsD(2) [OF w(3), of c] argv by (simp_all add: master_ready_def)
  have sets: "card (\<Union>k \<in> set (c # r). aset (view cfg s) k) < 2 ^ 28" "\<forall>k \<in> set (c # r). card (aset (view cfg s) k) < 2 ^ 28"
    if "p \<in> set [SINTERSTORE, SUNIONSTORE, SDIFFSTORE]" using w(3) that by (auto simp: limits_def argv small_sets_def)
  have l: "p = SET \<Longrightarrow> (case setOptions r OBJ_SET_NO_FLAGS None UNIT_SECONDS of None \<Rightarrow> True | Some (_, expire, u) \<Rightarrow> expire_ok (mstime cfg) expire u)"
    "p = SADD \<Longrightarrow> set_room b (length (c # r)) (view cfg s)" "p = SREM \<Longrightarrow> set_room b 0 (view cfg s)"
    using w(3) by (simp_all add: limits_def argv numeral_3_eq_3)
  show ?thesis using p sets l
    by (auto simp: argv call_proc_def args2_rest_def sinterstoreCommand_def sunionstoreCommand_def sdiffstoreCommand_def
          simp del: Union_insert UN_insert
        intro!: setCommand_announces [OF w(1,2) m(2) c] saddCommand_announces [OF w(1) m] sremCommand_announces [OF w(1) m]
          sinterstore_announces [OF w(1) m] sunionDiffstore_announces [OF w(1) m] bitposCommand_announces [OF w(1) m(1)])
qed

lemma procs_mset:
  assumes w: "db_wf cfg s" "master_ready cfg" "limits cfg s p argv" and a: "argv \<noteq> []" and p: "p = MSET \<or> p = MSETNX"
  shows "announces cfg s (call_proc ev cfg s p argv)"
proof -
  obtain n args where argv: "argv = n # args" using a by (cases argv) auto
  have m: "\<not> masterhost cfg" using w(2) by (simp add: master_ready_def)
  have r: "card (dom (ks_val s)) + length (arg_pairs args) \<le> 2 ^ 60" using w(3) arg_pairs_length [of args] by (simp add: limits_def argv)
  have l: "\<forall>v \<in> snd ` set (arg_pairs args). length v < 2 ^ 63"
  proof
    fix v assume "v \<in> snd ` set (arg_pairs args)"
    then have "v \<in> set args" using arg_pairs_set by fastforce
    then show "length v < 2 ^ 63" using w(3) by (fastforce simp: limits_def argv list_all_iff)
  qed
  show ?thesis using p msetGenericCommand_announces [OF w(1) m r l]
    by (auto simp: argv call_proc_def args0_rest_def msetCommand_def msetnxCommand_def)
qed

lemma procs_bitop:
  assumes w: "db_wf cfg s" "master_ready cfg" "limits cfg s BITOP argv" and a: "4 \<le> length argv"
  shows "announces cfg s (call_proc ev cfg s BITOP argv)"
proof -
  from a obtain n b c d r where argv: "argv = n # b # c # d # r" by (rule argvE(6))
  have m: "\<not> masterhost cfg" "db_room s" using w(2) limitsD(1) [OF w(3)] argv by (simp_all add: master_ready_def)
  show ?thesis using bitopCommand_announces [OF w(1) m] by (simp add: argv call_proc_def args3_rest_def)
qed

lemma call_proc_announces:
  assumes w: "db_wf cfg s" "master_ready cfg" "limits cfg s (proc_of c) argv" and c: "c \<in> set redisCommandTable" "arity_ok c argv"
    and d: "proc_of c \<notin> transaction_procs"
  shows "announces cfg s (call_proc ev cfg s (proc_of c) argv)"
proof -
  have c': "arity c = arity_of (proc_of c)" using table_arity c(1) by (simp add: list_all_iff del: arity_of.simps)
  have ar: "arity_of (proc_of c) > 0 \<Longrightarrow> int (length argv) = arity_of (proc_of c)" "- arity_of (proc_of c) \<le> int (length argv)"
    using c(2) unfolding arity_ok_def c' by auto
  consider (a1) "proc_of c \<in> set [GET, STRLEN, INCR, DECR, SCARD, TYPE_OF, TTL, PTTL, PERSIST]"
    | (a2) "proc_of c \<in> set [SETNX, APPEND, GETBIT, SISMEMBER, INCRBY, DECRBY, GETSET, RENAME, RENAMENX, EXPIRE, EXPIREAT, PEXPIRE, PEXPIREAT]"
    | (a3) "proc_of c \<in> set [SETEX, PSETEX, SETBIT, SETRANGE, GETRANGE, SMOVE]"
    | (r1) "proc_of c \<in> set [DEL, UNLINK, EXISTS, BITFIELD, BITFIELD_RO, MGET, SINTER, SUNION, SDIFF, TOUCH, BITCOUNT]"
    | (r2) "proc_of c \<in> set [SET, SADD, SREM, SINTERSTORE, SUNIONSTORE, SDIFFSTORE, BITPOS]"
    | (ms) "proc_of c = MSET \<or> proc_of c = MSETNX" | (bo) "proc_of c = BITOP"
    using d by (cases "proc_of c") (simp_all add: transaction_procs_def)
  then show ?thesis
  proof cases
    case a1
    then have "arity_of (proc_of c) = 2" using arities(1) by (auto simp: list_all_iff simp del: arity_of.simps)
    then show ?thesis using procs_1 [OF w _ a1] ar(1) by simp
  next
    case a2
    then have "arity_of (proc_of c) = 3" using arities(2) by (auto simp: list_all_iff simp del: arity_of.simps)
    then show ?thesis using procs_2 [OF w _ a2] ar(1) by simp
  next
    case a3
    then have "arity_of (proc_of c) = 4" using arities(3) by (auto simp: list_all_iff simp del: arity_of.simps)
    then show ?thesis using procs_3 [OF w _ a3] ar(1) by simp
  next
    case r1
    then have "arity_of (proc_of c) = - 2" using arities(4) by (auto simp: list_all_iff simp del: arity_of.simps)
    then show ?thesis using procs_rest_1 [OF w _ r1] ar(2) by simp
  next
    case r2
    then have "arity_of (proc_of c) = - 3" using arities(5) by (auto simp: list_all_iff simp del: arity_of.simps)
    then show ?thesis using procs_rest_2 [OF w _ r2] ar(2) by simp
  next
    case ms
    then have "arity_of (proc_of c) = - 3" using arities(5) by (auto simp: list_all_iff simp del: arity_of.simps)
    then show ?thesis using procs_mset [OF w _ ms] ar(2) by fastforce
  next
    case bo
    then show ?thesis using procs_bitop [OF w(1,2)] w(3) ar(2) arities(6) by (simp del: arity_of.simps)
  qed
qed

end
