(* ===== verification/Multi.thy ===== *)
theory Multi
  imports Commands
begin

text \<open>
  Transactions: \<open>src/redis-6.0.5/src/multi.c\<close>, with the part of \<open>processCommand\<close> and \<open>call\<close> in
  \<open>server.c\<close> that queues or runs a command and the part of \<open>freeClient\<close> in \<open>networking.c\<close> that
  gives up watched keys.  A node is a server with its clients, which are numbered.  The theory
  holds the program, the invariant of a node and what each request does to it; \<open>History\<close> states the
  properties.  The propagation to replicas, monitors and the statistics of \<open>call\<close> are left out, and
  so are the redirections of a cluster, evictions and module filters in \<open>processCommand\<close>.  The clock is read once
  for a request, where \<open>call\<close> reads it again for every queued command.
\<close>

section \<open>The program\<close>

text \<open>
  The flags of a client that belong to transactions, its queue, the flags of the queued
  commands, and the keys it watches.  There is one database.
\<close>

record multiCmd =
  mc_argv :: "byte list list"
  mc_cmd :: redisCommand

record client =
  cl_multi :: bool
  cl_dirty_cas :: bool
  cl_dirty_exec :: bool
  cl_close_after_reply :: bool
  cl_commands :: "multiCmd list"
  cl_cmd_flags :: "cmd_flag set"
  cl_watched :: "key list"

text \<open>\<open>nd_watched\<close> maps a key to the clients that watch it: \<open>db->watched_keys\<close>.\<close>

record node =
  nd_server :: server
  nd_clients :: "nat \<Rightarrow> client"
  nd_watched :: "key \<rightharpoonup> nat list"

definition createClient :: client where
  "createClient = \<lparr>cl_multi = False, cl_dirty_cas = False, cl_dirty_exec = False, cl_close_after_reply = False,
     cl_commands = [], cl_cmd_flags = {}, cl_watched = []\<rparr>"

definition upd_client :: "nat \<Rightarrow> (client \<Rightarrow> client) \<Rightarrow> node \<Rightarrow> node" where
  "upd_client c f n = n\<lparr>nd_clients := (nd_clients n)(c := f (nd_clients n c))\<rparr>"

subsection \<open>Watching keys\<close>

definition watchForKey :: "nat \<Rightarrow> node \<Rightarrow> key \<Rightarrow> node" where
  "watchForKey c n key =
     (if key \<in> set (cl_watched (nd_clients n c)) then n
      else
        let clients = (case nd_watched n key of None \<Rightarrow> [] | Some cs \<Rightarrow> cs);
            n = n\<lparr>nd_watched := (nd_watched n)(key \<mapsto> clients @ [c])\<rparr>
        in upd_client c (\<lambda>cl. cl\<lparr>cl_watched := cl_watched cl @ [key]\<rparr>) n)"

text \<open>A missing list of clients fails an assertion; a client missing in the list would be a null dereference.\<close>

fun unwatchLoop :: "nat \<Rightarrow> node \<Rightarrow> key list \<Rightarrow> node option" where
  "unwatchLoop c n [] = Some n"
| "unwatchLoop c n (key # keys) = do {
     clients \<leftarrow> nd_watched n key;
     if c \<notin> set clients then None
     else do {
       let clients = remove1 c clients;
       let n = n\<lparr>nd_watched := (if clients = [] then (nd_watched n)(key := None) else (nd_watched n)(key \<mapsto> clients))\<rparr>;
       unwatchLoop c (upd_client c (\<lambda>cl. cl\<lparr>cl_watched := keys\<rparr>) n) keys
     }
   }"

definition unwatchAllKeys :: "nat \<Rightarrow> node \<Rightarrow> node option" where
  "unwatchAllKeys c n = unwatchLoop c n (cl_watched (nd_clients n c))"

definition touchWatchedKey :: "key \<Rightarrow> node \<Rightarrow> node" where
  "touchWatchedKey key n =
     (case nd_watched n key of
        None \<Rightarrow> n
      | Some clients \<Rightarrow> fold (\<lambda>c. upd_client c (\<lambda>cl. cl\<lparr>cl_dirty_cas := True\<rparr>)) clients n)"

subsection \<open>The queue\<close>

definition initClientMultiState :: "client \<Rightarrow> client" where
  "initClientMultiState cl = cl\<lparr>cl_commands := [], cl_cmd_flags := {}\<rparr>"

definition queueMultiCommand :: "nat \<Rightarrow> redisCommand \<Rightarrow> byte list list \<Rightarrow> node \<Rightarrow> node" where
  "queueMultiCommand c cmd argv n =
     (if cl_dirty_exec (nd_clients n c) then n
      else upd_client c (\<lambda>cl. cl\<lparr>cl_commands := cl_commands cl @ [\<lparr>mc_argv = argv, mc_cmd = cmd\<rparr>],
             cl_cmd_flags := cl_cmd_flags cl \<union> cmd_flags cmd\<rparr>) n)"

definition discardTransaction :: "nat \<Rightarrow> node \<Rightarrow> node option" where
  "discardTransaction c n =
     unwatchAllKeys c (upd_client c (\<lambda>cl. (initClientMultiState cl)\<lparr>cl_multi := False, cl_dirty_cas := False, cl_dirty_exec := False\<rparr>) n)"

definition flagTransaction :: "nat \<Rightarrow> node \<Rightarrow> node" where
  "flagTransaction c n = (if cl_multi (nd_clients n c) then upd_client c (\<lambda>cl. cl\<lparr>cl_dirty_exec := True\<rparr>) n else n)"

definition multiCommand :: "nat \<Rightarrow> node \<Rightarrow> reply \<times> node" where
  "multiCommand c n =
     (if cl_multi (nd_clients n c) then (RError ''MULTI calls can not be nested'', n)
      else (ROk, upd_client c (\<lambda>cl. cl\<lparr>cl_multi := True\<rparr>) n))"

definition discardCommand :: "nat \<Rightarrow> node \<Rightarrow> (reply \<times> node) option" where
  "discardCommand c n =
     (if \<not> cl_multi (nd_clients n c) then Some (RError ''DISCARD without MULTI'', n)
      else map_option (Pair ROk) (discardTransaction c n))"

definition watchCommand :: "nat \<Rightarrow> key list \<Rightarrow> node \<Rightarrow> reply \<times> node" where
  "watchCommand c keys n =
     (if cl_multi (nd_clients n c) then (RError ''WATCH inside MULTI is not allowed'', n)
      else (ROk, foldl (watchForKey c) n keys))"

definition unwatchCommand :: "nat \<Rightarrow> node \<Rightarrow> (reply \<times> node) option" where
  "unwatchCommand c n = do {
     n \<leftarrow> unwatchAllKeys c n;
     Some (ROk, upd_client c (\<lambda>cl. cl\<lparr>cl_dirty_cas := False\<rparr>) n)
   }"

subsection \<open>Running commands\<close>

text \<open>
  What a connection and the server are like when a command arrives, besides the configuration:
  whether the client has to authenticate, the answer of the access control list, whether memory
  is exhausted, whether writes to disk have failed, whether there are too few replicas, whether the
  client is subscribed with the old protocol, whether a replica has lost its master and may not
  serve stale data, and whether a script has timed out.
\<close>

datatype acl_result = ACL_OK | ACL_DENIED_CMD | ACL_DENIED_KEY

record conn_env =
  ce_proc :: proc_env
  ce_auth_required :: bool
  ce_acl :: "redisCommand \<Rightarrow> byte list list \<Rightarrow> acl_result"
  ce_out_of_memory :: bool
  ce_disk_error :: bool
  ce_few_replicas :: bool
  ce_pubsub :: bool
  ce_master_down :: bool
  ce_lua_timedout :: bool

text \<open>
  \<open>signalModifiedKey\<close> touches the watched key at once.  The procedures of the commands record
  the call in the log of the server instead, and the calls are made when the procedure has returned;
  no procedure reads what they change.
\<close>

fun deliver :: "event \<Rightarrow> node \<Rightarrow> node" where
  "deliver (SignalModified key) n = touchWatchedKey key n"
| "deliver _ n = n"

definition call_data ::
  "conn_env \<Rightarrow> 'a server_config_scheme \<Rightarrow> redisCommand \<Rightarrow> byte list list \<Rightarrow> node \<Rightarrow> (reply \<times> node) option" where
  "call_data env cfg cmd argv n = do {
     let s = nd_server n;
     (r, s') \<leftarrow> call_proc (ce_proc env) cfg (s\<lparr>events := []\<rparr>) (proc_of cmd) argv;
     Some (r, fold deliver (events s') (n\<lparr>nd_server := s'\<lparr>events := events s @ events s'\<rparr>\<rparr>))
   }"

text \<open>The commands that can be in a queue.\<close>

definition call_queued ::
  "conn_env \<Rightarrow> 'a server_config_scheme \<Rightarrow> nat \<Rightarrow> redisCommand \<Rightarrow> byte list list \<Rightarrow> node \<Rightarrow> (reply \<times> node) option" where
  "call_queued env cfg c cmd argv n =
     (if proc_of cmd = UNWATCH then unwatchCommand c n else call_data env cfg cmd argv n)"

definition acl_error :: reply where
  "acl_error = RError ''-NOPERM ACLs rules changed between the moment the transaction was accumulated and the EXEC call.''"

fun execLoop ::
  "conn_env \<Rightarrow> 'a server_config_scheme \<Rightarrow> nat \<Rightarrow> multiCmd list \<Rightarrow> bool \<Rightarrow> node \<Rightarrow> (reply list \<times> bool \<times> node) option" where
  "execLoop env cfg c [] must_propagate n = Some ([], must_propagate, n)"
| "execLoop env cfg c (mc # mcs) must_propagate n = do {
     let must_propagate = (must_propagate \<or> \<not> loading cfg \<and> cmd_flags (mc_cmd mc) \<inter> {CMD_READONLY, CMD_ADMIN} = {});
     (r, n) \<leftarrow> (if ce_acl env (mc_cmd mc) (mc_argv mc) \<noteq> ACL_OK then Some (acl_error, n)
                else call_queued env cfg c (mc_cmd mc) (mc_argv mc) n);
     (rs, must_propagate, n) \<leftarrow> execLoop env cfg c mcs must_propagate n;
     Some (r # rs, must_propagate, n)
   }"

definition slowscripterr :: reply where
  "slowscripterr = RError ''-BUSY Redis is busy running a script. You can only call SCRIPT KILL or SHUTDOWN NOSAVE.''"

definition execaborterr :: reply where
  "execaborterr = RError ''-EXECABORT Transaction discarded because of previous errors.''"

definition execCommand :: "conn_env \<Rightarrow> 'a server_config_scheme \<Rightarrow> nat \<Rightarrow> node \<Rightarrow> (reply \<times> node) option" where
  "execCommand env cfg c n =
     (let cl = nd_clients n c
      in if \<not> cl_multi cl then Some (RError ''EXEC without MULTI'', n)
         else if ce_lua_timedout env then Some (slowscripterr, flagTransaction c n)
         else if cl_dirty_cas cl \<or> cl_dirty_exec cl
           then map_option (Pair (if cl_dirty_exec cl then execaborterr else RNull)) (discardTransaction c n)
         else if \<not> loading cfg \<and> masterhost cfg \<and> repl_slave_ro cfg \<and> \<not> master_client cfg \<and> CMD_WRITE \<in> cl_cmd_flags cl
           then map_option (Pair (RError ''Transaction contains write commands but instance is now a read-only replica. EXEC aborted.''))
                  (discardTransaction c n)
         else do {
           n \<leftarrow> unwatchAllKeys c n;
           (rs, must_propagate, n) \<leftarrow> execLoop env cfg c (cl_commands cl) False n;
           n \<leftarrow> discardTransaction c n;
           Some (RArray rs, if must_propagate then n\<lparr>nd_server := (nd_server n)\<lparr>dirty := dirty (nd_server n) + 1\<rparr>\<rparr> else n)
         })"

definition call ::
  "conn_env \<Rightarrow> 'a server_config_scheme \<Rightarrow> nat \<Rightarrow> redisCommand \<Rightarrow> byte list list \<Rightarrow> node \<Rightarrow> (reply \<times> node) option" where
  "call env cfg c cmd argv n =
     (case proc_of cmd of
        MULTI \<Rightarrow> Some (multiCommand c n)
      | EXEC \<Rightarrow> execCommand env cfg c n
      | DISCARD \<Rightarrow> discardCommand c n
      | WATCH \<Rightarrow> Some (watchCommand c (drop 1 argv) n)
      | _ \<Rightarrow> call_queued env cfg c cmd argv n)"

text \<open>
  The checks of \<open>processCommand\<close> between the arity and the execution, in their order: the reply and
  whether the transaction is flagged.  None of the modelled commands is one of those that are
  allowed while the client is subscribed.
\<close>

definition refused ::
  "conn_env \<Rightarrow> 'a server_config_scheme \<Rightarrow> client \<Rightarrow> redisCommand \<Rightarrow> byte list list \<Rightarrow> (reply \<times> bool) option" where
  "refused env cfg cl cmd argv =
     (let write = CMD_WRITE \<in> cmd_flags cmd
      in if ce_auth_required env \<and> CMD_NO_AUTH \<notin> cmd_flags cmd then Some (RError ''-NOAUTH Authentication required.'', True)
         else if ce_acl env cmd argv = ACL_DENIED_CMD
           then Some (RError ''-NOPERM this user has no permissions to run the command or its subcommand'', True)
         else if ce_acl env cmd argv \<noteq> ACL_OK
           then Some (RError ''-NOPERM this user has no permissions to access one of the keys used as arguments'', True)
         else if ce_out_of_memory env \<and> \<not> ce_lua_timedout env \<and>
             (CMD_DENYOOM \<in> cmd_flags cmd \<or> cl_multi cl \<and> proc_of cmd \<noteq> EXEC \<and> proc_of cmd \<noteq> DISCARD)
           then Some (RError ''-OOM command not allowed when used memory > 'maxmemory'.'', True)
         else if ce_disk_error env \<and> \<not> masterhost cfg \<and> write then Some (RError ''-MISCONF'', True)
         else if \<not> masterhost cfg \<and> ce_few_replicas env \<and> write then Some (RError ''-NOREPLICAS Not enough good replicas to write.'', True)
         else if masterhost cfg \<and> repl_slave_ro cfg \<and> \<not> master_client cfg \<and> write
           then Some (RError ''-READONLY You can't write against a read only replica.'', True)
         else if ce_pubsub env then Some (RError ''only (P)SUBSCRIBE / (P)UNSUBSCRIBE / PING / QUIT are allowed in this context'', False)
         else if masterhost cfg \<and> ce_master_down env \<and> CMD_STALE \<notin> cmd_flags cmd
           then Some (RError ''-MASTERDOWN Link with MASTER is down and replica-serve-stale-data is set to 'no'.'', True)
         else if loading cfg \<and> CMD_LOADING \<notin> cmd_flags cmd then Some (RError ''-LOADING Redis is loading the dataset in memory'', False)
         else if ce_lua_timedout env \<and> proc_of cmd \<notin> transaction_procs then Some (slowscripterr, True)
         else None)"

definition processCommand ::
  "conn_env \<Rightarrow> 'a server_config_scheme \<Rightarrow> nat \<Rightarrow> byte list list \<Rightarrow> node \<Rightarrow> (reply \<times> node) option" where
  "processCommand env cfg c argv n =
     (if strcasecmp_eq (hd argv) [113, 117, 105, 116] then Some (ROk, upd_client c (\<lambda>cl. cl\<lparr>cl_close_after_reply := True\<rparr>) n)
      else
        (case lookupCommand (hd argv) of
           None \<Rightarrow> Some (RError ''unknown command'', flagTransaction c n)
         | Some cmd \<Rightarrow>
             if \<not> arity_ok cmd argv then Some (RError ''wrong number of arguments'', flagTransaction c n)
             else
               (case refused env cfg (nd_clients n c) cmd argv of
                  Some (r, flagged) \<Rightarrow> Some (r, if flagged then flagTransaction c n else n)
                | None \<Rightarrow>
                    if cl_multi (nd_clients n c) \<and> proc_of cmd \<notin> {EXEC, DISCARD, MULTI, WATCH}
                      then Some (RStatus ''QUEUED'', queueMultiCommand c cmd argv n)
                    else call env cfg c cmd argv n)))"

text \<open>A client that goes away gives up the keys it watches; its number may be used again.\<close>

definition freeClient :: "nat \<Rightarrow> node \<Rightarrow> node option" where
  "freeClient c n = map_option (upd_client c (\<lambda>_. createClient)) (unwatchAllKeys c n)"

section \<open>The tables of watched keys\<close>

abbreviation watches :: "node \<Rightarrow> nat \<Rightarrow> key \<Rightarrow> bool" where
  "watches n c k \<equiv> k \<in> set (cl_watched (nd_clients n c))"

text \<open>
  The lists of the clients and the table of the database hold the same pairs, once each, and no
  list of the table is empty.
\<close>

definition watch_inv :: "node \<Rightarrow> bool" where
  "watch_inv n \<longleftrightarrow>
     (\<forall>k cs. nd_watched n k = Some cs \<longrightarrow> cs \<noteq> [] \<and> distinct cs) \<and>
     (\<forall>c. distinct (cl_watched (nd_clients n c))) \<and>
     (\<forall>c k. watches n c k \<longleftrightarrow> (\<exists>cs. nd_watched n k = Some cs \<and> c \<in> set cs))"

lemma watch_invD:
  assumes "watch_inv n"
  shows "nd_watched n k = Some cs \<Longrightarrow> cs \<noteq> []" "nd_watched n k = Some cs \<Longrightarrow> distinct cs" "distinct (cl_watched (nd_clients n c))"
    "watches n c k \<longleftrightarrow> (\<exists>cs. nd_watched n k = Some cs \<and> c \<in> set cs)"
  using assms unfolding watch_inv_def by blast+

lemma upd_client_simps [simp]:
  "nd_server (upd_client c f n) = nd_server n" "nd_watched (upd_client c f n) = nd_watched n"
  "nd_clients (upd_client c f n) = (nd_clients n)(c := f (nd_clients n c))"
  by (simp_all add: upd_client_def)

text \<open>Only the watched keys of the clients and the table matter.\<close>

lemma watch_inv_cong:
  "nd_watched n' = nd_watched n \<Longrightarrow> (\<And>c. cl_watched (nd_clients n' c) = cl_watched (nd_clients n c)) \<Longrightarrow> watch_inv n' = watch_inv n"
  by (simp add: watch_inv_def)

lemma watch_inv_upd [simp]:
  "(\<And>cl. cl_watched (f cl) = cl_watched cl) \<Longrightarrow> watch_inv (upd_client c f n) = watch_inv n"
  "watch_inv (n\<lparr>nd_server := s\<rparr>) = watch_inv n"
  by (rule watch_inv_cong; simp)+

lemma watchForKey_spec:
  assumes "watch_inv n"
  shows "watch_inv (watchForKey c n key)" "nd_server (watchForKey c n key) = nd_server n"
    "\<exists>ks. set ks = insert key (set (cl_watched (nd_clients n c))) \<and>
      nd_clients (watchForKey c n key) = (nd_clients n)(c := (nd_clients n c)\<lparr>cl_watched := ks\<rparr>)"
proof -
  have "c \<notin> set cs" if "\<not> watches n c key" "nd_watched n key = Some cs" for cs using watch_invD(4) [OF assms] that by blast
  then show "watch_inv (watchForKey c n key)"
    using assms by (auto simp: watchForKey_def watch_inv_def Let_def split: option.splits if_splits)
  show "nd_server (watchForKey c n key) = nd_server n" by (simp add: watchForKey_def Let_def)
  show "\<exists>ks. set ks = insert key (set (cl_watched (nd_clients n c))) \<and>
      nd_clients (watchForKey c n key) = (nd_clients n)(c := (nd_clients n c)\<lparr>cl_watched := ks\<rparr>)"
  proof (cases "watches n c key")
    case True
    then show ?thesis by (intro exI [of _ "cl_watched (nd_clients n c)"]) (auto simp: watchForKey_def)
  next
    case False
    then show ?thesis by (intro exI [of _ "cl_watched (nd_clients n c) @ [key]"]) (auto simp: watchForKey_def Let_def)
  qed
qed

lemma watchAll_spec:
  assumes "watch_inv n"
  shows "watch_inv (foldl (watchForKey c) n keys) \<and> nd_server (foldl (watchForKey c) n keys) = nd_server n \<and>
    (\<exists>ks. set ks = set keys \<union> set (cl_watched (nd_clients n c)) \<and>
      nd_clients (foldl (watchForKey c) n keys) = (nd_clients n)(c := (nd_clients n c)\<lparr>cl_watched := ks\<rparr>))"
  using assms
proof (induction keys arbitrary: n)
  case (Cons key keys)
  note w = watchForKey_spec [OF Cons.prems, where c = c and key = key]
  obtain ks where ks: "set ks = insert key (set (cl_watched (nd_clients n c)))"
      "nd_clients (watchForKey c n key) = (nd_clients n)(c := (nd_clients n c)\<lparr>cl_watched := ks\<rparr>)" using w(3) by blast
  from Cons.IH [OF w(1)] obtain ks' where
    ks': "set ks' = set keys \<union> set (cl_watched (nd_clients (watchForKey c n key) c))"
      "nd_clients (foldl (watchForKey c) (watchForKey c n key) keys) =
        (nd_clients (watchForKey c n key))(c := (nd_clients (watchForKey c n key) c)\<lparr>cl_watched := ks'\<rparr>)" by blast
  show ?case using Cons.IH [OF w(1)] w(2) ks' by (intro conjI exI [of _ ks']) (simp_all add: ks)
next
  case Nil
  then show ?case by (intro conjI exI [of _ "cl_watched (nd_clients n c)"]) simp_all
qed

text \<open>Giving up all keys never fails the assertion.\<close>

lemma unwatchLoop_spec:
  assumes "watch_inv n" "keys = cl_watched (nd_clients n c)"
  shows "\<exists>n'. unwatchLoop c n keys = Some n' \<and> watch_inv n' \<and> nd_server n' = nd_server n \<and>
    nd_clients n' = (nd_clients n)(c := (nd_clients n c)\<lparr>cl_watched := []\<rparr>)"
  using assms
proof (induction keys arbitrary: n)
  case Nil
  then have "(nd_clients n c)\<lparr>cl_watched := []\<rparr> = nd_clients n c" by (cases "nd_clients n c") simp
  then have "nd_clients n = (nd_clients n)(c := (nd_clients n c)\<lparr>cl_watched := []\<rparr>)" by (simp only: fun_upd_triv)
  then show ?case using Nil(1) by (intro exI [of _ n]) (simp only: unwatchLoop.simps simp_thms)
next
  case (Cons key keys)
  have d: "distinct (key # keys)" using watch_invD(3) [OF Cons.prems(1), of c] Cons.prems(2) by simp
  have "watches n c key" using Cons.prems(2) [symmetric] by simp
  then obtain cs where cs: "nd_watched n key = Some cs" "c \<in> set cs" using watch_invD(4) [OF Cons.prems(1)] by blast
  define tab where "tab = (if remove1 c cs = [] then (nd_watched n)(key := None) else (nd_watched n)(key \<mapsto> remove1 c cs))"
  define n1 where "n1 = upd_client c (\<lambda>cl. cl\<lparr>cl_watched := keys\<rparr>) (n\<lparr>nd_watched := tab\<rparr>)"
  have rm: "set (remove1 c cs) = set cs - {c}" using watch_invD(2) [OF Cons.prems(1) cs(1)] by simp
  have "watch_inv n1" unfolding watch_inv_def
  proof (intro conjI allI impI)
    fix k cs' assume "nd_watched n1 k = Some cs'"
    then show "cs' \<noteq> []" "distinct cs'"
      using watch_invD(1,2) [OF Cons.prems(1)] cs(1) by (auto simp: n1_def tab_def split: if_splits)
  next
    fix c' show "distinct (cl_watched (nd_clients n1 c'))" using d watch_invD(3) [OF Cons.prems(1)] by (simp add: n1_def)
  next
    fix c' k
    have t: "(\<exists>cs'. nd_watched n1 k = Some cs' \<and> c' \<in> set cs') \<longleftrightarrow>
        (if k = key then c' \<in> set cs - {c} else \<exists>cs'. nd_watched n k = Some cs' \<and> c' \<in> set cs')"
      unfolding rm [symmetric] by (cases "remove1 c cs = []") (simp_all add: n1_def tab_def)
    show "watches n1 c' k \<longleftrightarrow> (\<exists>cs'. nd_watched n1 k = Some cs' \<and> c' \<in> set cs')"
      unfolding t using watch_invD(4) [OF Cons.prems(1), of k c'] d Cons.prems(2) [symmetric] cs by (auto simp: n1_def)
  qed
  moreover have "keys = cl_watched (nd_clients n1 c)" by (simp add: n1_def)
  ultimately obtain n' where n': "unwatchLoop c n1 keys = Some n'" "watch_inv n'" "nd_server n' = nd_server n1"
      "nd_clients n' = (nd_clients n1)(c := (nd_clients n1 c)\<lparr>cl_watched := []\<rparr>)" using Cons.IH by blast
  have "unwatchLoop c n (key # keys) = Some n'" using cs n'(1) by (simp add: n1_def tab_def Let_def)
  moreover have "nd_clients n' = (nd_clients n)(c := (nd_clients n c)\<lparr>cl_watched := []\<rparr>)" unfolding n'(4) by (simp add: n1_def)
  ultimately show ?case using n'(2,3) by (intro exI [of _ n']) (simp add: n1_def)
qed

lemma unwatchAllKeys_spec:
  "watch_inv n \<Longrightarrow> \<exists>n'. unwatchAllKeys c n = Some n' \<and> watch_inv n' \<and> nd_server n' = nd_server n \<and>
    nd_clients n' = (nd_clients n)(c := (nd_clients n c)\<lparr>cl_watched := []\<rparr>)"
  unfolding unwatchAllKeys_def by (rule unwatchLoop_spec) auto

section \<open>Signals\<close>

text \<open>What a step may do to a client that is not concerned: only mark it dirty.\<close>

definition same_client :: "client \<Rightarrow> client \<Rightarrow> bool" where
  "same_client cl cl' \<longleftrightarrow> cl' = cl\<lparr>cl_dirty_cas := cl_dirty_cas cl'\<rparr>"

lemma same_client_refl [simp]: "same_client cl cl"
  by (simp add: same_client_def)

lemma same_client_trans: "same_client a b \<Longrightarrow> same_client b c \<Longrightarrow> same_client a c"
  unfolding same_client_def by (metis client.surjective client.update_convs(2))

lemma same_client_fields:
  assumes "same_client cl cl'"
  shows "cl_multi cl' = cl_multi cl" "cl_dirty_exec cl' = cl_dirty_exec cl" "cl_commands cl' = cl_commands cl"
    "cl_cmd_flags cl' = cl_cmd_flags cl" "cl_watched cl' = cl_watched cl"
  using assms unfolding same_client_def by (metis client.simps(1-14) client.select_convs client.update_convs(2) client.surjective)+

lemma touch_fold:
  "fold (\<lambda>c. upd_client c (\<lambda>cl. cl\<lparr>cl_dirty_cas := True\<rparr>)) cs n =
     n\<lparr>nd_clients := \<lambda>c. (nd_clients n c)\<lparr>cl_dirty_cas := cl_dirty_cas (nd_clients n c) \<or> c \<in> set cs\<rparr>\<rparr>"
proof (induction cs arbitrary: n)
  case (Cons a cs)
  have "fold (\<lambda>c. upd_client c (\<lambda>cl. cl\<lparr>cl_dirty_cas := True\<rparr>)) (a # cs) n =
      fold (\<lambda>c. upd_client c (\<lambda>cl. cl\<lparr>cl_dirty_cas := True\<rparr>)) cs (upd_client a (\<lambda>cl. cl\<lparr>cl_dirty_cas := True\<rparr>) n)" by simp
  also have "\<dots> = n\<lparr>nd_clients := \<lambda>c. (nd_clients n c)\<lparr>cl_dirty_cas := cl_dirty_cas (nd_clients n c) \<or> c \<in> set (a # cs)\<rparr>\<rparr>"
    unfolding Cons.IH by (simp add: upd_client_def fun_eq_iff)
  finally show ?case .
qed simp

lemma touchWatchedKey_spec:
  assumes "watch_inv n"
  shows "touchWatchedKey key n =
    n\<lparr>nd_clients := \<lambda>c. (nd_clients n c)\<lparr>cl_dirty_cas := cl_dirty_cas (nd_clients n c) \<or> watches n c key\<rparr>\<rparr>"
  using watch_invD(4) [OF assms, of key] by (cases "nd_watched n key") (simp_all add: touchWatchedKey_def touch_fold)

lemma deliver_spec:
  assumes "watch_inv n"
  shows "fold deliver es n =
    n\<lparr>nd_clients := \<lambda>c. (nd_clients n c)\<lparr>cl_dirty_cas := cl_dirty_cas (nd_clients n c) \<or> (\<exists>k. SignalModified k \<in> set es \<and> watches n c k)\<rparr>\<rparr>"
  using assms
proof (induction es arbitrary: n)
  case (Cons e es)
  show ?case
  proof (cases e)
    case (SignalModified key)
    define n1 where "n1 = touchWatchedKey key n"
    have n1: "n1 = n\<lparr>nd_clients := \<lambda>c. (nd_clients n c)\<lparr>cl_dirty_cas := cl_dirty_cas (nd_clients n c) \<or> watches n c key\<rparr>\<rparr>"
      unfolding n1_def by (rule touchWatchedKey_spec [OF Cons.prems])
    have "watch_inv n1" using Cons.prems watch_inv_cong [of n1 n] by (simp add: n1)
    note IH = Cons.IH [OF this]
    have h: "(\<exists>k. SignalModified k \<in> set (e # es) \<and> watches n c k) \<longleftrightarrow>
        watches n c key \<or> (\<exists>k. SignalModified k \<in> set es \<and> watches n c k)" for c using SignalModified by auto
    have "fold deliver (e # es) n = fold deliver es n1" using SignalModified by (simp add: n1_def)
    then show ?thesis unfolding h IH by (simp add: n1 disj_assoc)
  qed (use Cons in auto)
qed simp

text \<open>
  From one node to a later one, a client \<open>w\<close> keeps its watched keys, stays dirty once it is, and
  is dirty if the visible value of one of the keys has changed.
\<close>

definition tracks :: "'a server_config_scheme \<Rightarrow> nat \<Rightarrow> node \<Rightarrow> node \<Rightarrow> bool" where
  "tracks cfg w n n' \<longleftrightarrow>
     (\<forall>k. watches n w k \<longrightarrow> watches n' w k) \<and>
     (cl_dirty_cas (nd_clients n w) \<longrightarrow> cl_dirty_cas (nd_clients n' w)) \<and>
     (\<forall>k. watches n w k \<and> fst (view cfg (nd_server n')) k \<noteq> fst (view cfg (nd_server n)) k \<longrightarrow> cl_dirty_cas (nd_clients n' w))"

lemma tracks_refl [simp]: "tracks cfg w n n"
  by (simp add: tracks_def)

lemma tracks_trans: "tracks cfg w n n' \<Longrightarrow> tracks cfg w n' n'' \<Longrightarrow> tracks cfg w n n''"
  unfolding tracks_def by metis

lemma same_db:
  assumes "db_dict s' = db_dict s" "db_expires s' = db_expires s"
  shows "db_wf cfg s' = db_wf cfg s" "view cfg s' = view cfg s" "limits cfg s' p argv = limits cfg s p argv"
proof -
  have k: "ks_val s' = ks_val s" "ks_exp s' = ks_exp s" using assms by (simp_all add: ks_val_def ks_exp_def)
  then show "db_wf cfg s' = db_wf cfg s" using assms by (simp add: db_wf_def)
  have "expired cfg s' j = expired cfg s j" for j by (simp add: expired_def k)
  then have "live_val cfg s' = live_val cfg s" "live_exp cfg s' = live_exp cfg s"
    by (simp_all add: live_val_def live_exp_def k fun_eq_iff)
  then show "view cfg s' = view cfg s" by (simp add: view_def)
  then show "limits cfg s' p argv = limits cfg s p argv" by (simp only: limits_def k cong: cmd_proc.case_cong)
qed

lemma server_upd [simp]:
  "db_wf cfg (s\<lparr>events := es\<rparr>) = db_wf cfg s" "view cfg (s\<lparr>events := es\<rparr>) = view cfg s"
  "limits cfg (s\<lparr>events := es\<rparr>) p argv = limits cfg s p argv"
  "db_wf cfg (s\<lparr>dirty := d\<rparr>) = db_wf cfg s" "view cfg (s\<lparr>dirty := d\<rparr>) = view cfg s"
  by (rule same_db; simp)+

lemma call_data_spec:
  assumes w: "db_wf cfg (nd_server n)" "watch_inv n" "master_ready cfg" and l: "limits cfg (nd_server n) (proc_of c) argv"
    and c: "c \<in> set redisCommandTable" "arity_ok c argv" "proc_of c \<notin> transaction_procs"
  shows "\<exists>r n'. call_data env cfg c argv n = Some (r, n') \<and> db_wf cfg (nd_server n') \<and> watch_inv n' \<and>
    (\<forall>w. same_client (nd_clients n w) (nd_clients n' w) \<and> tracks cfg w n n')"
proof -
  define s where "s = (nd_server n)\<lparr>events := []\<rparr>"
  have "announces cfg s (call_proc (ce_proc env) cfg s (proc_of c) argv)"
    by (rule call_proc_announces) (use w l c in \<open>simp_all add: s_def\<close>)
  then obtain r s' where s': "call_proc (ce_proc env) cfg s (proc_of c) argv = Some (r, s')" "db_wf cfg s'"
      "\<And>k. fst (view cfg s') k \<noteq> fst (view cfg (nd_server n)) k \<Longrightarrow> SignalModified k \<in> set (events s')"
    by (auto simp: announces_def s_def)
  define n1 where "n1 = n\<lparr>nd_server := s'\<lparr>events := events (nd_server n) @ events s'\<rparr>\<rparr>"
  have n1: "watch_inv n1" "nd_clients n1 = nd_clients n" "view cfg (nd_server n1) = view cfg s'" "db_wf cfg (nd_server n1)"
    using w(2) s'(2) by (simp_all add: n1_def)
  define n2 where "n2 = fold deliver (events s') n1"
  note n2 = deliver_spec [OF n1(1), of "events s'", folded n2_def]
  have "watch_inv n2" using n1(1) watch_inv_cong [of n2 n1] by (simp add: n2)
  moreover have "same_client (nd_clients n w) (nd_clients n2 w)" for w by (simp add: n2 n1 same_client_def)
  moreover have "tracks cfg w n n2" for w using s'(3) by (auto simp: tracks_def n2 n1)
  moreover have "db_wf cfg (nd_server n2)" using n1(4) by (simp add: n2)
  moreover have "call_data env cfg c argv n = Some (r, n2)" using s'(1) by (simp add: call_data_def n2_def n1_def s_def Let_def)
  ultimately show ?thesis by blast
qed

section \<open>Frames\<close>

text \<open>Whatever a command of the data types does, to the clients it only delivers signals.\<close>

lemma call_data_frame:
  assumes "call_data env cfg cmd argv n = Some (r, n')" "watch_inv n"
  shows "watch_inv n'" "nd_watched n' = nd_watched n" "same_client (nd_clients n c) (nd_clients n' c)"
    "cl_watched (nd_clients n c) = [] \<Longrightarrow> nd_clients n' c = nd_clients n c"
proof -
  obtain s' where s': "n' = fold deliver (events s') (n\<lparr>nd_server := s'\<lparr>events := events (nd_server n) @ events s'\<rparr>\<rparr>)"
    using assms(1) by (auto simp: call_data_def Let_def split: Option.bind_split_asm prod.splits)
  define n1 where "n1 = n\<lparr>nd_server := s'\<lparr>events := events (nd_server n) @ events s'\<rparr>\<rparr>"
  have n1: "watch_inv n1" "nd_clients n1 = nd_clients n" "nd_watched n1 = nd_watched n" using assms(2) by (simp_all add: n1_def)
  note d = deliver_spec [OF n1(1), of "events s'", folded s' [folded n1_def]]
  show "nd_watched n' = nd_watched n" by (simp add: d n1)
  show "watch_inv n'" using n1(1) watch_inv_cong [of n' n1] by (simp add: d)
  show "same_client (nd_clients n c) (nd_clients n' c)" by (simp add: d n1 same_client_def)
  show "nd_clients n' c = nd_clients n c" if "cl_watched (nd_clients n c) = []" using that by (simp add: d n1)
qed

section \<open>The invariant of a node\<close>

definition queued_ok :: "multiCmd \<Rightarrow> bool" where
  "queued_ok mc \<longleftrightarrow>
     mc_cmd mc \<in> set redisCommandTable \<and> arity_ok (mc_cmd mc) (mc_argv mc) \<and> proc_of (mc_cmd mc) \<notin> {EXEC, DISCARD, MULTI, WATCH}"

definition queue_inv :: "client \<Rightarrow> bool" where
  "queue_inv cl \<longleftrightarrow>
     list_all queued_ok (cl_commands cl) \<and> cl_cmd_flags cl = (\<Union>mc \<in> set (cl_commands cl). cmd_flags (mc_cmd mc)) \<and>
     (\<not> cl_multi cl \<longrightarrow> cl_commands cl = [] \<and> \<not> cl_dirty_exec cl)"

definition node_inv :: "'a server_config_scheme \<Rightarrow> node \<Rightarrow> bool" where
  "node_inv cfg n \<longleftrightarrow> db_wf cfg (nd_server n) \<and> watch_inv n \<and> (\<forall>c. queue_inv (nd_clients n c))"

lemma node_invD:
  assumes "node_inv cfg n"
  shows "db_wf cfg (nd_server n)" "watch_inv n" "queue_inv (nd_clients n c)"
  using assms by (simp_all add: node_inv_def)

lemma queue_inv_idle: "queue_inv (createClient\<lparr>cl_close_after_reply := b\<rparr>)" "queue_inv createClient"
  by (simp_all add: queue_inv_def createClient_def)

lemma queue_inv_same: "same_client cl cl' \<Longrightarrow> queue_inv cl' = queue_inv cl"
  unfolding queue_inv_def by (simp add: same_client_fields)

text \<open>What a client keeps as long as its transaction is neither run nor given up.\<close>

definition mono_client :: "client \<Rightarrow> client \<Rightarrow> bool" where
  "mono_client cl cl' \<longleftrightarrow>
     set (cl_watched cl) \<subseteq> set (cl_watched cl') \<and> (cl_dirty_cas cl \<longrightarrow> cl_dirty_cas cl') \<and>
     (cl_multi cl \<longrightarrow> cl_multi cl') \<and> (cl_dirty_exec cl \<longrightarrow> cl_dirty_exec cl')"

lemma mono_client_refl [simp]: "mono_client cl cl"
  by (simp add: mono_client_def)

lemma mono_client_trans: "mono_client cl cl' \<Longrightarrow> mono_client cl' cl'' \<Longrightarrow> mono_client cl cl''"
  by (auto simp: mono_client_def)

definition keeps :: "'a server_config_scheme \<Rightarrow> nat \<Rightarrow> node \<Rightarrow> node \<Rightarrow> bool" where
  "keeps cfg w n n' \<longleftrightarrow> mono_client (nd_clients n w) (nd_clients n' w) \<and> tracks cfg w n n'"

lemma keeps_trans: "keeps cfg w n n' \<Longrightarrow> keeps cfg w n' n'' \<Longrightarrow> keeps cfg w n n''"
  unfolding keeps_def by (blast intro: mono_client_trans tracks_trans)

lemma keeps_data: "same_client (nd_clients n w) (nd_clients n' w) \<Longrightarrow> tracks cfg w n n' \<Longrightarrow> keeps cfg w n n'"
  by (simp add: keeps_def mono_client_def same_client_fields) (simp add: tracks_def)

text \<open>A step that leaves the server and the other clients alone.\<close>

definition local_step :: "nat \<Rightarrow> node \<Rightarrow> node \<Rightarrow> bool" where
  "local_step c n n' \<longleftrightarrow>
     nd_server n' = nd_server n \<and> watch_inv n' \<and> (\<forall>w. w \<noteq> c \<longrightarrow> nd_clients n' w = nd_clients n w) \<and> queue_inv (nd_clients n' c)"

lemma local_step_inv: "node_inv cfg n \<Longrightarrow> local_step c n n' \<Longrightarrow> node_inv cfg n'"
  by (auto simp: node_inv_def local_step_def)

lemma local_step_keeps:
  "local_step c n n' \<Longrightarrow> (w = c \<Longrightarrow> mono_client (nd_clients n c) (nd_clients n' c)) \<Longrightarrow> keeps cfg w n n'"
  by (cases "w = c") (auto simp: local_step_def keeps_def tracks_def mono_client_def)

lemma local_upd:
  "node_inv cfg n \<Longrightarrow> cl_watched (f (nd_clients n c)) = cl_watched (nd_clients n c) \<Longrightarrow> queue_inv (f (nd_clients n c)) \<Longrightarrow>
   local_step c n (upd_client c f n)"
  using watch_inv_cong [of "upd_client c f n" n] by (simp add: local_step_def node_inv_def)

lemma discardTransaction_spec:
  assumes "watch_inv n"
  shows "\<exists>n'. discardTransaction c n = Some n' \<and> local_step c n n' \<and>
    nd_clients n' c = createClient\<lparr>cl_close_after_reply := cl_close_after_reply (nd_clients n c)\<rparr>"
proof -
  define n1 where "n1 = upd_client c (\<lambda>cl. (initClientMultiState cl)\<lparr>cl_multi := False, cl_dirty_cas := False, cl_dirty_exec := False\<rparr>) n"
  have "watch_inv n1" using assms by (simp add: n1_def initClientMultiState_def)
  then obtain n' where n': "unwatchAllKeys c n1 = Some n'" "watch_inv n'" "nd_server n' = nd_server n1"
      "nd_clients n' = (nd_clients n1)(c := (nd_clients n1 c)\<lparr>cl_watched := []\<rparr>)" using unwatchAllKeys_spec by blast
  have "nd_clients n' c = createClient\<lparr>cl_close_after_reply := cl_close_after_reply (nd_clients n c)\<rparr>"
    unfolding n'(4) by (simp add: n1_def initClientMultiState_def createClient_def)
  moreover from this have "local_step c n n'"
    unfolding local_step_def using n' by (simp add: queue_inv_idle) (simp add: n1_def)
  ultimately show ?thesis using n'(1) by (auto simp: discardTransaction_def n1_def)
qed

lemma unwatchCommand_spec:
  assumes "node_inv cfg n"
  shows "\<exists>n'. unwatchCommand c n = Some (ROk, n') \<and> local_step c n n' \<and>
    nd_clients n' c = (nd_clients n c)\<lparr>cl_watched := [], cl_dirty_cas := False\<rparr>"
proof -
  obtain n1 where n1: "unwatchAllKeys c n = Some n1" "watch_inv n1" "nd_server n1 = nd_server n"
      "nd_clients n1 = (nd_clients n)(c := (nd_clients n c)\<lparr>cl_watched := []\<rparr>)"
    using unwatchAllKeys_spec [OF node_invD(2) [OF assms]] by blast
  have "queue_inv ((nd_clients n c)\<lparr>cl_watched := [], cl_dirty_cas := False\<rparr>)" using node_invD(3) [OF assms, of c] by (simp add: queue_inv_def)
  then show ?thesis using n1 by (simp add: unwatchCommand_def local_step_def)
qed

section \<open>The loop of EXEC\<close>

definition exec_one :: "conn_env \<Rightarrow> 'a server_config_scheme \<Rightarrow> nat \<Rightarrow> multiCmd \<Rightarrow> node \<Rightarrow> (reply \<times> node) option" where
  "exec_one env cfg c mc n =
     (if ce_acl env (mc_cmd mc) (mc_argv mc) \<noteq> ACL_OK then Some (acl_error, n)
      else call_queued env cfg c (mc_cmd mc) (mc_argv mc) n)"

definition propagates :: "'a server_config_scheme \<Rightarrow> multiCmd \<Rightarrow> bool" where
  "propagates cfg mc \<longleftrightarrow> \<not> loading cfg \<and> cmd_flags (mc_cmd mc) \<inter> {CMD_READONLY, CMD_ADMIN} = {}"

lemma execLoop_eq:
  "execLoop env cfg c mcs mp n = map_option (\<lambda>(rs, n). (rs, mp \<or> list_ex (propagates cfg) mcs, n)) (run_all (exec_one env cfg c) mcs n)"
proof (induction mcs arbitrary: mp n)
  case (Cons mc mcs)
  show ?case
  proof (cases "exec_one env cfg c mc n")
    case None
    then show ?thesis by (auto simp: exec_one_def split: if_splits)
  next
    case (Some p)
    obtain r n1 where p: "p = (r, n1)" by (cases p)
    have "(if ce_acl env (mc_cmd mc) (mc_argv mc) \<noteq> ACL_OK then Some (acl_error, n)
        else call_queued env cfg c (mc_cmd mc) (mc_argv mc) n) = Some (r, n1)" using Some p by (simp add: exec_one_def)
    then show ?thesis
      by (cases "run_all (exec_one env cfg c) mcs n1") (simp_all add: Some p Cons.IH propagates_def Let_def disj_assoc split: prod.splits)
  qed
qed simp

definition exec_ok :: "'a server_config_scheme \<Rightarrow> multiCmd \<Rightarrow> node \<Rightarrow> bool" where
  "exec_ok cfg mc n \<longleftrightarrow> master_ready cfg \<and> queued_ok mc \<and> limits cfg (nd_server n) (proc_of (mc_cmd mc)) (mc_argv mc)"

definition exec_rel :: "'a server_config_scheme \<Rightarrow> nat \<Rightarrow> node \<Rightarrow> node \<Rightarrow> bool" where
  "exec_rel cfg c n n' \<longleftrightarrow>
     (\<forall>w. w \<noteq> c \<longrightarrow> keeps cfg w n n') \<and> cl_close_after_reply (nd_clients n' c) = cl_close_after_reply (nd_clients n c)"

interpretation xl: steps "exec_one env cfg c" "exec_ok cfg" "node_inv cfg" "exec_rel cfg c"
  for env cfg c
proof (unfold_locales, goal_cases)
  case (1 n)
  then show ?case by (simp add: exec_rel_def keeps_def)
next
  case (2 n n' n'')
  then show ?case by (auto simp: exec_rel_def intro: keeps_trans)
next
  case (3 n mc)
  consider "ce_acl env (mc_cmd mc) (mc_argv mc) \<noteq> ACL_OK"
    | "ce_acl env (mc_cmd mc) (mc_argv mc) = ACL_OK" "proc_of (mc_cmd mc) = UNWATCH"
    | "ce_acl env (mc_cmd mc) (mc_argv mc) = ACL_OK" "proc_of (mc_cmd mc) \<noteq> UNWATCH" by blast
  then show ?case
  proof cases
    case 1
    then show ?thesis using 3 by (simp add: exec_one_def exec_rel_def keeps_def)
  next
    case 2
    obtain n' where n': "unwatchCommand c n = Some (ROk, n')" "local_step c n n'"
        "nd_clients n' c = (nd_clients n c)\<lparr>cl_watched := [], cl_dirty_cas := False\<rparr>" using unwatchCommand_spec [OF 3(1)] by blast
    have "keeps cfg w n n'" if "w \<noteq> c" for w using local_step_keeps [OF n'(2)] that by blast
    then have "exec_rel cfg c n n'" using n'(3) by (simp add: exec_rel_def)
    then show ?thesis using n' 2 local_step_inv [OF 3(1)] by (simp add: exec_one_def call_queued_def)
  next
    case d: 3
    have "proc_of (mc_cmd mc) \<notin> transaction_procs" using d 3(2) by (auto simp: exec_ok_def queued_ok_def transaction_procs_def)
    then obtain r n' where n': "call_data env cfg (mc_cmd mc) (mc_argv mc) n = Some (r, n')" "db_wf cfg (nd_server n')" "watch_inv n'"
        "\<And>w. same_client (nd_clients n w) (nd_clients n' w)" "\<And>w. tracks cfg w n n'"
      using call_data_spec [of cfg n "mc_cmd mc" "mc_argv mc" env] 3 node_invD(1,2) [OF 3(1)] by (auto simp: exec_ok_def queued_ok_def)
    have "node_inv cfg n'" using n'(2,3) node_invD(3) [OF 3(1)] queue_inv_same [OF n'(4)] by (simp add: node_inv_def)
    moreover have "cl_close_after_reply (nd_clients n' c) = cl_close_after_reply (nd_clients n c)"
      using n'(4) [of c] unfolding same_client_def by (metis client.select_convs(4) client.surjective client.update_convs(2))
    ultimately show ?thesis using d n' by (simp add: exec_one_def call_queued_def exec_rel_def keeps_data)
  qed
qed

section \<open>EXEC\<close>

definition idle :: "client \<Rightarrow> client" where
  "idle cl = createClient\<lparr>cl_close_after_reply := cl_close_after_reply cl\<rparr>"

lemma queue_inv_idled [simp]: "queue_inv (idle cl)"
  by (simp add: idle_def queue_inv_idle)

text \<open>A transaction that is dirty is given up: nothing is run.\<close>

lemma execCommand_dirty:
  assumes "watch_inv n" "cl_multi (nd_clients n c)" "\<not> ce_lua_timedout env" "cl_dirty_cas (nd_clients n c) \<or> cl_dirty_exec (nd_clients n c)"
  shows "\<exists>n'. execCommand env cfg c n = Some (if cl_dirty_exec (nd_clients n c) then execaborterr else RNull, n') \<and>
    local_step c n n' \<and> nd_clients n' c = idle (nd_clients n c)"
  using discardTransaction_spec [OF assms(1), of c] assms(2-4) by (auto simp: execCommand_def Let_def idle_def)

definition exec_limits :: "conn_env \<Rightarrow> 'a server_config_scheme \<Rightarrow> nat \<Rightarrow> node \<Rightarrow> bool" where
  "exec_limits env cfg c n \<longleftrightarrow>
     (case unwatchAllKeys c n of
        None \<Rightarrow> True
      | Some n1 \<Rightarrow> run_ok (exec_ok cfg) (exec_one env cfg c) (cl_commands (nd_clients n c)) n1)"

lemma unwatched_inv:
  assumes "node_inv cfg n"
  shows "\<exists>n1. unwatchAllKeys c n = Some n1 \<and> local_step c n n1 \<and> nd_clients n1 c = (nd_clients n c)\<lparr>cl_watched := []\<rparr>"
proof -
  obtain n1 where n1: "unwatchAllKeys c n = Some n1" "watch_inv n1" "nd_server n1 = nd_server n"
      "nd_clients n1 = (nd_clients n)(c := (nd_clients n c)\<lparr>cl_watched := []\<rparr>)"
    using unwatchAllKeys_spec [OF node_invD(2) [OF assms]] by blast
  have "queue_inv ((nd_clients n c)\<lparr>cl_watched := []\<rparr>)" using node_invD(3) [OF assms, of c] by (simp add: queue_inv_def)
  then show ?thesis using n1 by (simp add: local_step_def)
qed

lemma count_change:
  fixes n :: node and d :: nat
  defines "n' \<equiv> n\<lparr>nd_server := (nd_server n)\<lparr>dirty := d\<rparr>\<rparr>"
  shows "node_inv cfg n' = node_inv cfg n" "keeps cfg w n1 n' = keeps cfg w n1 n" "nd_clients n' = nd_clients n" "nd_watched n' = nd_watched n"
  by (simp_all add: n'_def node_inv_def keeps_def tracks_def)

text \<open>A transaction that is not dirty is run from the first command to the last.\<close>

lemma execCommand_runs:
  assumes inv: "node_inv cfg n" and multi: "cl_multi (nd_clients n c)" and env: "\<not> ce_lua_timedout env" "\<not> masterhost cfg"
    and clean: "\<not> cl_dirty_cas (nd_clients n c)" "\<not> cl_dirty_exec (nd_clients n c)" and lim: "exec_limits env cfg c n"
  shows "\<exists>n1 rs n2 n'. unwatchAllKeys c n = Some n1 \<and>
      run_all (exec_one env cfg c) (cl_commands (nd_clients n c)) n1 = Some (rs, n2) \<and> length rs = length (cl_commands (nd_clients n c)) \<and>
      execCommand env cfg c n = Some (RArray rs, n') \<and> node_inv cfg n' \<and> view cfg (nd_server n') = view cfg (nd_server n2) \<and>
      nd_clients n' c = idle (nd_clients n c) \<and> (\<forall>w. w \<noteq> c \<longrightarrow> keeps cfg w n n' \<and> nd_clients n' w = nd_clients n2 w)"
proof -
  let ?cl = "nd_clients n c"
  obtain n1 where n1: "unwatchAllKeys c n = Some n1" "local_step c n n1" "nd_clients n1 c = ?cl\<lparr>cl_watched := []\<rparr>" using unwatched_inv [OF inv] by blast
  have i1: "node_inv cfg n1" using inv n1(2) by (rule local_step_inv)
  have "run_ok (exec_ok cfg) (exec_one env cfg c) (cl_commands ?cl) n1" using lim n1(1) by (simp add: exec_limits_def)
  then obtain rs n2 where n2: "run_all (exec_one env cfg c) (cl_commands ?cl) n1 = Some (rs, n2)" "length rs = length (cl_commands ?cl)"
      "node_inv cfg n2" "exec_rel cfg c n1 n2" using xl.run_all_spec [OF i1] by blast
  obtain n3 where n3: "discardTransaction c n2 = Some n3" "local_step c n2 n3"
      "nd_clients n3 c = createClient\<lparr>cl_close_after_reply := cl_close_after_reply (nd_clients n2 c)\<rparr>"
    using discardTransaction_spec [OF node_invD(2) [OF n2(3)]] by blast
  define n' where "n' = (if list_ex (propagates cfg) (cl_commands ?cl) then n3\<lparr>nd_server := (nd_server n3)\<lparr>dirty := dirty (nd_server n3) + 1\<rparr>\<rparr> else n3)"
  have i3: "node_inv cfg n3" using n2(3) n3(2) by (rule local_step_inv)
  have "execCommand env cfg c n = Some (RArray rs, n')"
    using multi env clean n1(1) n2(1) n3(1) by (simp add: execCommand_def Let_def execLoop_eq n'_def)
  moreover have "node_inv cfg n'" using i3 by (simp add: n'_def count_change)
  moreover have "view cfg (nd_server n') = view cfg (nd_server n2)" using n3(2) by (simp add: n'_def local_step_def)
  moreover have "nd_clients n' c = idle ?cl" using n3(3) n2(4) n1(3) by (simp add: n'_def idle_def exec_rel_def)
  moreover have "keeps cfg w n n' \<and> nd_clients n' w = nd_clients n2 w" if "w \<noteq> c" for w
  proof -
    have "keeps cfg w n n1" "keeps cfg w n2 n3" using local_step_keeps [OF n1(2)] local_step_keeps [OF n3(2)] that by blast+
    moreover have "keeps cfg w n1 n2" using n2(4) that by (simp add: exec_rel_def)
    ultimately have "keeps cfg w n n3" by (blast intro: keeps_trans)
    then have "keeps cfg w n n'" by (simp add: n'_def count_change)
    moreover have "nd_clients n' w = nd_clients n2 w" using n3(2) that by (simp add: n'_def local_step_def)
    ultimately show ?thesis ..
  qed
  ultimately show ?thesis using n1(1) n2(1,2) by blast
qed

lemma flagTransaction_step:
  assumes "node_inv cfg n"
  shows "local_step c n (flagTransaction c n)" "mono_client (nd_clients n c) (nd_clients (flagTransaction c n) c)"
    "cl_dirty_exec (nd_clients (flagTransaction c n) c) \<longleftrightarrow> cl_multi (nd_clients n c) \<or> cl_dirty_exec (nd_clients n c)"
    "cl_multi (nd_clients (flagTransaction c n) c) = cl_multi (nd_clients n c)"
proof -
  note q = node_invD(3) [OF assms, of c]
  show "local_step c n (flagTransaction c n)"
    using assms q unfolding flagTransaction_def by (auto intro!: local_upd simp: queue_inv_def) (simp_all add: local_step_def node_inv_def queue_inv_def)
qed (auto simp: flagTransaction_def mono_client_def)

lemma execCommand_spec:
  assumes inv: "node_inv cfg n" and env: "\<not> masterhost cfg" and lim: "exec_limits env cfg c n"
  shows "\<exists>r n'. execCommand env cfg c n = Some (r, n') \<and> node_inv cfg n' \<and> (\<forall>w. w \<noteq> c \<longrightarrow> keeps cfg w n n')"
proof -
  let ?cl = "nd_clients n c"
  consider "\<not> cl_multi ?cl" | "cl_multi ?cl" "ce_lua_timedout env" | "cl_multi ?cl" "\<not> ce_lua_timedout env" "cl_dirty_cas ?cl \<or> cl_dirty_exec ?cl"
    | "cl_multi ?cl" "\<not> ce_lua_timedout env" "\<not> cl_dirty_cas ?cl" "\<not> cl_dirty_exec ?cl" by blast
  then show ?thesis
  proof cases
    case 1
    then show ?thesis using inv by (simp add: execCommand_def keeps_def)
  next
    case 2
    have "keeps cfg w n (flagTransaction c n)" for w by (rule local_step_keeps [OF flagTransaction_step(1) [OF inv]]) (rule flagTransaction_step(2) [OF inv])
    then show ?thesis using 2 local_step_inv [OF inv flagTransaction_step(1) [OF inv]] by (simp add: execCommand_def)
  next
    case 3
    obtain r n' where n': "execCommand env cfg c n = Some (r, n')" "local_step c n n'"
      using execCommand_dirty [OF node_invD(2) [OF inv] 3] by blast
    then show ?thesis using local_step_inv [OF inv n'(2)] local_step_keeps [OF n'(2)] by blast
  next
    case 4
    show ?thesis using execCommand_runs [OF inv 4(1,2) env 4(3,4) lim] by blast
  qed
qed

section \<open>Requests\<close>

lemma lookupCommand_table: "lookupCommand name = Some cmd \<Longrightarrow> cmd \<in> set redisCommandTable"
  by (auto simp: lookupCommand_def find_Some_iff)

lemma queueMultiCommand_step:
  assumes "node_inv cfg n" "cmd \<in> set redisCommandTable" "arity_ok cmd argv" "proc_of cmd \<notin> {EXEC, DISCARD, MULTI, WATCH}" "cl_multi (nd_clients n c)"
  shows "local_step c n (queueMultiCommand c cmd argv n)" "mono_client (nd_clients n c) (nd_clients (queueMultiCommand c cmd argv n) c)"
proof -
  have "queue_inv (nd_clients n c)" "watch_inv n" using assms(1) by (simp_all add: node_invD)
  then show "local_step c n (queueMultiCommand c cmd argv n)"
    using assms by (auto simp: queueMultiCommand_def local_step_def queue_inv_def queued_ok_def)
qed (simp add: queueMultiCommand_def mono_client_def)

lemma multiCommand_step:
  assumes "node_inv cfg n"
  shows "local_step c n (snd (multiCommand c n))" "mono_client (nd_clients n c) (nd_clients (snd (multiCommand c n)) c)"
proof -
  have "queue_inv (nd_clients n c)" "watch_inv n" using assms by (simp_all add: node_invD)
  then show "local_step c n (snd (multiCommand c n))" by (auto simp: multiCommand_def local_step_def queue_inv_def)
qed (simp add: multiCommand_def mono_client_def)

lemma watchCommand_step:
  assumes "node_inv cfg n"
  shows "local_step c n (snd (watchCommand c keys n))" "mono_client (nd_clients n c) (nd_clients (snd (watchCommand c keys n)) c)"
proof -
  have q: "queue_inv (nd_clients n c)" "watch_inv n" using assms by (simp_all add: node_invD)
  obtain ks where ks: "set ks = set keys \<union> set (cl_watched (nd_clients n c))" "watch_inv (foldl (watchForKey c) n keys)"
      "nd_server (foldl (watchForKey c) n keys) = nd_server n"
      "nd_clients (foldl (watchForKey c) n keys) = (nd_clients n)(c := (nd_clients n c)\<lparr>cl_watched := ks\<rparr>)"
    using watchAll_spec [OF q(2)] by blast
  show "local_step c n (snd (watchCommand c keys n))" using q ks(2-) by (auto simp: watchCommand_def local_step_def queue_inv_def)
  show "mono_client (nd_clients n c) (nd_clients (snd (watchCommand c keys n)) c)" using ks(1) by (auto simp: watchCommand_def mono_client_def ks(4))
qed

lemma quit_step:
  "node_inv cfg n \<Longrightarrow> local_step c n (upd_client c (\<lambda>cl. cl\<lparr>cl_close_after_reply := True\<rparr>) n)"
  "mono_client (nd_clients n c) (nd_clients (upd_client c (\<lambda>cl. cl\<lparr>cl_close_after_reply := True\<rparr>) n) c)"
  by (auto simp: local_step_def node_inv_def queue_inv_def mono_client_def)

text \<open>A command that ends a transaction, or gives up the watched keys.\<close>

definition ends_transaction :: "byte list list \<Rightarrow> bool" where
  "ends_transaction argv \<longleftrightarrow>
     (case lookupCommand (hd argv) of None \<Rightarrow> False | Some cmd \<Rightarrow> proc_of cmd \<in> {EXEC, DISCARD, UNWATCH})"

text \<open>
  The bounds of a request: the arguments are not empty, the server is a master that is not loading,
  and every command that the request runs is within its limits.
\<close>

definition request_ok :: "conn_env \<Rightarrow> 'a server_config_scheme \<Rightarrow> nat \<Rightarrow> byte list list \<Rightarrow> node \<Rightarrow> bool" where
  "request_ok env cfg c argv n \<longleftrightarrow>
     argv \<noteq> [] \<and> master_ready cfg \<and>
     (case lookupCommand (hd argv) of
        None \<Rightarrow> True
      | Some cmd \<Rightarrow>
          if proc_of cmd = EXEC then exec_limits env cfg c n
          else cl_multi (nd_clients n c) \<or> limits cfg (nd_server n) (proc_of cmd) argv)"

lemma call_spec:
  assumes inv: "node_inv cfg n" and c: "cmd \<in> set redisCommandTable" "arity_ok cmd argv" and m: "master_ready cfg"
    and lim: "if proc_of cmd = EXEC then exec_limits env cfg c n
      else cl_multi (nd_clients n c) \<and> proc_of cmd \<in> {DISCARD, MULTI, WATCH} \<or> limits cfg (nd_server n) (proc_of cmd) argv"
  shows "\<exists>r n'. call env cfg c cmd argv n = Some (r, n') \<and> node_inv cfg n' \<and>
    (\<forall>w. w = c \<longrightarrow> proc_of cmd \<notin> {EXEC, DISCARD, UNWATCH} \<longrightarrow> keeps cfg w n n') \<and> (\<forall>w. w \<noteq> c \<longrightarrow> keeps cfg w n n')"
proof -
  have own: ?thesis if "call env cfg c cmd argv n = Some (r, n')" "local_step c n n'"
      "proc_of cmd \<notin> {EXEC, DISCARD, UNWATCH} \<Longrightarrow> mono_client (nd_clients n c) (nd_clients n' c)" for r n'
    using that(1) local_step_inv [OF inv that(2)] local_step_keeps [OF that(2)] that(3) by blast
  consider "proc_of cmd = MULTI" | "proc_of cmd = EXEC" | "proc_of cmd = DISCARD" | "proc_of cmd = WATCH" | "proc_of cmd = UNWATCH"
    | "proc_of cmd \<notin> transaction_procs" by (auto simp: transaction_procs_def)
  then show ?thesis
  proof cases
    case 1
    then have "call env cfg c cmd argv n = Some (fst (multiCommand c n), snd (multiCommand c n))" by (simp add: call_def)
    then show ?thesis using multiCommand_step [OF inv] by (rule own)
  next
    case 2
    have "\<not> masterhost cfg" using m by (simp add: master_ready_def)
    then obtain r n' where "execCommand env cfg c n = Some (r, n')" "node_inv cfg n'" "\<forall>w. w \<noteq> c \<longrightarrow> keeps cfg w n n'"
      using execCommand_spec [OF inv, of env c] lim 2 by auto
    then show ?thesis using 2 by (simp add: call_def)
  next
    case 3
    show ?thesis
    proof (cases "cl_multi (nd_clients n c)")
      case True
      obtain n' where "discardTransaction c n = Some n'" "local_step c n n'" using discardTransaction_spec [OF node_invD(2) [OF inv]] by blast
      then show ?thesis using 3 True by (intro own [of ROk n']) (simp_all add: call_def discardCommand_def)
    next
      case False
      then show ?thesis using 3 inv by (simp add: call_def discardCommand_def keeps_def)
    qed
  next
    case 4
    then have "call env cfg c cmd argv n = Some (fst (watchCommand c (drop 1 argv) n), snd (watchCommand c (drop 1 argv) n))" by (simp add: call_def)
    then show ?thesis using watchCommand_step [OF inv] by (rule own)
  next
    case 5
    obtain n' where "unwatchCommand c n = Some (ROk, n')" "local_step c n n'" using unwatchCommand_spec [OF inv] by blast
    then show ?thesis using 5 by (intro own [of ROk n']) (simp_all add: call_def call_queued_def)
  next
    case 6
    then have "limits cfg (nd_server n) (proc_of cmd) argv" using lim by (auto simp: transaction_procs_def)
    then obtain r n' where n': "call_data env cfg cmd argv n = Some (r, n')" "db_wf cfg (nd_server n')" "watch_inv n'"
        "\<And>w. same_client (nd_clients n w) (nd_clients n' w)" "\<And>w. tracks cfg w n n'"
      using call_data_spec [OF node_invD(1,2) [OF inv] m _ c 6, of env] by blast
    have "node_inv cfg n'" using n'(2,3) node_invD(3) [OF inv] queue_inv_same [OF n'(4)] by (simp add: node_inv_def)
    moreover have "call env cfg c cmd argv n = Some (r, n')" using n'(1) 6 by (cases "proc_of cmd") (simp_all add: call_def call_queued_def transaction_procs_def)
    ultimately show ?thesis using keeps_data [OF n'(4,5)] by blast
  qed
qed

text \<open>A request either concerns its client alone or runs a command.\<close>

lemma processCommand_cases:
  assumes inv: "node_inv cfg n"
  obtains (own) r n' where "processCommand env cfg c argv n = Some (r, n')" "local_step c n n'" "mono_client (nd_clients n c) (nd_clients n' c)"
  | (call) cmd where "lookupCommand (hd argv) = Some cmd" "arity_ok cmd argv" "processCommand env cfg c argv n = call env cfg c cmd argv n"
      "cl_multi (nd_clients n c) \<Longrightarrow> proc_of cmd \<in> {EXEC, DISCARD, MULTI, WATCH}"
proof (cases "strcasecmp_eq (hd argv) [113, 117, 105, 116]")
  case True
  then show thesis using own quit_step(1) [OF inv] quit_step(2) by (simp add: processCommand_def)
next
  case nq: False
  have flag: thesis if "processCommand env cfg c argv n = Some (r, if flagged then flagTransaction c n else n)" for r flagged
  proof (cases flagged)
    case False
    have "local_step c n n" using inv by (simp add: local_step_def node_inv_def)
    then show thesis using own that False by simp
  qed (use that own flagTransaction_step(1,2) [OF inv] in simp)
  show thesis
  proof (cases "lookupCommand (hd argv)")
    case None
    then show thesis using flag [of _ True] nq by (simp add: processCommand_def)
  next
    case (Some cmd)
    note p = processCommand_def [of env cfg c argv n, simplified nq Some if_False option.case]
    consider "\<not> arity_ok cmd argv" | r flagged where "arity_ok cmd argv" "refused env cfg (nd_clients n c) cmd argv = Some (r, flagged)"
      | "arity_ok cmd argv" "refused env cfg (nd_clients n c) cmd argv = None" "cl_multi (nd_clients n c)" "proc_of cmd \<notin> {EXEC, DISCARD, MULTI, WATCH}"
      | "arity_ok cmd argv" "refused env cfg (nd_clients n c) cmd argv = None" "cl_multi (nd_clients n c) \<Longrightarrow> proc_of cmd \<in> {EXEC, DISCARD, MULTI, WATCH}"
      by (cases "refused env cfg (nd_clients n c) cmd argv") (fastforce, force)
    then show thesis
    proof cases
      case 1
      then show thesis using flag [of _ True] by (simp add: p)
    next
      case 2
      then show thesis using flag by (simp add: p)
    next
      case 3
      then show thesis using own queueMultiCommand_step [OF inv lookupCommand_table [OF Some] 3(1,4,3)] by (simp add: p)
    next
      case 4
      then have "processCommand env cfg c argv n = call env cfg c cmd argv n" by (auto simp: p)
      then show thesis using call Some 4 by blast
    qed
  qed
qed

lemma processCommand_spec:
  assumes inv: "node_inv cfg n" and ok: "request_ok env cfg c argv n"
  shows "\<exists>r n'. processCommand env cfg c argv n = Some (r, n') \<and> node_inv cfg n' \<and>
    (\<forall>w. w = c \<longrightarrow> \<not> ends_transaction argv \<longrightarrow> keeps cfg w n n') \<and> (\<forall>w. w \<noteq> c \<longrightarrow> keeps cfg w n n')"
proof (rule processCommand_cases [OF inv, of env c argv])
  fix r n' assume o: "processCommand env cfg c argv n = Some (r, n')" "local_step c n n'" "mono_client (nd_clients n c) (nd_clients n' c)"
  then show ?thesis using local_step_inv [OF inv o(2)] local_step_keeps [OF o(2)] by blast
next
  fix cmd assume o: "lookupCommand (hd argv) = Some cmd" "arity_ok cmd argv" "processCommand env cfg c argv n = call env cfg c cmd argv n"
    "cl_multi (nd_clients n c) \<Longrightarrow> proc_of cmd \<in> {EXEC, DISCARD, MULTI, WATCH}"
  have "master_ready cfg" using ok by (simp add: request_ok_def)
  moreover have "if proc_of cmd = EXEC then exec_limits env cfg c n
      else cl_multi (nd_clients n c) \<and> proc_of cmd \<in> {DISCARD, MULTI, WATCH} \<or> limits cfg (nd_server n) (proc_of cmd) argv"
    using ok o(4) by (auto simp: request_ok_def o(1))
  ultimately show ?thesis using call_spec [OF inv lookupCommand_table [OF o(1)] o(2), of env c] by (simp add: ends_transaction_def o(1,3))
qed

end
