(* ===== verification/History.thy ===== *)
theory History
  imports Multi
begin

text \<open>
  What clients can rely on when their requests are interleaved.  A history is a sequence of requests,
  each with the time at which it arrives, and of disconnections.  Every node that a history reaches is
  consistent and answers; a transaction runs only if no step has changed a key it watches and none of
  its commands was refused; and a transaction that runs does the same as its commands sent one by one.
\<close>

section \<open>Histories\<close>

text \<open>A request arrives at a time, which is the reading of the clock for all of its commands; a client may go away.\<close>

datatype input = Request conn_env int nat "byte list list" | Disconnect nat

definition at_time :: "'a server_config_scheme \<Rightarrow> int \<Rightarrow> 'a server_config_scheme" where
  "at_time cfg t = cfg\<lparr>cached_mstime := t, mstime := t\<rparr>"

fun input_cfg :: "'a server_config_scheme \<Rightarrow> input \<Rightarrow> 'a server_config_scheme" where
  "input_cfg cfg (Request env t c argv) = at_time cfg t"
| "input_cfg cfg (Disconnect c) = cfg"

fun step :: "'a server_config_scheme \<Rightarrow> input \<Rightarrow> node \<Rightarrow> (reply option \<times> node) option" where
  "step cfg (Request env t c argv) n = map_option (\<lambda>(r, n). (Some r, n)) (processCommand env (at_time cfg t) c argv n)"
| "step cfg (Disconnect c) n = map_option (Pair None) (freeClient c n)"

fun step_ok :: "'a server_config_scheme \<Rightarrow> input \<Rightarrow> node \<Rightarrow> bool" where
  "step_ok cfg (Request env t c argv) n \<longleftrightarrow> request_ok env (at_time cfg t) c argv n"
| "step_ok cfg (Disconnect c) n \<longleftrightarrow> True"

text \<open>The steps that leave the transaction of a client alone.\<close>

fun stays :: "nat \<Rightarrow> input \<Rightarrow> bool" where
  "stays w (Request env t c argv) \<longleftrightarrow> c \<noteq> w \<or> \<not> ends_transaction argv"
| "stays w (Disconnect c) \<longleftrightarrow> c \<noteq> w"

definition start_node :: "server \<Rightarrow> node" where
  "start_node s = \<lparr>nd_server = s, nd_clients = (\<lambda>_. createClient), nd_watched = Map.empty\<rparr>"

inductive reachable :: "'a server_config_scheme \<Rightarrow> node \<Rightarrow> bool" for cfg where
  start: "db_wf cfg s \<Longrightarrow> reachable cfg (start_node s)"
| more: "reachable cfg n \<Longrightarrow> step_ok cfg i n \<Longrightarrow> step cfg i n = Some (r, n') \<Longrightarrow> reachable cfg n'"

lemma at_time_wf [simp]: "db_wf (at_time cfg t) s = db_wf cfg s"
proof -
  have "obj_wf (at_time cfg t) v = obj_wf cfg v" for v
    by (cases v) (simp_all add: at_time_def set_wf_def setDictType_def split: set_obj.splits)
  then show ?thesis by (simp add: db_wf_def dbDictType_def at_time_def)
qed

lemma at_time_inv [simp]: "node_inv (at_time cfg t) n = node_inv cfg n" "node_inv (input_cfg cfg i) n = node_inv cfg n"
  by (simp add: node_inv_def) (cases i; simp add: node_inv_def)

lemma freeClient_spec:
  assumes "node_inv cfg n"
  shows "\<exists>n'. freeClient c n = Some n' \<and> local_step c n n'"
proof -
  obtain n1 where n1: "unwatchAllKeys c n = Some n1" "local_step c n n1" "nd_clients n1 c = (nd_clients n c)\<lparr>cl_watched := []\<rparr>"
    using unwatched_inv [OF assms] by blast
  have "watch_inv (upd_client c (\<lambda>_. createClient) n1)"
    using n1(2) watch_inv_cong [of "upd_client c (\<lambda>_. createClient) n1" n1] by (simp add: local_step_def n1(3) createClient_def)
  then show ?thesis using n1 by (simp add: freeClient_def local_step_def queue_inv_idle)
qed

lemma node_step:
  assumes "node_inv cfg n" "step_ok cfg i n"
  shows "\<exists>r n'. step cfg i n = Some (r, n') \<and> node_inv cfg n' \<and> (\<forall>w. stays w i \<longrightarrow> keeps (input_cfg cfg i) w n n')"
proof (cases i)
  case (Request env t c argv)
  have "node_inv (at_time cfg t) n" "request_ok env (at_time cfg t) c argv n" using assms by (simp_all add: Request)
  from processCommand_spec [OF this] show ?thesis by (auto simp: Request)
next
  case (Disconnect c)
  obtain n' where n': "freeClient c n = Some n'" "local_step c n n'" using freeClient_spec [OF assms(1)] by blast
  have "keeps cfg w n n'" if "c \<noteq> w" for w using that by (intro local_step_keeps [OF n'(2)]) simp
  then show ?thesis using n' local_step_inv [OF assms(1) n'(2)] by (simp add: Disconnect)
qed

interpretation nd: steps "step cfg" "step_ok cfg" "node_inv cfg" "\<lambda>_ _. True"
  for cfg
  by unfold_locales (use node_step in blast)+

interpretation tr: steps "step cfg" "\<lambda>i n. step_ok cfg i n \<and> stays w i" "node_inv cfg" "\<lambda>n n'. mono_client (nd_clients n w) (nd_clients n' w)"
  for cfg w
proof (unfold_locales, goal_cases)
  case (3 n i)
  then show ?case using node_step [of cfg n i] by (auto simp: keeps_def)
qed (auto intro: mono_client_trans)

lemma reachable_inv: "reachable cfg n \<Longrightarrow> node_inv cfg n"
proof (induction rule: reachable.induct)
  case (start s)
  then show ?case by (simp add: node_inv_def start_node_def watch_inv_def queue_inv_idle) (simp add: createClient_def)
next
  case (more n i r n')
  then show ?case using node_step [OF more.IH more.hyps(2)] by auto
qed

lemma run_ok_stays: "run_ok ok f xs s \<Longrightarrow> list_all P xs \<Longrightarrow> run_ok (\<lambda>x s. ok x s \<and> P x) f xs s"
  by (induction xs arbitrary: s) (auto split: option.splits)

text \<open>
  C39: every node that can be reached is consistent, and every request and every disconnection
  within the limits returns: no assertion fails.
\<close>

theorem reachable_safe:
  assumes "reachable cfg n" "step_ok cfg i n"
  shows "node_inv cfg n \<and> (\<exists>r n'. step cfg i n = Some (r, n') \<and> node_inv cfg n')"
  using node_step [OF reachable_inv [OF assms(1)] assms(2)] reachable_inv [OF assms(1)] by blast

text \<open>
  C3: optimistic locking.  If a client watches a key and some later step of any client, its own
  included, changes the visible value of the key, then EXEC runs nothing: it replies null, or the
  abort error if a command was refused as well.
\<close>

theorem watched_change_aborts:
  assumes "reachable cfg n" "watches n w k" and ok: "run_ok (step_ok cfg) (step cfg) (before @ i # after) n"
    and st: "list_all (stays w) (before @ i # after)"
    and run: "run_all (step cfg) before n = Some (rs, n1)" "step cfg i n1 = Some (r, n2)" "run_all (step cfg) after n2 = Some (rs', n3)"
    and change: "fst (view (input_cfg cfg i) (nd_server n2)) k \<noteq> fst (view (input_cfg cfg i) (nd_server n1)) k"
    and exec: "cl_multi (nd_clients n3 w)" "\<not> ce_lua_timedout env"
  shows "\<exists>n4. execCommand env cfg' w n3 = Some (if cl_dirty_exec (nd_clients n3 w) then execaborterr else RNull, n4) \<and>
    nd_server n4 = nd_server n3 \<and> nd_clients n4 w = idle (nd_clients n3 w) \<and> (\<forall>c. c \<noteq> w \<longrightarrow> nd_clients n4 c = nd_clients n3 c)"
proof -
  have o: "run_ok (step_ok cfg) (step cfg) before n" "step_ok cfg i n1" "run_ok (step_ok cfg) (step cfg) after n2"
    using ok run by (simp_all add: run_ok_append)
  have m1: "node_inv cfg n1" "mono_client (nd_clients n w) (nd_clients n1 w)"
    using tr.run_all_keeps [OF reachable_inv [OF assms(1)] run_ok_stays [OF o(1)] run(1)] st by auto
  then have "watches n1 w k" using assms(2) by (auto simp: mono_client_def)
  moreover have m2: "node_inv cfg n2" "keeps (input_cfg cfg i) w n1 n2" using node_step [OF m1(1) o(2)] run(2) st by auto
  ultimately have "cl_dirty_cas (nd_clients n2 w)" using change by (auto simp: keeps_def tracks_def)
  moreover have m3: "node_inv cfg n3" "mono_client (nd_clients n2 w) (nd_clients n3 w)"
    using tr.run_all_keeps [OF m2(1) run_ok_stays [OF o(3)] run(3)] st by auto
  ultimately have "cl_dirty_cas (nd_clients n3 w)" by (simp add: mono_client_def)
  then show ?thesis using execCommand_dirty [OF node_invD(2) [OF m3(1)] exec, of cfg'] by (auto simp: local_step_def)
qed

section \<open>Errors while queueing\<close>





text \<open>
  An error that does not abort the transaction: a command that arrives while the data set is being
  loaded is refused, and the transaction goes on without it.
\<close>

lemma loading_error_unnoticed:
  assumes "lookupCommand (hd argv) = Some cmd" "arity_ok cmd argv" "CMD_LOADING \<notin> cmd_flags cmd" "\<not> strcasecmp_eq (hd argv) [113, 117, 105, 116]"
    and "loading cfg" "\<not> masterhost cfg"
    and "\<not> ce_auth_required env" "ce_acl env cmd argv = ACL_OK" "\<not> ce_out_of_memory env" "\<not> ce_disk_error env" "\<not> ce_few_replicas env" "\<not> ce_pubsub env"
  shows "processCommand env cfg c argv n = Some (RError ''-LOADING Redis is loading the dataset in memory'', n)"
  using assms by (simp add: processCommand_def refused_def Let_def)

section \<open>A transaction is a sequence of commands\<close>

text \<open>No check of \<open>processCommand\<close> refuses a command.\<close>

definition unrestricted :: "conn_env \<Rightarrow> 'a server_config_scheme \<Rightarrow> bool" where
  "unrestricted env cfg \<longleftrightarrow>
     \<not> ce_auth_required env \<and> ce_acl env = (\<lambda>_ _. ACL_OK) \<and> \<not> ce_out_of_memory env \<and> \<not> ce_disk_error env \<and> \<not> ce_few_replicas env \<and>
     \<not> ce_pubsub env \<and> \<not> ce_lua_timedout env \<and> \<not> masterhost cfg \<and> \<not> loading cfg"

lemma unrestricted_refused: "unrestricted env cfg \<Longrightarrow> refused env cfg cl cmd argv = None"
  by (auto simp: unrestricted_def refused_def Let_def)

lemma process_accepted:
  assumes "unrestricted env cfg" "lookupCommand (hd argv) = Some cmd" "arity_ok cmd argv" "\<not> strcasecmp_eq (hd argv) [113, 117, 105, 116]"
  shows "processCommand env cfg c argv n =
    (if cl_multi (nd_clients n c) \<and> proc_of cmd \<notin> {EXEC, DISCARD, MULTI, WATCH}
     then Some (RStatus ''QUEUED'', queueMultiCommand c cmd argv n) else call env cfg c cmd argv n)"
  unfolding processCommand_def using assms(2-) by (simp only: unrestricted_refused [OF assms(1)] if_False option.case if_True not_True_eq_False)





text \<open>An argument, by its text.\<close>

definition arg :: "string \<Rightarrow> byte list" where
  "arg s = map of_char s"

definition cmd_of :: "byte list list \<Rightarrow> redisCommand" where
  "cmd_of argv = the (lookupCommand (hd argv))"

definition queued :: "byte list list \<Rightarrow> multiCmd" where
  "queued argv = \<lparr>mc_argv = argv, mc_cmd = cmd_of argv\<rparr>"

definition enqueue :: "byte list list list \<Rightarrow> client \<Rightarrow> client" where
  "enqueue argvs cl = cl\<lparr>cl_commands := cl_commands cl @ map queued argvs, cl_cmd_flags := cl_cmd_flags cl \<union> (\<Union>argv \<in> set argvs. cmd_flags (cmd_of argv))\<rparr>"



lemma enqueue_fields [simp]:
  "cl_multi (enqueue argvs cl) = cl_multi cl" "cl_dirty_exec (enqueue argvs cl) = cl_dirty_exec cl" "enqueue [] cl = cl"
  "enqueue argvs (enqueue [argv] cl) = enqueue (argv # argvs) cl"
  by (simp_all add: enqueue_def Un_assoc)

lemma upd_client_upd [simp]: "upd_client c f (upd_client c g n) = upd_client c (\<lambda>cl. f (g cl)) n" "upd_client c (\<lambda>cl. cl) n = n"
  by (simp_all add: upd_client_def)







lemma control_commands:
  assumes "unrestricted env cfg"
  shows "processCommand env cfg c [arg ''multi''] n = Some (multiCommand c n)"
    "processCommand env cfg c [arg ''exec''] n = execCommand env cfg c n"
proof -
  have "lookupCommand (arg ''multi'') = Some (entry ''multi'' MULTI 1 {CMD_LOADING, CMD_STALE})"
    "lookupCommand (arg ''exec'') = Some (entry ''exec'' EXEC 1 {CMD_LOADING, CMD_STALE})"
    "\<not> strcasecmp_eq (arg ''multi'') [113, 117, 105, 116]" "\<not> strcasecmp_eq (arg ''exec'') [113, 117, 105, 116]"
    by code_simp+
  then show "processCommand env cfg c [arg ''multi''] n = Some (multiCommand c n)"
    "processCommand env cfg c [arg ''exec''] n = execCommand env cfg c n"
    using process_accepted [OF assms, of "[arg ''multi'']"] process_accepted [OF assms, of "[arg ''exec'']"]
    by (simp_all add: entry_def arity_ok_def call_def del: list.map)
qed


section \<open>Examples\<close>

definition example_env :: conn_env where
  "example_env = \<lparr>ce_proc = \<lparr>env_refcount = 1, env_addr = 0, env_set_addr = (\<lambda>_. (0, 0)), env_module_name = ''m''\<rparr>,
     ce_auth_required = False, ce_acl = (\<lambda>_ _. ACL_OK), ce_out_of_memory = False, ce_disk_error = False, ce_few_replicas = False,
     ce_pubsub = False, ce_master_down = False, ce_lua_timedout = False\<rparr>"

definition example_start :: node where
  "example_start = start_node example_server"

text \<open>Client 0 has sent MULTI; before that it may have sent WATCH for one key.\<close>

definition example_multi :: node where
  "example_multi = upd_client 0 (\<lambda>cl. cl\<lparr>cl_multi := True\<rparr>) example_start"

definition example_watching :: node where
  "example_watching = watchForKey 0 example_start [97]"

lemma example_time [simp]: "at_time example_cfg 1000 = example_cfg"
  by (simp add: at_time_def example_cfg_def)

lemma example_unrestricted: "unrestricted example_env example_cfg"
  by (simp add: unrestricted_def example_env_def example_facts)

lemma example_lookup:
  "lookupCommand (arg ''multi'') = Some (entry ''multi'' MULTI 1 {CMD_LOADING, CMD_STALE})"
  "lookupCommand (arg ''watch'') = Some (entry ''watch'' WATCH (- 2) {CMD_LOADING, CMD_STALE})"
  "lookupCommand (arg ''get'') = Some (entry ''get'' GET 2 {CMD_READONLY})"
  "lookupCommand (arg ''del'') = Some (entry ''del'' DEL (- 2) {CMD_WRITE})"
  "lookupCommand (arg ''exists'') = Some (entry ''exists'' EXISTS (- 2) {CMD_READONLY})"
  by code_simp+

lemma example_not_quit:
  "\<not> strcasecmp_eq (arg ''multi'') [113, 117, 105, 116]" "\<not> strcasecmp_eq (arg ''watch'') [113, 117, 105, 116]"
  "\<not> strcasecmp_eq (arg ''get'') [113, 117, 105, 116]" "\<not> strcasecmp_eq (arg ''del'') [113, 117, 105, 116]"
  "\<not> strcasecmp_eq (arg ''exists'') [113, 117, 105, 116]"
  by code_simp+

lemma example_lengths: "length (arg ''multi'') = 5" "length (arg ''watch'') = 5" "length (arg ''del'') = 3"
  by (simp_all add: arg_def)

lemma example_limits:
  "limits example_cfg example_server MULTI [arg ''multi'']" "limits example_cfg example_server WATCH [arg ''watch'', [97]]"
  "limits example_cfg example_server DEL [arg ''del'', [97]]"
  by (simp_all add: limits_def example_maps card_insert_if example_lengths)

lemma example_ready: "master_ready example_cfg"
  by (simp add: master_ready_def example_facts)

lemma example_reachable:
  "reachable example_cfg example_start" "reachable example_cfg example_watching" "reachable example_cfg example_multi"
proof -
  show s: "reachable example_cfg example_start" unfolding example_start_def by (rule reachable.start) (rule example_wf)
  have f: "nd_server example_start = example_server" "\<not> cl_multi (nd_clients example_start c)" for c
    by (simp_all add: example_start_def start_node_def createClient_def)
  have "step_ok example_cfg (Request example_env 1000 0 [arg ''watch'', [97]]) example_start"
    by (simp add: request_ok_def example_ready example_lookup entry_def f example_limits)
  moreover have "step example_cfg (Request example_env 1000 0 [arg ''watch'', [97]]) example_start = Some (Some ROk, example_watching)"
    using process_accepted [OF example_unrestricted, of "[arg ''watch'', [97]]"]
    by (simp add: example_lookup example_not_quit entry_def arity_ok_def call_def watchCommand_def f example_watching_def del: list.map)
  ultimately show "reachable example_cfg example_watching" by (rule reachable.more [OF s])
  have "step_ok example_cfg (Request example_env 1000 0 [arg ''multi'']) example_start"
    by (simp add: request_ok_def example_ready example_lookup entry_def f example_limits)
  moreover have "step example_cfg (Request example_env 1000 0 [arg ''multi'']) example_start = Some (Some ROk, example_multi)"
    by (simp add: control_commands [OF example_unrestricted] multiCommand_def f example_multi_def)
  ultimately show "reachable example_cfg example_multi" by (rule reachable.more [OF s])
qed

theorem reachable_safe_witness:
  "\<exists>r n'. step example_cfg (Request example_env 1000 1 [arg ''del'', [97]]) example_watching = Some (r, n') \<and> node_inv example_cfg n'"
proof -
  have "nd_server example_watching = example_server"
    by (simp add: example_watching_def watchForKey_def example_start_def start_node_def Let_def)
  then have "step_ok example_cfg (Request example_env 1000 1 [arg ''del'', [97]]) example_watching"
    by (simp add: request_ok_def example_ready example_lookup entry_def example_limits)
  from reachable_safe [OF example_reachable(2) this] show ?thesis by blast
qed

lemma call_data_Some:
  assumes "call_proc (ce_proc env) cfg ((nd_server n)\<lparr>events := []\<rparr>) (proc_of cmd) argv = Some (r, s')" "watch_inv n"
  shows "\<exists>n'. call_data env cfg cmd argv n = Some (r, n') \<and> db_wf cfg (nd_server n') = db_wf cfg s' \<and> view cfg (nd_server n') = view cfg s'"
proof -
  define n1 where "n1 = n\<lparr>nd_server := s'\<lparr>events := events (nd_server n) @ events s'\<rparr>\<rparr>"
  have "watch_inv n1" using assms(2) by (simp add: n1_def)
  from deliver_spec [OF this, of "events s'"] show ?thesis using assms(1) by (simp add: call_data_def Let_def n1_def)
qed

lemma example_del:
  assumes "db_wf example_cfg (nd_server n)" "watch_inv n"
  shows "\<exists>r n'. call_data example_env example_cfg (entry ''del'' DEL (- 2) {CMD_WRITE}) [arg ''del'', [97]] n = Some (r, n') \<and>
    fst (view example_cfg (nd_server n')) [97] = None"
proof -
  let ?s = "(nd_server n)\<lparr>events := []\<rparr>"
  obtain r s' where s': "delGenericCommand example_cfg False ?s [[97]] = Some (r, s')" "live_val example_cfg s' = live_val example_cfg ?s |` (- {[97]})"
    using delGenericCommand_spec [of example_cfg ?s False "[[97]]"] assms(1) example_facts(1) by auto
  have "\<not> lazyfree_lazy_user_del example_cfg" by (simp add: example_cfg_def)
  then have "call_proc (ce_proc example_env) example_cfg ?s DEL [arg ''del'', [97]] = Some (r, s')"
    using s'(1) by (simp add: call_proc_def args0_rest_def delCommand_def)
  then obtain n' where "call_data example_env example_cfg (entry ''del'' DEL (- 2) {CMD_WRITE}) [arg ''del'', [97]] n = Some (r, n')"
      "view example_cfg (nd_server n') = view example_cfg s'"
    using call_data_Some [of example_env example_cfg n "entry ''del'' DEL (- 2) {CMD_WRITE}" "[arg ''del'', [97]]" r s'] assms(2) by (auto simp: entry_def)
  moreover have "fst (view example_cfg s') [97] = None" by (simp add: view_def s'(2))
  ultimately show ?thesis by simp
qed

theorem watched_change_aborts_witness:
  "\<exists>n1 n2 n3. step example_cfg (Request example_env 1000 0 [arg ''multi'']) example_watching = Some (Some ROk, n1) \<and>
     (\<exists>r. step example_cfg (Request example_env 1000 1 [arg ''del'', [97]]) n1 = Some (r, n2)) \<and>
     execCommand example_env example_cfg 0 n2 = Some (RNull, n3) \<and> nd_server n3 = nd_server n2"
proof -
  define n1 where "n1 = upd_client 0 (\<lambda>cl. cl\<lparr>cl_multi := True\<rparr>) example_watching"
  have w: "watches example_watching 0 [97]" "nd_server example_watching = example_server" "\<not> cl_multi (nd_clients example_watching 0)"
      "\<not> cl_dirty_exec (nd_clients example_watching 0)" "\<not> cl_multi (nd_clients example_watching 1)"
    by (simp_all add: example_watching_def watchForKey_def example_start_def start_node_def Let_def createClient_def)
  have s1: "step example_cfg (Request example_env 1000 0 [arg ''multi'']) example_watching = Some (Some ROk, n1)"
    using w(3) by (simp add: control_commands [OF example_unrestricted] multiCommand_def n1_def)
  have i1: "db_wf example_cfg (nd_server n1)" "watch_inv n1"
    using reachable_inv [OF example_reachable(2)] by (simp_all add: n1_def node_inv_def)
  obtain r n2 where n2: "call_data example_env example_cfg (entry ''del'' DEL (- 2) {CMD_WRITE}) [arg ''del'', [97]] n1 = Some (r, n2)"
      "fst (view example_cfg (nd_server n2)) [97] = None" using example_del [OF i1] by blast
  have s2: "step example_cfg (Request example_env 1000 1 [arg ''del'', [97]]) n1 = Some (Some r, n2)"
    using process_accepted [OF example_unrestricted, of "[arg ''del'', [97]]"] w(5) n2(1)
    by (simp add: example_lookup example_not_quit entry_def arity_ok_def call_def call_queued_def n1_def del: list.map)
  have c2: "cl_multi (nd_clients n2 0)" "\<not> cl_dirty_exec (nd_clients n2 0)"
    using same_client_fields [OF call_data_frame(3) [OF n2(1) i1(2), of 0]] w(4) by (simp_all add: n1_def)
  have "run_ok (step_ok example_cfg) (step example_cfg)
      ([Request example_env 1000 0 [arg ''multi'']] @ Request example_env 1000 1 [arg ''del'', [97]] # []) example_watching"
    using s1 by (simp add: request_ok_def example_ready example_lookup entry_def w(2) example_limits n1_def del: step.simps split: option.splits)
  moreover have "list_all (stays 0) ([Request example_env 1000 0 [arg ''multi'']] @ Request example_env 1000 1 [arg ''del'', [97]] # [])"
    by (simp add: ends_transaction_def example_lookup entry_def)
  moreover have "fst (view example_cfg (nd_server n2)) [97] \<noteq> fst (view example_cfg (nd_server n1)) [97]"
    using n2(2) by (simp add: n1_def w(2) example_view)
  ultimately have "\<exists>n3. execCommand example_env example_cfg 0 n2 = Some (RNull, n3) \<and> nd_server n3 = nd_server n2"
    using watched_change_aborts [OF example_reachable(2) w(1), where i = "Request example_env 1000 1 [arg ''del'', [97]]"
        and before = "[Request example_env 1000 0 [arg ''multi'']]" and after = "[]" and rs = "[Some ROk]" and rs' = "[]" and ?n1.0 = n1 and ?n2.0 = n2 and ?n3.0 = n2
        and r = "Some r" and env = example_env and cfg' = example_cfg] s1 s2 c2
    by (auto simp: example_env_def simp del: step.simps)
  then show ?thesis using s1 s2 by blast
qed



end
