(* ===== verification/Spec2Isabelle.thy ===== *)
theory Spec2Isabelle
  imports Intset DictScan DictIter Numbers Glob SdsText History
begin

text \<open>
  Verification of the storage engine of the NOVA banking service: the Redis server under
  \<open>src/redis-6.0.5/src\<close> (\<open>src/Redis/redis-6.0.5\<close> is a second copy of it).

  \<^bold>\<open>How the parts interact.\<close>  A request is an argument vector.  \<open>processCommand\<close> looks it up in the
  command table, checks it, and queues it for a transaction or calls its procedure.  The procedures
  of the key, string, bit and set commands work on the keyspace, which is a hash table from keys to
  objects beside a table of expire times.  String objects hold dynamic strings or integers; set
  objects hold a sorted integer array or a hash table.  A command that changes a key signals it, and
  the signal marks the transactions that watch the key.

  \<^bold>\<open>The theories.\<close>
  \<^item> \<open>Prelude\<close>: C integer types, byte buffers, shared lemmas.  \<open>Interfaces\<close>: the contracts between
    components as locales (finite sets, keyed stores, finite maps, sequences of steps), interpreted as
    \<open>isl\<close> in \<open>Intset\<close>, \<open>dm\<close> in \<open>Dict\<close>, \<open>so\<close> in \<open>Tset\<close>, \<open>ks\<close> in \<open>KeyCommands\<close>, \<open>xl\<close> in \<open>Multi\<close>, \<open>nd\<close> and \<open>tr\<close> in \<open>History\<close>.
  \<^item> \<open>Intset\<close> (\<open>intset.c\<close>): insertion and deletion keep the array sorted through all encodings.
  \<^item> \<open>Dict\<close>, \<open>DictScan\<close>, \<open>DictIter\<close> (\<open>dict.c\<close>): the two tables with incremental rehashing behave as
    one finite map, a scan that is interrupted by resizing misses no key and ends, an iterator returns
    every entry once.
  \<^item> \<open>Numbers\<close>, \<open>Glob\<close> (\<open>util.c\<close>): parsing and printing of integers, the glob matcher.
  \<^item> \<open>Sds\<close>, \<open>SdsText\<close> (\<open>sds.c\<close>, \<open>sds.h\<close>): headers of five widths, growth, appending and
    formatting, splitting, joining, quoting and its inverse.
  \<^item> \<open>StringObj\<close> (\<open>object.c\<close>), \<open>Tset\<close> (\<open>t_set.c\<close>): objects and their encodings.
  \<^item> \<open>Keyspace\<close>, \<open>KeyCommands\<close> (\<open>db.c\<close>, \<open>lazyfree.c\<close>, \<open>expire.c\<close>): lookups with expiry, stores and
    deletions; DEL, EXISTS, RENAME, EXPIRE, TTL, PERSIST and their variants.
  \<^item> \<open>View\<close>: what a client can see of a keyspace, and refinement: a command \<open>refines\<close> a function on
    views if it returns, keeps the keyspace well-formed and gives the reply and the view of the function.
  \<^item> \<open>SetCommands\<close>, \<open>SetAlgebra\<close> (\<open>t_set.c\<close>), \<open>StringCommands\<close> (\<open>t_string.c\<close>), \<open>Bitops\<close>, \<open>BitCommands\<close>
    (\<open>bitops.c\<close>): the commands, each with a specification on views that it refines.
  \<^item> \<open>Commands\<close> (\<open>server.c\<close>): the command table and the dispatch; every command returns and signals
    every key whose visible value it changes.
  \<^item> \<open>Multi\<close>, \<open>History\<close> (\<open>multi.c\<close>, \<open>server.c\<close>, \<open>networking.c\<close>): transactions, the invariant of a node
    with many clients, and properties of all interleavings of their requests.

  \<^bold>\<open>State and operations.\<close>  A C structure is a record with the fields of the structure, a C function a
  HOL function of the same name that takes and returns the structures it changes.  \<open>None\<close> is a failed
  assertion, an access outside an array or an operation that C leaves undefined; the properties of
  such operations promise a result.  Replication, keyspace notifications and signals are entries of an event log.  The pointer to an
  object of the keyspace is its key.  Fixed-width integers are words, or integers with the wrap-around written
  out.

  \<^bold>\<open>Bounds.\<close>  Sets hold fewer than $2^{28}$ elements and a keyspace at most $2^{60}$ keys, so that the 32-bit
  and 64-bit counters do not overflow; arguments of commands are shorter than $2^{62}$ bytes.  \<open>sdssplitlen\<close> is for strings below $2^{30}$ bytes,
  where its counters of type \<open>int\<close> suffice.  Expire times are those for which the addition of the clock fits 64 bits; what
  happens beyond is stated separately.  \<open>limits\<close> in \<open>Commands\<close> collects these bounds for every command.  Three
  loops have fuel: the walk over a set gets one more than its elements, timed rehashing one more than the buckets of the old
  table, the iterator one more than the entries, and the properties show that this is enough.  A whole scan takes the list of
  the tables its calls find; $2^K$ calls are enough for tables of at most $2^K$ buckets.  All other loops have a
  termination proof.

  \<^bold>\<open>Simplifications.\<close>  One database.  The clock is read once for a request.  \<open>qsort\<close> is a stable sort.  The
  counter of iterators that \<open>dictScan\<close> raises and lowers around its callbacks is left out, as are access times and the
  rewriting of a command for replication.  \<open>n * 10\<close> in \<open>dictRehash\<close> and the position in \<open>redisBitpos\<close> are unbounded.
  Error replies carry the constant part of their text.

  \<^bold>\<open>Not modelled.\<close>  The event loop, sockets and the wire protocol (system calls); persistence, replication, the
  cluster and Sentinel (file formats and distributed protocols); lists, hashes, sorted sets, streams, geographic and
  probabilistic data, whose values are the constructor \<open>ObjOther\<close>; scripting and modules; eviction and allocation,
  which is taken to succeed; access control, whose answer is a parameter, and the hash function, another one; floating-point
  conversions; the commands that choose at random; configuration, diagnostics and the command-line tools; the third-party
  libraries under \<open>deps\<close>; and the Java and JavaScript services, which use the engine over the network only.
\<close>

end
